(* ===== verification/Go_Base.thy ===== *)
theory Go_Base
  imports Main "HOL-Library.AList" "HOL-Library.List_Lexorder" "HOL-Library.Char_ord"
    "HOL-Library.Word" "HOL-Library.Multiset"
begin

text \<open>
  The part of the Go language every component uses: maps, strings, sorting, 64-bit
  integers and time.

  A Go map is a list of key-value pairs with distinct keys (\<open>wf_map\<close>). The order of the
  list stands for the order in which a \<open>range\<close> loop visits the map, which Go leaves
  unspecified; two lists with the same pairs are the same map (\<open>same_map\<close>), and what the
  program computes must not depend on which of them it is given. Reading, writing and
  deleting are \<open>map_of\<close>, \<open>AList.update\<close> and \<open>AList.delete\<close>.

  A Go string is a list of bytes, ordered bytewise as \<open>sort.Strings\<close> orders it. A Go
  \<open>int\<close> is a 64-bit word read as two's complement. An instant is a count of nanoseconds
  since the Unix epoch; the zero \<open>time.Time\<close> is the first of January of year 1.
\<close>

named_theorems gomap "rewriting of map reads, writes and deletes"

section \<open>Maps\<close>

type_synonym ('k, 'v) gomap = "('k \<times> 'v) list"

abbreviation mget :: "('k, 'v) gomap \<Rightarrow> 'k \<Rightarrow> 'v option" where
  "mget m k \<equiv> map_of m k"

abbreviation mput :: "'k \<Rightarrow> 'v \<Rightarrow> ('k, 'v) gomap \<Rightarrow> ('k, 'v) gomap" where
  "mput k v m \<equiv> AList.update k v m"

abbreviation mdel :: "'k \<Rightarrow> ('k, 'v) gomap \<Rightarrow> ('k, 'v) gomap" where
  "mdel k m \<equiv> AList.delete k m"

abbreviation mkeys :: "('k, 'v) gomap \<Rightarrow> 'k list" where
  "mkeys m \<equiv> map fst m"

definition mhas :: "('k, 'v) gomap \<Rightarrow> 'k \<Rightarrow> bool" where
  "mhas m k \<longleftrightarrow> map_of m k \<noteq> None"

text \<open>Reading an absent key yields the zero value of the element type.\<close>

definition mget_or :: "'v \<Rightarrow> ('k, 'v) gomap \<Rightarrow> 'k \<Rightarrow> 'v" where
  "mget_or z m k = (case map_of m k of None \<Rightarrow> z | Some v \<Rightarrow> v)"

definition wf_map :: "('k, 'v) gomap \<Rightarrow> bool" where
  "wf_map m \<longleftrightarrow> distinct (map fst m)"

definition same_map :: "('k, 'v) gomap \<Rightarrow> ('k, 'v) gomap \<Rightarrow> bool" where
  "same_map m m' \<longleftrightarrow> wf_map m \<and> wf_map m' \<and> set m = set m'"

lemma wf_map_Nil [simp, intro]: "wf_map []"
  by (simp add: wf_map_def)

lemma wf_map_Cons [simp]: "wf_map ((k, v) # m) \<longleftrightarrow> k \<notin> fst ` set m \<and> wf_map m"
  by (auto simp: wf_map_def)

lemma mget_mput [simp]: "mget (mput k v m) k' = (if k' = k then Some v else mget m k')"
  by (simp add: update_conv')

lemma mget_mdel [simp]: "mget (mdel k m) k' = (if k' = k then None else mget m k')"
  by (simp add: delete_conv')

lemma mget_or_simps [simp]:
  "mget_or z [] k = z"
  "mget_or z (mput k' v m) k = (if k = k' then v else mget_or z m k)"
  "mget_or z (mdel k' m) k = (if k = k' then z else mget_or z m k)"
  by (simp_all add: mget_or_def)

lemma wf_map_mput [simp, intro]: "wf_map m \<Longrightarrow> wf_map (mput k v m)"
  by (simp add: wf_map_def distinct_update)

lemma wf_map_mdel [simp, intro]: "wf_map m \<Longrightarrow> wf_map (mdel k m)"
  by (simp add: wf_map_def distinct_delete)

lemma mhas_simps [simp]:
  "\<not> mhas [] k"
  "mhas ((k', v) # m) k \<longleftrightarrow> k = k' \<or> mhas m k"
  "mhas (mput k' v m) k \<longleftrightarrow> k = k' \<or> mhas m k"
  "mhas (mdel k' m) k \<longleftrightarrow> k \<noteq> k' \<and> mhas m k"
  by (auto simp: mhas_def)

lemma mhas_iff_key: "mhas m k \<longleftrightarrow> k \<in> fst ` set m"
  by (simp add: mhas_def map_of_eq_None_iff)

lemma mget_SomeD: "mget m k = Some v \<Longrightarrow> (k, v) \<in> set m"
  by (rule map_of_SomeD)

lemma mget_iff: "wf_map m \<Longrightarrow> mget m k = Some v \<longleftrightarrow> (k, v) \<in> set m"
  by (auto simp: wf_map_def dest: map_of_SomeD)

lemma wf_map_filter: "wf_map m \<Longrightarrow> wf_map (filter P m)"
  by (simp add: wf_map_def distinct_map_filter)

lemma mget_filter:
  "wf_map m \<Longrightarrow> mget (filter P m) k = (case mget m k of None \<Rightarrow> None | Some v \<Rightarrow> if P (k, v) then Some v else None)"
proof (induction m)
  case (Cons kv m)
  obtain k' v where kv: "kv = (k', v)" by (cases kv)
  from Cons.prems kv have k': "k' \<notin> fst ` set m" and wf: "wf_map m" by simp_all
  then have none: "mget m k' = None" by (simp add: map_of_eq_None_iff)
  show ?case
    using Cons.IH [OF wf] by (cases "k = k'") (simp_all add: kv none split: option.splits)
qed simp

lemma same_map_refl: "wf_map m \<Longrightarrow> same_map m m"
  by (simp add: same_map_def)

lemma same_map_sym: "same_map m m' \<Longrightarrow> same_map m' m"
  by (simp add: same_map_def)

lemma same_map_wf: "same_map m m' \<Longrightarrow> wf_map m" "same_map m m' \<Longrightarrow> wf_map m'"
  by (simp_all add: same_map_def)

lemma same_map_mget: "same_map m m' \<Longrightarrow> mget m = mget m'"
proof (rule ext)
  fix k assume s: "same_map m m'"
  have "\<And>v. mget m k = Some v \<longleftrightarrow> mget m' k = Some v"
    using s by (simp add: same_map_def mget_iff)
  then show "mget m k = mget m' k" by (metis not_Some_eq)
qed

lemma same_mapI: "wf_map m \<Longrightarrow> wf_map m' \<Longrightarrow> mget m = mget m' \<Longrightarrow> same_map m m'"
  unfolding same_map_def by (metis mget_iff subrelI subset_antisym)

lemma same_map_iff: "same_map m m' \<longleftrightarrow> wf_map m \<and> wf_map m' \<and> mget m = mget m'"
proof
  assume "same_map m m'"
  then show "wf_map m \<and> wf_map m' \<and> mget m = mget m'"
    by (simp add: same_map_mget same_map_wf)
next
  assume "wf_map m \<and> wf_map m' \<and> mget m = mget m'"
  then show "same_map m m'" by (elim conjE) (rule same_mapI)
qed

lemma same_map_length: "same_map m m' \<Longrightarrow> length m = length m'"
  by (metis distinct_card distinct_map same_map_def wf_map_def)

lemma same_map_keys_sorted:
  fixes m :: "('k :: linorder, 'v) gomap"
  assumes "same_map m m'"
  shows "sort (mkeys m) = sort (mkeys m')"
proof -
  have "set (mkeys m) = set (mkeys m')" using assms by (simp add: same_map_def)
  moreover have "distinct (mkeys m)" "distinct (mkeys m')"
    using assms by (simp_all add: same_map_def wf_map_def)
  ultimately have "mset (mkeys m) = mset (mkeys m')"
    using set_eq_iff_mset_eq_distinct by blast
  then show ?thesis by (metis sorted_sort mset_sort properties_for_sort)
qed

lemma mput_fresh: "k \<notin> fst ` set m \<Longrightarrow> mput k v m = m @ [(k, v)]"
  by (induction m) auto

lemma foldl_mput_fresh:
  "wf_map (out @ m) \<Longrightarrow> foldl (\<lambda>out (k, v). mput k v out) out m = out @ m"
proof (induction m arbitrary: out)
  case (Cons kv m)
  obtain k v where kv: "kv = (k, v)" by (cases kv)
  with Cons.prems have "k \<notin> fst ` set out" by (auto simp: wf_map_def)
  then have "mput k v out = out @ [kv]" by (simp add: mput_fresh kv)
  with Cons kv show ?case by simp
qed simp

lemma sort_key_map_value:
  "sort_key fst (map (\<lambda>(k, v). (k, f v)) m) = map (\<lambda>(k, v). (k, f v)) (sort_key fst m)"
proof -
  have ins: "insort_key fst (k, f v) (map (\<lambda>(k, v). (k, f v)) m) = map (\<lambda>(k, v). (k, f v)) (insort_key fst (k, v) m)"
    for k :: "'k :: linorder" and v m by (induction m) auto
  show ?thesis by (induction m) (auto simp: ins)
qed

lemma sort_key_sorted: "sorted (map f xs) \<Longrightarrow> sort_key f xs = xs"
  by (induction xs) (simp_all add: insort_is_Cons)

lemma same_map_sort: "wf_map m \<Longrightarrow> same_map (sort_key fst m) m"
proof -
  have "mset (map fst (sort_key fst m)) = mset (map fst m)" by simp
  then have "distinct (map fst (sort_key fst m)) = distinct (map fst m)"
    by (rule mset_eq_imp_distinct_iff)
  then show "wf_map m \<Longrightarrow> same_map (sort_key fst m) m" by (simp add: same_map_def wf_map_def)
qed

lemma mget_map_value: "mget (map (\<lambda>(k, v). (k, f v)) m) k = map_option f (mget m k)"
  by (induction m) auto

lemma those_iff: "those xs = Some ys \<longleftrightarrow> xs = map Some ys"
  by (induction xs arbitrary: ys) (auto split: option.splits simp: Cons_eq_map_conv)

lemmas gomap_read [gomap] = mget_mput mget_mdel mget_or_simps wf_map_mput wf_map_mdel mhas_simps

section \<open>Integers\<close>

type_synonym goint = "64 word"

definition int_less :: "goint \<Rightarrow> goint \<Rightarrow> bool" where
  "int_less a b \<longleftrightarrow> sint a < sint b"

definition int_le :: "goint \<Rightarrow> goint \<Rightarrow> bool" where
  "int_le a b \<longleftrightarrow> sint a \<le> sint b"

section \<open>Time\<close>

type_synonym gotime = int
type_synonym duration = int

definition second :: duration where
  "second = 1000000000"

definition zero_time :: gotime where
  "zero_time = -62135596800000000000"

text \<open>\<open>Time.Sub\<close> saturates at the ends of the 64-bit duration range.\<close>

definition time_sub :: "gotime \<Rightarrow> gotime \<Rightarrow> duration" where
  "time_sub t u = max (-9223372036854775808) (min 9223372036854775807 (t - u))"

lemma time_sub_mono: "t \<le> t' \<Longrightarrow> time_sub t u \<le> time_sub t' u"
  by (simp add: time_sub_def)

lemma time_sub_self [simp]: "time_sub t t = 0"
  by (simp add: time_sub_def)

lemma time_sub_gt:
  "0 \<le> d \<Longrightarrow> d < 9223372036854775807 \<Longrightarrow> d < time_sub t u \<longleftrightarrow> d < t - u"
  by (auto simp: time_sub_def)

section \<open>Strings\<close>

text \<open>\<open>strings.Cut\<close> with a one-byte separator.\<close>

fun str_cut :: "char \<Rightarrow> string \<Rightarrow> string \<times> string \<times> bool" where
  "str_cut c [] = ([], [], False)"
| "str_cut c (x # xs) =
     (if x = c then ([], xs, True)
      else (case str_cut c xs of (b, a, found) \<Rightarrow> (x # b, a, found)))"

lemma cut_not_found: "c \<notin> set s \<Longrightarrow> str_cut c s = (s, [], False)"
  by (induction s) auto

lemma cut_found: "c \<notin> set b \<Longrightarrow> str_cut c (b @ c # a) = (b, a, True)"
  by (induction b) auto

text \<open>\<open>strings.TrimSpace\<close> and \<open>bytes.TrimSpace\<close> on ASCII text.\<close>

definition is_space :: "char \<Rightarrow> bool" where
  "is_space c \<longleftrightarrow> c \<in> {CHR 0x09, CHR 0x0A, CHR 0x0B, CHR 0x0C, CHR 0x0D, CHR '' ''}"

definition trim_space :: "string \<Rightarrow> string" where
  "trim_space s = rev (dropWhile is_space (rev (dropWhile is_space s)))"

text \<open>Whether a string holds a byte, as the index loops of the source ask it.\<close>

definition has_byte :: "char \<Rightarrow> string \<Rightarrow> bool" where
  "has_byte c s \<longleftrightarrow> c \<in> set s"

end
