(* ===== verification/Go_Float.thy ===== *)
theory Go_Float
  imports Go_Base Complex_Main
begin

text \<open>
  IEEE 754 double precision, the \<open>float64\<close> of Go: round to nearest with ties to even, 53
  significant bits, subnormal numbers, overflow to infinity, and NaN. Signed zeros are
  identified, which only a division by zero or the printing of a zero could tell apart.
  A finite value is the rational number it stands for, and the type holds exactly the
  representable ones. The lemmas show that rounding and addition are monotone and that
  adding a non-negative cost never decreases a value: what the shortest-path proof needs.
\<close>

section \<open>Rounding of rationals\<close>

function bit_log :: "int \<Rightarrow> int" where
  "bit_log n = (if n < 2 then 0 else 1 + bit_log (n div 2))"
  by pat_completeness auto
termination
  by (relation "measure nat") auto

declare bit_log.simps [simp del]

lemma bit_log_bounds:
  "1 \<le> n \<Longrightarrow> 0 \<le> bit_log n \<and> (2::int) ^ nat (bit_log n) \<le> n \<and> n < 2 ^ (nat (bit_log n) + 1)"
proof (induction n rule: bit_log.induct)
  case (1 n)
  show ?case
  proof (cases "n < 2")
    case True
    with "1.prems" show ?thesis by (simp add: bit_log.simps [of n])
  next
    case False
    let ?l = "bit_log (n div 2)"
    from False "1.IH" have ih: "0 \<le> ?l" "2 ^ nat ?l \<le> n div 2" "n div 2 < 2 ^ (nat ?l + 1)"
      by auto
    have eq: "bit_log n = 1 + ?l" using False by (simp add: bit_log.simps [of n])
    have nat: "nat (1 + ?l) = Suc (nat ?l)" using ih(1) by simp
    have "2 * 2 ^ nat ?l \<le> n" using ih(2) by linarith
    moreover have "n < 2 * 2 ^ (nat ?l + 1)" using ih(3) by linarith
    ultimately show ?thesis using ih(1) by (simp add: eq nat)
  qed
qed

text \<open>The exponent of a positive rational: the largest power of two below it.\<close>

definition exponent :: "rat \<Rightarrow> int" where
  "exponent q =
     (let (n, d) = quotient_of q; e = bit_log n - bit_log d
      in if q < 2 powi e then e - 1 else e)"

lemma powi_add_one: "(2::rat) powi (e + 1) = 2 * 2 powi e"
  by (simp add: power_int_add)

lemma powi_pos [simp]: "0 < (2::rat) powi e"
  by (simp add: zero_less_power_int)

lemma powi_nat: "0 \<le> e \<Longrightarrow> (2::rat) powi e = of_int (2 ^ nat e)"
  by (simp add: power_int_def)

lemma powi_mono: "e \<le> f \<Longrightarrow> (2::rat) powi e \<le> 2 powi f"
  by (rule power_int_increasing) simp_all

lemma powi_less_iff: "(2::rat) powi e < 2 powi f \<longleftrightarrow> e < f"
  by (metis linorder_not_less not_less_iff_gr_or_eq one_less_numeral_iff
      power_int_strict_increasing powi_mono semiring_norm(76))

lemma powi_diff_int: "f \<le> e \<Longrightarrow> (2::rat) powi e / 2 powi f = of_int (2 ^ nat (e - f))"
  by (simp add: power_int_diff [symmetric] powi_nat)

lemma exponent_bounds:
  assumes "0 < q"
  shows "2 powi exponent q \<le> q" and "q < 2 powi (exponent q + 1)"
proof -
  obtain n d where nd: "quotient_of q = (n, d)" by (cases "quotient_of q")
  have d: "1 \<le> d" using quotient_of_denom_pos [OF nd] by simp
  have q: "q = of_int n / of_int d" using quotient_of_div [OF nd] .
  with assms d have n: "1 \<le> n" by (simp add: zero_less_divide_iff)
  let ?a = "bit_log n" and ?b = "bit_log d"
  note a = bit_log_bounds [OF n] and b = bit_log_bounds [OF d]
  have an: "(2::rat) powi ?a \<le> of_int n" "of_int n < 2 * (2::rat) powi ?a"
    using a by (simp_all add: powi_nat flip: of_int_le_iff of_int_less_iff [where 'a = rat])
  have bd: "(2::rat) powi ?b \<le> of_int d" "of_int d < 2 * (2::rat) powi ?b"
    using b by (simp_all add: powi_nat flip: of_int_le_iff of_int_less_iff [where 'a = rat])
  have dpos: "(0::rat) < of_int d" using d by simp
  let ?x = "(2::rat) powi (?a - ?b - 1)" and ?B = "(2::rat) powi ?b"
  have e0: "(2::rat) powi (?a - ?b) = 2 * ?x"
    using powi_add_one [of "?a - ?b - 1"] by simp
  have e1: "(2::rat) powi (?a - ?b + 1) = 4 * ?x"
    using e0 powi_add_one [of "?a - ?b"] by simp
  have ea: "(2::rat) powi ?a = 2 * ?x * ?B"
    by (simp add: e0 [symmetric] power_int_add [symmetric])
  have "of_int n < 4 * (?x * ?B)" using an(2) by (simp add: ea)
  also have "\<dots> \<le> 4 * (?x * of_int d)" using bd(1) by simp
  finally have "q < 4 * ?x"
    using dpos by (simp add: q divide_less_eq mult.assoc)
  then have up: "q < 2 powi (?a - ?b + 1)" by (simp only: e1)
  have "?x * of_int d \<le> ?x * (2 * ?B)" using bd(2) by simp
  also have "\<dots> \<le> of_int n" using an(1) by (simp add: ea algebra_simps)
  finally have lo: "?x \<le> q" using dpos by (simp add: q le_divide_eq)
  show "2 powi exponent q \<le> q" and "q < 2 powi (exponent q + 1)"
    using up lo by (auto simp: exponent_def nd Let_def)
qed


lemma exponent_unique:
  assumes "2 powi e \<le> q" and "q < 2 powi (e + 1)"
  shows "exponent q = e"
proof -
  from assms(1) powi_pos [of e] have q: "0 < q" by linarith
  have "(2::rat) powi e < 2 powi (exponent q + 1)" "(2::rat) powi exponent q < 2 powi (e + 1)"
    using exponent_bounds [OF q] assms by linarith+
  then show ?thesis by (simp add: powi_less_iff)
qed

lemma exponent_mono:
  assumes "0 < p" and "p \<le> q"
  shows "exponent p \<le> exponent q"
proof -
  have "(2::rat) powi exponent p < 2 powi (exponent q + 1)"
    using exponent_bounds [OF assms(1)] exponent_bounds [of q] assms by linarith
  then show ?thesis by (simp add: powi_less_iff)
qed

text \<open>Round half to even.\<close>

definition round_even :: "rat \<Rightarrow> int" where
  "round_even x =
     (let f = \<lfloor>x\<rfloor>; d = x - of_int f
      in if d < 1/2 then f else if 1/2 < d then f + 1 else if even f then f else f + 1)"

lemma round_even_of_int [simp]: "round_even (of_int k) = k"
  by (simp add: round_even_def)

lemma round_even_floor: "\<lfloor>x\<rfloor> \<le> round_even x" "round_even x \<le> \<lfloor>x\<rfloor> + 1"
  by (simp_all add: round_even_def Let_def)

lemma round_even_mono:
  assumes "x \<le> y"
  shows "round_even x \<le> round_even y"
proof (cases "\<lfloor>x\<rfloor> = \<lfloor>y\<rfloor>")
  case True
  with assms show ?thesis by (auto simp: round_even_def Let_def)
next
  case False
  with floor_mono [OF assms] have "\<lfloor>x\<rfloor> + 1 \<le> \<lfloor>y\<rfloor>" by simp
  then show ?thesis using round_even_floor [of x] round_even_floor [of y] by linarith
qed

lemma round_even_le: "x \<le> of_int k \<Longrightarrow> round_even x \<le> k"
  using round_even_mono [of x "of_int k"] by simp

lemma round_even_ge: "of_int k \<le> x \<Longrightarrow> k \<le> round_even x"
  using round_even_mono [of "of_int k" x] by simp

text \<open>
  The spacing of the doubles around a positive rational: 52 bits below its exponent, and
  never finer than the smallest subnormal.
\<close>

definition spacing :: "rat \<Rightarrow> int" where
  "spacing q = max (exponent q - 52) (-1074)"

definition round_pos :: "rat \<Rightarrow> rat" where
  "round_pos q = of_int (round_even (q / 2 powi spacing q)) * 2 powi spacing q"

lemma round_pos_nonneg: "0 < q \<Longrightarrow> 0 \<le> round_pos q"
  by (simp add: round_pos_def round_even_ge [of 0, simplified])

lemma round_pos_le_power:
  assumes "spacing q \<le> e" and "q \<le> 2 powi e"
  shows "round_pos q \<le> 2 powi e"
proof -
  let ?E = "(2::rat) powi spacing q"
  from assms(2) have "q / ?E \<le> 2 powi e / ?E" by (simp add: divide_right_mono)
  also have "\<dots> = of_int (2 ^ nat (e - spacing q))" by (rule powi_diff_int [OF assms(1)])
  finally have "round_even (q / ?E) \<le> 2 ^ nat (e - spacing q)" by (rule round_even_le)
  then have "of_int (round_even (q / ?E)) \<le> (of_int (2 ^ nat (e - spacing q)) :: rat)"
    by (rule of_int_le_iff [THEN iffD2])
  also have "\<dots> = 2 powi e / ?E" by (rule powi_diff_int [OF assms(1), symmetric])
  finally have "of_int (round_even (q / ?E)) \<le> (2::rat) powi e / ?E" .
  then show ?thesis by (simp add: round_pos_def le_divide_eq)
qed

lemma round_pos_ge_power:
  assumes "spacing q \<le> e" and "2 powi e \<le> q"
  shows "2 powi e \<le> round_pos q"
proof -
  let ?E = "(2::rat) powi spacing q"
  have "of_int (2 ^ nat (e - spacing q)) = (2::rat) powi e / ?E"
    by (rule powi_diff_int [OF assms(1), symmetric])
  also from assms(2) have "\<dots> \<le> q / ?E" by (simp add: divide_right_mono)
  finally have "2 ^ nat (e - spacing q) \<le> round_even (q / ?E)" by (rule round_even_ge)
  then have "(of_int (2 ^ nat (e - spacing q)) :: rat) \<le> of_int (round_even (q / ?E))"
    by (rule of_int_le_iff [THEN iffD2])
  then have "(2::rat) powi e / ?E \<le> of_int (round_even (q / ?E))"
    by (simp only: powi_diff_int [OF assms(1)])
  then show ?thesis by (simp add: round_pos_def divide_le_eq)
qed

lemma round_pos_mono:
  assumes p: "0 < p" and pq: "p \<le> q"
  shows "round_pos p \<le> round_pos q"
proof (cases "spacing p = spacing q")
  case True
  have "round_even (p / 2 powi spacing q) \<le> round_even (q / 2 powi spacing q)"
    by (rule round_even_mono) (simp add: divide_right_mono pq)
  then show ?thesis by (simp add: round_pos_def True)
next
  case False
  note em = exponent_mono [OF p pq]
  with False have sp: "spacing p < spacing q" by (auto simp: spacing_def)
  then have sq: "spacing q = exponent q - 52" and le: "spacing p \<le> exponent q"
    and lt: "exponent p < exponent q"
    by (auto simp: spacing_def split: if_splits)
  have "p < 2 powi (exponent p + 1)" using exponent_bounds [OF p] by simp
  also have "\<dots> \<le> 2 powi exponent q" by (rule powi_mono) (use lt in simp)
  finally have "round_pos p \<le> 2 powi exponent q"
    using le by (intro round_pos_le_power) simp_all
  also have "\<dots> \<le> round_pos q"
    using sq exponent_bounds [of q] p pq by (intro round_pos_ge_power) simp_all
  finally show ?thesis .
qed

text \<open>A rational on its own grid is not changed by rounding.\<close>

lemma round_pos_on_grid:
  assumes "q = of_int k * 2 powi spacing q"
  shows "round_pos q = q"
proof -
  have "q / 2 powi spacing q = of_int k" using assms by (simp add: divide_eq_eq)
  then show ?thesis using assms by (simp add: round_pos_def)
qed

lemma grid_refine:
  assumes "f \<le> e"
  shows "\<exists>m. of_int k * (2::rat) powi e = of_int m * 2 powi f"
proof -
  have "(2::rat) powi e = of_int (2 ^ nat (e - f)) * 2 powi f"
    using powi_diff_int [OF assms] by (simp add: divide_eq_eq)
  then have "of_int k * (2::rat) powi e = of_int (k * 2 ^ nat (e - f)) * 2 powi f"
    by simp
  then show ?thesis by blast
qed

lemma round_pos_idem:
  assumes q: "0 < q" and r: "0 < round_pos q"
  shows "round_pos (round_pos q) = round_pos q"
proof -
  let ?r = "round_pos q" and ?E = "spacing q"
  obtain k where k: "?r = of_int k * 2 powi ?E" by (simp add: round_pos_def)
  have ex: "exponent q + 1 \<le> ?E + 53" by (simp add: spacing_def)
  have "q \<le> 2 powi (?E + 53)"
    using exponent_bounds(2) [OF q] powi_mono [OF ex] by linarith
  then have top: "?r \<le> 2 powi (?E + 53)" by (intro round_pos_le_power) simp_all
  have "spacing ?r \<le> ?E \<or> ?r = 2 powi (?E + 53)"
  proof (rule disjCI)
    assume "?r \<noteq> 2 powi (?E + 53)"
    with top have "?r < 2 powi (?E + 53)" by simp
    with exponent_bounds(1) [OF r] have "(2::rat) powi exponent ?r < 2 powi (?E + 53)" by linarith
    then have "exponent ?r < ?E + 53" by (simp add: powi_less_iff)
    moreover have "-1074 \<le> ?E" by (simp add: spacing_def)
    ultimately show "spacing ?r \<le> ?E" by (simp add: spacing_def)
  qed
  then have "\<exists>m. ?r = of_int m * 2 powi spacing ?r"
  proof
    assume "spacing ?r \<le> ?E"
    then show ?thesis using grid_refine [of "spacing ?r" ?E k] k by simp
  next
    assume eq: "?r = 2 powi (?E + 53)"
    have "exponent ?r = ?E + 53" by (rule exponent_unique) (simp_all add: eq powi_add_one powi_mono powi_less_iff)
    then have "spacing ?r \<le> ?E + 53" by (simp add: spacing_def)
    then show ?thesis using grid_refine [of "spacing ?r" "?E + 53" 1] eq by simp
  qed
  then show ?thesis using round_pos_on_grid by blast
qed

section \<open>The values and the operations\<close>

datatype ieee = NaN | NegInf | Fin rat | PosInf

fun ieee_neg :: "ieee \<Rightarrow> ieee" where
  "ieee_neg NaN = NaN"
| "ieee_neg NegInf = PosInf"
| "ieee_neg (Fin q) = Fin (- q)"
| "ieee_neg PosInf = NegInf"

definition ieee_round_pos :: "rat \<Rightarrow> ieee" where
  "ieee_round_pos q =
     (if q = 0 then Fin 0
      else let r = round_pos q in if 1023 < exponent r then PosInf else Fin r)"

definition ieee_round :: "rat \<Rightarrow> ieee" where
  "ieee_round q = (if q < 0 then ieee_neg (ieee_round_pos (- q)) else ieee_round_pos q)"

definition ieee_ok :: "ieee \<Rightarrow> bool" where
  "ieee_ok x = (case x of Fin q \<Rightarrow> ieee_round q = Fin q | _ \<Rightarrow> True)"

text \<open>A total order on the values, NaN last; Go's comparisons are the order away from NaN.\<close>

fun ieee_le :: "ieee \<Rightarrow> ieee \<Rightarrow> bool" where
  "ieee_le _ NaN = True"
| "ieee_le NaN _ = False"
| "ieee_le _ PosInf = True"
| "ieee_le PosInf _ = False"
| "ieee_le NegInf _ = True"
| "ieee_le _ NegInf = False"
| "ieee_le (Fin p) (Fin q) = (p \<le> q)"

fun ieee_add :: "ieee \<Rightarrow> ieee \<Rightarrow> ieee" where
  "ieee_add (Fin p) (Fin q) = ieee_round (p + q)"
| "ieee_add NaN _ = NaN"
| "ieee_add _ NaN = NaN"
| "ieee_add PosInf NegInf = NaN"
| "ieee_add NegInf PosInf = NaN"
| "ieee_add PosInf _ = PosInf"
| "ieee_add _ PosInf = PosInf"
| "ieee_add NegInf _ = NegInf"
| "ieee_add _ NegInf = NegInf"

definition ieee_scale_inf :: "ieee \<Rightarrow> rat \<Rightarrow> ieee" where
  "ieee_scale_inf i q = (if q = 0 then NaN else if 0 < q then i else ieee_neg i)"

fun ieee_mul :: "ieee \<Rightarrow> ieee \<Rightarrow> ieee" where
  "ieee_mul (Fin p) (Fin q) = ieee_round (p * q)"
| "ieee_mul NaN _ = NaN"
| "ieee_mul _ NaN = NaN"
| "ieee_mul PosInf (Fin q) = ieee_scale_inf PosInf q"
| "ieee_mul NegInf (Fin q) = ieee_scale_inf NegInf q"
| "ieee_mul (Fin p) PosInf = ieee_scale_inf PosInf p"
| "ieee_mul (Fin p) NegInf = ieee_scale_inf NegInf p"
| "ieee_mul PosInf PosInf = PosInf"
| "ieee_mul NegInf NegInf = PosInf"
| "ieee_mul PosInf NegInf = NegInf"
| "ieee_mul NegInf PosInf = NegInf"

text \<open>Division by zero takes the zero to be the positive one.\<close>

fun ieee_div :: "ieee \<Rightarrow> ieee \<Rightarrow> ieee" where
  "ieee_div (Fin p) (Fin q) =
     (if q = 0 then ieee_scale_inf PosInf p else ieee_round (p / q))"
| "ieee_div NaN _ = NaN"
| "ieee_div _ NaN = NaN"
| "ieee_div PosInf (Fin q) = (if q < 0 then NegInf else PosInf)"
| "ieee_div NegInf (Fin q) = (if q < 0 then PosInf else NegInf)"
| "ieee_div (Fin _) _ = Fin 0"
| "ieee_div _ _ = NaN"

lemma ieee_neg_neg [simp]: "ieee_neg (ieee_neg x) = x"
  by (cases x) simp_all

lemma exponent_zero [simp]: "exponent 0 = -1"
  by (simp add: exponent_def bit_log.simps)

lemma ieee_round_zero [simp]: "ieee_round 0 = Fin 0"
  by (simp add: ieee_round_def ieee_round_pos_def)

lemma ieee_ok_simps [simp]: "ieee_ok NaN" "ieee_ok NegInf" "ieee_ok PosInf" "ieee_ok (Fin 0)"
  by (simp_all add: ieee_ok_def)

lemma ieee_round_pos_cases:
  assumes "0 \<le> q"
  shows "ieee_round_pos q = PosInf \<or> (\<exists>r. ieee_round_pos q = Fin r \<and> 0 \<le> r \<and> ieee_round_pos r = Fin r)"
proof (cases "q = 0 \<or> 1023 < exponent (round_pos q)")
  case True
  then show ?thesis by (auto simp: ieee_round_pos_def)
next
  case False
  with assms have q: "0 < q" by simp
  let ?r = "round_pos q"
  have fin: "ieee_round_pos q = Fin ?r" using False by (simp add: ieee_round_pos_def Let_def)
  have "ieee_round_pos ?r = Fin ?r"
  proof (cases "?r = 0")
    case rz: False
    with round_pos_nonneg [OF q] have "0 < ?r" by simp
    then show ?thesis using False rz by (simp add: ieee_round_pos_def Let_def round_pos_idem [OF q])
  qed (simp add: ieee_round_pos_def)
  with fin round_pos_nonneg [OF q] show ?thesis by blast
qed

lemma ieee_ok_round_pos: "0 \<le> q \<Longrightarrow> ieee_ok (ieee_round_pos q)"
  using ieee_round_pos_cases [of q] by (auto simp: ieee_ok_def ieee_round_def)

lemma ieee_ok_neg: "ieee_ok x \<Longrightarrow> ieee_ok (ieee_neg x)"
proof (cases x)
  case (Fin q)
  assume "ieee_ok x"
  with Fin have r: "ieee_round q = Fin q" by (simp add: ieee_ok_def)
  show ?thesis
  proof (cases "q < 0")
    case True
    with r have "ieee_neg (ieee_round_pos (- q)) = Fin q" by (simp add: ieee_round_def)
    then have "ieee_round_pos (- q) = Fin (- q)" by (cases "ieee_round_pos (- q)") auto
    with True Fin show ?thesis by (simp add: ieee_ok_def ieee_round_def)
  next
    case False
    with r have "ieee_round_pos q = Fin q" by (simp add: ieee_round_def)
    with False Fin show ?thesis by (cases "q = 0") (simp_all add: ieee_ok_def ieee_round_def)
  qed
qed simp_all

lemma ieee_ok_round: "ieee_ok (ieee_round q)"
  by (simp add: ieee_round_def ieee_ok_round_pos ieee_ok_neg)

lemma ieee_ok_scale_inf: "ieee_ok x \<Longrightarrow> ieee_ok (ieee_scale_inf x q)"
  by (simp add: ieee_scale_inf_def ieee_ok_neg)

lemma ieee_ok_add: "ieee_ok (ieee_add x y)"
  by (cases "(x, y)" rule: ieee_add.cases) (simp_all add: ieee_ok_round)

lemma ieee_ok_mul: "ieee_ok (ieee_mul x y)"
  by (cases "(x, y)" rule: ieee_mul.cases) (simp_all add: ieee_ok_round ieee_ok_scale_inf)

lemma ieee_ok_div: "ieee_ok (ieee_div x y)"
  by (cases "(x, y)" rule: ieee_div.cases) (simp_all add: ieee_ok_round ieee_ok_scale_inf)

section \<open>Rounding is monotone\<close>

lemma ieee_round_pos_nonneg: "0 \<le> q \<Longrightarrow> ieee_le (Fin 0) (ieee_round_pos q)"
  using round_pos_nonneg [of q] by (auto simp: ieee_round_pos_def Let_def)

lemma ieee_round_pos_mono:
  assumes "0 \<le> p" and "p \<le> q"
  shows "ieee_le (ieee_round_pos p) (ieee_round_pos q)"
proof (cases "p = 0")
  case True
  then show ?thesis using ieee_round_pos_nonneg assms by (simp add: ieee_round_pos_def [of 0])
next
  case False
  with assms have p: "0 < p" by simp
  note m = round_pos_mono [OF p assms(2)]
  have "exponent (round_pos p) \<le> max (-1) (exponent (round_pos q))"
    using exponent_mono [OF _ m] round_pos_nonneg [OF p] by (cases "round_pos p = 0") auto
  with m p assms(2) show ?thesis
    by (auto simp: ieee_round_pos_def Let_def)
qed

lemma ieee_le_neg: "x \<noteq> NaN \<Longrightarrow> y \<noteq> NaN \<Longrightarrow> ieee_le (ieee_neg x) (ieee_neg y) = ieee_le y x"
  by (cases x; cases y) simp_all

lemma ieee_round_not_NaN [simp]: "ieee_round q \<noteq> NaN" "ieee_round_pos q \<noteq> NaN"
proof -
  show p: "ieee_round_pos q \<noteq> NaN" for q by (simp add: ieee_round_pos_def Let_def)
  have "ieee_neg x \<noteq> NaN" if "x \<noteq> NaN" for x using that by (cases x) simp_all
  then show "ieee_round q \<noteq> NaN" by (simp add: ieee_round_def p)
qed

lemma ieee_le_PosInf: "x \<noteq> NaN \<Longrightarrow> ieee_le x PosInf"
  by (cases x) simp_all

lemma ieee_le_trans: "ieee_le x y \<Longrightarrow> ieee_le y z \<Longrightarrow> ieee_le x z"
  by (cases x; cases y; cases z) simp_all

lemma ieee_le_antisym: "ieee_le x y \<Longrightarrow> ieee_le y x \<Longrightarrow> x = y"
  by (cases x; cases y) simp_all

lemma ieee_le_total: "ieee_le x y \<or> ieee_le y x"
  by (cases x; cases y) auto

lemma ieee_round_mono:
  assumes "p \<le> q"
  shows "ieee_le (ieee_round p) (ieee_round q)"
proof -
  consider "q < 0" | "p < 0" "0 \<le> q" | "0 \<le> p" using assms by linarith
  then show ?thesis
  proof cases
    case 1
    with assms ieee_round_pos_mono [of "- q" "- p"] show ?thesis
      by (simp add: ieee_round_def ieee_le_neg)
  next
    case 2
    have "ieee_le (ieee_neg (ieee_round_pos (- p))) (ieee_neg (Fin 0))"
      using ieee_round_pos_nonneg [of "- p"] 2 by (simp add: ieee_le_neg del: ieee_neg.simps)
    moreover have "ieee_le (Fin 0) (ieee_round_pos q)" by (rule ieee_round_pos_nonneg) (rule 2)
    ultimately show ?thesis using 2 by (auto simp: ieee_round_def intro: ieee_le_trans)
  next
    case 3
    with assms ieee_round_pos_mono [of p q] show ?thesis by (simp add: ieee_round_def)
  qed
qed

section \<open>Numbers that are exact\<close>

text \<open>
  A multiple of \<open>2\<^sup>-\<^sup>k\<close> with fewer than 54 bits is a double. The code equation uses this to
  evaluate small numbers without searching their exponent.
\<close>

lemma ieee_round_pos_dyadic:
  assumes n: "0 \<le> n" "n < 2 ^ 53" and k: "k \<le> 52"
  shows "ieee_round_pos (of_int n * 2 powi (- int k)) = Fin (of_int n * 2 powi (- int k))"
proof (cases "n = 0")
  case True
  then show ?thesis by (simp add: ieee_round_pos_def)
next
  case False
  let ?q = "of_int n * (2::rat) powi (- int k)"
  have q: "0 < ?q" using False n by simp
  have "(of_int n :: rat) < of_int (2 ^ 53)" using n by (simp only: of_int_less_iff)
  then have "(of_int n :: rat) < 2 powi 53" by (simp add: powi_nat)
  then have "?q < 2 powi 53 * 2 powi (- int k)" by simp
  also have "\<dots> = 2 powi (53 - int k)"
    using power_int_add [of "2 :: rat" 53 "- int k"] by simp
  finally have lt: "(2::rat) powi exponent ?q < 2 powi (53 - int k)"
    using exponent_bounds(1) [OF q] by linarith
  then have e: "exponent ?q < 53 - int k" by (simp add: powi_less_iff)
  then have "spacing ?q \<le> - int k" using k by (simp add: spacing_def)
  then obtain m where "?q = of_int m * 2 powi spacing ?q" using grid_refine by blast
  then have "round_pos ?q = ?q" by (rule round_pos_on_grid)
  with e q show ?thesis by (simp add: ieee_round_pos_def Let_def)
qed

lemma ieee_round_dyadic:
  assumes "\<bar>n\<bar> < 2 ^ 53" and "k \<le> 52"
  shows "ieee_round (of_int n * 2 powi (- int k)) = Fin (of_int n * 2 powi (- int k))"
proof (cases "n < 0")
  case True
  then have "(of_int n :: rat) * 2 powi (- int k) < 0" by (simp add: mult_less_0_iff)
  with True ieee_round_pos_dyadic [of "- n" k] assms show ?thesis by (simp add: ieee_round_def)
next
  case False
  then have "\<not> (of_int n :: rat) * 2 powi (- int k) < 0"
    using powi_pos [of "- int k"] by (simp add: mult_less_0_iff not_less less_imp_le)
  with False ieee_round_pos_dyadic [of n k] assms show ?thesis by (simp add: ieee_round_def)
qed

definition ieee_round_general :: "rat \<Rightarrow> ieee" where
  "ieee_round_general q = (if q < 0 then ieee_neg (ieee_round_pos (- q)) else ieee_round_pos q)"

lemma ieee_round_code [code]:
  "ieee_round q =
     (let (n, d) = quotient_of q
      in if (d = 1 \<or> d = 2 \<or> d = 4) \<and> \<bar>n\<bar> < 9007199254740992 then Fin q
         else ieee_round_general q)"
proof -
  obtain n d where nd: "quotient_of q = (n, d)" by (cases "quotient_of q")
  have q: "q = of_int n / of_int d" by (rule quotient_of_div [OF nd])
  have "ieee_round q = Fin q" if "d = 1 \<or> d = 2 \<or> d = 4" "\<bar>n\<bar> < 9007199254740992"
  proof -
    have "(of_int d :: rat) = 2 ^ 0 \<or> (of_int d :: rat) = 2 ^ 1 \<or> (of_int d :: rat) = 2 ^ 2"
      using that(1) by auto
    then obtain k :: nat where k: "k \<le> 52" "(of_int d :: rat) = 2 ^ k"
      by (metis le0 one_le_numeral numeral_le_iff semiring_norm(68,69,71) Suc_1)
    then have "q = of_int n * 2 powi (- int k)"
      by (simp add: q power_int_minus divide_inverse)
    then show ?thesis using ieee_round_dyadic [of n k] that(2) k(1) by simp
  qed
  then show ?thesis by (simp add: nd ieee_round_general_def ieee_round_def)
qed

section \<open>The type float64\<close>

typedef float64 = "{x. ieee_ok x}"
  by (rule exI [of _ NaN]) simp

setup_lifting type_definition_float64

lift_definition f64 :: "rat \<Rightarrow> float64" is ieee_round
  by (rule ieee_ok_round)

lift_definition fnan :: float64 is NaN by simp
lift_definition fposinf :: float64 is PosInf by simp
lift_definition fneginf :: float64 is NegInf by simp

lift_definition fadd :: "float64 \<Rightarrow> float64 \<Rightarrow> float64" is ieee_add
  by (rule ieee_ok_add)

lift_definition fneg :: "float64 \<Rightarrow> float64" is ieee_neg
  by (rule ieee_ok_neg)

lift_definition fmul :: "float64 \<Rightarrow> float64 \<Rightarrow> float64" is ieee_mul
  by (rule ieee_ok_mul)

lift_definition fdiv :: "float64 \<Rightarrow> float64 \<Rightarrow> float64" is ieee_div
  by (rule ieee_ok_div)

definition fsub :: "float64 \<Rightarrow> float64 \<Rightarrow> float64" where
  "fsub x y = fadd x (fneg y)"

instantiation float64 :: equal
begin
lift_definition equal_float64 :: "float64 \<Rightarrow> float64 \<Rightarrow> bool" is "(=)" .
instance by standard (transfer, simp)
end

instantiation float64 :: linorder
begin
lift_definition less_eq_float64 :: "float64 \<Rightarrow> float64 \<Rightarrow> bool" is ieee_le .
definition less_float64 :: "float64 \<Rightarrow> float64 \<Rightarrow> bool" where
  "less_float64 x y \<longleftrightarrow> \<not> y \<le> x"
instance
proof
  fix x y z :: float64
  show "x < y \<longleftrightarrow> x \<le> y \<and> \<not> y \<le> x"
    by (simp add: less_float64_def) (transfer, metis ieee_le_total)
  show "x \<le> x" by transfer (metis ieee_le_total)
  show "x \<le> y \<Longrightarrow> y \<le> z \<Longrightarrow> x \<le> z" by transfer (rule ieee_le_trans)
  show "x \<le> y \<Longrightarrow> y \<le> x \<Longrightarrow> x = y" by transfer (rule ieee_le_antisym)
  show "x \<le> y \<or> y \<le> x" by transfer (rule ieee_le_total)
qed
end

text \<open>The comparison operators of Go: false as soon as one side is NaN.\<close>

definition fless :: "float64 \<Rightarrow> float64 \<Rightarrow> bool" where
  "fless x y \<longleftrightarrow> x \<noteq> fnan \<and> y \<noteq> fnan \<and> x < y"

definition fle :: "float64 \<Rightarrow> float64 \<Rightarrow> bool" where
  "fle x y \<longleftrightarrow> x \<noteq> fnan \<and> y \<noteq> fnan \<and> x \<le> y"

text \<open>\<open>math.IsInf(x, 1)\<close>, and the finiteness \<open>encoding/json\<close> asks of a number it writes.\<close>

definition is_posinf :: "float64 \<Rightarrow> bool" where
  "is_posinf x \<longleftrightarrow> x = fposinf"

definition is_finite :: "float64 \<Rightarrow> bool" where
  "is_finite x \<longleftrightarrow> x \<noteq> fnan \<and> x \<noteq> fposinf \<and> x \<noteq> fneginf"

lemma finite_not_nan: "is_finite x \<Longrightarrow> x \<noteq> fnan"
  by (simp add: is_finite_def)

text \<open>The rational value of a finite number.\<close>

lift_definition fval :: "float64 \<Rightarrow> rat" is "\<lambda>x. case x of Fin q \<Rightarrow> q | _ \<Rightarrow> 0" .

abbreviation f0 :: float64 where
  "f0 \<equiv> f64 0"

lemma fless_iff: "x \<noteq> fnan \<Longrightarrow> y \<noteq> fnan \<Longrightarrow> fless x y \<longleftrightarrow> x < y"
  by (simp add: fless_def)

lemma fle_iff: "x \<noteq> fnan \<Longrightarrow> y \<noteq> fnan \<Longrightarrow> fle x y \<longleftrightarrow> x \<le> y"
  by (simp add: fle_def)

lemma f64_not_nan [simp]: "f64 q \<noteq> fnan"
  by transfer simp

lemma fposinf_not_nan [simp]: "fposinf \<noteq> fnan"
  by transfer simp

lemma f64_mono: "p \<le> q \<Longrightarrow> f64 p \<le> f64 q"
  by transfer (rule ieee_round_mono)

text \<open>
  The costs of usable links: not NaN and not negative. On them addition is monotone in
  its first argument and never decreases it.
\<close>

definition cost_ok :: "float64 \<Rightarrow> bool" where
  "cost_ok x \<longleftrightarrow> x \<noteq> fnan \<and> f0 \<le> x"

lemma cost_ok_f0 [simp]: "cost_ok f0"
  by (simp add: cost_ok_def)

lemma cost_okI: "x \<noteq> fnan \<Longrightarrow> \<not> fless x f0 \<Longrightarrow> cost_ok x"
  by (simp add: cost_ok_def fless_def not_less)

lemma cost_ok_cases:
  assumes "ieee_ok x" "x \<noteq> NaN" "ieee_le (ieee_round 0) x"
  obtains (inf) "x = PosInf" | (fin) q where "x = Fin q" "0 \<le> q" "ieee_round q = Fin q"
  using assms by (cases x) (simp_all add: ieee_ok_def)

lemma fadd_mono: "cost_ok x \<Longrightarrow> cost_ok y \<Longrightarrow> cost_ok c \<Longrightarrow> x \<le> y \<Longrightarrow> fadd x c \<le> fadd y c"
  unfolding cost_ok_def
proof (transfer, elim conjE)
  fix x y c
  assume "ieee_ok x" "x \<noteq> NaN" "ieee_le (ieee_round 0) x"
    and "ieee_ok y" "y \<noteq> NaN" "ieee_le (ieee_round 0) y"
    and "ieee_ok c" "c \<noteq> NaN" "ieee_le (ieee_round 0) c" and "ieee_le x y"
  then show "ieee_le (ieee_add x c) (ieee_add y c)"
    by (cases x; cases y; cases c) (auto intro: ieee_round_mono ieee_le_PosInf)
qed

lemma fadd_increase: "cost_ok x \<Longrightarrow> cost_ok c \<Longrightarrow> x \<le> fadd x c"
  unfolding cost_ok_def
proof (transfer, elim conjE)
  fix x c
  assume x: "ieee_ok x" "x \<noteq> NaN" "ieee_le (ieee_round 0) x"
    and c: "ieee_ok c" "c \<noteq> NaN" "ieee_le (ieee_round 0) c"
  from x show "ieee_le x (ieee_add x c)"
  proof (cases rule: cost_ok_cases)
    case inf
    with c show ?thesis by (cases c) simp_all
  next
    case (fin q)
    with c ieee_round_mono [of q "q + p" for p] show ?thesis
      by (cases c) (auto intro: ieee_le_trans)
  qed
qed

lemma cost_ok_fadd: "cost_ok x \<Longrightarrow> cost_ok c \<Longrightarrow> cost_ok (fadd x c)"
proof -
  assume x: "cost_ok x" and c: "cost_ok c"
  from x have "f0 \<le> x" by (simp add: cost_ok_def)
  also from x c have "x \<le> fadd x c" by (rule fadd_increase)
  finally have "f0 \<le> fadd x c" .
  moreover from x c have "fadd x c \<noteq> fnan"
    unfolding cost_ok_def
    by (transfer, elim conjE) (auto elim!: cost_ok_cases)
  ultimately show ?thesis by (simp add: cost_ok_def)
qed

lemma cost_ok_le: "cost_ok x \<Longrightarrow> x \<le> y \<Longrightarrow> y \<noteq> fnan \<Longrightarrow> cost_ok y"
  by (auto simp: cost_ok_def)

lemma cost_ok_posinf [simp]: "cost_ok fposinf"
  unfolding cost_ok_def by transfer simp

lemma le_posinf: "x \<noteq> fnan \<Longrightarrow> x \<le> fposinf"
  by transfer (case_tac x, simp_all)

section \<open>Scaling by a positive constant\<close>

definition scale_ok :: "float64 \<Rightarrow> bool" where
  "scale_ok c \<longleftrightarrow> is_finite c \<and> f0 < c"

lemma fadd_comm: "fadd x y = fadd y x"
proof transfer
  fix x y show "ieee_add x y = ieee_add y x"
    by (cases x; cases y) (simp_all add: add.commute)
qed

lemma fadd_mono_both:
  assumes "cost_ok x" "cost_ok y" "cost_ok a" "cost_ok b" "x \<le> y" "a \<le> b"
  shows "fadd x a \<le> fadd y b"
proof -
  have "fadd x a \<le> fadd y a" using assms by (intro fadd_mono)
  also have "\<dots> \<le> fadd y b" using assms fadd_mono [of a b y] by (simp add: fadd_comm)
  finally show ?thesis .
qed

lemma ieee_le_NegInf: "ieee_le NegInf x"
  by (cases x) simp_all

lemma fmul_mono: "x \<noteq> fnan \<Longrightarrow> y \<noteq> fnan \<Longrightarrow> scale_ok c \<Longrightarrow> x \<le> y \<Longrightarrow> fmul x c \<le> fmul y c"
  unfolding scale_ok_def is_finite_def less_float64_def
proof (transfer, elim conjE)
  fix x y c
  assume "x \<noteq> NaN" "y \<noteq> NaN" "c \<noteq> NaN" "c \<noteq> PosInf" "c \<noteq> NegInf" "\<not> ieee_le c (ieee_round 0)" "ieee_le x y"
  then show "ieee_le (ieee_mul x c) (ieee_mul y c)"
    by (cases x; cases y; cases c)
      (auto simp: ieee_scale_inf_def intro!: ieee_round_mono ieee_le_PosInf ieee_le_NegInf mult_right_mono)
qed

lemma fmul_not_nan: "x \<noteq> fnan \<Longrightarrow> scale_ok c \<Longrightarrow> fmul x c \<noteq> fnan"
  unfolding scale_ok_def is_finite_def less_float64_def
proof (transfer, elim conjE)
  fix x c
  assume "x \<noteq> NaN" "c \<noteq> NaN" "c \<noteq> PosInf" "c \<noteq> NegInf" "\<not> ieee_le c (ieee_round 0)"
  then show "ieee_mul x c \<noteq> NaN"
    by (cases x; cases c) (auto simp: ieee_scale_inf_def)
qed

lemma fmul_posinf: "scale_ok c \<Longrightarrow> fmul fposinf c = fposinf"
  unfolding scale_ok_def is_finite_def less_float64_def
proof (transfer, elim conjE)
  fix c
  assume "c \<noteq> NaN" "c \<noteq> PosInf" "c \<noteq> NegInf" "\<not> ieee_le c (ieee_round 0)"
  then show "ieee_mul PosInf c = PosInf" by (cases c) (auto simp: ieee_scale_inf_def)
qed

lemma fadd_posinf: "cost_ok x \<Longrightarrow> fadd fposinf x = fposinf"
  unfolding cost_ok_def
proof (transfer, elim conjE)
  fix x assume "x \<noteq> NaN" "ieee_le (ieee_round 0) x"
  then show "ieee_add PosInf x = PosInf" by (cases x) auto
qed

lemma fmul_f0: "scale_ok c \<Longrightarrow> fmul f0 c = f0"
  unfolding scale_ok_def is_finite_def less_float64_def
proof (transfer, elim conjE)
  fix c
  assume "c \<noteq> NaN" "c \<noteq> PosInf" "c \<noteq> NegInf"
  then show "ieee_mul (ieee_round 0) c = ieee_round 0" by (cases c) simp_all
qed

lemma cost_ok_fmul: "cost_ok x \<Longrightarrow> scale_ok c \<Longrightarrow> cost_ok (fmul x c)"
  using fmul_mono [of f0 x c] fmul_not_nan [of x c] fmul_f0 [of c] by (simp add: cost_ok_def)

lemma fdiv_not_nan: "x \<noteq> fnan \<Longrightarrow> scale_ok c \<Longrightarrow> fdiv x c \<noteq> fnan"
  unfolding scale_ok_def is_finite_def less_float64_def
proof (transfer, elim conjE)
  fix x c
  assume "x \<noteq> NaN" "c \<noteq> NaN" "c \<noteq> PosInf" "c \<noteq> NegInf" "\<not> ieee_le c (ieee_round 0)"
  then show "ieee_div x c \<noteq> NaN" by (cases x; cases c) auto
qed

lemma fsub_not_nan: "x \<noteq> fnan \<Longrightarrow> is_finite y \<Longrightarrow> fsub x y \<noteq> fnan"
  unfolding is_finite_def fsub_def
proof (transfer, elim conjE)
  fix x y
  assume "x \<noteq> NaN" "y \<noteq> NaN" "y \<noteq> PosInf" "y \<noteq> NegInf"
  then show "ieee_add x (ieee_neg y) \<noteq> NaN" by (cases x; cases y) simp_all
qed

section \<open>Powers of two and overflow\<close>

lemma round_pos_power:
  assumes "0 \<le> e"
  shows "exponent (2 powi e) = e" and "round_pos (2 powi e) = 2 powi e"
proof -
  let ?q = "(2::rat) powi e"
  show e: "exponent ?q = e" by (rule exponent_unique) (simp_all add: powi_less_iff)
  have sp: "spacing ?q = e - 52" using assms by (simp add: spacing_def e)
  have "?q = of_int (2 ^ 52) * 2 powi spacing ?q"
    unfolding sp using powi_nat [of 52] power_int_add [of "2 :: rat" 52 "e - 52"] by simp
  then show "round_pos ?q = ?q" by (rule round_pos_on_grid)
qed

lemma ieee_round_powi:
  "0 \<le> e \<Longrightarrow> ieee_round (2 powi e) = (if e \<le> 1023 then Fin (2 powi e) else PosInf)"
proof -
  have "\<not> (2::rat) powi e < 0" using powi_pos [of e] by linarith
  then show "0 \<le> e \<Longrightarrow> ieee_round (2 powi e) = (if e \<le> 1023 then Fin (2 powi e) else PosInf)"
    using round_pos_power [of e] by (auto simp: ieee_round_def ieee_round_pos_def Let_def)
qed

lemma ieee_round_overflow:
  assumes "2 powi e \<le> q" and "1024 \<le> e"
  shows "ieee_round q = PosInf"
proof -
  have "ieee_round (2 powi e) = PosInf" using ieee_round_powi [of e] assms(2) by simp
  with ieee_round_mono [OF assms(1)] show ?thesis by (cases "ieee_round q") auto
qed

text \<open>A finite number so far below zero that a thousand times its opposite overflows.\<close>

definition low_exp :: int where "low_exp = 1020"

lift_definition f_low :: float64 is "Fin (- (2 powi low_exp))"
proof -
  have pos: "\<not> (2::rat) powi low_exp < 0" using powi_pos [of low_exp] by linarith
  have "0 \<le> low_exp" "low_exp \<le> 1023" by (simp_all add: low_exp_def)
  with pos ieee_round_powi [of low_exp] have "ieee_round_pos (2 powi low_exp) = Fin (2 powi low_exp)"
    by (simp add: ieee_round_def split: if_splits)
  then show "ieee_ok (Fin (- (2 powi low_exp)))" by (simp add: ieee_ok_def ieee_round_def)
qed

lemma f_low_finite: "is_finite f_low"
  unfolding is_finite_def by transfer simp

lemma f_low_overflow: "fdiv (fmul (fsub f0 f_low) (f64 1000)) (f64 2) = fposinf"
  unfolding fsub_def
proof transfer
  have k: "ieee_round 1000 = Fin 1000" using ieee_round_dyadic [of 1000 0] by simp
  have two: "ieee_round 2 = Fin 2" using ieee_round_dyadic [of 2 0] by simp
  have le: "0 \<le> low_exp" "low_exp \<le> 1023" "1024 \<le> low_exp + 4" by (simp_all add: low_exp_def)
  then have big: "ieee_round (2 powi low_exp) = Fin (2 powi low_exp)" by (simp add: ieee_round_powi)
  have "(2::rat) powi (low_exp + 4) = 2 powi low_exp * 2 powi 4" by (rule power_int_add) simp
  also have "\<dots> \<le> 2 powi low_exp * 1000" using powi_pos [of low_exp] by (intro mult_left_mono) (simp_all add: less_imp_le)
  finally have "ieee_round (2 powi low_exp * 1000) = PosInf" by (rule ieee_round_overflow) (rule le)
  then show "ieee_div (ieee_mul (ieee_add (ieee_round 0) (ieee_neg (Fin (- (2 powi low_exp))))) (ieee_round 1000)) (ieee_round 2) = PosInf"
    by (simp only: k two ieee_round_zero ieee_neg.simps ieee_add.simps minus_minus add_0 big ieee_mul.simps ieee_div.simps) simp
qed

end
