(* ===== verification/Go_Text.thy ===== *)
theory Go_Text
  imports Go_Float Go_Base
begin

text \<open>
  The text formats of the standard library that the wire format depends on: UTF-8, decimal
  integers (\<open>strconv.AppendInt\<close>, \<open>strconv.ParseInt\<close>) and floating-point numbers
  (\<open>strconv.AppendFloat\<close> with the shortest precision, \<open>strconv.ParseFloat\<close>). The lemmas show
  that what is printed is read back as the same value.
\<close>

section \<open>Bytes and UTF-8\<close>

definition byte :: "char \<Rightarrow> int" where
  "byte c = of_char c"

definition chr :: "int \<Rightarrow> char" where
  "chr n = char_of n"

lemma byte_chr: "0 \<le> n \<Longrightarrow> n < 256 \<Longrightarrow> byte (chr n) = n"
  by (simp add: byte_def chr_def)

lemma chr_byte [simp]: "chr (byte c) = c"
  by (simp add: byte_def chr_def)

lemma byte_bounds: "0 \<le> byte c" "byte c < 256"
proof -
  have e: "byte c = of_char c mod 256" by (metis byte_def chr_byte chr_def of_char_of)
  show "0 \<le> byte c" unfolding e by (rule pos_mod_sign) simp
  show "byte c < 256" unfolding e by (rule pos_mod_bound) simp
qed

lemma byte_inj: "byte a = byte b \<Longrightarrow> a = b"
  by (metis chr_byte)

definition cont :: "char \<Rightarrow> bool" where
  "cont c \<longleftrightarrow> 0x80 \<le> byte c \<and> byte c \<le> 0xBF"

text \<open>The length of the UTF-8 sequence a string starts with, 0 when it starts with none.\<close>

fun utf8_len :: "string \<Rightarrow> nat" where
  "utf8_len [] = 0"
| "utf8_len (a # s) =
     (if byte a < 0x80 then 1
      else if 0xC2 \<le> byte a \<and> byte a \<le> 0xDF then
        (case s of b # _ \<Rightarrow> if cont b then 2 else 0 | _ \<Rightarrow> 0)
      else if 0xE0 \<le> byte a \<and> byte a \<le> 0xEF then
        (case s of
           b # c # _ \<Rightarrow>
             if cont b \<and> cont c \<and> (byte a = 0xE0 \<longrightarrow> 0xA0 \<le> byte b) \<and> (byte a = 0xED \<longrightarrow> byte b \<le> 0x9F)
             then 3 else 0
         | _ \<Rightarrow> 0)
      else if 0xF0 \<le> byte a \<and> byte a \<le> 0xF4 then
        (case s of
           b # c # d # _ \<Rightarrow>
             if cont b \<and> cont c \<and> cont d \<and> (byte a = 0xF0 \<longrightarrow> 0x90 \<le> byte b) \<and>
                (byte a = 0xF4 \<longrightarrow> byte b \<le> 0x8F)
             then 4 else 0
         | _ \<Rightarrow> 0)
      else 0)"

text \<open>\<open>utf8.EncodeRune\<close>, and the replacement character for what is not a character.\<close>

definition replacement :: string where
  "replacement = [chr 0xEF, chr 0xBF, chr 0xBD]"

definition utf8_encode :: "int \<Rightarrow> string" where
  "utf8_encode r =
     (if 0 \<le> r \<and> r < 0x80 then [chr r]
      else if 0 \<le> r \<and> r < 0x800 then [chr (0xC0 + r div 64), chr (0x80 + r mod 64)]
      else if r < 0 \<or> 0x10FFFF < r \<or> (0xD800 \<le> r \<and> r \<le> 0xDFFF) then replacement
      else if r < 0x10000 then
        [chr (0xE0 + r div 4096), chr (0x80 + r div 64 mod 64), chr (0x80 + r mod 64)]
      else
        [chr (0xF0 + r div 262144), chr (0x80 + r div 4096 mod 64), chr (0x80 + r div 64 mod 64),
         chr (0x80 + r mod 64)])"

lemma utf8_len_bound: "utf8_len s \<le> length s"
  by (cases s) (auto split: list.splits)

lemma utf8_len_multi:
  assumes "utf8_len (a # s) \<noteq> 0" and "0x80 \<le> byte a"
  obtains b cs rest where "s = b # cs @ rest" and "utf8_len (a # s) = 2 + length cs"
    and "cont b" and "list_all cont cs"
proof -
  from assms consider
      (2) b t where "s = b # t" "cont b" "utf8_len (a # s) = 2"
    | (3) b c t where "s = b # c # t" "cont b" "cont c" "utf8_len (a # s) = 3"
    | (4) b c d t where "s = b # c # d # t" "cont b" "cont c" "cont d" "utf8_len (a # s) = 4"
    by (auto split: if_splits list.splits)
  then show thesis
  proof cases
    case 2
    then show ?thesis using that [of b "[]" t] by simp
  next
    case 3
    then show ?thesis using that [of b "[c]" t] by simp
  next
    case 4
    then show ?thesis using that [of b "[c, d]" t] by simp
  qed
qed

section \<open>Decimal integers\<close>

definition is_digit :: "char \<Rightarrow> bool" where
  "is_digit c \<longleftrightarrow> 48 \<le> byte c \<and> byte c \<le> 57"

definition digit :: "int \<Rightarrow> char" where
  "digit n = chr (48 + n)"

fun dec_val :: "int \<Rightarrow> string \<Rightarrow> int" where
  "dec_val acc [] = acc"
| "dec_val acc (c # s) = dec_val (10 * acc + (byte c - 48)) s"

function dec_digits :: "int \<Rightarrow> string" where
  "dec_digits n = (if n < 10 then [digit n] else dec_digits (n div 10) @ [digit (n mod 10)])"
  by auto
termination by (relation "measure nat") auto

declare dec_digits.simps [simp del]

definition int_text :: "int \<Rightarrow> string" where
  "int_text n = (if n < 0 then CHR ''-'' # dec_digits (- n) else dec_digits n)"

definition sign_split :: "string \<Rightarrow> bool \<times> string" where
  "sign_split s =
     (case s of c # r \<Rightarrow> if c = CHR ''-'' then (True, r) else (False, s) | [] \<Rightarrow> (False, s))"

text \<open>\<open>ParseInt(s, 10, 64)\<close> on a JSON number.\<close>

definition parse_int :: "string \<Rightarrow> int option" where
  "parse_int s =
     (let (neg, ds) = sign_split s;
          n = (if neg then - dec_val 0 ds else dec_val 0 ds)
      in if ds \<noteq> [] \<and> list_all is_digit ds \<and> - (2 ^ 63) \<le> n \<and> n < 2 ^ 63 then Some n else None)"

lemma byte_digit: "0 \<le> n \<Longrightarrow> n < 10 \<Longrightarrow> byte (digit n) = 48 + n"
  by (simp add: digit_def byte_chr)

lemma is_digit_digit: "0 \<le> n \<Longrightarrow> n < 10 \<Longrightarrow> is_digit (digit n)"
  by (simp add: is_digit_def byte_digit)

lemma dec_val_append: "dec_val acc (s @ t) = dec_val (dec_val acc s) t"
  by (induction s arbitrary: acc) simp_all

lemma dec_val_acc: "dec_val acc s = acc * 10 ^ length s + dec_val 0 s"
proof (induction s arbitrary: acc)
  case (Cons c s)
  show ?case
    by (simp only: dec_val.simps) (subst Cons.IH, subst (2) Cons.IH, simp add: algebra_simps)
qed simp

lemma dec_val_nonneg: "list_all is_digit s \<Longrightarrow> 0 \<le> acc \<Longrightarrow> 0 \<le> dec_val acc s"
  by (induction s arbitrary: acc) (simp_all add: is_digit_def)

lemma dec_digits_ok:
  "0 \<le> n \<Longrightarrow> dec_val 0 (dec_digits n) = n \<and> list_all is_digit (dec_digits n) \<and> dec_digits n \<noteq> [] \<and>
     (hd (dec_digits n) = CHR ''0'' \<longrightarrow> n = 0)"
proof (induction n rule: dec_digits.induct)
  case (1 n)
  have zero: "digit m = CHR ''0'' \<longleftrightarrow> m = 0" if "0 \<le> m" "m < 10" for m
    using byte_digit [OF that] byte_inj [of "digit m" "CHR ''0''"] by (auto simp: byte_def)
  show ?case
  proof (cases "n < 10")
    case True
    with "1.prems" show ?thesis
      by (simp add: dec_digits.simps [of n] byte_digit is_digit_digit zero)
  next
    case False
    then have div: "0 \<le> n div 10" "n div 10 \<noteq> 0" by simp_all
    have m: "0 \<le> n mod 10" "n mod 10 < 10" by simp_all
    from "1.IH" [OF False div(1)] False div m show ?thesis
      by (simp add: dec_digits.simps [of n] dec_val_append byte_digit is_digit_digit)
  qed
qed

lemma digit_not_minus: "is_digit c \<Longrightarrow> c \<noteq> CHR ''-''"
  by (auto simp: is_digit_def byte_def)

lemma int_text_roundtrip: "- (2 ^ 63) \<le> n \<Longrightarrow> n < 2 ^ 63 \<Longrightarrow> parse_int (int_text n) = Some n"
proof -
  assume r: "- (2 ^ 63) \<le> n" "n < 2 ^ 63"
  show ?thesis
  proof (cases "n < 0")
    case True
    then show ?thesis using dec_digits_ok [of "- n"] r by (simp add: int_text_def parse_int_def sign_split_def Let_def)
  next
    case False
    then have d: "dec_val 0 (dec_digits n) = n" "list_all is_digit (dec_digits n)" "dec_digits n \<noteq> []"
      using dec_digits_ok [of n] by simp_all
    then obtain c r' where c: "dec_digits n = c # r'" by (cases "dec_digits n") auto
    with d(2) have "c \<noteq> CHR ''-''" using digit_not_minus by simp
    with d r c False show ?thesis by (simp add: int_text_def parse_int_def sign_split_def Let_def del: dec_val.simps)
  qed
qed

section \<open>Floating-point numbers\<close>

definition ten :: "int \<Rightarrow> rat" where
  "ten e = 10 powi e"

definition exp_value :: "string \<Rightarrow> int" where
  "exp_value s =
     (case s of [] \<Rightarrow> 0
      | c # r \<Rightarrow> if c = CHR ''-'' then - dec_val 0 r else if c = CHR ''+'' then dec_val 0 r else dec_val 0 s)"

text \<open>The exact value of a decimal numeral, and \<open>ParseFloat\<close>, which refuses to overflow.\<close>

definition token_value :: "string \<Rightarrow> rat" where
  "token_value s =
     (let (neg, r) = sign_split s;
          ip = takeWhile is_digit r;
          r1 = dropWhile is_digit r;
          (fp, r2) = (case r1 of
                        c # x \<Rightarrow> if c = CHR ''.'' then (takeWhile is_digit x, dropWhile is_digit x) else ([], r1)
                      | [] \<Rightarrow> ([], r1));
          e = (case r2 of [] \<Rightarrow> 0 | _ # x \<Rightarrow> exp_value x);
          v = of_int (dec_val 0 (ip @ fp)) * ten (e - int (length fp))
      in if neg then - v else v)"

definition parse_float :: "string \<Rightarrow> float64 option" where
  "parse_float s = (let x = f64 (token_value s) in if is_finite x then Some x else None)"

text \<open>
  The shortest decimal that rounds to \<open>x\<close>, the closest one if there are several: its digits
  without trailing zeros and the position of the decimal point in front of them. Seventeen
  digits are enough for a double; the last equation writes the exact value out, so that the
  definition does not depend on that fact.
\<close>

definition decimal_point :: "rat \<Rightarrow> int" where
  "decimal_point q =
     (let (n, d) = quotient_of q; l = int (length (dec_digits n)) - int (length (dec_digits d))
      in if q < ten l then l else l + 1)"

definition closest_at :: "rat \<Rightarrow> float64 \<Rightarrow> int \<Rightarrow> int option" where
  "closest_at q x e =
     (let s = ten e; lo = \<lfloor>q * s\<rfloor>; hi = lo + 1;
          below = f64 (of_int lo / s) = x; above = f64 (of_int hi / s) = x;
          d = q * s - of_int lo
      in if below \<and> above then Some (if d < 1/2 \<or> (d = 1/2 \<and> even lo) then lo else hi)
         else if below then Some lo
         else if above then Some hi
         else None)"

definition finest :: int where
  "finest = 1074"

fun shortest_in :: "rat \<Rightarrow> float64 \<Rightarrow> int \<Rightarrow> int list \<Rightarrow> int \<times> int" where
  "shortest_in q x dp [] = (\<lfloor>q * ten finest\<rfloor>, finest)"
| "shortest_in q x dp (p # ps) =
     (case closest_at q x (p - dp) of Some d \<Rightarrow> (d, p - dp) | None \<Rightarrow> shortest_in q x dp ps)"

definition strip_zeros :: "string \<Rightarrow> string" where
  "strip_zeros s = rev (dropWhile (\<lambda>c. c = CHR ''0'') (rev s))"

definition shortest :: "float64 \<Rightarrow> string \<times> int" where
  "shortest x =
     (let q = fval x; (d, e) = shortest_in q x (decimal_point q) [1..17]; ds = dec_digits d
      in (strip_zeros ds, int (length ds) - e))"

definition zeros :: "int \<Rightarrow> string" where
  "zeros n = replicate (nat n) (CHR ''0'')"

definition fixed_text :: "string \<Rightarrow> int \<Rightarrow> string" where
  "fixed_text ds dp =
     (if dp \<le> 0 then ''0.'' @ zeros (- dp) @ ds
      else if int (length ds) \<le> dp then ds @ zeros (dp - int (length ds))
      else take (nat dp) ds @ CHR ''.'' # drop (nat dp) ds)"

definition exp_text :: "nat \<Rightarrow> int \<Rightarrow> string" where
  "exp_text width e =
     (let ds = dec_digits \<bar>e\<bar>
      in (if e < 0 then CHR ''-'' else CHR ''+'') # zeros (int width - int (length ds)) @ ds)"

definition sci_text :: "nat \<Rightarrow> string \<Rightarrow> int \<Rightarrow> string" where
  "sci_text width ds dp =
     take 1 ds @ (if length ds \<le> 1 then [] else CHR ''.'' # drop 1 ds) @
     CHR ''e'' # exp_text width (dp - 1)"

definition fabs :: "float64 \<Rightarrow> float64" where
  "fabs x = (if fless x f0 then fneg x else x)"

definition with_sign :: "float64 \<Rightarrow> string \<Rightarrow> string" where
  "with_sign x s = (if fless x f0 then CHR ''-'' # s else s)"

text \<open>The number format of \<open>encoding/json\<close>, for a finite number.\<close>

definition json_float :: "float64 \<Rightarrow> string" where
  "json_float x =
     (if x = f0 then ''0''
      else let a = fabs x; (ds, dp) = shortest a
           in with_sign x
                (if fless a (f64 (1/1000000)) \<or> fle (f64 (ten 21)) a
                 then sci_text 1 ds dp else fixed_text ds dp))"

text \<open>The \<open>%v\<close> format of package fmt.\<close>

definition fmt_float :: "float64 \<Rightarrow> string" where
  "fmt_float x =
     (if x = fnan then ''NaN'' else if x = fposinf then ''+Inf'' else if x = fneginf then ''-Inf''
      else if x = f0 then ''0''
      else let (ds, dp) = shortest (fabs x)
           in with_sign x (if dp - 1 < -4 \<or> 6 \<le> dp - 1
                then sci_text 2 ds dp else fixed_text ds dp))"

section \<open>What is printed is read back\<close>

lemma fval_f64: "is_finite x \<Longrightarrow> f64 (fval x) = x"
  unfolding is_finite_def
  by transfer (auto simp: ieee_ok_def split: ieee.splits)

lemma ieee_grid:
  assumes "ieee_round q = Fin q"
  shows "\<exists>m. q = of_int m * 2 powi (-1074)"
proof -
  have pos: "\<exists>m. r = of_int m * 2 powi (-1074)" if "ieee_round_pos p = Fin r" for p r
  proof (cases "p = 0")
    case True
    with that show ?thesis by (auto simp: ieee_round_pos_def intro: exI [of _ 0])
  next
    case False
    with that have "r = of_int (round_even (p / 2 powi spacing p)) * 2 powi spacing p"
      by (auto simp: ieee_round_pos_def Let_def round_pos_def split: if_splits)
    moreover have "-1074 \<le> spacing p" by (simp add: spacing_def)
    ultimately show ?thesis using grid_refine by metis
  qed
  show ?thesis
  proof (cases "q < 0")
    case True
    with assms have "ieee_neg (ieee_round_pos (- q)) = Fin q" by (simp add: ieee_round_def)
    then have "ieee_round_pos (- q) = Fin (- q)" by (cases "ieee_round_pos (- q)") auto
    from pos [OF this] obtain m where "- q = of_int m * 2 powi (-1074)" by blast
    then have "q = of_int (- m) * 2 powi (-1074)" by simp
    then show ?thesis by blast
  next
    case False
    with assms pos show ?thesis by (simp add: ieee_round_def)
  qed
qed

lemma fval_grid:
  assumes "is_finite x"
  shows "\<exists>m. fval x * ten finest = of_int m"
proof -
  from assms have "ieee_round (fval x) = Fin (fval x)"
    unfolding is_finite_def by transfer (auto simp: ieee_ok_def split: ieee.splits)
  from ieee_grid [OF this] obtain m where m: "fval x = of_int m * 2 powi (- finest)"
    by (auto simp: finest_def)
  have "0 \<le> finest" by (simp add: finest_def)
  then obtain n where n: "finest = int n" using zero_le_imp_eq_int by blast
  have "(10::rat) ^ n = 2 ^ n * 5 ^ n" by (simp flip: power_mult_distrib)
  then have "(2::rat) powi (- int n) * ten (int n) = of_int (5 ^ n)"
    by (simp add: ten_def power_int_minus field_simps)
  then have "fval x * ten finest = of_int (m * 5 ^ n)" by (simp add: m n mult.assoc)
  then show ?thesis by blast
qed

lemma ten_pos [simp]: "0 < ten e"
  by (simp add: ten_def)

lemma ten_nonzero [simp]: "ten e \<noteq> 0"
  using ten_pos [of e] by linarith

lemma ten_add: "ten (a + b) = ten a * ten b"
  by (simp add: ten_def power_int_add)

lemma ten_0 [simp]: "ten 0 = 1"
  by (simp add: ten_def)

lemma ten_minus: "ten (- e) = 1 / ten e"
  by (simp add: ten_def power_int_minus inverse_eq_divide)

lemma ten_nat: "0 \<le> e \<Longrightarrow> ten e = of_int (10 ^ nat e)"
  by (simp add: ten_def power_int_def)

lemma closest_at_ok: "closest_at q x e = Some d \<Longrightarrow> f64 (of_int d / ten e) = x"
  by (auto simp: closest_at_def Let_def split: if_splits)

lemma closest_at_nonneg: "closest_at q x e = Some d \<Longrightarrow> 0 \<le> q \<Longrightarrow> 0 \<le> d"
proof -
  assume c: "closest_at q x e = Some d" and q: "0 \<le> q"
  have "0 \<le> \<lfloor>q * ten e\<rfloor>" using q ten_pos [of e] by (simp add: less_imp_le)
  with c show ?thesis by (auto simp: closest_at_def Let_def split: if_splits)
qed

lemma shortest_in_ok:
  assumes "is_finite x" and "q = fval x" and "0 \<le> q"
  shows "shortest_in q x dp ps = (d, e) \<Longrightarrow> f64 (of_int d / ten e) = x \<and> 0 \<le> d"
proof (induction ps)
  case Nil
  obtain m where m: "q * ten finest = of_int m" using fval_grid [OF assms(1)] assms(2) by blast
  then have d: "d = m" "e = finest" using Nil by simp_all
  with m have "of_int d / ten e = q" by (simp add: divide_eq_eq)
  moreover have "0 \<le> q * ten finest" using assms(3) ten_pos [of finest] by (simp add: less_imp_le)
  with m d have "0 \<le> d" by simp
  ultimately have "of_int d / ten e = q" "0 \<le> d" by simp_all
  then show ?case using fval_f64 [OF assms(1)] assms(2) by simp
next
  case (Cons p ps)
  then show ?case
    using closest_at_ok closest_at_nonneg assms(3) by (auto split: option.splits)
qed

lemma strip_zeros_append: "\<exists>n. s = strip_zeros s @ replicate n (CHR ''0'')"
proof -
  let ?P = "\<lambda>c. c = CHR ''0''"
  have "takeWhile ?P (rev s) = replicate (length (takeWhile ?P (rev s))) (CHR ''0'')"
    by (rule replicate_eqI [symmetric, THEN sym]) (auto dest: set_takeWhileD)
  moreover have "s = rev (dropWhile ?P (rev s)) @ rev (takeWhile ?P (rev s))"
    by (metis rev_append rev_rev_ident takeWhile_dropWhile_id)
  ultimately show ?thesis unfolding strip_zeros_def by (metis rev_replicate)
qed

lemma dec_val_zeros [simp]: "dec_val acc (replicate n (CHR ''0'')) = acc * 10 ^ n"
  by (induction n arbitrary: acc) (simp_all add: byte_def)

lemma list_all_zeros [simp]: "list_all is_digit (zeros n)"
  by (simp add: zeros_def list_all_iff is_digit_def byte_def)

lemma length_zeros [simp]: "length (zeros n) = nat n"
  by (simp add: zeros_def)

lemma dec_val_zeros_front [simp]: "dec_val 0 (zeros n @ s) = dec_val 0 s"
  by (simp add: zeros_def dec_val_append)

lemma dec_val_zeros_back: "dec_val 0 (s @ zeros n) = dec_val 0 s * 10 ^ nat n"
  by (simp add: zeros_def dec_val_append)

lemma span_digits:
  "list_all is_digit a \<Longrightarrow> \<not> is_digit c \<Longrightarrow> takeWhile is_digit (a @ c # r) = a \<and> dropWhile is_digit (a @ c # r) = c # r"
  "list_all is_digit a \<Longrightarrow> takeWhile is_digit a = a \<and> dropWhile is_digit a = []"
  by (induction a) simp_all

definition frac_text :: "string \<Rightarrow> string" where
  "frac_text fp = (if fp = [] then [] else CHR ''.'' # fp)"

definition expo_text :: "string option \<Rightarrow> string" where
  "expo_text e = (case e of None \<Rightarrow> [] | Some x \<Rightarrow> CHR ''e'' # x)"

lemma digit_0 [simp]: "is_digit (CHR ''0'')"
  by (simp add: is_digit_def byte_def)

lemma not_digit [simp]: "\<not> is_digit (CHR ''.'')" "\<not> is_digit (CHR ''e'')" "\<not> is_digit (CHR ''E'')"
    "\<not> is_digit (CHR ''-'')" "\<not> is_digit (CHR ''+'')"
  by (simp_all add: is_digit_def byte_def)

lemma token_value_parts:
  assumes "list_all is_digit ip" and "ip \<noteq> []" and "list_all is_digit fp"
  shows "token_value (ip @ frac_text fp @ expo_text e) =
    of_int (dec_val 0 (ip @ fp)) * ten (case_option 0 exp_value e - int (length fp))"
proof -
  obtain c r where ip: "ip = c # r" using assms(2) by (cases ip) auto
  then have "c \<noteq> CHR ''-''" using assms(1) digit_not_minus by simp
  with ip have sign: "sign_split (ip @ t) = (False, ip @ t)" for t by (simp add: sign_split_def)
  note facts = span_digits(1) [OF assms(1)] span_digits(2) [OF assms(1)]
    span_digits(1) [OF assms(3)] span_digits(2) [OF assms(3)] sign sign [of "[]", simplified]
  show ?thesis
    by (cases "fp = []"; cases e)
      (simp_all add: token_value_def facts Let_def frac_text_def expo_text_def)
qed

lemma token_value_neg: "s \<noteq> [] \<Longrightarrow> is_digit (hd s) \<Longrightarrow> token_value (CHR ''-'' # s) = - token_value s"
  by (cases s) (simp_all add: token_value_def sign_split_def digit_not_minus Let_def split_beta)

lemma zero_text [simp]: "list_all is_digit ''0''"
  by (simp add: is_digit_def byte_def)

lemma fixed_text_parts:
  assumes "list_all is_digit ds" and "ds \<noteq> []"
  obtains ip fp where "fixed_text ds dp = ip @ frac_text fp @ expo_text None"
    and "list_all is_digit ip" and "ip \<noteq> []" and "list_all is_digit fp"
    and "of_int (dec_val 0 (ip @ fp)) * ten (- int (length fp)) =
         of_int (dec_val 0 ds) * ten (dp - int (length ds))"
proof -
  consider "dp \<le> 0" | "0 < dp" "int (length ds) \<le> dp" | "0 < dp" "dp < int (length ds)" by linarith
  then show thesis
  proof cases
    case 1
    then show ?thesis
      using assms
      by (intro that [of "''0''" "zeros (- dp) @ ds"])
        (simp_all add: fixed_text_def frac_text_def expo_text_def byte_def)
  next
    case 2
    let ?z = "dp - int (length ds)"
    have "of_int (10 ^ nat ?z) = ten ?z" using 2 by (simp add: ten_nat)
    then show ?thesis
      using that [of "ds @ zeros ?z" "[]"] assms 2
      by (simp add: fixed_text_def frac_text_def expo_text_def dec_val_zeros_back ten_def)
  next
    case 3
    then have "list_all is_digit (take (nat dp) ds @ drop (nat dp) ds)" using assms(1) by simp
    with 3 assms show ?thesis
      by (intro that [of "take (nat dp) ds" "drop (nat dp) ds"])
        (auto simp: fixed_text_def frac_text_def expo_text_def list_all_iff dest: in_set_takeD in_set_dropD)
  qed
qed

lemma exp_text_value: "exp_value (exp_text w e) = e"
proof -
  have "dec_val 0 (zeros k @ dec_digits \<bar>e\<bar>) = \<bar>e\<bar>" for k
    using dec_digits_ok [of "\<bar>e\<bar>"] by simp
  then show ?thesis by (simp add: exp_value_def exp_text_def Let_def)
qed

lemma sci_text_parts:
  assumes "list_all is_digit ds" and "ds \<noteq> []"
  shows "sci_text w ds dp = take 1 ds @ frac_text (drop 1 ds) @ expo_text (Some (exp_text w (dp - 1)))"
    and "list_all is_digit (take 1 ds)" and "take 1 ds \<noteq> []" and "list_all is_digit (drop 1 ds)"
    and "of_int (dec_val 0 (take 1 ds @ drop 1 ds)) * ten (dp - 1 - int (length (drop 1 ds))) =
         of_int (dec_val 0 ds) * ten (dp - int (length ds))"
proof -
  obtain d r where ds: "ds = d # r" using assms(2) by (cases ds) auto
  show "sci_text w ds dp = take 1 ds @ frac_text (drop 1 ds) @ expo_text (Some (exp_text w (dp - 1)))"
    by (simp add: sci_text_def frac_text_def expo_text_def ds)
  show "list_all is_digit (take 1 ds)" "take 1 ds \<noteq> []" "list_all is_digit (drop 1 ds)"
    using assms(1) by (simp_all add: ds)
  show "of_int (dec_val 0 (take 1 ds @ drop 1 ds)) * ten (dp - 1 - int (length (drop 1 ds))) =
      of_int (dec_val 0 ds) * ten (dp - int (length ds))"
    by (simp add: ds algebra_simps)
qed

text \<open>The grammar of a JSON number without its sign.\<close>

definition number_parts :: "string \<Rightarrow> string \<Rightarrow> string option \<Rightarrow> bool" where
  "number_parts ip fp e \<longleftrightarrow>
     list_all is_digit ip \<and> ip \<noteq> [] \<and> (hd ip = CHR ''0'' \<longrightarrow> ip = ''0'') \<and> list_all is_digit fp \<and>
     (case e of None \<Rightarrow> True
      | Some x \<Rightarrow> \<exists>sg ds. x = sg # ds \<and> sg \<in> {CHR ''-'', CHR ''+''} \<and> ds \<noteq> [] \<and> list_all is_digit ds)"

lemma exp_text_shape:
  "\<exists>sg ds. exp_text w e = sg # ds \<and> sg \<in> {CHR ''-'', CHR ''+''} \<and> ds \<noteq> [] \<and> list_all is_digit ds"
  using dec_digits_ok [of "\<bar>e\<bar>"] by (auto simp: exp_text_def Let_def)

lemma fixed_number:
  assumes "list_all is_digit ds" and "ds \<noteq> []" and "hd ds \<noteq> CHR ''0''"
  obtains ip fp where "fixed_text ds dp = ip @ frac_text fp @ expo_text None"
    and "number_parts ip fp None"
    and "of_int (dec_val 0 (ip @ fp)) * ten (- int (length fp)) =
         of_int (dec_val 0 ds) * ten (dp - int (length ds))"
proof -
  obtain ip fp where p: "fixed_text ds dp = ip @ frac_text fp @ expo_text None"
    "list_all is_digit ip" "ip \<noteq> []" "list_all is_digit fp"
    "of_int (dec_val 0 (ip @ fp)) * ten (- int (length fp)) =
         of_int (dec_val 0 ds) * ten (dp - int (length ds))"
    by (rule fixed_text_parts [OF assms(1,2)])
  obtain d r where ds: "ds = d # r" using assms(2) by (cases ds) auto
  have "hd ip = CHR ''0'' \<longrightarrow> ip = ''0''"
  proof (cases "dp \<le> 0")
    case True
    then have "''0.'' @ zeros (- dp) @ ds = ip @ frac_text fp" using p(1) by (simp add: fixed_text_def expo_text_def)
    moreover have "CHR ''.'' \<notin> set ip" using p(2) by (auto simp: list_all_iff)
    ultimately show ?thesis using p(3) by (cases ip; cases "tl ip") auto
  next
    case False
    then have "hd (fixed_text ds dp) = d" by (auto simp: fixed_text_def ds)
    then show ?thesis using p(1,3) assms(3) by (simp add: ds)
  qed
  with p have "number_parts ip fp None" by (simp add: number_parts_def)
  with p that show ?thesis by blast
qed

lemma shortest_facts:
  assumes "is_finite x" and "fless f0 x" and "shortest x = (ds, dp)"
  shows "list_all is_digit ds" and "ds \<noteq> []" and "hd ds \<noteq> CHR ''0''"
    and "f64 (of_int (dec_val 0 ds) * ten (dp - int (length ds))) = x"
proof -
  obtain d e where de: "shortest_in (fval x) x (decimal_point (fval x)) [1..17] = (d, e)"
    by (cases "shortest_in (fval x) x (decimal_point (fval x)) [1..17]")
  let ?D = "dec_digits d"
  have xq: "f64 (fval x) = x" by (rule fval_f64 [OF assms(1)])
  have q: "0 \<le> fval x"
  proof (rule ccontr)
    assume "\<not> 0 \<le> fval x"
    then have "f64 (fval x) \<le> f64 0" by (intro f64_mono) simp
    with xq assms(2) show False by (simp add: fless_def not_le [symmetric])
  qed
  from shortest_in_ok [OF assms(1) refl q de] have fd: "f64 (of_int d / ten e) = x" and d: "0 \<le> d"
    by auto
  have d0: "d \<noteq> 0"
  proof
    assume "d = 0"
    with fd assms(2) show False by (simp add: fless_def)
  qed
  from dec_digits_ok [OF d] d0 have D: "dec_val 0 ?D = d" "list_all is_digit ?D" "?D \<noteq> []"
    "hd ?D \<noteq> CHR ''0''" by auto
  obtain n where n: "?D = strip_zeros ?D @ replicate n (CHR ''0'')" using strip_zeros_append by blast
  from assms(3) de have ds: "ds = strip_zeros ?D" and dp: "dp = int (length ?D) - e"
    by (simp_all add: shortest_def Let_def)
  from n ds have n': "?D = ds @ replicate n (CHR ''0'')" by simp
  with D(2) show "list_all is_digit ds" by (metis list_all_append)
  show ne: "ds \<noteq> []"
  proof
    assume "ds = []"
    with n' D(3,4) show False by (cases n) auto
  qed
  from n' D(4) ne show "hd ds \<noteq> CHR ''0''" by (metis hd_append2)
  have "d = dec_val 0 ds * 10 ^ n" using n' D(1) by (metis dec_val_append dec_val_zeros)
  moreover have "of_int (10 ^ n) = ten (int n)" by (simp add: ten_nat)
  moreover have "dp - int (length ds) = int n - e" using dp arg_cong [OF n', of length] by simp
  ultimately have "of_int (dec_val 0 ds) * ten (dp - int (length ds)) = of_int d / ten e"
    by (simp add: ten_add [of _ "- e", simplified] ten_minus)
  with fd show "f64 (of_int (dec_val 0 ds) * ten (dp - int (length ds))) = x" by simp
qed

lemma fabs_facts:
  assumes "is_finite x" and "x \<noteq> f0"
  shows "is_finite (fabs x)" and "fless f0 (fabs x)"
    and "f64 q = fabs x \<Longrightarrow> f64 (if fless x f0 then - q else q) = x"
proof -
  have neg: "fneg (f64 p) = f64 (- p)" for p
    by transfer (auto simp: ieee_round_def ieee_round_pos_def)
  have nn: "fneg (fneg x) = x" by transfer simp
  have xq: "f64 (fval x) = x" by (rule fval_f64 [OF assms(1)])
  have nf: "fless x f0 \<Longrightarrow> f0 < fneg x"
  proof -
    assume "fless x f0"
    then have "x < f0" by (simp add: fless_def)
    then have "\<not> 0 \<le> fval x" using xq f64_mono [of 0 "fval x"] by (auto simp: not_le [symmetric])
    then have "f0 \<le> fneg x" using neg [of "fval x"] xq f64_mono [of 0 "- fval x"] by simp
    moreover have "fneg x \<noteq> f0" using nn neg [of 0] assms(2) by auto
    ultimately show ?thesis by simp
  qed
  have "fneg x \<noteq> fnan \<and> fneg x \<noteq> fposinf \<and> fneg x \<noteq> fneginf"
    using assms(1) unfolding is_finite_def by transfer (metis ieee.distinct(1,3,5) ieee_neg.simps ieee_neg_neg)
  then show "is_finite (fabs x)" using assms(1) by (simp add: is_finite_def fabs_def)
  then show "fless f0 (fabs x)" using nf assms
    by (auto simp: fabs_def fless_def is_finite_def)
  show "f64 (if fless x f0 then - q else q) = x" if "f64 q = fabs x"
    using that nn neg [of q] by (auto simp: fabs_def split: if_splits)
qed

lemma json_float_shape:
  assumes "is_finite x"
  obtains sign ip fp e where "json_float x = (if sign then CHR ''-'' # ip @ frac_text fp @ expo_text e
      else ip @ frac_text fp @ expo_text e)"
    and "number_parts ip fp e"
    and "f64 (if sign then - token_value (ip @ frac_text fp @ expo_text e)
              else token_value (ip @ frac_text fp @ expo_text e)) = x"
proof (cases "x = f0")
  case True
  have "number_parts ''0'' [] None" by (simp add: number_parts_def)
  moreover from this have "token_value (''0'' @ frac_text [] @ expo_text None) = 0"
    using token_value_parts [of "''0''" "[]" None] by (simp add: byte_def)
  ultimately show ?thesis
    using that [of False "''0''" "[]" None] True
    by (simp add: json_float_def frac_text_def expo_text_def)
next
  case False
  note fa = fabs_facts [OF assms False]
  obtain ds dp where sh: "shortest (fabs x) = (ds, dp)" by (cases "shortest (fabs x)")
  note f = shortest_facts [OF fa(1,2) sh]
  let ?sci = "fless (fabs x) (f64 (1/1000000)) \<or> fle (f64 (ten 21)) (fabs x)"
  have "\<exists>ip fp e. (if ?sci then sci_text 1 ds dp else fixed_text ds dp) = ip @ frac_text fp @ expo_text e \<and>
      number_parts ip fp e \<and> f64 (token_value (ip @ frac_text fp @ expo_text e)) = fabs x"
  proof (cases ?sci)
    case True
    note p = sci_text_parts [OF f(1,2)]
    obtain d r where ds: "ds = d # r" using f(2) by (cases ds) auto
    have "number_parts (take 1 ds) (drop 1 ds) (Some (exp_text 1 (dp - 1)))"
      using p(2-4) f(3) exp_text_shape [of 1 "dp - 1"] by (auto simp: number_parts_def ds)
    moreover have "f64 (token_value (take 1 ds @ frac_text (drop 1 ds) @ expo_text (Some (exp_text 1 (dp - 1))))) = fabs x"
      using token_value_parts [OF p(2-4), of "Some (exp_text 1 (dp - 1))"] p(5) f(4)
      by (simp only: option.case exp_text_value)
    ultimately show ?thesis using True p(1) by metis
  next
    case False
    obtain ip fp where p: "fixed_text ds dp = ip @ frac_text fp @ expo_text None"
      "number_parts ip fp None"
      "of_int (dec_val 0 (ip @ fp)) * ten (- int (length fp)) =
         of_int (dec_val 0 ds) * ten (dp - int (length ds))"
      by (rule fixed_number [OF f(1-3)])
    have "token_value (ip @ frac_text fp @ expo_text None) =
        of_int (dec_val 0 ds) * ten (dp - int (length ds))"
      using token_value_parts [of ip fp None] p(2,3) by (simp add: number_parts_def)
    with f(4) have "f64 (token_value (ip @ frac_text fp @ expo_text None)) = fabs x" by simp
    with p(1,2) False show ?thesis by (intro exI [of _ ip] exI [of _ fp] exI [of _ None]) simp
  qed
  then obtain ip fp e where p: "(if ?sci then sci_text 1 ds dp else fixed_text ds dp) = ip @ frac_text fp @ expo_text e"
    "number_parts ip fp e" "f64 (token_value (ip @ frac_text fp @ expo_text e)) = fabs x" by blast
  show ?thesis
    by (rule that [of "fless x f0" ip fp e])
      (use p(1,2) False fa(3) [OF p(3)] in \<open>simp_all only: json_float_def Let_def sh with_sign_def if_False prod.case\<close>)
qed

lemma json_float_roundtrip: "is_finite x \<Longrightarrow> parse_float (json_float x) = Some x"
proof -
  assume x: "is_finite x"
  obtain sign ip fp e where s: "json_float x = (if sign then CHR ''-'' # ip @ frac_text fp @ expo_text e
      else ip @ frac_text fp @ expo_text e)"
    "number_parts ip fp e"
    "f64 (if sign then - token_value (ip @ frac_text fp @ expo_text e)
              else token_value (ip @ frac_text fp @ expo_text e)) = x"
    by (rule json_float_shape [OF x])
  from s(2) have "is_digit (hd (ip @ frac_text fp @ expo_text e))" "ip @ frac_text fp @ expo_text e \<noteq> []"
    by (auto simp: number_parts_def list_all_iff)
  with s have "f64 (token_value (json_float x)) = x" by (auto simp: token_value_neg)
  with x show ?thesis by (simp add: parse_float_def)
qed

end
