(* ===== verification/Go_Json.thy ===== *)
theory Go_Json
  imports Go_Text
begin

text \<open>
  The text level of \<open>encoding/json\<close>: string literals and their escapes, the grammar of a
  JSON text with the nesting limit of the package, and the compact printer. The syntax tree
  keeps literals as they are written (the body of a string, the numeral of a number), so
  that printing a tree is what \<open>Marshal\<close> does to a \<open>RawMessage\<close>. The fuel of the parser
  bounds its recursion; twice the length of the text is enough, and \<open>json_parse_print\<close>
  shows that printing and parsing are inverse.
\<close>

section \<open>String literals\<close>

definition hex_digit :: "int \<Rightarrow> char" where
  "hex_digit n = (if n < 10 then chr (48 + n) else chr (87 + n))"

definition hex_val :: "char \<Rightarrow> int option" where
  "hex_val c =
     (let b = byte c
      in if 48 \<le> b \<and> b \<le> 57 then Some (b - 48)
         else if 97 \<le> b \<and> b \<le> 102 then Some (b - 87)
         else if 65 \<le> b \<and> b \<le> 70 then Some (b - 55)
         else None)"

fun hex4 :: "string \<Rightarrow> (int \<times> string) option" where
  "hex4 (a # b # c # d # s) =
     (case (hex_val a, hex_val b, hex_val c, hex_val d) of
        (Some w, Some x, Some y, Some z) \<Rightarrow> Some (4096 * w + 256 * x + 16 * y + z, s)
      | _ \<Rightarrow> None)"
| "hex4 _ = None"

definition bs :: char where
  "bs = CHR 0x5C"

definition quote_char :: char where
  "quote_char = CHR 0x22"

text \<open>
  How a byte below 0x80 is written. The flag asks for the HTML escapes, which \<open>Marshal\<close>
  uses and \<open>SetEscapeHTML(false)\<close> turns off.
\<close>

definition escape_byte :: "bool \<Rightarrow> char \<Rightarrow> string" where
  "escape_byte html c =
     (if c = quote_char \<or> c = bs then [bs, c]
      else if c = CHR 0x08 then [bs, CHR ''b'']
      else if c = CHR 0x0C then [bs, CHR ''f'']
      else if c = CHR 0x0A then [bs, CHR ''n'']
      else if c = CHR 0x0D then [bs, CHR ''r'']
      else if c = CHR 0x09 then [bs, CHR ''t'']
      else if byte c < 0x20 \<or> (html \<and> c \<in> {CHR ''<'', CHR ''>'', CHR ''&''})
        then [bs, CHR ''u'', CHR ''0'', CHR ''0'', hex_digit (byte c div 16), hex_digit (byte c mod 16)]
      else [c])"

definition line_separator :: "string \<Rightarrow> bool" where
  "line_separator s \<longleftrightarrow> (case s of a # b # c # _ \<Rightarrow> byte a = 0xE2 \<and> byte b = 0x80 \<and> (byte c = 0xA8 \<or> byte c = 0xA9) | _ \<Rightarrow> False)"

text \<open>\<open>appendString\<close>: the body of the literal for a Go string.\<close>

function quote_body :: "bool \<Rightarrow> string \<Rightarrow> string" where
  "quote_body html [] = []"
| "quote_body html (c # s) =
     (if byte c < 0x80 then escape_byte html c @ quote_body html s
      else if utf8_len (c # s) = 0 then bs # ''ufffd'' @ quote_body html s
      else if line_separator (c # s)
        then bs # ''u202'' @ [hex_digit (byte (s ! 1) mod 16)] @ quote_body html (drop 2 s)
      else take (utf8_len (c # s)) (c # s) @ quote_body html (drop (utf8_len (c # s)) (c # s)))"
  by pat_completeness auto
termination by (relation "measure (\<lambda>(html, s). length s)") auto

declare quote_body.simps(2) [simp del]

text \<open>\<open>unquoteBytes\<close> on the body of a literal that the scanner accepted.\<close>

definition surrogate_pair :: "int \<Rightarrow> int \<Rightarrow> int option" where
  "surrogate_pair r1 r2 =
     (if 0xD800 \<le> r1 \<and> r1 < 0xDC00 \<and> 0xDC00 \<le> r2 \<and> r2 < 0xE000
      then Some (0x10000 + (r1 - 0xD800) * 1024 + (r2 - 0xDC00)) else None)"

definition unescape :: "char \<Rightarrow> char option" where
  "unescape e =
     (if e = quote_char \<or> e = bs \<or> e = CHR ''/'' then Some e
      else if e = CHR ''b'' then Some (CHR 0x08)
      else if e = CHR ''f'' then Some (CHR 0x0C)
      else if e = CHR ''n'' then Some (CHR 0x0A)
      else if e = CHR ''r'' then Some (CHR 0x0D)
      else if e = CHR ''t'' then Some (CHR 0x09)
      else None)"

definition low_half :: "string \<Rightarrow> (int \<times> string) option" where
  "low_half s = (case s of a # b # t \<Rightarrow> if a = bs \<and> b = CHR ''u'' then hex4 t else None | _ \<Rightarrow> None)"

lemma hex4_shorter: "hex4 s = Some (r, t) \<Longrightarrow> length t < length s"
  by (cases s rule: hex4.cases) (auto split: option.splits)

lemma low_half_shorter: "low_half s = Some (r, t) \<Longrightarrow> length t < length s"
  by (auto simp: low_half_def dest!: hex4_shorter split: list.splits if_splits)

text \<open>One escape sequence after its backslash: the bytes it stands for and what follows.\<close>

definition unquote_escape :: "string \<Rightarrow> (string \<times> string) option" where
  "unquote_escape s =
     (case s of
        [] \<Rightarrow> None
      | e # t \<Rightarrow>
          if e = CHR ''u'' then
            (case hex4 t of
               None \<Rightarrow> None
             | Some (r, t') \<Rightarrow>
                 if 0xD800 \<le> r \<and> r < 0xE000 then
                   (case low_half t' of
                      None \<Rightarrow> Some (replacement, t')
                    | Some (r2, t'') \<Rightarrow>
                        (case surrogate_pair r r2 of
                           None \<Rightarrow> Some (replacement, t')
                         | Some p \<Rightarrow> Some (utf8_encode p, t'')))
                 else Some (utf8_encode r, t'))
          else map_option (\<lambda>c. ([c], t)) (unescape e))"

lemma unquote_escape_shorter: "unquote_escape s = Some (b, t) \<Longrightarrow> length t < length s"
  by (auto simp: unquote_escape_def split: list.splits if_splits option.splits
      dest!: hex4_shorter low_half_shorter)

function unquote :: "string \<Rightarrow> string option" where
  "unquote [] = Some []"
| "unquote (c # s) =
     (if c = bs then
        (case unquote_escape s of None \<Rightarrow> None | Some (b, t) \<Rightarrow> map_option (append b) (unquote t))
      else if c = quote_char \<or> byte c < 0x20 then None
      else if byte c < 0x80 then map_option (Cons c) (unquote s)
      else if utf8_len (c # s) = 0 then map_option (append replacement) (unquote s)
      else map_option (append (take (utf8_len (c # s)) (c # s))) (unquote (drop (utf8_len (c # s)) (c # s))))"
  by pat_completeness auto
termination
  by (relation "measure length") (auto dest: unquote_escape_shorter)

declare unquote.simps(2) [simp del]

fun valid_utf8 :: "nat \<Rightarrow> string \<Rightarrow> bool" where
  "valid_utf8 n [] = True"
| "valid_utf8 0 s = False"
| "valid_utf8 (Suc n) s = (utf8_len s \<noteq> 0 \<and> valid_utf8 n (drop (utf8_len s) s))"

definition utf8_valid :: "string \<Rightarrow> bool" where
  "utf8_valid s = valid_utf8 (length s) s"

lemma hex_val_digit: "0 \<le> n \<Longrightarrow> n < 16 \<Longrightarrow> hex_val (hex_digit n) = Some n"
  by (auto simp: hex_val_def hex_digit_def byte_chr Let_def)

lemma hex_val_chars [simp]:
  "hex_val (CHR ''0'') = Some 0" "hex_val (CHR ''2'') = Some 2" "hex_val (CHR ''f'') = Some 15"
  "hex_val (CHR ''d'') = Some 13"
  by (simp_all add: hex_val_def byte_def)

lemma unquote_plain: "c \<noteq> bs \<Longrightarrow> c \<noteq> quote_char \<Longrightarrow> 0x20 \<le> byte c \<Longrightarrow> byte c < 0x80 \<Longrightarrow>
    unquote (c # r) = map_option (Cons c) (unquote r)"
  by (simp add: unquote.simps)

lemma unquote_bs: "unquote (bs # s) =
    (case unquote_escape s of None \<Rightarrow> None | Some (b, t) \<Rightarrow> map_option (append b) (unquote t))"
  by (simp add: unquote.simps)

lemma map_option_append_Cons: "map_option (append [c]) x = map_option (Cons c) x"
  by (cases x) simp_all

lemma utf8_encode_byte: "byte c < 0x80 \<Longrightarrow> utf8_encode (byte c) = [c]"
  using byte_bounds [of c] by (simp add: utf8_encode_def)

lemma unquote_escape_byte:
  assumes "byte c < 0x80"
  shows "unquote (escape_byte html c @ r) = map_option (Cons c) (unquote r)"
proof -
  have u: "unquote (bs # e # r) = map_option (Cons d) (unquote r)"
    if "unescape e = Some d" "e \<noteq> CHR ''u''" for e d
    using that by (simp add: unquote_bs unquote_escape_def map_option_append_Cons)
  have h: "unquote ([bs, CHR ''u'', CHR ''0'', CHR ''0'', hex_digit (byte c div 16), hex_digit (byte c mod 16)] @ r) =
      map_option (Cons c) (unquote r)"
  proof -
    have "hex_val (hex_digit (byte c div 16)) = Some (byte c div 16)"
      "hex_val (hex_digit (byte c mod 16)) = Some (byte c mod 16)"
      using byte_bounds [of c] assms by (auto intro!: hex_val_digit)
    then show ?thesis using assms
      by (simp add: unquote_bs unquote_escape_def utf8_encode_byte map_option_append_Cons)
  qed
  have sp: "unescape bs = Some bs" "unescape quote_char = Some quote_char" "bs \<noteq> CHR ''u''"
    "quote_char \<noteq> CHR ''u''" "unescape (CHR ''b'') = Some (CHR 0x08)" "unescape (CHR ''f'') = Some (CHR 0x0C)"
    "unescape (CHR ''n'') = Some (CHR 0x0A)" "unescape (CHR ''r'') = Some (CHR 0x0D)"
    "unescape (CHR ''t'') = Some (CHR 0x09)"
    by (simp_all add: unescape_def bs_def quote_char_def)
  show ?thesis
  proof (cases "escape_byte html c = [c]")
    case True
    then have "c \<noteq> bs" "c \<noteq> quote_char" "0x20 \<le> byte c"
      by (auto simp: escape_byte_def split: if_splits)
    with True assms show ?thesis by (simp add: unquote_plain)
  next
    case False
    then show ?thesis
      unfolding escape_byte_def using h u sp by (auto split: if_splits)
  qed
qed

lemma utf8_len_prefix:
  assumes "utf8_len s = n" and "n \<noteq> 0"
  shows "utf8_len (take n s @ r) = n"
proof (cases s)
  case Nil
  with assms show ?thesis by simp
next
  case (Cons a t)
  show ?thesis using assms unfolding Cons
    by (auto split: if_splits list.splits)
qed

lemma utf8_single: "byte c < 0x80 \<Longrightarrow> utf8_len (c # s) = 1"
  by simp

lemma unquote_ufffd: "unquote (bs # ''ufffd'' @ r) = map_option (append replacement) (unquote r)"
proof -
  have "utf8_encode 65533 = replacement" by (simp add: utf8_encode_def replacement_def)
  then show ?thesis by (simp add: unquote_bs unquote_escape_def)
qed

lemma unquote_separator:
  assumes "n = 8 \<or> n = (9::int)"
  shows "unquote (bs # ''u202'' @ hex_digit n # r) =
    map_option (append [chr 0xE2, chr 0x80, chr (0xA0 + n)]) (unquote r)"
proof -
  have "hex_val (hex_digit n) = Some n" using assms by (intro hex_val_digit) auto
  moreover have "utf8_encode (8224 + n) = [chr 0xE2, chr 0x80, chr (0xA0 + n)]"
    using assms by (auto simp: utf8_encode_def)
  ultimately show ?thesis using assms by (auto simp: unquote_bs unquote_escape_def add.commute)
qed

lemma unquote_multi:
  assumes "0x80 \<le> byte c" and "utf8_len (c # s) \<noteq> 0"
  shows "unquote (take (utf8_len (c # s)) (c # s) @ r) =
    map_option (append (take (utf8_len (c # s)) (c # s))) (unquote r)"
proof -
  let ?n = "utf8_len (c # s)"
  obtain m where m: "?n = Suc m" using assms(2) by (cases ?n) auto
  have len: "length (take ?n (c # s)) = ?n" using utf8_len_bound [of "c # s"] by (simp del: utf8_len.simps)
  have p: "utf8_len (take ?n (c # s) @ r) = ?n" by (rule utf8_len_prefix [OF refl assms(2)])
  have nb: "c \<noteq> bs" "c \<noteq> quote_char" "\<not> byte c < 0x20" "\<not> byte c < 0x80"
    using assms(1) by (auto simp: bs_def quote_char_def byte_def)
  have e: "take ?n (c # s) @ r = c # (take m s @ r)" by (simp add: m del: utf8_len.simps)
  have "unquote (take ?n (c # s) @ r) = map_option (append (take ?n (take ?n (c # s) @ r)))
      (unquote (drop ?n (take ?n (c # s) @ r)))"
    using nb p assms(2) unfolding e by (simp add: unquote.simps(2) del: utf8_len.simps)
  then show ?thesis using len by simp
qed

lemma quote_roundtrip_fuel: "valid_utf8 n s \<Longrightarrow> unquote (quote_body html s) = Some s"
proof (induction n s rule: valid_utf8.induct)
  case (3 n c s)
  let ?k = "utf8_len (c # s)"
  from "3.prems" have k: "?k \<noteq> 0" and v: "valid_utf8 n (drop ?k (c # s))"
    by (simp_all del: utf8_len.simps)
  note IH = "3.IH" [OF v]
  show ?case
  proof (cases "byte c < 0x80")
    case True
    with IH show ?thesis by (simp add: quote_body.simps unquote_escape_byte)
  next
    case False
    show ?thesis
    proof (cases "line_separator (c # s)")
      case True
      then obtain b d t where s: "s = b # d # t" "byte c = 0xE2" "byte b = 0x80" "byte d = 0xA8 \<or> byte d = 0xA9"
        by (auto simp: line_separator_def split: list.splits)
      then have k3: "?k = 3" by (auto simp: cont_def)
      have d: "byte d mod 16 = 8 \<or> byte d mod 16 = 9" "chr (0xA0 + byte d mod 16) = d"
        using s(4) by (auto simp: byte_inj byte_chr intro!: byte_inj [of _ d])
      have cb: "chr 0xE2 = c" "chr 0x80 = b" using s(2,3) by (auto intro!: byte_inj simp: byte_chr)
      from IH k3 s(1) have "unquote (quote_body html t) = Some t" by (simp del: utf8_len.simps)
      with False True k unquote_separator [OF d(1), of "quote_body html t"] d(2) cb show ?thesis
        by (simp add: quote_body.simps s(1) del: utf8_len.simps)
    next
      case nsep: False
      then have "quote_body html (c # s) = take ?k (c # s) @ quote_body html (drop ?k (c # s))"
        using False k by (simp add: quote_body.simps(2) del: utf8_len.simps)
      with IH unquote_multi [of c s] False k show ?thesis
        by (simp del: utf8_len.simps)
    qed
  qed
qed simp_all

lemma quote_roundtrip: "utf8_valid s \<Longrightarrow> unquote (quote_body html s) = Some s"
  unfolding utf8_valid_def by (rule quote_roundtrip_fuel)

end
