(* ===== verification/Go_Parse.thy ===== *)
theory Go_Parse
  imports Go_Json
begin

text \<open>
  The grammar of \<open>encoding/json\<close>: the scanner for literals, the recursive-descent reading of
  values with the nesting limit of the package, the members of an object with the bytes of
  each value (what a \<open>RawMessage\<close> receives), and the compact printer.
\<close>

datatype json =
    JNull
  | JBool bool
  | JNum string
  | JStr string
  | JArr "json list"
  | JObj "(string \<times> json) list"

section \<open>Literals\<close>

fun scan_string :: "string \<Rightarrow> (string \<times> string) option" where
  "scan_string [] = None"
| "scan_string (c # s) =
     (if c = quote_char then Some ([], s)
      else if byte c < 0x20 then None
      else if c = bs then
        (case s of
           [] \<Rightarrow> None
         | e # t \<Rightarrow>
             if e = CHR ''u'' \<and> hex4 t = None then None
             else if e \<noteq> CHR ''u'' \<and> unescape e = None then None
             else map_option (\<lambda>(b, r). (c # e # b, r)) (scan_string t))
      else map_option (\<lambda>(b, r). (c # b, r)) (scan_string s))"

text \<open>\<open>-?(0|[1-9][0-9]*)(.[0-9]+)?([eE][+-]?[0-9]+)?\<close>\<close>

definition scan_digits :: "string \<Rightarrow> (string \<times> string) option" where
  "scan_digits s = (let d = takeWhile is_digit s in if d = [] then None else Some (d, dropWhile is_digit s))"

definition scan_int :: "string \<Rightarrow> (string \<times> string) option" where
  "scan_int s = (case s of c # r \<Rightarrow> if c = CHR ''0'' then Some ([c], r) else scan_digits s | [] \<Rightarrow> None)"

definition scan_frac :: "string \<Rightarrow> (string \<times> string) option" where
  "scan_frac s =
     (case s of
        c # r \<Rightarrow> if c = CHR ''.'' then map_option (\<lambda>(d, t). (c # d, t)) (scan_digits r) else Some ([], s)
      | [] \<Rightarrow> Some ([], []))"

definition scan_exp :: "string \<Rightarrow> (string \<times> string) option" where
  "scan_exp s =
     (case s of
        c # r \<Rightarrow>
          if c = CHR ''e'' \<or> c = CHR ''E'' then
            (case r of
               sg # r' \<Rightarrow>
                 if sg = CHR ''+'' \<or> sg = CHR ''-'' then map_option (\<lambda>(d, t). (c # sg # d, t)) (scan_digits r')
                 else map_option (\<lambda>(d, t). (c # d, t)) (scan_digits r)
             | [] \<Rightarrow> None)
          else Some ([], s)
      | [] \<Rightarrow> Some ([], []))"

definition scan_number :: "string \<Rightarrow> (string \<times> string) option" where
  "scan_number s =
     (let (neg, r) = sign_split s in
      case scan_int r of
        None \<Rightarrow> None
      | Some (ip, r1) \<Rightarrow>
          (case scan_frac r1 of
             None \<Rightarrow> None
           | Some (fp, r2) \<Rightarrow>
               map_option (\<lambda>(e, r3). ((if neg then [CHR ''-''] else []) @ ip @ fp @ e, r3)) (scan_exp r2)))"

definition json_space :: "char \<Rightarrow> bool" where
  "json_space c \<longleftrightarrow> c \<in> {CHR '' '', CHR 0x09, CHR 0x0A, CHR 0x0D}"

definition skip_ws :: "string \<Rightarrow> string" where
  "skip_ws s = dropWhile json_space s"

definition expect :: "string \<Rightarrow> 'a \<Rightarrow> string \<Rightarrow> ('a \<times> string) option" where
  "expect w v s = (if take (length w) s = w then Some (v, drop (length w) s) else None)"

section \<open>Values\<close>

text \<open>The third argument counts the levels of nesting that are still allowed.\<close>

fun parse_value :: "nat \<Rightarrow> int \<Rightarrow> string \<Rightarrow> (json \<times> string) option"
  and parse_elements :: "nat \<Rightarrow> int \<Rightarrow> string \<Rightarrow> (json list \<times> string) option"
  and parse_members :: "nat \<Rightarrow> int \<Rightarrow> string \<Rightarrow> ((string \<times> string \<times> json) list \<times> string) option"
where
  "parse_value 0 d s = None"
| "parse_value (Suc n) d s =
     (case skip_ws s of
        [] \<Rightarrow> None
      | c # r \<Rightarrow>
          if c = quote_char then map_option (\<lambda>(b, t). (JStr b, t)) (scan_string r)
          else if c = CHR ''{'' then
            (if d \<le> 0 then None
             else case skip_ws r of
                 [] \<Rightarrow> None
               | e # t \<Rightarrow>
                   if e = CHR ''}'' then Some (JObj [], t)
                   else map_option (\<lambda>(ms, u). (JObj (map (\<lambda>(k, raw, v). (k, v)) ms), u))
                          (parse_members n (d - 1) r))
          else if c = CHR ''['' then
            (if d \<le> 0 then None
             else case skip_ws r of
                 [] \<Rightarrow> None
               | e # t \<Rightarrow>
                   if e = CHR '']'' then Some (JArr [], t)
                   else map_option (\<lambda>(vs, u). (JArr vs, u)) (parse_elements n (d - 1) r))
          else if c = CHR ''t'' then expect ''true'' (JBool True) (c # r)
          else if c = CHR ''f'' then expect ''false'' (JBool False) (c # r)
          else if c = CHR ''n'' then expect ''null'' JNull (c # r)
          else map_option (\<lambda>(tok, t). (JNum tok, t)) (scan_number (c # r)))"
| "parse_elements 0 d s = None"
| "parse_elements (Suc n) d s =
     (case parse_value n d s of
        None \<Rightarrow> None
      | Some (v, r) \<Rightarrow>
          (case skip_ws r of
             [] \<Rightarrow> None
           | c # t \<Rightarrow>
               if c = CHR '','' then map_option (\<lambda>(vs, u). (v # vs, u)) (parse_elements n d t)
               else if c = CHR '']'' then Some ([v], t)
               else None))"
| "parse_members 0 d s = None"
| "parse_members (Suc n) d s =
     (case skip_ws s of
        [] \<Rightarrow> None
      | q # r \<Rightarrow>
          if q \<noteq> quote_char then None
          else
            case scan_string r of
              None \<Rightarrow> None
            | Some (k, r1) \<Rightarrow>
                (case skip_ws r1 of
                   [] \<Rightarrow> None
                 | colon # r2 \<Rightarrow>
                     if colon \<noteq> CHR '':'' then None
                     else
                       case parse_value n d r2 of
                         None \<Rightarrow> None
                       | Some (v, r3) \<Rightarrow>
                           let raw = take (length (skip_ws r2) - length r3) (skip_ws r2) in
                           (case skip_ws r3 of
                              [] \<Rightarrow> None
                            | c # r4 \<Rightarrow>
                                if c = CHR '','' then
                                  map_option (\<lambda>(ms, u). ((k, raw, v) # ms, u)) (parse_members n d r4)
                                else if c = CHR ''}'' then Some ([(k, raw, v)], r4)
                                else None)))"

definition parse_fuel :: "string \<Rightarrow> nat" where
  "parse_fuel s = 2 * length s + 2"

definition max_depth :: int where
  "max_depth = 10000"

text \<open>\<open>checkValid\<close> and the tree: the whole text must be one value.\<close>

definition json_parse :: "string \<Rightarrow> json option" where
  "json_parse s =
     (case parse_value (parse_fuel s) max_depth s of
        None \<Rightarrow> None
      | Some (v, r) \<Rightarrow> if skip_ws r = [] then Some v else None)"

text \<open>The members of a text that is an object, each with its own bytes; None for any other text.\<close>

definition json_members :: "string \<Rightarrow> (string \<times> string \<times> json) list option" where
  "json_members s =
     (case skip_ws s of
        [] \<Rightarrow> None
      | c # r \<Rightarrow>
          if c \<noteq> CHR ''{'' then None
          else case skip_ws r of
              [] \<Rightarrow> None
            | e # t \<Rightarrow>
                if e = CHR ''}'' then (if skip_ws t = [] then Some [] else None)
                else (case parse_members (parse_fuel s) (max_depth - 1) r of
                        None \<Rightarrow> None
                      | Some (ms, u) \<Rightarrow> if skip_ws u = [] then Some ms else None))"

section \<open>Printing\<close>

fun join_comma :: "string list \<Rightarrow> string" where
  "join_comma [] = []"
| "join_comma [x] = x"
| "join_comma (x # y # xs) = x @ CHR '','' # join_comma (y # xs)"

definition quoted :: "string \<Rightarrow> string" where
  "quoted b = quote_char # b @ [quote_char]"

fun json_print :: "json \<Rightarrow> string" where
  "json_print JNull = ''null''"
| "json_print (JBool b) = (if b then ''true'' else ''false'')"
| "json_print (JNum tok) = tok"
| "json_print (JStr b) = quoted b"
| "json_print (JArr vs) = CHR ''['' # join_comma (map json_print vs) @ '']''"
| "json_print (JObj ms) =
     CHR ''{'' # join_comma (map (\<lambda>(k, v). quoted k @ CHR '':'' # json_print v) ms) @ ''}''"

section \<open>Parsing is the inverse of printing\<close>

definition delim :: "string \<Rightarrow> bool" where
  "delim r \<longleftrightarrow> (case r of [] \<Rightarrow> True | c # _ \<Rightarrow> c \<in> {CHR '','', CHR '']'', CHR ''}''})"

definition body_ok :: "string \<Rightarrow> bool" where
  "body_ok b \<longleftrightarrow> scan_string (b @ [quote_char]) = Some (b, [])"

definition number_ok :: "string \<Rightarrow> bool" where
  "number_ok tok \<longleftrightarrow> scan_number tok = Some (tok, [])"

fun wf_json :: "json \<Rightarrow> bool" where
  "wf_json (JNum tok) = number_ok tok"
| "wf_json (JStr b) = body_ok b"
| "wf_json (JArr vs) = (\<forall>v \<in> set vs. wf_json v)"
| "wf_json (JObj ms) = (\<forall>(k, v) \<in> set ms. body_ok k \<and> wf_json v)"
| "wf_json _ = True"

fun json_depth :: "json \<Rightarrow> int" where
  "json_depth (JArr vs) = 1 + foldr max (map json_depth vs) 0"
| "json_depth (JObj ms) = 1 + foldr max (map (\<lambda>(k, v). json_depth v) ms) 0"
| "json_depth _ = 0"

fun json_need :: "json \<Rightarrow> nat" where
  "json_need (JArr vs) = 1 + sum_list (map (\<lambda>v. json_need v + 1) vs)"
| "json_need (JObj ms) = 1 + sum_list (map (\<lambda>(k, v). json_need v + 1) ms)"
| "json_need _ = 1"

lemma hex4_extend: "hex4 s = Some (x, t) \<Longrightarrow> hex4 (s @ r) = Some (x, t @ r)"
  by (cases s rule: hex4.cases) (auto split: option.splits)

lemma scan_string_extend: "scan_string s = Some (b, t) \<Longrightarrow> scan_string (s @ r) = Some (b, t @ r)"
proof (induction s arbitrary: b t rule: scan_string.induct)
  case (2 c s)
  show ?case
  proof (cases "c = bs \<and> c \<noteq> quote_char \<and> \<not> byte c < 0x20")
    case True
    then show ?thesis using "2.prems" "2.IH"(1)
      by (auto split: list.splits if_splits dest: hex4_extend [of _ _ _ r])
  next
    case False
    then show ?thesis using "2.prems" "2.IH"(2) by (auto split: if_splits)
  qed
qed simp

lemma body_ok_scan: "body_ok b \<Longrightarrow> scan_string (b @ quote_char # r) = Some (b, r)"
  unfolding body_ok_def by (drule scan_string_extend [where r = r]) simp

lemma delim_digit: "delim r \<Longrightarrow> r = [] \<or> (\<exists>c t. r = c # t \<and> \<not> is_digit c \<and> c \<noteq> CHR ''.'' \<and> c \<noteq> CHR ''e'' \<and> c \<noteq> CHR ''E'')"
  by (auto simp: delim_def is_digit_def byte_def split: list.splits)

lemma span_append:
  "delim r \<Longrightarrow> takeWhile is_digit (s @ r) = takeWhile is_digit s \<and> dropWhile is_digit (s @ r) = dropWhile is_digit s @ r"
  by (induction s) (auto dest!: delim_digit)

lemma scan_digits_extend: "delim r \<Longrightarrow> scan_digits s = Some (d, t) \<Longrightarrow> scan_digits (s @ r) = Some (d, t @ r)"
  using span_append [of r s] by (auto simp: scan_digits_def Let_def split: if_splits)

lemma scan_int_extend: "delim r \<Longrightarrow> scan_int s = Some (d, t) \<Longrightarrow> scan_int (s @ r) = Some (d, t @ r)"
  using scan_digits_extend [of r s] by (auto simp: scan_int_def split: list.splits if_splits)

lemma scan_frac_extend: "delim r \<Longrightarrow> scan_frac s = Some (d, t) \<Longrightarrow> scan_frac (s @ r) = Some (d, t @ r)"
  using delim_digit [of r] scan_digits_extend [of r "tl s"]
  by (cases s) (auto simp: scan_frac_def split: list.splits if_splits)

lemma scan_exp_extend: "delim r \<Longrightarrow> scan_exp s = Some (d, t) \<Longrightarrow> scan_exp (s @ r) = Some (d, t @ r)"
proof -
  assume h: "delim r" "scan_exp s = Some (d, t)"
  note e = scan_digits_extend [OF h(1)]
  show ?thesis
  proof (cases s)
    case Nil
    then show ?thesis using h delim_digit [OF h(1)] by (auto simp: scan_exp_def)
  next
    case (Cons c s')
    then show ?thesis using h(2) e [of s'] e [of "tl s'"]
      by (cases s') (auto simp: scan_exp_def split: if_splits)
  qed
qed

lemma scan_number_extend:
  assumes "delim r" and "scan_number s = Some (tok, t)"
  shows "scan_number (s @ r) = Some (tok, t @ r)"
proof -
  have s: "s \<noteq> []" using assms(2) by (auto simp: scan_number_def sign_split_def scan_int_def)
  obtain neg u where sg: "sign_split s = (neg, u)" by (cases "sign_split s")
  with s have sg': "sign_split (s @ r) = (neg, u @ r)" by (cases s) (auto simp: sign_split_def split: if_splits)
  from assms(2) sg obtain ip r1 fp r2 e where
    p: "scan_int u = Some (ip, r1)" "scan_frac r1 = Some (fp, r2)" "scan_exp r2 = Some (e, t)"
      "tok = (if neg then [CHR ''-''] else []) @ ip @ fp @ e"
    by (auto simp: scan_number_def split: option.splits)
  with sg' scan_int_extend [OF assms(1) p(1)] scan_frac_extend [OF assms(1) p(2)] scan_exp_extend [OF assms(1) p(3)]
  show ?thesis by (simp add: scan_number_def)
qed

lemma number_ok_scan: "number_ok tok \<Longrightarrow> delim r \<Longrightarrow> scan_number (tok @ r) = Some (tok, r)"
  using scan_number_extend [of r tok tok "[]"] by (simp add: number_ok_def)

lemma number_ok_hd:
  assumes "number_ok tok"
  shows "tok \<noteq> []" and "hd tok = CHR ''-'' \<or> is_digit (hd tok)"
proof -
  show ne: "tok \<noteq> []" using assms by (auto simp: number_ok_def scan_number_def sign_split_def scan_int_def)
  obtain c t where tok: "tok = c # t" using ne by (cases tok) auto
  show "hd tok = CHR ''-'' \<or> is_digit (hd tok)"
    using assms by (auto simp: number_ok_def scan_number_def sign_split_def scan_int_def scan_digits_def tok Let_def
        split: if_splits option.splits)
qed

lemma skip_ws_stop: "\<not> json_space c \<Longrightarrow> skip_ws (c # s) = c # s"
  by (simp add: skip_ws_def)

lemma space_chars [simp]:
  "\<not> json_space quote_char" "\<not> json_space (CHR ''{'')" "\<not> json_space (CHR ''['')" "\<not> json_space (CHR ''t'')"
  "\<not> json_space (CHR ''f'')" "\<not> json_space (CHR ''n'')" "\<not> json_space (CHR '','')" "\<not> json_space (CHR '']'')"
  "\<not> json_space (CHR ''}'')" "\<not> json_space (CHR '':'')" "\<not> json_space (CHR ''-'')" "is_digit c \<Longrightarrow> \<not> json_space c"
  by (auto simp: json_space_def quote_char_def is_digit_def byte_def)

lemma json_print_hd:
  assumes "wf_json v"
  obtains c t where "json_print v = c # t" and "\<not> json_space c" and "c \<noteq> CHR '']''" and "c \<noteq> CHR ''}''"
proof (cases v)
  case (JNum tok)
  with assms have ok: "number_ok tok" by simp
  obtain c t where "tok = c # t" using number_ok_hd(1) [OF ok] by (cases tok) auto
  moreover from this number_ok_hd(2) [OF ok] have c: "c = CHR ''-'' \<or> is_digit c" by simp
  then have "\<not> json_space c" "c \<noteq> CHR '']''" "c \<noteq> CHR ''}''" by (auto simp: is_digit_def byte_def)
  ultimately show thesis using that [of c t] JNum by simp
next
  case (JBool b)
  then show thesis using that by (cases b) (auto simp: json_space_def)
qed (use that in \<open>auto simp: quoted_def quote_char_def json_space_def split: if_splits\<close>)

lemma join_comma_Cons: "xs \<noteq> [] \<Longrightarrow> join_comma (x # xs) = x @ CHR '','' # join_comma xs"
  by (cases xs) simp_all

lemma delim_simps [simp]: "delim (CHR '','' # r)" "delim (CHR '']'' # r)" "delim (CHR ''}'' # r)" "delim []"
  by (simp_all add: delim_def)

definition parses :: "json \<Rightarrow> bool" where
  "parses v \<longleftrightarrow> (\<forall>n d r. json_need v \<le> n \<longrightarrow> json_depth v \<le> d \<longrightarrow> delim r \<longrightarrow>
     parse_value n d (json_print v @ r) = Some (v, r))"

lemma parse_elements_print:
  "\<forall>v \<in> set vs. wf_json v \<and> parses v \<and> json_depth v \<le> d \<Longrightarrow> vs \<noteq> [] \<Longrightarrow>
   sum_list (map (\<lambda>v. json_need v + 1) vs) \<le> n \<Longrightarrow>
   parse_elements n d (join_comma (map json_print vs) @ CHR '']'' # r) = Some (vs, r)"
proof (induction vs arbitrary: n)
  case (Cons v vs)
  then obtain m where n: "n = Suc m" by (cases n) auto
  have v: "parse_value m d (json_print v @ t) = Some (v, t)" if "delim t" for t
    using Cons.prems n that by (auto simp: parses_def)
  show ?case
  proof (cases "vs = []")
    case True
    then show ?thesis by (simp add: n v skip_ws_stop)
  next
    case False
    then have "parse_elements m d (join_comma (map json_print vs) @ CHR '']'' # r) = Some (vs, r)"
      using Cons.prems n by (intro Cons.IH) auto
    with False show ?thesis by (simp add: n v skip_ws_stop join_comma_Cons)
  qed
qed simp

abbreviation print_member :: "string \<times> json \<Rightarrow> string" where
  "print_member \<equiv> \<lambda>(k, v). quoted k @ CHR '':'' # json_print v"

lemma parse_members_print:
  "\<forall>(k, v) \<in> set ms. body_ok k \<and> wf_json v \<and> parses v \<and> json_depth v \<le> d \<Longrightarrow> ms \<noteq> [] \<Longrightarrow>
   sum_list (map (\<lambda>(k, v). json_need v + 1) ms) \<le> n \<Longrightarrow>
   parse_members n d (join_comma (map print_member ms) @ CHR ''}'' # r) =
     Some (map (\<lambda>(k, v). (k, json_print v, v)) ms, r)"
proof (induction ms arbitrary: n)
  case (Cons m ms)
  obtain k v where kv: "m = (k, v)" by (cases m)
  from Cons.prems kv obtain j where n: "n = Suc j" by (cases n) auto
  have k: "body_ok k" "wf_json v" using Cons.prems kv by simp_all
  have v: "parse_value j d (json_print v @ t) = Some (v, t)" if "delim t" for t
    using Cons.prems n that kv by (auto simp: parses_def)
  obtain c t where "json_print v = c # t" "\<not> json_space c" by (rule json_print_hd [OF k(2)])
  then have sk: "skip_ws (json_print v @ u) = json_print v @ u" for u by (simp add: skip_ws_stop)
  show ?case
  proof (cases "ms = []")
    case True
    then show ?thesis by (simp add: n v skip_ws_stop kv quoted_def body_ok_scan [OF k(1)] sk)
  next
    case False
    then have "parse_members j d (join_comma (map print_member ms) @ CHR ''}'' # r) =
        Some (map (\<lambda>(k, v). (k, json_print v, v)) ms, r)"
      using Cons.prems n kv by (intro Cons.IH) auto
    with False show ?thesis
      by (simp add: n v skip_ws_stop join_comma_Cons kv quoted_def body_ok_scan [OF k(1)] sk)
  qed
qed simp

lemma foldr_max_le: "x \<in> set xs \<Longrightarrow> x \<le> foldr max xs (0::int)"
  by (induction xs) auto

lemma parses_all: "wf_json v \<Longrightarrow> parses v"
proof (induction v)
  case (JArr vs)
  show ?case unfolding parses_def
  proof (intro allI impI)
    fix n d r
    assume h: "json_need (JArr vs) \<le> n" "json_depth (JArr vs) \<le> d" "delim r"
    from h(1) obtain m where n: "n = Suc m" by (cases n) auto
    have dep: "json_depth v \<le> d - 1" if "v \<in> set vs" for v
      using h(2) foldr_max_le [of "json_depth v" "map json_depth vs"] that by auto
    have "0 \<le> foldr max xs (0::int)" for xs by (induction xs) auto
    then have d: "\<not> d \<le> 0" using h(2) by (simp add: not_le) (meson add_strict_increasing order_less_le_trans zero_less_one le_less_trans)
    show "parse_value n d (json_print (JArr vs) @ r) = Some (JArr vs, r)"
    proof (cases "vs = []")
      case True
      with d show ?thesis by (simp add: n skip_ws_stop quote_char_def)
    next
      case False
      then obtain v vs' where vs: "vs = v # vs'" by (cases vs) auto
      have "wf_json v" using JArr.prems vs by simp
      then obtain c t where c: "json_print v = c # t" "\<not> json_space c" "c \<noteq> CHR '']''" by (rule json_print_hd)
      obtain u where "join_comma (map json_print vs) = c # u"
        using c(1) vs by (cases vs') auto
      with c have sk: "skip_ws (join_comma (map json_print vs) @ CHR '']'' # r) = c # (u @ CHR '']'' # r)"
        by (simp add: skip_ws_stop)
      have "parse_elements m (d - 1) (join_comma (map json_print vs) @ CHR '']'' # r) = Some (vs, r)"
        using JArr dep h(1) n False by (intro parse_elements_print) auto
      with d sk c(3) show ?thesis by (simp add: n skip_ws_stop quote_char_def)
    qed
  qed
next
  case (JObj ms)
  have IH: "parses v" if "(k, v) \<in> set ms" for k v
    using JObj.IH [OF that, of v] JObj.prems that by auto
  show ?case unfolding parses_def
  proof (intro allI impI)
    fix n d r
    assume h: "json_need (JObj ms) \<le> n" "json_depth (JObj ms) \<le> d" "delim r"
    from h(1) obtain m where n: "n = Suc m" by (cases n) auto
    have dep: "json_depth v \<le> d - 1" if "(k, v) \<in> set ms" for k v
      using h(2) foldr_max_le [of "json_depth v" "map (\<lambda>(k, v). json_depth v) ms"] that by force
    have "0 \<le> foldr max xs (0::int)" for xs by (induction xs) auto
    then have d: "\<not> d \<le> 0" using h(2) by (simp add: not_le) (meson add_strict_increasing order_less_le_trans zero_less_one le_less_trans)
    show "parse_value n d (json_print (JObj ms) @ r) = Some (JObj ms, r)"
    proof (cases "ms = []")
      case True
      with d show ?thesis by (simp add: n skip_ws_stop quote_char_def)
    next
      case False
      then obtain k v ms' where ms: "ms = (k, v) # ms'" by (cases ms) auto
      obtain u where "join_comma (map print_member ms) = quote_char # u"
        using ms by (cases ms') (auto simp: quoted_def)
      then have sk: "skip_ws (join_comma (map print_member ms) @ CHR ''}'' # r) = quote_char # (u @ CHR ''}'' # r)"
        by (simp add: skip_ws_stop)
      have "parse_members m (d - 1) (join_comma (map print_member ms) @ CHR ''}'' # r) =
          Some (map (\<lambda>(k, v). (k, json_print v, v)) ms, r)"
        using JObj.prems IH dep h(1) n False by (intro parse_members_print) auto
      with d sk show ?thesis
        by (simp add: n skip_ws_stop quote_char_def comp_def case_prod_beta)
    qed
  qed
next
  case (JNum tok)
  then have ok: "number_ok tok" by simp
  obtain c t where tok: "tok = c # t" using number_ok_hd(1) [OF ok] by (cases tok) auto
  have c: "c = CHR ''-'' \<or> is_digit c" using number_ok_hd(2) [OF ok] by (simp add: tok)
  then have "\<not> json_space c" "c \<notin> {quote_char, CHR ''{'', CHR ''['', CHR ''t'', CHR ''f'', CHR ''n''}"
    by (auto simp: is_digit_def byte_def quote_char_def)
  then show ?case
    using number_ok_scan [OF ok] by (auto simp: parses_def tok skip_ws_stop Suc_le_eq gr0_conv_Suc)
next
  case (JStr b)
  then show ?case
    by (auto simp: parses_def quoted_def skip_ws_stop Suc_le_eq gr0_conv_Suc body_ok_scan)
qed (auto simp: parses_def skip_ws_stop Suc_le_eq gr0_conv_Suc expect_def quote_char_def)

lemma length_join_comma: "length (join_comma xs) + 1 \<ge> sum_list (map (\<lambda>x. length x + 1) xs)"
proof (induction xs)
  case (Cons x xs)
  then show ?case by (cases "xs = []") (simp_all add: join_comma_Cons)
qed simp

lemma json_need_bound: "wf_json v \<Longrightarrow> json_need v \<le> 2 * length (json_print v)"
proof (induction v)
  case (JArr vs)
  have "sum_list (map (\<lambda>v. json_need v + 1) vs) \<le> sum_list (map (\<lambda>v. 2 * (length (json_print v) + 1)) vs)"
  proof (rule sum_list_mono)
    fix v assume "v \<in> set vs"
    with JArr show "json_need v + 1 \<le> 2 * (length (json_print v) + 1)" by fastforce
  qed
  also have "\<dots> = 2 * sum_list (map (\<lambda>x. length x + 1) (map json_print vs))"
    by (simp only: sum_list_const_mult list.map_comp comp_def)
  also have "\<dots> \<le> 2 * (length (join_comma (map json_print vs)) + 1)"
    using length_join_comma [of "map json_print vs"] by simp
  finally show ?case by simp
next
  case (JObj ms)
  have "sum_list (map (\<lambda>(k, v). json_need v + 1) ms) \<le> sum_list (map (\<lambda>m. 2 * (length (print_member m) + 1)) ms)"
  proof (rule sum_list_mono)
    fix m assume m: "m \<in> set ms"
    obtain k v where kv: "m = (k, v)" by (cases m)
    with JObj.IH [OF m, of v] JObj.prems m have "json_need v \<le> 2 * length (json_print v)" by auto
    then show "(case m of (k, v) \<Rightarrow> json_need v + 1) \<le> 2 * (length (print_member m) + 1)" by (simp add: kv)
  qed
  also have "\<dots> = 2 * sum_list (map (\<lambda>x. length x + 1) (map print_member ms))"
    by (simp only: sum_list_const_mult list.map_comp comp_def)
  also have "\<dots> \<le> 2 * (length (join_comma (map print_member ms)) + 1)"
    using length_join_comma [of "map print_member ms"] by simp
  finally show ?case by simp
next
  case (JNum tok)
  then have "tok \<noteq> []" using number_ok_hd(1) by simp
  then show ?case by (cases tok) auto
qed (simp_all add: quoted_def)

lemma parse_value_print:
  "wf_json v \<Longrightarrow> json_depth v \<le> d \<Longrightarrow> delim r \<Longrightarrow> 2 * length (json_print v) \<le> n \<Longrightarrow>
   parse_value n d (json_print v @ r) = Some (v, r)"
  using parses_all [of v] json_need_bound [of v] by (auto simp: parses_def)

lemma json_parse_print:
  assumes "wf_json v" and "json_depth v \<le> max_depth"
  shows "json_parse (json_print v) = Some v"
  using parse_value_print [OF assms, of "[]" "parse_fuel (json_print v)"]
  by (simp add: json_parse_def parse_fuel_def skip_ws_def)

lemma json_members_print:
  assumes "wf_json (JObj ms)" and "json_depth (JObj ms) \<le> max_depth"
  shows "json_members (json_print (JObj ms)) = Some (map (\<lambda>(k, v). (k, json_print v, v)) ms)"
proof (cases "ms = []")
  case True
  then show ?thesis by (simp add: json_members_def skip_ws_stop) (simp add: skip_ws_def)
next
  case False
  then obtain k v ms' where ms: "ms = (k, v) # ms'" by (cases ms) auto
  let ?j = "join_comma (map print_member ms)"
  obtain u where "?j = quote_char # u"
    using ms by (cases ms') (auto simp: quoted_def)
  then have sk: "skip_ws (?j @ ''}'') = quote_char # (u @ ''}'')" by (simp add: skip_ws_stop)
  have dep: "json_depth v \<le> max_depth - 1" if "(k, v) \<in> set ms" for k v
    using assms(2) foldr_max_le [of "json_depth v" "map (\<lambda>(k, v). json_depth v) ms"] that by force
  have need: "sum_list (map (\<lambda>(k, v). json_need v + 1) ms) \<le> parse_fuel (json_print (JObj ms))"
    using json_need_bound [OF assms(1)] by (simp add: parse_fuel_def)
  have "parse_members (parse_fuel (json_print (JObj ms))) (max_depth - 1) (?j @ CHR ''}'' # []) =
      Some (map (\<lambda>(k, v). (k, json_print v, v)) ms, [])"
    using assms(1) dep need False parses_all by (intro parse_members_print) auto
  with sk show ?thesis by (simp add: json_members_def skip_ws_stop quote_char_def) (simp add: skip_ws_def)
qed

section \<open>The literals the program writes\<close>

lemma body_ok_escape: "scan_string (escape_byte html c @ s) = map_option (\<lambda>(b, r). (escape_byte html c @ b, r)) (scan_string s)"
    if "byte c < 0x80"
proof -
  have hx: "hex4 (CHR ''0'' # CHR ''0'' # hex_digit (byte c div 16) # hex_digit (byte c mod 16) # t) \<noteq> None" for t
  proof -
    have "hex_val (hex_digit (byte c div 16)) = Some (byte c div 16)"
      "hex_val (hex_digit (byte c mod 16)) = Some (byte c mod 16)"
      using byte_bounds [of c] that by (auto intro!: hex_val_digit)
    then show ?thesis by simp
  qed
  have plain: "0x20 \<le> byte (hex_digit n) \<and> hex_digit n \<noteq> quote_char \<and> hex_digit n \<noteq> bs" if "0 \<le> n" "n < 16" for n
  proof -
    have "48 \<le> byte (hex_digit n) \<and> byte (hex_digit n) < 103 \<and> byte (hex_digit n) \<noteq> 92"
      using that by (auto simp: hex_digit_def byte_chr)
    then show ?thesis by (auto simp: quote_char_def bs_def byte_def)
  qed
  have sp: "unescape bs = Some bs" "unescape quote_char = Some quote_char" "bs \<noteq> CHR ''u''"
    "quote_char \<noteq> CHR ''u''" "quote_char \<noteq> bs" "bs \<noteq> quote_char" "\<not> byte bs < 0x20"
    "unescape (CHR ''b'') = Some (CHR 0x08)" "unescape (CHR ''f'') = Some (CHR 0x0C)"
    "unescape (CHR ''n'') = Some (CHR 0x0A)" "unescape (CHR ''r'') = Some (CHR 0x0D)"
    "unescape (CHR ''t'') = Some (CHR 0x09)"
    by (simp_all add: unescape_def bs_def quote_char_def byte_def)
  have zero: "CHR ''0'' \<noteq> quote_char" "CHR ''0'' \<noteq> bs" "\<not> byte (CHR ''0'') < 0x20"
    by (simp_all add: quote_char_def bs_def byte_def)
  have e2: "scan_string (bs # e # s) = map_option (\<lambda>(b, r). (bs # e # b, r)) (scan_string s)"
    if "unescape e \<noteq> None" "e \<noteq> CHR ''u''" for e
  proof -
    from that(1) obtain x where "unescape e = Some x" by auto
    with that(2) sp show ?thesis by simp
  qed
  have e6: "scan_string ([bs, CHR ''u'', CHR ''0'', CHR ''0'', hex_digit (byte c div 16), hex_digit (byte c mod 16)] @ s) =
      map_option (\<lambda>(b, r). ([bs, CHR ''u'', CHR ''0'', CHR ''0'', hex_digit (byte c div 16), hex_digit (byte c mod 16)] @ b, r))
        (scan_string s)"
  proof -
    have "0 \<le> byte c div 16" "byte c div 16 < 16" "0 \<le> byte c mod 16" "byte c mod 16 < 16"
      using byte_bounds [of c] that by auto
    then show ?thesis
      using hx [of s] sp zero plain [of "byte c div 16"] plain [of "byte c mod 16"]
      by (cases "scan_string s") (auto simp del: hex4.simps)
  qed
  show ?thesis
  proof (cases "escape_byte html c = [c]")
    case True
    then have "c \<noteq> bs" "c \<noteq> quote_char" "0x20 \<le> byte c"
      by (auto simp: escape_byte_def split: if_splits)
    with True show ?thesis by simp
  next
    case False
    then show ?thesis unfolding escape_byte_def using e6 e2 sp by (auto simp del: scan_string.simps split: if_splits)
  qed
qed

lemma scan_plain:
  "list_all (\<lambda>c. 0x80 \<le> byte c) p \<Longrightarrow> scan_string (p @ s) = map_option (\<lambda>(b, r). (p @ b, r)) (scan_string s)"
proof (induction p)
  case (Cons c p)
  then have "c \<noteq> quote_char" "c \<noteq> bs" "\<not> byte c < 0x20"
    by (auto simp: quote_char_def bs_def byte_def)
  with Cons show ?case by (cases "scan_string s") auto
qed (cases "scan_string s"; auto)

lemma utf8_bytes:
  assumes "0x80 \<le> byte c" and "utf8_len (c # s) \<noteq> 0"
  shows "list_all (\<lambda>c. 0x80 \<le> byte c) (take (utf8_len (c # s)) (c # s))"
proof -
  obtain b cs rest where s: "s = b # cs @ rest" "utf8_len (c # s) = 2 + length cs" "cont b" "list_all cont cs"
    using utf8_len_multi [OF assms(2,1)] by blast
  have "list_all (\<lambda>c. 0x80 \<le> byte c) cs" using s(4) by (auto simp: list_all_iff cont_def)
  with s assms(1) show ?thesis by (simp add: cont_def del: utf8_len.simps)
qed

lemma scan_u4:
  assumes "hex4 (a # b # c # d # s) \<noteq> None" and "list_all (\<lambda>x. x \<noteq> quote_char \<and> x \<noteq> bs \<and> 0x20 \<le> byte x) [a, b, c, d]"
  shows "scan_string (bs # CHR ''u'' # a # b # c # d # s) =
    map_option (\<lambda>(t, r). (bs # CHR ''u'' # a # b # c # d # t, r)) (scan_string s)"
  using assms by (cases "scan_string s") (auto simp: quote_char_def bs_def byte_def simp del: hex4.simps)

lemma hex_8_9: "hex_digit (168 mod 16) = CHR ''8''" "hex_digit (169 mod 16) = CHR ''9''"
  by code_simp+

lemma scan_digits_all: "list_all is_digit ds \<Longrightarrow> ds \<noteq> [] \<Longrightarrow> scan_digits ds = Some (ds, [])"
  using span_digits(2) [of ds] by (simp only: scan_digits_def Let_def) simp

lemma scan_quote_body:
  "scan_string (quote_body html s @ r) = map_option (\<lambda>(b, t). (quote_body html s @ b, t)) (scan_string r)"
proof (induction html s rule: quote_body.induct)
  case (1 html)
  then show ?case by (cases "scan_string r") auto
next
  case (2 html c s)
  show ?case
  proof (cases "byte c < 0x80")
    case True
    then show ?thesis using "2.IH"(1) body_ok_escape [OF True]
      by (cases "scan_string r") (auto simp: quote_body.simps(2) simp del: scan_string.simps)
  next
    case big: False
    consider "utf8_len (c # s) = 0" | "utf8_len (c # s) \<noteq> 0" "line_separator (c # s)"
      | "utf8_len (c # s) \<noteq> 0" "\<not> line_separator (c # s)" by blast
    then show ?thesis
    proof cases
      case 1
      note u = scan_u4 [of "CHR ''f''" "CHR ''f''" "CHR ''f''" "CHR ''d''" "quote_body html s @ r"]
      show ?thesis using "2.IH"(2) big 1 u
        by (cases "scan_string r") (auto simp: quote_body.simps(2) quote_char_def bs_def byte_def
            simp del: scan_string.simps utf8_len.simps)
    next
      case 2
      let ?h = "hex_digit (byte (s ! 1) mod 16)"
      have sep: "byte (s ! 1) = 0xA8 \<or> byte (s ! 1) = 0xA9"
        using 2(2) by (auto simp: line_separator_def split: list.splits)
      then have h: "?h = CHR ''8'' \<or> ?h = CHR ''9''" using hex_8_9 by auto
      note u = scan_u4 [of "CHR ''2''" "CHR ''0''" "CHR ''2''" ?h "quote_body html (drop 2 s) @ r"]
      have "hex_val ?h \<noteq> None" using h by (auto simp: hex_val_def byte_def)
      then have "scan_string (bs # CHR ''u'' # ''202'' @ ?h # quote_body html (drop 2 s) @ r) =
          map_option (\<lambda>(t, r). (bs # CHR ''u'' # ''202'' @ ?h # t, r)) (scan_string (quote_body html (drop 2 s) @ r))"
        using u h by (auto simp: quote_char_def bs_def byte_def simp del: scan_string.simps)
      then show ?thesis using "2.IH"(3) big 2
        by (cases "scan_string r") (auto simp: quote_body.simps(2) simp del: scan_string.simps utf8_len.simps)
    next
      case 3
      then show ?thesis
        using "2.IH"(4) big scan_plain [OF utf8_bytes [of c s]]
        by (cases "scan_string r")
          (auto simp: quote_body.simps(2) simp del: scan_string.simps utf8_len.simps)
    qed
  qed
qed

lemma body_ok_quote [simp]: "body_ok (quote_body html s)"
  using scan_quote_body [of html s "[quote_char]"] by (simp add: body_ok_def)

lemma number_ok_parts:
  assumes "number_parts ip fp e"
  shows "number_ok (ip @ frac_text fp @ expo_text e)" and "number_ok (CHR ''-'' # ip @ frac_text fp @ expo_text e)"
proof -
  have f: "scan_frac (frac_text fp @ expo_text e) = Some (frac_text fp, expo_text e)"
    using assms span_digits(1) [of fp] span_digits(2) [of fp]
    by (cases e; cases fp) (auto simp: scan_frac_def frac_text_def expo_text_def scan_digits_def Let_def number_parts_def)
  have x: "scan_exp (expo_text e) = Some (expo_text e, [])"
    using assms by (cases e) (auto simp: scan_exp_def expo_text_def scan_digits_all number_parts_def)
  have i: "scan_int (ip @ frac_text fp @ expo_text e) = Some (ip, frac_text fp @ expo_text e)"
  proof -
    have "frac_text fp @ expo_text e = [] \<or> (\<exists>c t. frac_text fp @ expo_text e = c # t \<and> \<not> is_digit c)"
      by (cases e; cases fp) (auto simp: frac_text_def expo_text_def)
    then show ?thesis
      using assms span_digits(1) [of ip] span_digits(2) [of ip]
      by (cases ip) (auto simp: scan_int_def scan_digits_def Let_def number_parts_def)
  qed
  obtain c t where ip: "ip = c # t" "c \<noteq> CHR ''-''"
    using assms digit_not_minus by (cases ip) (auto simp: number_parts_def)
  then have "sign_split (ip @ u) = (False, ip @ u)" "sign_split (CHR ''-'' # ip @ u) = (True, ip @ u)" for u
    by (simp_all add: sign_split_def)
  with f x i show "number_ok (ip @ frac_text fp @ expo_text e)"
    "number_ok (CHR ''-'' # ip @ frac_text fp @ expo_text e)"
    by (simp_all add: number_ok_def scan_number_def)
qed

lemma number_ok_float [simp]: "is_finite x \<Longrightarrow> number_ok (json_float x)"
  by (rule json_float_shape [of x]) (auto dest: number_ok_parts)

lemma number_ok_int [simp]: "number_ok (int_text n)"
proof -
  have "number_parts (dec_digits m) [] None" if "0 \<le> m" for m
    using dec_digits_ok [OF that] by (auto simp: number_parts_def dec_digits.simps [of 0] digit_def chr_def)
  from number_ok_parts [OF this [of "\<bar>n\<bar>"]] show ?thesis
    by (auto simp: int_text_def frac_text_def expo_text_def abs_if split: if_splits)
qed

end
