(* ===== verification/Go_Fuel.thy ===== *)
theory Go_Fuel
  imports Go_Parse
begin

text \<open>
  The recursive-descent reader of encoding/json takes fuel in the model. Every call that returns
  has consumed text, and no call goes deeper than twice the text that is left, so any fuel from
  \<open>parse_fuel\<close> on gives the same answer: running out is never the reason a text is refused.
\<close>

lemma skip_ws_length: "length (skip_ws s) \<le> length s"
  by (simp add: skip_ws_def length_dropWhile_le)

lemma skip_ws_cons: "skip_ws s = c # r \<Longrightarrow> length r < length s"
  using skip_ws_length [of s] by simp

lemma scan_string_shorter: "scan_string s = Some (b, r) \<Longrightarrow> length r < length s"
  by (induction s arbitrary: b r rule: scan_string.induct) (fastforce split: if_splits list.splits)+

lemma scan_digits_shorter: "scan_digits s = Some (d, r) \<Longrightarrow> length r < length s"
  by (cases s) (auto simp: scan_digits_def Let_def length_dropWhile_le le_imp_less_Suc split: if_splits)

lemma scan_int_shorter: "scan_int s = Some (d, r) \<Longrightarrow> length r < length s"
  by (auto simp: scan_int_def dest: scan_digits_shorter split: list.splits if_splits)

lemma scan_frac_length: "scan_frac s = Some (d, r) \<Longrightarrow> length r \<le> length s"
  by (auto simp: scan_frac_def dest: scan_digits_shorter split: list.splits if_splits)

lemma scan_exp_length: "scan_exp s = Some (d, r) \<Longrightarrow> length r \<le> length s"
  by (auto simp: scan_exp_def dest: scan_digits_shorter split: list.splits if_splits)

lemma scan_number_shorter:
  assumes "scan_number s = Some (tok, r)"
  shows "length r < length s"
proof -
  obtain neg s0 where sg: "sign_split s = (neg, s0)" by fastforce
  have "length s0 \<le> length s" using sg by (auto simp: sign_split_def split: list.splits if_splits)
  with assms sg show ?thesis
    by (auto simp: scan_number_def dest!: scan_int_shorter scan_frac_length scan_exp_length split: option.splits)
qed

lemma expect_shorter: "expect w v s = Some (x, r) \<Longrightarrow> w \<noteq> [] \<Longrightarrow> s \<noteq> [] \<Longrightarrow> length r < length s"
  by (auto simp: expect_def split: if_splits)

lemma parse_consumes:
  "parse_value n d s = Some (v, r) \<Longrightarrow> length r < length s"
  "parse_elements n d s = Some (vs, r) \<Longrightarrow> length r < length s"
  "parse_members n d s = Some (ms, r) \<Longrightarrow> length r < length s"
proof (induction n d s and n d s and n d s arbitrary: v r and vs r and ms r
    rule: parse_value_parse_elements_parse_members.induct)
  case (2 n d s)
  then obtain c t where s: "skip_ws s = c # t" by (auto split: list.splits)
  note l = skip_ws_cons [OF s] skip_ws_length [of t]
  show ?case
    using 2 s l
    by (force simp: expect_def dest: scan_string_shorter scan_number_shorter split: if_splits list.splits)
next
  case (4 n d s)
  then show ?case by (force dest: skip_ws_cons split: if_splits list.splits option.splits)
next
  case (6 n d s)
  then show ?case
    by (force simp: Let_def dest!: skip_ws_cons scan_string_shorter split: if_splits list.splits option.splits)
qed simp_all

lemma parse_same:
  "2 * length s + 1 \<le> n \<Longrightarrow> 2 * length s + 1 \<le> m \<Longrightarrow> parse_value n d s = parse_value m d s"
  "2 * length s + 2 \<le> n \<Longrightarrow> 2 * length s + 2 \<le> m \<Longrightarrow> parse_elements n d s = parse_elements m d s"
  "2 * length s + 1 \<le> n \<Longrightarrow> 2 * length s + 1 \<le> m \<Longrightarrow> parse_members n d s = parse_members m d s"
proof (induction n d s and n d s and n d s arbitrary: m and m and m
    rule: parse_value_parse_elements_parse_members.induct)
  case (2 n d s)
  obtain k where m: "m = Suc k" using 2(4) by (cases m) simp_all
  show ?case
  proof (cases "skip_ws s")
    case (Cons c r)
    have r: "2 * length r + 2 \<le> n" "2 * length r + 2 \<le> k"
      using skip_ws_cons [OF Cons] 2(3,4) m by simp_all
    have "parse_members n (d - 1) r = parse_members k (d - 1) r" if "c = CHR ''{''" "0 < d" "skip_ws r = e # t" "e \<noteq> CHR ''}''" for e t
      by (rule 2(1) [OF Cons _ that(1) _ that(3,4)]) (use that(1,2) r in \<open>simp_all add: quote_char_def\<close>)
    moreover have "parse_elements n (d - 1) r = parse_elements k (d - 1) r" if "c = CHR ''[''" "0 < d" "skip_ws r = e # t" "e \<noteq> CHR '']''" for e t
      by (rule 2(2) [OF Cons _ _ that(1) _ that(3,4)]) (use that(1,2) r in \<open>simp_all add: quote_char_def\<close>)
    ultimately show ?thesis by (simp add: m Cons split: list.split)
  qed (simp add: m)
next
  case (4 n d s)
  obtain k where m: "m = Suc k" using 4(4) by (cases m) simp_all
  have v: "parse_value n d s = parse_value k d s" using 4(1) [of k] 4(3,4) m by simp
  show ?case
  proof (cases "parse_value n d s")
    case (Some p)
    obtain x r where p: "p = (x, r)" by (cases p)
    have "parse_elements n d t = parse_elements k d t" if "skip_ws r = CHR '','' # t" for t
    proof -
      have "length t < length r" using skip_ws_cons [OF that] .
      moreover have "length r < length s" using parse_consumes(1) Some p by blast
      ultimately show ?thesis using 4(2) [OF Some p [symmetric] that] 4(3,4) m by simp
    qed
    then show ?thesis using Some p v by (simp add: m split: list.split)
  qed (use v m in simp)
next
  case (6 n d s)
  obtain k where m: "m = Suc k" using 6(4) by (cases m) simp_all
  show ?case
  proof (cases "skip_ws s")
    case (Cons q r)
    show ?thesis
    proof (cases "q = quote_char \<and> scan_string r \<noteq> None")
      case True
      then obtain key r1 where k1: "scan_string r = Some (key, r1)" by auto
      show ?thesis
      proof (cases "skip_ws r1")
        case (Cons colon r2)
        have l2: "2 * length r2 + 3 \<le> n" "2 * length r2 + 3 \<le> k"
          using skip_ws_cons [OF \<open>skip_ws s = q # r\<close>] scan_string_shorter [OF k1] skip_ws_cons [OF Cons] 6(3,4) m by simp_all
        show ?thesis
        proof (cases "colon = CHR '':''")
          case colon: True
          have v: "parse_value n d r2 = parse_value k d r2"
            using 6(1) [OF \<open>skip_ws s = q # r\<close> _ k1 _ Cons] True colon l2 by simp
          show ?thesis
          proof (cases "parse_value n d r2")
            case (Some p)
            obtain x r3 where p: "p = (x, r3)" by (cases p)
            have "parse_members n d t = parse_members k d t" if "skip_ws r3 = CHR '','' # t" for t
            proof -
              have "length t < length r3" using skip_ws_cons [OF that] .
              moreover have "length r3 < length r2" using parse_consumes(1) Some p by blast
              ultimately show ?thesis
                using 6(2) [OF \<open>skip_ws s = q # r\<close> _ k1 _ Cons _ Some p [symmetric] refl that] True colon l2 by simp
            qed
            then show ?thesis using True k1 Cons \<open>skip_ws s = q # r\<close> colon Some p v
              by (simp add: m Let_def split: list.split)
          qed (use True k1 Cons \<open>skip_ws s = q # r\<close> colon v m in simp)
        qed (use True k1 Cons \<open>skip_ws s = q # r\<close> m in simp)
      qed (use True k1 \<open>skip_ws s = q # r\<close> m in simp)
    qed (cases "scan_string r", use Cons m in auto)
  qed (simp add: m)
qed simp_all

text \<open>
  Reading JSON ends with an answer for every text: with any fuel from \<open>parse_fuel\<close> on the readers
  of a value and of the members of an object give the same result, so the result of the model is
  the one of the unbounded recursion.
\<close>

lemma json_fuel_enough:
  assumes "parse_fuel s \<le> n"
  shows "parse_value n d s = parse_value (parse_fuel s) d s"
    and "parse_members n d s = parse_members (parse_fuel s) d s"
  using parse_same(1,3) [of s n "parse_fuel s" d] assms by (simp_all add: parse_fuel_def)

end
