(* ===== verification/Go_Value.thy ===== *)
theory Go_Value
  imports Go_Parse
begin

text \<open>
  What \<open>Marshal\<close> and \<open>Unmarshal\<close> do to the Go values of this program: the dynamic values of
  an \<open>any\<close> (\<open>goval\<close>), strings, 64-bit integers, floats, raw messages and the fields of a
  struct. A value that cannot be decoded is \<open>None\<close>. A nil map is the empty map. JSON
  \<open>null\<close> leaves a scalar as it was. CRC-32 is at the end.
\<close>

section \<open>Dynamic values\<close>

datatype goval =
    GNil
  | GBool bool
  | GNum float64
  | GStr string
  | GArr "goval list"
  | GObj "(string \<times> goval) list"
  | GStrs "string list"

definition put_all :: "(string \<times> 'a) list \<Rightarrow> (string, 'a) gomap \<Rightarrow> (string, 'a) gomap" where
  "put_all kvs m = foldl (\<lambda>m (k, v). mput k v m) m kvs"

definition both :: "'a option \<Rightarrow> 'b option \<Rightarrow> ('a \<times> 'b) option" where
  "both x y = (case (x, y) of (Some a, Some b) \<Rightarrow> Some (a, b) | _ \<Rightarrow> None)"

fun to_any :: "json \<Rightarrow> goval option" where
  "to_any JNull = Some GNil"
| "to_any (JBool b) = Some (GBool b)"
| "to_any (JNum tok) = map_option GNum (parse_float tok)"
| "to_any (JStr b) = map_option GStr (unquote b)"
| "to_any (JArr vs) = map_option GArr (those (map to_any vs))"
| "to_any (JObj ms) =
     map_option (\<lambda>kvs. GObj (put_all kvs [])) (those (map (\<lambda>(k, v). both (unquote k) (to_any v)) ms))"

text \<open>\<open>Marshal\<close> of a dynamic value, the keys of a map in order; None for NaN and infinities.\<close>

definition quote_str :: "bool \<Rightarrow> string \<Rightarrow> json" where
  "quote_str html s = JStr (quote_body html s)"

fun of_any :: "bool \<Rightarrow> goval \<Rightarrow> json option" where
  "of_any html GNil = Some JNull"
| "of_any html (GBool b) = Some (JBool b)"
| "of_any html (GNum x) = (if is_finite x then Some (JNum (json_float x)) else None)"
| "of_any html (GStr s) = Some (quote_str html s)"
| "of_any html (GStrs ss) = Some (JArr (map (quote_str html) ss))"
| "of_any html (GArr vs) = map_option JArr (those (map (of_any html) vs))"
| "of_any html (GObj m) =
     map_option (\<lambda>kvs. JObj (map (\<lambda>(k, v). (quote_body html k, v)) (sort_key fst kvs)))
       (those (map (\<lambda>(k, v). map_option (Pair k) (of_any html v)) m))"

section \<open>Typed decoding\<close>

definition dec_string :: "string \<Rightarrow> json \<Rightarrow> string option" where
  "dec_string old j = (case j of JNull \<Rightarrow> Some old | JStr b \<Rightarrow> unquote b | _ \<Rightarrow> None)"

definition dec_int :: "goint \<Rightarrow> json \<Rightarrow> goint option" where
  "dec_int old j = (case j of JNull \<Rightarrow> Some old | JNum tok \<Rightarrow> map_option word_of_int (parse_int tok) | _ \<Rightarrow> None)"

definition dec_float :: "float64 \<Rightarrow> json \<Rightarrow> float64 option" where
  "dec_float old j = (case j of JNull \<Rightarrow> Some old | JNum tok \<Rightarrow> parse_float tok | _ \<Rightarrow> None)"

text \<open>A map of floats; an absent or null element is 0, and the last of equal keys stays.\<close>

definition dec_floats :: "json \<Rightarrow> (string, float64) gomap option" where
  "dec_floats j =
     (case j of
        JNull \<Rightarrow> Some []
      | JObj ms \<Rightarrow> map_option (\<lambda>kvs. put_all kvs []) (those (map (\<lambda>(k, v). both (unquote k) (dec_float f0 v)) ms))
      | _ \<Rightarrow> None)"

text \<open>Struct fields are matched without regard to case; two characters outside ASCII fold to letters.\<close>

function fold_name :: "string \<Rightarrow> string" where
  "fold_name [] = []"
| "fold_name (c # s) =
     (if byte c = 0xC5 \<and> take 1 s = [chr 0xBF] then CHR ''S'' # fold_name (tl s)
      else if byte c = 0xE2 \<and> take 2 s = [chr 0x84, chr 0xAA] then CHR ''K'' # fold_name (drop 2 s)
      else if 97 \<le> byte c \<and> byte c \<le> 122 then chr (byte c - 32) # fold_name s
      else c # fold_name s)"
  by pat_completeness auto
termination by (relation "measure length") auto

definition is_field :: "string \<Rightarrow> string \<Rightarrow> bool" where
  "is_field name key \<longleftrightarrow> fold_name key = fold_name name"

section \<open>Raw messages\<close>

text \<open>
  \<open>Marshal\<close> compacts the text of a \<open>RawMessage\<close> and escapes HTML characters and the two
  line separators inside its literals, which it otherwise leaves as they are.
\<close>

function html_body :: "string \<Rightarrow> string" where
  "html_body [] = []"
| "html_body (c # s) =
     (if c \<in> {CHR ''<'', CHR ''>'', CHR ''&''}
        then [bs, CHR ''u'', CHR ''0'', CHR ''0'', hex_digit (byte c div 16), hex_digit (byte c mod 16)] @ html_body s
      else if line_separator (c # s) then bs # ''u202'' @ [hex_digit (byte (s ! 1) mod 16)] @ html_body (drop 2 s)
      else c # html_body s)"
  by pat_completeness auto
termination by (relation "measure length") auto

declare html_body.simps(2) [simp del]

fun compact :: "json \<Rightarrow> json" where
  "compact (JStr b) = JStr (html_body b)"
| "compact (JArr vs) = JArr (map compact vs)"
| "compact (JObj ms) = JObj (map (\<lambda>(k, v). (html_body k, compact v)) ms)"
| "compact j = j"

section \<open>Package fmt\<close>

fun join_space :: "string list \<Rightarrow> string" where
  "join_space [] = []"
| "join_space [x] = x"
| "join_space (x # y # xs) = x @ CHR '' '' # join_space (y # xs)"

text \<open>\<open>fmt.Sprint\<close> of a dynamic value.\<close>

fun fmt_any :: "goval \<Rightarrow> string" where
  "fmt_any GNil = ''<nil>''"
| "fmt_any (GBool b) = (if b then ''true'' else ''false'')"
| "fmt_any (GNum x) = fmt_float x"
| "fmt_any (GStr s) = s"
| "fmt_any (GArr vs) = CHR ''['' # join_space (map fmt_any vs) @ '']''"
| "fmt_any (GStrs ss) = CHR ''['' # join_space ss @ '']''"
| "fmt_any (GObj m) =
     ''map['' @ join_space (map (\<lambda>(k, s). k @ CHR '':'' # s) (sort_key fst (map (\<lambda>(k, v). (k, fmt_any v)) m))) @ '']''"

section \<open>CRC-32\<close>

text \<open>\<open>crc32.ChecksumIEEE\<close>: the reflected polynomial, one bit at a time.\<close>

definition crc_bit :: "32 word \<Rightarrow> 32 word" where
  "crc_bit c = (if bit c 0 then xor (drop_bit 1 c) 0xEDB88320 else drop_bit 1 c)"

definition crc_byte :: "32 word \<Rightarrow> char \<Rightarrow> 32 word" where
  "crc_byte c b =
     crc_bit (crc_bit (crc_bit (crc_bit (crc_bit (crc_bit (crc_bit (crc_bit
       (xor c (word_of_int (byte b))))))))))"

definition crc32 :: "string \<Rightarrow> 32 word" where
  "crc32 s = not (foldl crc_byte (not 0) s)"

text \<open>\<open>%08x\<close>.\<close>

definition hex8 :: "32 word \<Rightarrow> string" where
  "hex8 w = map (\<lambda>i. hex_digit (uint w div 16 ^ i mod 16)) [7, 6, 5, 4, 3, 2, 1, 0]"

lemma length_hex8 [simp]: "length (hex8 w) = 8"
  by (simp add: hex8_def)

section \<open>Values survive the wire\<close>

lemma html_body_plain:
  "c \<notin> {CHR ''<'', CHR ''>'', CHR ''&''} \<Longrightarrow> byte c \<noteq> 0xE2 \<Longrightarrow> html_body (c # s) = c # html_body s"
  by (cases s) (auto simp: html_body.simps(2) line_separator_def split: list.splits)

lemma html_body_plains:
  "list_all (\<lambda>c. c \<notin> {CHR ''<'', CHR ''>'', CHR ''&''} \<and> byte c \<noteq> 0xE2) p \<Longrightarrow> html_body (p @ s) = p @ html_body s"
  by (induction p) (simp_all add: html_body_plain)

lemma hex_digit_plain:
  "0 \<le> n \<Longrightarrow> n < 16 \<Longrightarrow> hex_digit n \<notin> {CHR ''<'', CHR ''>'', CHR ''&''} \<and> byte (hex_digit n) \<noteq> 0xE2"
proof -
  assume n: "0 \<le> n" "n < 16"
  then have "48 \<le> byte (hex_digit n) \<and> byte (hex_digit n) < 103 \<and> byte (hex_digit n) \<notin> {60, 62, 38}"
    by (auto simp: hex_digit_def byte_chr)
  then show ?thesis by (auto simp: byte_def)
qed

lemma escape_byte_plain:
  "byte c < 0x80 \<Longrightarrow> list_all (\<lambda>c. c \<notin> {CHR ''<'', CHR ''>'', CHR ''&''} \<and> byte c \<noteq> 0xE2) (escape_byte True c)"
  using hex_digit_plain [of "byte c div 16"] hex_digit_plain [of "byte c mod 16"] byte_bounds [of c]
  by (auto simp: escape_byte_def bs_def quote_char_def byte_def)

lemma html_body_quote: "html_body (quote_body True s @ r) = quote_body True s @ html_body r"
proof (induction True s rule: quote_body.induct)
  case (2 c s)
  show ?case
  proof (cases "byte c < 0x80")
    case True
    with 2(1) show ?thesis by (simp add: quote_body.simps(2) html_body_plains [OF escape_byte_plain])
  next
    case big: False
    consider "utf8_len (c # s) = 0" | "utf8_len (c # s) \<noteq> 0" "line_separator (c # s)"
      | "utf8_len (c # s) \<noteq> 0" "\<not> line_separator (c # s)" by blast
    then show ?thesis
    proof cases
      case 1
      have "html_body (bs # ''ufffd'' @ x) = bs # ''ufffd'' @ html_body x" for x
        using html_body_plains [of "bs # ''ufffd''" x] by (simp add: bs_def byte_def)
      with 2(2) big 1 show ?thesis by (simp add: quote_body.simps(2) del: utf8_len.simps)
    next
      case sep: 2
      have "html_body ((bs # ''u202'' @ [hex_digit (byte (s ! 1) mod 16)]) @ x) =
          (bs # ''u202'' @ [hex_digit (byte (s ! 1) mod 16)]) @ html_body x" for x
        by (rule html_body_plains) (use hex_digit_plain [of "byte (s ! 1) mod 16"] in \<open>simp add: bs_def byte_def\<close>)
      with 2(3) big sep show ?thesis by (simp add: quote_body.simps(2) del: utf8_len.simps)
    next
      case 3
      obtain b cs rest where s: "s = b # cs @ rest" "utf8_len (c # s) = 2 + length cs" "cont b" "list_all cont cs"
        using utf8_len_multi [of c s] 3(1) big by auto
      have plain: "list_all (\<lambda>c. c \<notin> {CHR ''<'', CHR ''>'', CHR ''&''} \<and> byte c \<noteq> 0xE2) (b # cs)"
        using s(3,4) by (auto simp: list_all_iff cont_def byte_def)
      have c: "c \<notin> {CHR ''<'', CHR ''>'', CHR ''&''}" using big by (auto simp: byte_def)
      have "html_body (c # (b # cs) @ x) = c # (b # cs) @ html_body x" for x
      proof (cases "line_separator (c # (b # cs) @ x)")
        case True
        then have e2: "byte c = 0xE2" by (auto simp: line_separator_def split: list.splits)
        with 3(1) s(1) have "utf8_len (c # s) = 3" by (auto split: list.splits if_splits)
        with s(2) obtain d where "cs = [d]" by (cases cs; cases "tl cs") auto
        with True 3(2) s(1) show ?thesis by (simp add: line_separator_def)
      next
        case False
        with c show ?thesis using html_body_plains [OF plain, of x] by (simp add: html_body.simps(2))
      qed
      moreover have "take (utf8_len (c # s)) (c # s) = c # b # cs" "drop (utf8_len (c # s)) (c # s) = rest"
        using s(1,2) by (simp_all del: utf8_len.simps)
      ultimately show ?thesis
        using 2(4) big 3 by (simp add: quote_body.simps(2) del: utf8_len.simps)
    qed
  qed
qed simp

lemma html_body_own [simp]: "html_body (quote_body True s) = quote_body True s"
  using html_body_quote [of s "[]"] by simp

fun any_ok :: "goval \<Rightarrow> bool" where
  "any_ok (GNum x) = is_finite x"
| "any_ok (GStr s) = utf8_valid s"
| "any_ok (GStrs ss) = (\<forall>s \<in> set ss. utf8_valid s)"
| "any_ok (GArr vs) = (\<forall>v \<in> set vs. any_ok v)"
| "any_ok (GObj m) = (wf_map m \<and> (\<forall>(k, v) \<in> set m. utf8_valid k \<and> any_ok v))"
| "any_ok _ = True"

text \<open>A value as the receiver sees it: lists untyped, maps in key order.\<close>

fun norm_any :: "goval \<Rightarrow> goval" where
  "norm_any (GStrs ss) = GArr (map GStr ss)"
| "norm_any (GArr vs) = GArr (map norm_any vs)"
| "norm_any (GObj m) = GObj (sort_key fst (map (\<lambda>(k, v). (k, norm_any v)) m))"
| "norm_any v = v"

lemma map_eq_SomeD:
  "map f xs = map Some ys \<Longrightarrow> (\<And>x. x \<in> set xs \<Longrightarrow> f x = Some (g x)) \<Longrightarrow> ys = map g xs"
  by (induction xs arbitrary: ys) (auto simp: Cons_eq_map_conv)

lemma of_any_members:
  assumes "those (map (\<lambda>(k, v). map_option (Pair k) (of_any html v)) m) = Some kvs"
  shows "(\<forall>(k, v) \<in> set m. of_any html v \<noteq> None) \<and> kvs = map (\<lambda>(k, v). (k, the (of_any html v))) m"
  using assms unfolding those_iff by (induction m arbitrary: kvs) (auto simp: Cons_eq_map_conv)

lemma of_any_elements:
  assumes "those (map (of_any html) vs) = Some js"
  shows "(\<forall>v \<in> set vs. of_any html v \<noteq> None) \<and> js = map (\<lambda>v. the (of_any html v)) vs"
  using assms unfolding those_iff by (induction vs arbitrary: js) (auto simp: Cons_eq_map_conv)

lemma wf_of_any: "of_any html v = Some j \<Longrightarrow> wf_json j"
proof (induction v arbitrary: j)
  case (GArr vs)
  then obtain js where js: "those (map (of_any html) vs) = Some js" "j = JArr js" by auto
  with of_any_elements [OF js(1)] GArr.IH show ?case by auto
next
  case (GObj m)
  then obtain kvs where k: "those (map (\<lambda>(k, v). map_option (Pair k) (of_any html v)) m) = Some kvs"
    "j = JObj (map (\<lambda>(k, v). (quote_body html k, v)) (sort_key fst kvs))" by auto
  have "wf_json (the (of_any html v))" if "(k, v) \<in> set m" for k v
    using of_any_members [OF k(1)] GObj.IH [OF that, of v] that by auto
  with k(2) of_any_members [OF k(1)] show ?case by auto
qed (auto simp: quote_str_def split: if_splits)

fun html_clean :: "json \<Rightarrow> bool" where
  "html_clean (JStr b) \<longleftrightarrow> html_body b = b"
| "html_clean (JArr vs) \<longleftrightarrow> (\<forall>v \<in> set vs. html_clean v)"
| "html_clean (JObj ms) \<longleftrightarrow> (\<forall>(k, v) \<in> set ms. html_body k = k \<and> html_clean v)"
| "html_clean _ \<longleftrightarrow> True"

lemma compact_clean: "html_clean j \<Longrightarrow> compact j = j"
proof (induction j)
  case (JArr vs)
  then show ?case by (auto intro: map_idI)
next
  case (JObj ms)
  then show ?case by (auto intro!: map_idI)
qed auto

lemma to_any_of_any:
  "any_ok v \<Longrightarrow> of_any html v = Some j \<Longrightarrow> to_any j = Some (norm_any v)"
proof (induction v arbitrary: j)
  case (GArr vs)
  then obtain js where js: "those (map (of_any html) vs) = Some js" "j = JArr js" by auto
  note e = of_any_elements [OF js(1)]
  have "map to_any js = map Some (map norm_any vs)"
    using e GArr.IH GArr.prems(1) by auto
  with js(2) show ?case by (simp add: those_iff [THEN iffD2])
next
  case (GObj m)
  let ?J = "\<lambda>v. the (of_any html v)"
  from GObj.prems obtain kvs where k: "those (map (\<lambda>(k, v). map_option (Pair k) (of_any html v)) m) = Some kvs"
    "j = JObj (map (\<lambda>(k, v). (quote_body html k, v)) (sort_key fst kvs))" by auto
  note e = of_any_members [OF k(1)]
  let ?s = "sort_key fst m"
  have js: "j = JObj (map (\<lambda>(k, v). (quote_body html k, ?J v)) ?s)"
    using k(2) e by (simp add: sort_key_map_value case_prod_beta comp_def)
  have each: "both (unquote (quote_body html k)) (to_any (?J v)) = Some (k, norm_any v)"
    if "(k, v) \<in> set m" for k v
  proof -
    from e that obtain y where "of_any html v = Some y" by auto
    moreover have "utf8_valid k" "any_ok v" using GObj.prems(1) that by auto
    ultimately show ?thesis using GObj.IH [OF that, of v y] by (simp add: both_def quote_roundtrip)
  qed
  have "map (\<lambda>(k, v). both (unquote k) (to_any v)) (map (\<lambda>(k, v). (quote_body html k, ?J v)) ?s) =
      map Some (map (\<lambda>(k, v). (k, norm_any v)) ?s)"
    using each by auto
  then have "to_any j = Some (GObj (put_all (map (\<lambda>(k, v). (k, norm_any v)) ?s) []))"
    by (simp only: js to_any.simps those_iff [THEN iffD2] option.map)
  moreover have "wf_map (map (\<lambda>(k, v). (k, norm_any v)) ?s)"
  proof -
    have "wf_map ?s" using same_map_sort [of m] GObj.prems(1) by (simp add: same_map_def)
    then show ?thesis by (simp add: wf_map_def case_prod_beta comp_def)
  qed
  ultimately show ?case
    using foldl_mput_fresh [of "[]" "map (\<lambda>(k, v). (k, norm_any v)) ?s"]
    by (simp add: put_all_def sort_key_map_value)
next
  case (GNum x)
  then show ?case by (auto simp: json_float_roundtrip)
next
  case (GStr s)
  then show ?case by (auto simp: quote_str_def quote_roundtrip)
next
  case (GStrs ss)
  then have "map to_any (map (quote_str html) ss) = map Some (map GStr ss)"
    by (auto simp: quote_str_def quote_roundtrip)
  with GStrs show ?case by (auto simp: those_iff [THEN iffD2])
qed auto

section \<open>Decoded numbers are finite\<close>

lemma wf_put_all: "wf_map m \<Longrightarrow> wf_map (put_all kvs m)"
  unfolding put_all_def by (induction kvs arbitrary: m) auto

lemma finite_dec_float_any: "dec_float old j = Some x \<Longrightarrow> is_finite old \<Longrightarrow> is_finite x"
proof -
  have "is_finite f0" by code_simp
  then show "dec_float old j = Some x \<Longrightarrow> is_finite old \<Longrightarrow> is_finite x"
    by (auto simp: dec_float_def parse_float_def Let_def split: json.splits if_splits)
qed

lemma finite_dec_float: "dec_float f0 j = Some x \<Longrightarrow> is_finite x"
proof -
  have "is_finite f0" by code_simp
  then show "dec_float f0 j = Some x \<Longrightarrow> is_finite x" using finite_dec_float_any by blast
qed

lemma put_all_values: "(k, v) \<in> set (put_all kvs m) \<Longrightarrow> (k, v) \<in> set m \<or> v \<in> snd ` set kvs"
proof (induction kvs arbitrary: m)
  case (Cons kv kvs)
  obtain a b where kv: "kv = (a, b)" by (cases kv)
  have "set (mput a b m) \<subseteq> insert (a, b) (set m)" by (induction m) auto
  with Cons kv show ?case by (fastforce simp: put_all_def)
qed (simp add: put_all_def)

lemma map_Some_set: "map f xs = map Some ys \<Longrightarrow> y \<in> set ys \<Longrightarrow> \<exists>x \<in> set xs. f x = Some y"
  by (induction xs arbitrary: ys) (auto simp: Cons_eq_map_conv)

lemma finite_dec_floats: "dec_floats j = Some m \<Longrightarrow> (k, c) \<in> set m \<Longrightarrow> is_finite c"
proof -
  assume h: "dec_floats j = Some m" "(k, c) \<in> set m"
  then obtain ms kvs where "map (\<lambda>(k, v). both (unquote k) (dec_float f0 v)) ms = map Some kvs" "m = put_all kvs []"
    by (auto simp: dec_floats_def those_iff split: json.splits)
  moreover from this h(2) have "c \<in> snd ` set kvs" using put_all_values by fastforce
  then obtain kc where kc: "kc \<in> set kvs" "c = snd kc" by blast
  ultimately obtain a b where "both (unquote a) (dec_float f0 b) = Some kc"
    using map_Some_set by fastforce
  then have "dec_float f0 b = Some (snd kc)" by (auto simp: both_def split: option.splits)
  with kc(2) show "is_finite c" using finite_dec_float by simp
qed

end
