(* ===== verification/Proto_Packet.thy ===== *)
theory Proto_Packet
  imports Go_Value
begin

text \<open>
  internal/protocol/packet.go: the packet, its headers, the checksum, the hop counter and the
  wire format. A packet is one JSON object; the payload keeps the bytes it arrived with. The
  random identifier of a new packet is an argument. The lemmas show that a packet this
  program writes is read back unchanged and that its checksum verifies.
\<close>

section \<open>The packet\<close>

type_synonym header = "(string, goval) gomap"

record packet =
  p_version :: goint
  p_proto :: string
  p_type :: string
  p_from :: string
  p_to :: string
  p_ttl :: goint
  p_headers :: "header list"
  p_payload :: string

definition proto_dijkstra :: string where "proto_dijkstra = ''dijkstra''"
definition proto_flooding :: string where "proto_flooding = ''flooding''"
definition proto_lsr :: string where "proto_lsr = ''lsr''"
definition type_message :: string where "type_message = ''message''"
definition type_hello :: string where "type_hello = ''hello''"
definition type_echo :: string where "type_echo = ''echo''"
definition type_info :: string where "type_info = ''info''"
definition version :: goint where "version = 1"
definition default_ttl :: goint where "default_ttl = 16"
definition header_msg_id :: string where "header_msg_id = ''msg_id''"
definition header_checksum :: string where "header_checksum = ''checksum''"
definition header_via :: string where "header_via = ''via''"
definition header_t0 :: string where "header_t0 = ''t0''"
definition header_trace :: string where "header_trace = ''trace''"

lemmas header_names = header_msg_id_def header_checksum_def header_via_def header_t0_def header_trace_def

section \<open>Headers\<close>

text \<open>\<open>Header\<close>: the first entry that holds the key.\<close>

fun find_header :: "string \<Rightarrow> header list \<Rightarrow> goval option" where
  "find_header key [] = None"
| "find_header key (h # hs) = (case mget h key of Some v \<Rightarrow> Some v | None \<Rightarrow> find_header key hs)"

definition header :: "packet \<Rightarrow> string \<Rightarrow> goval option" where
  "header p key = find_header key (p_headers p)"

definition header_string :: "packet \<Rightarrow> string \<Rightarrow> string" where
  "header_string p key =
     (case header p key of None \<Rightarrow> [] | Some v \<Rightarrow> (case v of GStr s \<Rightarrow> s | _ \<Rightarrow> fmt_any v))"

definition header_float :: "packet \<Rightarrow> string \<Rightarrow> float64 option" where
  "header_float p key = (case header p key of Some (GNum n) \<Rightarrow> Some n | _ \<Rightarrow> None)"

fun put_header :: "string \<Rightarrow> goval \<Rightarrow> header list \<Rightarrow> header list" where
  "put_header key v [] = [[(key, v)]]"
| "put_header key v (h # hs) = (if mhas h key then mput key v h # hs else h # put_header key v hs)"

definition set_header :: "string \<Rightarrow> goval \<Rightarrow> packet \<Rightarrow> packet" where
  "set_header key v p = p\<lparr>p_headers := put_header key v (p_headers p)\<rparr>"

fun strings_of :: "goval list \<Rightarrow> string list" where
  "strings_of [] = []"
| "strings_of (v # vs) = (case v of GStr s \<Rightarrow> s # strings_of vs | _ \<Rightarrow> strings_of vs)"

definition trace :: "packet \<Rightarrow> string list" where
  "trace p =
     (case header p header_trace of
        Some (GStrs ss) \<Rightarrow> ss
      | Some (GArr vs) \<Rightarrow> strings_of vs
      | _ \<Rightarrow> [])"

definition append_trace :: "string \<Rightarrow> packet \<Rightarrow> packet" where
  "append_trace addr p = set_header header_trace (GStrs (trace p @ [addr])) p"

section \<open>Payload and checksum\<close>

definition checksum_hex :: "string \<Rightarrow> string" where
  "checksum_hex s = hex8 (crc32 s)"

definition canonical_json :: "string \<Rightarrow> string option" where
  "canonical_json s =
     (case json_parse s of
        None \<Rightarrow> None
      | Some j \<Rightarrow>
          (case to_any j of
             None \<Rightarrow> None
           | Some v \<Rightarrow> map_option json_print (of_any False v)))"

definition unmarshal_string :: "string \<Rightarrow> string option" where
  "unmarshal_string s = (case json_parse s of None \<Rightarrow> None | Some j \<Rightarrow> dec_string [] j)"

definition set_payload_text :: "string \<Rightarrow> packet \<Rightarrow> packet" where
  "set_payload_text text p =
     set_header header_checksum (GStr (checksum_hex text))
       (p\<lparr>p_payload := json_print (quote_str True text)\<rparr>)"

text \<open>The argument is what \<open>Marshal\<close> makes of the object, None when it refuses it.\<close>

definition set_payload_object :: "json option \<Rightarrow> packet \<Rightarrow> packet option" where
  "set_payload_object obj p =
     (case obj of
        None \<Rightarrow> None
      | Some j \<Rightarrow>
          (case canonical_json (json_print j) of
             None \<Rightarrow> None
           | Some c \<Rightarrow> Some (set_header header_checksum (GStr (checksum_hex c)) (p\<lparr>p_payload := json_print j\<rparr>))))"

definition payload_text :: "packet \<Rightarrow> string option" where
  "payload_text p = unmarshal_string (p_payload p)"

text \<open>An object, or a string that holds the text of one; the argument decodes it.\<close>

definition unwrap :: "string \<Rightarrow> string" where
  "unwrap s = (case unmarshal_string s of Some t \<Rightarrow> t | None \<Rightarrow> s)"

definition payload_object :: "(string \<Rightarrow> 'a option) \<Rightarrow> packet \<Rightarrow> 'a option" where
  "payload_object dec p = dec (unwrap (p_payload p))"

definition canonical_payload :: "packet \<Rightarrow> string" where
  "canonical_payload p =
     (if p_payload p = [] then []
      else
        let trimmed = trim_space (p_payload p);
            text = (if take 1 trimmed = [quote_char] then unmarshal_string trimmed else None)
        in case text of
             Some s \<Rightarrow> s
           | None \<Rightarrow> (case canonical_json (p_payload p) of None \<Rightarrow> p_payload p | Some c \<Rightarrow> c))"

definition checksum_valid :: "packet \<Rightarrow> bool" where
  "checksum_valid p =
     (let want = header_string p header_checksum
      in if want = [] then True else want = checksum_hex (canonical_payload p))"

section \<open>New packets, copies, hops\<close>

text \<open>The random bytes, None when the entropy source fails; then the text of an address is used.\<close>

definition new_id :: "string \<Rightarrow> string option \<Rightarrow> string" where
  "new_id address_text random =
     (case random of
        None \<Rightarrow> address_text
      | Some bytes \<Rightarrow> concat (map (\<lambda>b. [hex_digit (byte b div 16), hex_digit (byte b mod 16)]) bytes))"

definition new_packet :: "string \<Rightarrow> string \<Rightarrow> string \<Rightarrow> string \<Rightarrow> string \<Rightarrow> packet" where
  "new_packet rid proto typ source dest =
     set_header header_msg_id (GStr rid)
       \<lparr>p_version = version, p_proto = proto, p_type = typ, p_from = source, p_to = dest,
        p_ttl = default_ttl, p_headers = [], p_payload = []\<rparr>"

definition new_text :: "string \<Rightarrow> string \<Rightarrow> string \<Rightarrow> string \<Rightarrow> string \<Rightarrow> string \<Rightarrow> packet" where
  "new_text rid proto typ source dest text = set_payload_text text (new_packet rid proto typ source dest)"

definition new_object :: "string \<Rightarrow> string \<Rightarrow> string \<Rightarrow> string \<Rightarrow> string \<Rightarrow> json option \<Rightarrow> packet option" where
  "new_object rid proto typ source dest obj = set_payload_object obj (new_packet rid proto typ source dest)"

text \<open>\<open>Clone\<close> copies every header map entry by entry and the payload byte by byte.\<close>

definition clone :: "packet \<Rightarrow> packet" where
  "clone p = p\<lparr>p_headers := map (\<lambda>h. put_all h []) (p_headers p), p_payload := [] @ p_payload p\<rparr>"

text \<open>\<open>DecrementTTL\<close>: the packet after the hop, and whether it may travel on.\<close>

definition decrement_ttl :: "packet \<Rightarrow> packet \<times> bool" where
  "decrement_ttl p = (let p = p\<lparr>p_ttl := p_ttl p - 1\<rparr> in (p, \<not> int_le (p_ttl p) 0))"

section \<open>The wire format\<close>

definition int_json :: "goint \<Rightarrow> json" where
  "int_json n = JNum (int_text (sint n))"

definition payload_json :: "string \<Rightarrow> json option" where
  "payload_json s = (if s = [] then Some JNull else map_option compact (json_parse s))"

definition packet_json :: "packet \<Rightarrow> json option" where
  "packet_json p =
     (case (those (map (\<lambda>h. of_any True (GObj h)) (p_headers p)), payload_json (p_payload p)) of
        (Some hs, Some payload) \<Rightarrow>
          Some (JObj
            [(''version'', int_json (p_version p)), (''proto'', quote_str True (p_proto p)),
             (''type'', quote_str True (p_type p)), (''from'', quote_str True (p_from p)),
             (''to'', quote_str True (p_to p)), (''ttl'', int_json (p_ttl p)),
             (''headers'', JArr hs), (''payload'', payload)])
      | _ \<Rightarrow> None)"

definition encode :: "packet \<Rightarrow> string option" where
  "encode p = map_option json_print (packet_json p)"

definition dec_header :: "header \<Rightarrow> json \<Rightarrow> header option" where
  "dec_header old j =
     (case j of
        JNull \<Rightarrow> Some []
      | JObj ms \<Rightarrow> map_option (\<lambda>kvs. put_all kvs old) (those (map (\<lambda>(k, v). both (unquote k) (to_any v)) ms))
      | _ \<Rightarrow> None)"

fun dec_header_list :: "header list \<Rightarrow> json list \<Rightarrow> header list option" where
  "dec_header_list old [] = Some []"
| "dec_header_list old (v # vs) =
     (case both (dec_header (case old of [] \<Rightarrow> [] | h # _ \<Rightarrow> h) v) (dec_header_list (tl old) vs) of
        None \<Rightarrow> None
      | Some (h, hs) \<Rightarrow> Some (h # hs))"

definition dec_headers :: "header list \<Rightarrow> json \<Rightarrow> header list option" where
  "dec_headers old j = (case j of JNull \<Rightarrow> Some [] | JArr vs \<Rightarrow> dec_header_list old vs | _ \<Rightarrow> None)"

text \<open>One member of the object: its key, its bytes and its value.\<close>

definition dec_member :: "packet \<Rightarrow> string \<times> string \<times> json \<Rightarrow> packet option" where
  "dec_member p m =
     (case m of (k, raw, v) \<Rightarrow>
       case unquote k of
         None \<Rightarrow> None
       | Some key \<Rightarrow>
           if is_field ''version'' key then map_option (\<lambda>x. p\<lparr>p_version := x\<rparr>) (dec_int (p_version p) v)
           else if is_field ''proto'' key then map_option (\<lambda>x. p\<lparr>p_proto := x\<rparr>) (dec_string (p_proto p) v)
           else if is_field ''type'' key then map_option (\<lambda>x. p\<lparr>p_type := x\<rparr>) (dec_string (p_type p) v)
           else if is_field ''from'' key then map_option (\<lambda>x. p\<lparr>p_from := x\<rparr>) (dec_string (p_from p) v)
           else if is_field ''to'' key then map_option (\<lambda>x. p\<lparr>p_to := x\<rparr>) (dec_string (p_to p) v)
           else if is_field ''ttl'' key then map_option (\<lambda>x. p\<lparr>p_ttl := x\<rparr>) (dec_int (p_ttl p) v)
           else if is_field ''headers'' key then map_option (\<lambda>x. p\<lparr>p_headers := x\<rparr>) (dec_headers (p_headers p) v)
           else if is_field ''payload'' key then Some (p\<lparr>p_payload := raw\<rparr>)
           else Some p)"

fun dec_members :: "packet \<Rightarrow> (string \<times> string \<times> json) list \<Rightarrow> packet option" where
  "dec_members p [] = Some p"
| "dec_members p (m # ms) = (case dec_member p m of None \<Rightarrow> None | Some p \<Rightarrow> dec_members p ms)"

definition zero_packet :: packet where
  "zero_packet =
     \<lparr>p_version = 0, p_proto = [], p_type = [], p_from = [], p_to = [], p_ttl = 0, p_headers = [], p_payload = []\<rparr>"

definition unmarshal_packet :: "string \<Rightarrow> packet option" where
  "unmarshal_packet data =
     (case json_parse data of
        Some JNull \<Rightarrow> Some zero_packet
      | Some (JObj _) \<Rightarrow> (case json_members data of None \<Rightarrow> None | Some ms \<Rightarrow> dec_members zero_packet ms)
      | _ \<Rightarrow> None)"

definition fallback_msg_id :: "packet \<Rightarrow> string" where
  "fallback_msg_id p =
     ''fallback-'' @
     hex8 (crc32 (p_from p @ ''|'' @ p_to p @ ''|'' @ p_type p @ ''|'' @ p_payload p))"

definition decode :: "string \<Rightarrow> packet option" where
  "decode data =
     (case unmarshal_packet data of
        None \<Rightarrow> None
      | Some p \<Rightarrow>
          let p = (if int_le (p_ttl p) 0 then p\<lparr>p_ttl := default_ttl\<rparr> else p)
          in Some (if header_string p header_msg_id = []
                   then set_header header_msg_id (GStr (fallback_msg_id p)) p else p))"

definition packet_line :: "packet \<Rightarrow> string" where
  "packet_line p =
     p_proto p @ ''/'' @ p_type p @ '' '' @ p_from p @ ''->'' @ p_to p @ '' ttl='' @
     int_text (sint (p_ttl p)) @ '' id='' @ header_string p header_msg_id"

section \<open>Headers as a map\<close>

lemma header_set_header:
  "header (set_header key v p) k = (if k = key then Some v else header p k)"
proof -
  have "find_header k (put_header key v hs) = (if k = key then Some v else find_header k hs)" for hs
    by (induction hs) (auto simp: mhas_def split: option.splits)
  then show ?thesis by (simp add: header_def set_header_def)
qed

lemma header_payload [simp]: "header (p\<lparr>p_payload := x\<rparr>) k = header p k"
  by (simp add: header_def)

lemma set_header_payload [simp]: "p_payload (set_header k v p) = p_payload p"
  by (simp add: set_header_def)

lemma trace_append: "trace (append_trace addr p) = trace p @ [addr]"
  by (simp add: append_trace_def trace_def header_set_header)

lemma put_all_fresh: "wf_map h \<Longrightarrow> put_all h [] = h"
  using foldl_mput_fresh [of "[]" h] by (simp add: put_all_def)

definition headers_ok :: "packet \<Rightarrow> bool" where
  "headers_ok p \<longleftrightarrow> list_all wf_map (p_headers p)"

lemma clone_same: "headers_ok p \<Longrightarrow> clone p = p"
proof -
  assume "headers_ok p"
  then have "map (\<lambda>h. put_all h []) (p_headers p) = p_headers p"
    by (intro map_idI) (simp add: headers_ok_def put_all_fresh list_all_iff)
  then show ?thesis by (simp add: clone_def)
qed

lemma headers_ok_set_header: "headers_ok p \<Longrightarrow> headers_ok (set_header k v p)"
proof -
  have "list_all wf_map hs \<Longrightarrow> list_all wf_map (put_header k v hs)" for hs :: "header list"
    by (induction hs) auto
  then show "headers_ok p \<Longrightarrow> headers_ok (set_header k v p)"
    by (simp add: headers_ok_def set_header_def)
qed

section \<open>What is sent is what is received\<close>

definition norm_header :: "header \<Rightarrow> header" where
  "norm_header h = sort_key fst (map (\<lambda>(k, v). (k, norm_any v)) h)"

definition received :: "packet \<Rightarrow> packet" where
  "received p = p\<lparr>p_headers := map norm_header (p_headers p)\<rparr>"

text \<open>A packet this program may put on the wire.\<close>

definition wire_ok :: "packet \<Rightarrow> bool" where
  "wire_ok p \<longleftrightarrow>
     utf8_valid (p_proto p) \<and> utf8_valid (p_type p) \<and> utf8_valid (p_from p) \<and> utf8_valid (p_to p) \<and>
     \<not> int_le (p_ttl p) 0 \<and>
     list_all (\<lambda>h. any_ok (GObj h)) (p_headers p) \<and>
     (case header p header_msg_id of Some (GStr s) \<Rightarrow> s \<noteq> [] | _ \<Rightarrow> False) \<and>
     (case json_parse (p_payload p) of
        Some q \<Rightarrow> wf_json q \<and> html_clean q \<and> json_print q = p_payload p | None \<Rightarrow> False) \<and>
     (case packet_json p of Some j \<Rightarrow> json_depth j \<le> max_depth | None \<Rightarrow> False)"

lemma field_facts:
  "unquote ''version'' = Some ''version''" "unquote ''proto'' = Some ''proto''" "unquote ''type'' = Some ''type''"
  "unquote ''from'' = Some ''from''" "unquote ''to'' = Some ''to''" "unquote ''ttl'' = Some ''ttl''"
  "unquote ''headers'' = Some ''headers''" "unquote ''payload'' = Some ''payload''"
  "body_ok ''version''" "body_ok ''proto''" "body_ok ''type''" "body_ok ''from''" "body_ok ''to''" "body_ok ''ttl''"
  "body_ok ''headers''" "body_ok ''payload''"
  by code_simp+

lemma field_names:
  "is_field ''version'' ''version''" "\<not> is_field ''version'' ''proto''" "\<not> is_field ''version'' ''type''"
  "\<not> is_field ''version'' ''from''" "\<not> is_field ''version'' ''to''" "\<not> is_field ''version'' ''ttl''"
  "\<not> is_field ''version'' ''headers''" "\<not> is_field ''version'' ''payload''"
  "is_field ''proto'' ''proto''" "\<not> is_field ''proto'' ''type''" "\<not> is_field ''proto'' ''from''"
  "\<not> is_field ''proto'' ''to''" "\<not> is_field ''proto'' ''ttl''" "\<not> is_field ''proto'' ''headers''"
  "\<not> is_field ''proto'' ''payload''" "is_field ''type'' ''type''" "\<not> is_field ''type'' ''from''"
  "\<not> is_field ''type'' ''to''" "\<not> is_field ''type'' ''ttl''" "\<not> is_field ''type'' ''headers''"
  "\<not> is_field ''type'' ''payload''" "is_field ''from'' ''from''" "\<not> is_field ''from'' ''to''"
  "\<not> is_field ''from'' ''ttl''" "\<not> is_field ''from'' ''headers''" "\<not> is_field ''from'' ''payload''"
  "is_field ''to'' ''to''" "\<not> is_field ''to'' ''ttl''" "\<not> is_field ''to'' ''headers''" "\<not> is_field ''to'' ''payload''"
  "is_field ''ttl'' ''ttl''" "\<not> is_field ''ttl'' ''headers''" "\<not> is_field ''ttl'' ''payload''"
  "is_field ''headers'' ''headers''" "\<not> is_field ''headers'' ''payload''" "is_field ''payload'' ''payload''"
  by code_simp+

lemma dec_int_json [simp]: "dec_int old (int_json n) = Some n"
proof -
  have "- (2 ^ 63) \<le> sint n" "sint n < 2 ^ 63"
    using sint_greater_eq [of n] sint_less [of n] by simp_all
  then show ?thesis by (simp add: dec_int_def int_json_def int_text_roundtrip)
qed

lemma dec_string_quote [simp]: "utf8_valid s \<Longrightarrow> dec_string old (quote_str html s) = Some s"
  by (simp add: dec_string_def quote_str_def quote_roundtrip)

lemma dec_header_any: "dec_header [] (JObj ms) = (case to_any (JObj ms) of Some (GObj m) \<Rightarrow> Some m | _ \<Rightarrow> None)"
  by (simp add: dec_header_def split: option.split)

lemma dec_header_own:
  assumes "any_ok (GObj h)" and "of_any True (GObj h) = Some j"
  shows "dec_header [] j = Some (norm_header h)"
proof -
  from assms(2) obtain ms where "j = JObj ms" by auto
  with to_any_of_any [OF assms] show ?thesis by (simp only: dec_header_any) (simp add: norm_header_def)
qed

lemma dec_headers_own:
  assumes "list_all (\<lambda>h. any_ok (GObj h)) hs" and "those (map (\<lambda>h. of_any True (GObj h)) hs) = Some js"
  shows "dec_headers [] (JArr js) = Some (map norm_header hs)"
proof -
  from assms(2) have "map (\<lambda>h. of_any True (GObj h)) hs = map Some js" by (simp only: those_iff)
  with assms(1) have "dec_header_list [] js = Some (map norm_header hs)"
  proof (induction hs arbitrary: js)
    case (Cons h hs)
    then obtain j js' where "js = j # js'" "of_any True (GObj h) = Some j" by (auto simp: Cons_eq_map_conv)
    with Cons dec_header_own [of h j] show ?case by (auto simp: both_def)
  qed simp
  then show ?thesis by (simp add: dec_headers_def)
qed

lemma find_header_norm:
  "list_all wf_map hs \<Longrightarrow> find_header k (map norm_header hs) = map_option norm_any (find_header k hs)"
proof (induction hs)
  case (Cons h hs)
  let ?h = "map (\<lambda>(k, v). (k, norm_any v)) h"
  have "wf_map ?h" using Cons.prems by (simp add: wf_map_def case_prod_beta comp_def)
  then have s: "same_map (norm_header h) ?h"
    unfolding norm_header_def by (rule same_map_sort)
  have "mget ?h k = map_option norm_any (mget h k)" by (induction h) auto
  with Cons same_map_mget [OF s] show ?case by (auto split: option.splits)
qed simp

lemma header_received: "headers_ok p \<Longrightarrow> header (received p) k = map_option norm_any (header p k)"
  by (simp add: header_def received_def headers_ok_def find_header_norm)

lemma strings_of_map [simp]: "strings_of (map GStr ss) = ss"
  by (induction ss) simp_all

lemma wire_headers_ok: "wire_ok p \<Longrightarrow> headers_ok p"
  by (auto simp: wire_ok_def headers_ok_def list_all_iff)

lemma wf_packet_json:
  assumes "packet_json p = Some j" and "wf_json q" and "payload_json (p_payload p) = Some q"
  shows "wf_json j"
proof -
  from assms(1,3) obtain hs where hs: "those (map (\<lambda>h. of_any True (GObj h)) (p_headers p)) = Some hs"
    and j: "j = JObj
            [(''version'', int_json (p_version p)), (''proto'', quote_str True (p_proto p)),
             (''type'', quote_str True (p_type p)), (''from'', quote_str True (p_from p)),
             (''to'', quote_str True (p_to p)), (''ttl'', int_json (p_ttl p)),
             (''headers'', JArr hs), (''payload'', q)]"
    by (auto simp: packet_json_def split: option.splits)
  have "wf_json h" if "h \<in> set hs" for h
    using hs that wf_of_any unfolding those_iff
    by (metis (no_types, lifting) imageE imageI list.set_map option.inject)
  with assms(2) show ?thesis by (simp add: j field_facts int_json_def quote_str_def)
qed

lemma decode_encode:
  assumes "wire_ok p"
  shows "\<exists>data. encode p = Some data \<and> decode data = Some (received p)"
proof -
  from assms obtain j q s where j: "packet_json p = Some j" "json_depth j \<le> max_depth"
    and q: "json_parse (p_payload p) = Some q" "wf_json q" "html_clean q" "json_print q = p_payload p"
    and s: "header p header_msg_id = Some (GStr s)" "s \<noteq> []"
    by (auto simp: wire_ok_def split: option.splits goval.splits)
  have "p_payload p \<noteq> []" using q(1) by (auto simp: json_parse_def parse_fuel_def skip_ws_def numeral_2_eq_2)
  then have pl: "payload_json (p_payload p) = Some q"
    using q by (simp add: payload_json_def compact_clean)
  from j(1) pl obtain hs where hs: "those (map (\<lambda>h. of_any True (GObj h)) (p_headers p)) = Some hs"
    and je: "j = JObj
            [(''version'', int_json (p_version p)), (''proto'', quote_str True (p_proto p)),
             (''type'', quote_str True (p_type p)), (''from'', quote_str True (p_from p)),
             (''to'', quote_str True (p_to p)), (''ttl'', int_json (p_ttl p)),
             (''headers'', JArr hs), (''payload'', q)]"
    by (auto simp: packet_json_def split: option.splits)
  have wf: "wf_json j" by (rule wf_packet_json [OF j(1) q(2) pl])
  have dh: "dec_headers [] (JArr hs) = Some (map norm_header (p_headers p))"
    using assms hs by (intro dec_headers_own) (simp_all add: wire_ok_def)
  have utf: "utf8_valid (p_proto p)" "utf8_valid (p_type p)" "utf8_valid (p_from p)" "utf8_valid (p_to p)"
    and ttl: "\<not> int_le (p_ttl p) 0" using assms by (simp_all add: wire_ok_def)
  have "unmarshal_packet (json_print j) = Some (received p)"
    using json_parse_print [OF wf j(2)] json_members_print [of _, OF wf [unfolded je] j(2) [unfolded je]]
    by (simp add: unmarshal_packet_def je dec_member_def field_facts field_names utf dh zero_packet_def
        received_def q(4) del: json_print.simps)
  moreover have "header_string (received p) header_msg_id = s"
    using header_received [OF wire_headers_ok [OF assms]] s(1) by (simp add: header_string_def)
  ultimately have "decode (json_print j) = Some (received p)"
    using s(2) ttl by (simp add: decode_def Let_def received_def)
  with j(1) show ?thesis by (simp add: encode_def)
qed

section \<open>Checksums and new packets\<close>

lemma trim_space_id: "s \<noteq> [] \<Longrightarrow> \<not> is_space (hd s) \<Longrightarrow> \<not> is_space (last s) \<Longrightarrow> trim_space s = s"
proof -
  have dw: "t \<noteq> [] \<Longrightarrow> \<not> is_space (hd t) \<Longrightarrow> dropWhile is_space t = t" for t by (cases t) simp_all
  show "s \<noteq> [] \<Longrightarrow> \<not> is_space (hd s) \<Longrightarrow> \<not> is_space (last s) \<Longrightarrow> trim_space s = s"
    using dw [of s] dw [of "rev s"] by (simp add: trim_space_def hd_rev)
qed

lemma not_space [simp]: "\<not> is_space quote_char" "\<not> is_space (CHR ''{'')" "\<not> is_space (CHR ''}'')"
  by (simp_all add: is_space_def quote_char_def)

lemma unmarshal_quoted: "utf8_valid s \<Longrightarrow> unmarshal_string (json_print (quote_str html s)) = Some s"
proof -
  assume s: "utf8_valid s"
  have "json_parse (json_print (quote_str html s)) = Some (quote_str html s)"
    by (rule json_parse_print) (simp_all add: quote_str_def max_depth_def)
  with s show ?thesis by (simp add: unmarshal_string_def)
qed

lemma canonical_text:
  "utf8_valid s \<Longrightarrow> p_payload p = json_print (quote_str html s) \<Longrightarrow> canonical_payload p = s"
proof -
  assume h: "utf8_valid s" "p_payload p = json_print (quote_str html s)"
  have t: "trim_space (p_payload p) = p_payload p" "take 1 (p_payload p) = [quote_char]" "p_payload p \<noteq> []"
    by (auto simp: h(2) quote_str_def quoted_def intro!: trim_space_id)
  have "unmarshal_string (p_payload p) = Some s" unfolding h(2) by (rule unmarshal_quoted [OF h(1)])
  then show ?thesis by (simp add: canonical_payload_def t Let_def del: One_nat_def)
qed

lemma header_string_set [simp]: "header_string (set_header k (GStr v) p) k = v"
  by (simp add: header_string_def header_set_header)

lemma checksum_text: "utf8_valid s \<Longrightarrow> checksum_valid (set_payload_text s p)"
  using canonical_text [of s "set_payload_text s p" True]
  by (simp add: checksum_valid_def set_payload_text_def)

lemma checksum_object:
  assumes "set_payload_object (Some (JObj ms)) p = Some p'"
  shows "checksum_valid p'"
proof -
  from assms obtain c where c: "canonical_json (json_print (JObj ms)) = Some c"
    and p': "p' = set_header header_checksum (GStr (checksum_hex c)) (p\<lparr>p_payload := json_print (JObj ms)\<rparr>)"
    by (auto simp: set_payload_object_def split: option.splits)
  have "trim_space (json_print (JObj ms)) = json_print (JObj ms)"
    by (rule trim_space_id) simp_all
  with c have "canonical_payload p' = c"
    by (simp add: canonical_payload_def p' Let_def quote_char_def)
  then show ?thesis by (simp add: checksum_valid_def p')
qed

lemma payload_text_set: "utf8_valid s \<Longrightarrow> payload_text (set_payload_text s p) = Some s"
  by (simp add: payload_text_def set_payload_text_def unmarshal_quoted)

lemma utf8_hex_digit: "0 \<le> n \<Longrightarrow> n < 16 \<Longrightarrow> byte (hex_digit n) < 0x80"
  by (auto simp: hex_digit_def byte_chr)

lemma ascii_valid: "list_all (\<lambda>c. byte c < 0x80) s \<Longrightarrow> utf8_valid s"
  unfolding utf8_valid_def by (induction s) simp_all

lemma utf8_checksum [simp]: "utf8_valid (checksum_hex s)"
  by (rule ascii_valid) (simp add: checksum_hex_def hex8_def utf8_hex_digit)

lemma packet_json_depth:
  assumes "those (map (\<lambda>h. of_any True (GObj h)) (p_headers p)) = Some hs" and "payload_json (p_payload p) = Some q"
  shows "\<exists>j. packet_json p = Some j \<and> json_depth j = 1 + max (json_depth (JArr hs)) (max (json_depth q) 0)"
  using assms by (auto simp: packet_json_def int_json_def quote_str_def)

lemma new_text_wire:
  assumes "utf8_valid rid" "rid \<noteq> []" "utf8_valid proto" "utf8_valid typ" "utf8_valid source" "utf8_valid dest"
    and "utf8_valid text"
  shows "wire_ok (new_text rid proto typ source dest text)"
proof -
  let ?p = "new_text rid proto typ source dest text"
  have pl: "p_payload ?p = json_print (quote_str True text)"
    by (simp add: new_text_def set_payload_text_def)
  have js: "json_parse (json_print (quote_str True text)) = Some (quote_str True text)"
    by (rule json_parse_print) (simp_all add: quote_str_def max_depth_def)
  have hs: "p_headers ?p = [[(header_msg_id, GStr rid)], [(header_checksum, GStr (checksum_hex text))]]"
    by (simp add: new_text_def set_payload_text_def set_header_def new_packet_def header_names)
  have fields: "p_proto ?p = proto" "p_type ?p = typ" "p_from ?p = source" "p_to ?p = dest" "p_ttl ?p = default_ttl"
    by (simp_all add: new_text_def set_payload_text_def set_header_def new_packet_def)
  have ne: "json_print (quote_str True text) \<noteq> []" by (simp add: quote_str_def quoted_def)
  have "utf8_valid header_msg_id" "utf8_valid header_checksum" by (code_simp, code_simp)
  then have "list_all (\<lambda>h. any_ok (GObj h)) (p_headers ?p)" by (simp add: hs assms)
  moreover have "header ?p header_msg_id = Some (GStr rid)" by (simp add: header_def hs)
  moreover have "\<not> int_le default_ttl 0" by code_simp
  moreover have "payload_json (p_payload ?p) = Some (quote_str True text)"
    using ne by (simp add: payload_json_def pl js) (simp add: quote_str_def)
  then obtain j where "packet_json ?p = Some j \<and> json_depth j \<le> 3"
    using packet_json_depth [of ?p "[JObj [(quote_body True header_msg_id, quote_str True rid)],
        JObj [(quote_body True header_checksum, quote_str True (checksum_hex text))]]" "quote_str True text"]
    by (auto simp: hs quote_str_def)
  then have "case packet_json ?p of Some j \<Rightarrow> json_depth j \<le> max_depth | None \<Rightarrow> False"
    by (simp add: max_depth_def)
  ultimately show ?thesis
    by (simp add: wire_ok_def fields assms pl js) (simp add: quote_str_def)
qed

section \<open>What a receiver may rely on\<close>

text \<open>The headers of a decoded packet are maps, and every number in them is finite.\<close>

definition headers_sound :: "header list \<Rightarrow> bool" where
  "headers_sound hs \<longleftrightarrow> (\<forall>h \<in> set hs. wf_map h \<and> (\<forall>k x. (k, GNum x) \<in> set h \<longrightarrow> is_finite x))"

lemma headers_sound_Nil [simp]: "headers_sound []"
  by (simp add: headers_sound_def)

lemma headers_sound_Cons: "headers_sound (h # hs) \<longleftrightarrow> headers_sound [h] \<and> headers_sound hs"
  by (auto simp: headers_sound_def)

lemma to_any_number: "to_any j = Some (GNum x) \<Longrightarrow> is_finite x"
  by (cases j) (auto simp: parse_float_def Let_def split: option.splits if_splits)

lemma dec_header_finite: "dec_header old j = Some h \<Longrightarrow> headers_sound [old] \<Longrightarrow> headers_sound [h]"
proof (cases j)
  case (JObj ms)
  assume d: "dec_header old j = Some h" and o: "headers_sound [old]"
  from d JObj obtain kvs where kvs: "map (\<lambda>(k, v). both (unquote k) (to_any v)) ms = map Some kvs" and h: "h = put_all kvs old"
    by (auto simp: dec_header_def those_iff)
  have "is_finite x" if "(k, GNum x) \<in> set h" for k x
  proof -
    from that h put_all_values consider "(k, GNum x) \<in> set old" | "GNum x \<in> snd ` set kvs" by metis
    then show ?thesis
    proof cases
      case 2
      then obtain kv where kv: "kv \<in> set kvs" "snd kv = GNum x" by auto
      with map_Some_set [OF kvs] obtain m where "m \<in> set ms" "(case m of (k, v) \<Rightarrow> both (unquote k) (to_any v)) = Some kv"
        by blast
      then have "to_any (snd m) = Some (GNum x)" using kv(2) by (auto simp: both_def split: option.splits prod.splits)
      then show ?thesis by (rule to_any_number)
    qed (use o in \<open>auto simp: headers_sound_def\<close>)
  qed
  moreover have "wf_map h" using o by (simp add: h wf_put_all headers_sound_def)
  ultimately show ?thesis by (auto simp: headers_sound_def)
qed (auto simp: dec_header_def headers_sound_def)

lemma dec_header_list_finite: "dec_header_list old vs = Some hs \<Longrightarrow> headers_sound old \<Longrightarrow> headers_sound hs"
proof (induction old vs arbitrary: hs rule: dec_header_list.induct)
  case (2 old v vs)
  then obtain h hs' where h: "dec_header (case old of [] \<Rightarrow> [] | h # _ \<Rightarrow> h) v = Some h"
    and hs': "dec_header_list (tl old) vs = Some hs'" and hs: "hs = h # hs'"
    by (auto simp: both_def split: option.splits)
  have o: "headers_sound [case old of [] \<Rightarrow> [] | h # _ \<Rightarrow> h]" "headers_sound (tl old)"
    using "2.prems"(2) by (cases old; auto simp: headers_sound_def)+
  have "headers_sound [h]" by (rule dec_header_finite [OF h o(1)])
  moreover have "headers_sound hs'" by (rule "2.IH" [OF hs' o(2)])
  ultimately show ?case unfolding hs by (subst headers_sound_Cons) simp
qed simp

lemma dec_headers_finite: "dec_headers old v = Some hs \<Longrightarrow> headers_sound old \<Longrightarrow> headers_sound hs"
  by (auto simp: dec_headers_def dec_header_list_finite split: json.splits)

lemma dec_member_finite: "dec_member p m = Some p' \<Longrightarrow> headers_sound (p_headers p) \<Longrightarrow> headers_sound (p_headers p')"
  by (auto simp: dec_member_def dec_headers_finite split: prod.splits option.splits if_splits)

lemma dec_members_finite: "dec_members p ms = Some p' \<Longrightarrow> headers_sound (p_headers p) \<Longrightarrow> headers_sound (p_headers p')"
  by (induction p ms rule: dec_members.induct) (auto split: option.splits dest: dec_member_finite)

lemma put_header_finite: "headers_sound hs \<Longrightarrow> headers_sound (put_header k (GStr s) hs)"
proof (induction hs)
  case (Cons h hs)
  have "set (mput k (GStr s) h) \<subseteq> insert (k, GStr s) (set h)" by (induction h) auto
  with Cons show ?case by (auto simp: headers_sound_def)
qed (simp add: headers_sound_def)

lemma find_header_finite: "headers_sound hs \<Longrightarrow> find_header k hs = Some (GNum x) \<Longrightarrow> is_finite x"
  by (induction hs) (auto simp: headers_sound_def split: option.splits dest: mget_SomeD)

lemma decoded_sound: "decode data = Some p \<Longrightarrow> headers_sound (p_headers p)"
proof -
  assume d: "decode data = Some p"
  then obtain q where q: "unmarshal_packet data = Some q" by (auto simp: decode_def split: option.splits)
  have "headers_sound (p_headers q)"
    using q by (auto simp: unmarshal_packet_def zero_packet_def split: option.splits json.splits dest!: dec_members_finite)
  then show ?thesis
    using d q by (auto simp: decode_def Let_def set_header_def put_header_finite split: if_splits)
qed

lemma decoded_numbers: "decode data = Some p \<Longrightarrow> header_float p k = Some x \<Longrightarrow> is_finite x"
  using decoded_sound [of data p]
  by (auto simp: header_float_def header_def find_header_finite split: option.splits goval.splits)

lemma decoded_headers_ok: "decode data = Some p \<Longrightarrow> headers_ok p"
  using decoded_sound [of data p] by (simp add: headers_ok_def headers_sound_def list_all_iff)

lemma decode_defaults:
  assumes "decode data = Some p"
  shows "0 < sint (p_ttl p) \<and> header_string p header_msg_id \<noteq> []"
proof -
  from assms obtain q where q: "unmarshal_packet data = Some q" by (auto simp: decode_def split: option.splits)
  let ?q = "if int_le (p_ttl q) 0 then q\<lparr>p_ttl := default_ttl\<rparr> else q"
  have p: "p = (if header_string ?q header_msg_id = []
      then set_header header_msg_id (GStr (fallback_msg_id ?q)) ?q else ?q)"
    using assms q by (simp add: decode_def Let_def)
  have "0 < sint (p_ttl ?q)" by (simp add: int_le_def default_ttl_def)
  then have "0 < sint (p_ttl p)" by (simp add: p set_header_def)
  moreover have "fallback_msg_id ?q \<noteq> []" by (simp add: fallback_msg_id_def)
  ultimately show ?thesis by (simp add: p)
qed

lemma decrement_positive:
  assumes "0 < sint (p_ttl p)"
  shows "sint (p_ttl (fst (decrement_ttl p))) = sint (p_ttl p) - 1"
    and "snd (decrement_ttl p) \<longleftrightarrow> 1 < sint (p_ttl p)"
proof -
  have "sint (p_ttl p - 1) = sint (p_ttl p) - 1"
    using assms sint_less [of "p_ttl p"] sint_greater_eq [of "p_ttl p"]
    by (simp add: sint_word_ariths signed_take_bit_int_eq_self)
  then show "sint (p_ttl (fst (decrement_ttl p))) = sint (p_ttl p) - 1"
    and "snd (decrement_ttl p) \<longleftrightarrow> 1 < sint (p_ttl p)"
    by (simp_all add: decrement_ttl_def int_le_def Let_def not_le)
qed

lemma fmt_norm: "fmt_any (norm_any v) = fmt_any v"
proof (induction v)
  case (GStrs ss)
  have "map fmt_any (map GStr ss) = ss" by (simp add: comp_def)
  then show ?case by simp
next
  case (GArr vs)
  then have "map (fmt_any \<circ> norm_any) vs = map fmt_any vs" by simp
  then show ?case by (simp only: norm_any.simps fmt_any.simps list.map_comp)
next
  case (GObj m)
  let ?s = "sort_key fst (map (\<lambda>(k, v). (k, norm_any v)) m)"
  have "map (\<lambda>(k, v). (k, fmt_any v)) ?s = sort_key fst (map (\<lambda>(k, v). (k, fmt_any (norm_any v))) m)"
    by (simp add: sort_key_map_value comp_def case_prod_beta)
  also have "map (\<lambda>(k, v). (k, fmt_any (norm_any v))) m = map (\<lambda>(k, v). (k, fmt_any v)) m"
    using GObj by fastforce
  finally have "sort_key fst (map (\<lambda>(k, v). (k, fmt_any v)) ?s) = sort_key fst (map (\<lambda>(k, v). (k, fmt_any v)) m)"
    by (simp add: sort_key_sorted)
  then show ?case by simp
qed simp_all

lemma header_string_fmt: "header_string p k = (case header p k of None \<Rightarrow> [] | Some v \<Rightarrow> fmt_any v)"
  by (auto simp: header_string_def split: option.splits goval.splits)

lemma header_string_received: "headers_ok p \<Longrightarrow> header_string (received p) k = header_string p k"
  by (simp add: header_string_fmt header_received fmt_norm option.case_eq_if option.map_sel)

lemma strings_of_norm: "strings_of (map norm_any vs) = strings_of vs"
proof (induction vs)
  case (Cons v vs)
  then show ?case by (cases v) simp_all
qed simp

lemma trace_received: "headers_ok p \<Longrightarrow> trace (received p) = trace p"
  by (auto simp: trace_def header_received strings_of_norm split: option.splits goval.splits)

lemma received_payload [simp]: "p_payload (received p) = p_payload p"
  by (simp add: received_def)

lemma canonical_received [simp]: "canonical_payload (received p) = canonical_payload p"
  unfolding canonical_payload_def received_payload by (rule refl)

lemma checksum_received: "headers_ok p \<Longrightarrow> checksum_valid (received p) = checksum_valid p"
  by (simp add: checksum_valid_def header_string_received)

text \<open>How often a packet may be handed on.\<close>

fun travel :: "nat \<Rightarrow> packet \<Rightarrow> packet option" where
  "travel 0 p = Some p"
| "travel (Suc n) p = (case decrement_ttl p of (p, ok) \<Rightarrow> if ok then travel n p else None)"

lemma travel_iff: "0 < sint (p_ttl p) \<Longrightarrow> travel n p \<noteq> None \<longleftrightarrow> int n < sint (p_ttl p)"
proof (induction n arbitrary: p)
  case (Suc n)
  note d = decrement_positive [OF Suc.prems]
  show ?case
  proof (cases "snd (decrement_ttl p)")
    case True
    with d Suc.IH [of "fst (decrement_ttl p)"] show ?thesis by (auto simp: split_beta)
  next
    case False
    with d(2) show ?thesis by (simp add: split_beta)
  qed
qed simp

section \<open>Properties\<close>

text \<open>
  C21: the wire format loses nothing. A packet this program may send is encoded, and decoding
  the bytes gives the packet back, its headers as a receiver sees them, with the same trace
  and the same verdict on its checksum.
\<close>

theorem packet_survives_wire:
  assumes "wire_ok p"
  shows "(case encode p of Some data \<Rightarrow> decode data = Some (received p) | None \<Rightarrow> False) \<and>
    trace (received p) = trace p \<and> checksum_valid (received p) = checksum_valid p"
  using decode_encode [OF assms] trace_received checksum_received wire_headers_ok [OF assms] by auto

definition sample_packet :: packet where
  "sample_packet = append_trace ''A'' (new_text ''7f'' proto_flooding type_message ''A'' ''B'' ''hola G'')"

theorem packet_survives_wire_witness:
  "trace (received sample_packet) = [''A'']"
proof -
  have ok: "wire_ok sample_packet" by code_simp
  have "trace sample_packet = [''A'']" by code_simp
  with packet_survives_wire [OF ok] show ?thesis by simp
qed

text \<open>
  A text message written by this program arrives. Its bytes decode to a packet that
  carries the same text and whose checksum verifies.
\<close>

theorem text_message_arrives:
  assumes "utf8_valid rid" "rid \<noteq> []" "utf8_valid proto" "utf8_valid typ" "utf8_valid source" "utf8_valid dest"
    and "utf8_valid text"
  shows "\<exists>data q. encode (new_text rid proto typ source dest text) = Some data \<and> decode data = Some q \<and>
    payload_text q = Some text \<and> checksum_valid q \<and> p_from q = source \<and> p_to q = dest \<and>
    header_string q header_msg_id = rid"
proof -
  let ?p = "new_text rid proto typ source dest text"
  have ok: "wire_ok ?p" by (rule new_text_wire [OF assms])
  note h = wire_headers_ok [OF ok]
  obtain data where d: "encode ?p = Some data" "decode data = Some (received ?p)"
    using decode_encode [OF ok] by blast
  have "payload_text (received ?p) = Some text"
    using payload_text_set [OF assms(7)] by (simp add: new_text_def payload_text_def received_def)
  moreover have "checksum_valid (received ?p)"
    using checksum_text [OF assms(7)] by (simp add: checksum_received [OF h]) (simp add: new_text_def)
  moreover have "header_string (received ?p) header_msg_id = rid"
    by (simp add: header_string_received [OF h])
      (simp add: header_string_def new_text_def set_payload_text_def new_packet_def header_set_header header_names)
  moreover have "p_from (received ?p) = source" "p_to (received ?p) = dest"
    by (simp_all add: received_def new_text_def set_payload_text_def set_header_def new_packet_def)
  ultimately show ?thesis using d by blast
qed

theorem text_message_arrives_witness:
  "\<exists>data q. encode (new_text ''7f'' proto_lsr type_message ''A'' ''B'' ''hola G'') = Some data \<and>
     decode data = Some q \<and> payload_text q = Some ''hola G''"
proof -
  have u: "utf8_valid ''7f''" "''7f'' \<noteq> []" "utf8_valid proto_lsr" "utf8_valid type_message" "utf8_valid ''A''"
    "utf8_valid ''B''" "utf8_valid ''hola G''" by code_simp+
  show ?thesis using text_message_arrives [OF u] by blast
qed

text \<open>
  Every packet that is decoded, whoever sent it, has an identifier and a positive hop
  count, and it can be handed on exactly as often as that count says, less one: the counter
  never wraps.
\<close>

theorem decoded_packet_hops:
  assumes "decode data = Some p"
  shows "header_string p header_msg_id \<noteq> [] \<and> 0 < sint (p_ttl p) \<and>
    (travel n p \<noteq> None \<longleftrightarrow> int n < sint (p_ttl p))"
  using decode_defaults [OF assms] travel_iff by blast

theorem decoded_packet_hops_witness:
  "case decode ''{}'' of Some p \<Rightarrow> travel 15 p \<noteq> None | None \<Rightarrow> False"
proof -
  have "map_option p_ttl (decode ''{}'') = Some default_ttl" by code_simp
  then obtain p where p: "decode ''{}'' = Some p" "p_ttl p = default_ttl" by (cases "decode ''{}''") auto
  have "sint default_ttl = 16" by (simp add: default_ttl_def)
  with decoded_packet_hops [OF p(1), of 15] p show ?thesis by simp
qed

end
