(* ===== verification/Proto_Payload.thy ===== *)
theory Proto_Payload
  imports Proto_Packet
begin

text \<open>
  internal/protocol/payload.go: the objects carried by hello, echo and info packets, and the
  tolerant reading of a link-state packet. A nil slice is the empty list; \<open>Marshal\<close> is always
  given a slice that was made. The order of the entries read from a dictionary is the order
  of its keys in the model; Go leaves it open.
\<close>

definition hello_json :: "goint \<Rightarrow> json" where
  "hello_json port = JObj [(''listen_port'', int_json port)]"

record neighbor_entry =
  ne_id :: string
  ne_weight :: float64

record lsp =
  lsp_origin :: string
  lsp_seq :: goint
  lsp_age :: float64
  lsp_neighbors :: "neighbor_entry list"

section \<open>Writing\<close>

definition float_json :: "float64 \<Rightarrow> json option" where
  "float_json x = (if is_finite x then Some (JNum (json_float x)) else None)"

definition entry_json :: "neighbor_entry \<Rightarrow> json option" where
  "entry_json e =
     map_option (\<lambda>w. JObj [(''id'', quote_str True (ne_id e)), (''weight'', w)]) (float_json (ne_weight e))"

definition lsp_json :: "lsp \<Rightarrow> json option" where
  "lsp_json l =
     (case both (float_json (lsp_age l)) (those (map entry_json (lsp_neighbors l))) of
        None \<Rightarrow> None
      | Some (age, es) \<Rightarrow>
          Some (JObj [(''origin'', quote_str True (lsp_origin l)), (''seq'', int_json (lsp_seq l)),
                      (''age_s'', age), (''neighbors'', JArr es)]))"

section \<open>Reading\<close>

definition zero_entry :: neighbor_entry where
  "zero_entry = \<lparr>ne_id = [], ne_weight = f0\<rparr>"

text \<open>One member of an entry whose fields are called \<open>idn\<close> and \<open>wn\<close>, and one entry.\<close>

definition dec_entry_member :: "string \<Rightarrow> string \<Rightarrow> neighbor_entry \<Rightarrow> string \<times> json \<Rightarrow> neighbor_entry option" where
  "dec_entry_member idn wn e m =
     (case m of (k, v) \<Rightarrow>
       case unquote k of
         None \<Rightarrow> None
       | Some key \<Rightarrow>
           if is_field idn key then map_option (\<lambda>x. e\<lparr>ne_id := x\<rparr>) (dec_string (ne_id e) v)
           else if is_field wn key then map_option (\<lambda>x. e\<lparr>ne_weight := x\<rparr>) (dec_float (ne_weight e) v)
           else Some e)"

fun dec_entry_members :: "string \<Rightarrow> string \<Rightarrow> neighbor_entry \<Rightarrow> (string \<times> json) list \<Rightarrow> neighbor_entry option" where
  "dec_entry_members idn wn e [] = Some e"
| "dec_entry_members idn wn e (m # ms) =
     (case dec_entry_member idn wn e m of None \<Rightarrow> None | Some e \<Rightarrow> dec_entry_members idn wn e ms)"

definition dec_entry :: "string \<Rightarrow> string \<Rightarrow> json \<Rightarrow> neighbor_entry option" where
  "dec_entry idn wn j =
     (case j of
        JNull \<Rightarrow> Some zero_entry
      | JObj ms \<Rightarrow> dec_entry_members idn wn zero_entry ms
      | _ \<Rightarrow> None)"

definition dec_entries :: "string \<Rightarrow> string \<Rightarrow> string \<Rightarrow> neighbor_entry list option" where
  "dec_entries idn wn raw =
     (case json_parse raw of
        Some JNull \<Rightarrow> Some []
      | Some (JArr vs) \<Rightarrow> those (map (dec_entry idn wn) vs)
      | _ \<Rightarrow> None)"

fun all_have_id :: "neighbor_entry list \<Rightarrow> bool" where
  "all_have_id [] = True"
| "all_have_id (e # es) = (ne_id e \<noteq> [] \<and> all_have_id es)"

definition dec_dict :: "string \<Rightarrow> (string, float64) gomap option" where
  "dec_dict raw = (case json_parse raw of None \<Rightarrow> None | Some j \<Rightarrow> dec_floats j)"

definition decode_neighbors :: "string \<Rightarrow> neighbor_entry list" where
  "decode_neighbors raw =
     (case trim_space raw of
        [] \<Rightarrow> []
      | c # r \<Rightarrow>
          if c = CHR ''{'' then
            (case dec_dict (c # r) of
               None \<Rightarrow> []
             | Some dict \<Rightarrow> map (\<lambda>(pid, cost). \<lparr>ne_id = pid, ne_weight = cost\<rparr>) dict)
          else if c = CHR ''['' then
            (case dec_entries ''id'' ''weight'' (c # r) of
               Some es \<Rightarrow>
                 if all_have_id es then es
                 else (case dec_entries ''node'' ''cost'' (c # r) of Some es' \<Rightarrow> es' | None \<Rightarrow> [])
             | None \<Rightarrow> (case dec_entries ''node'' ''cost'' (c # r) of Some es' \<Rightarrow> es' | None \<Rightarrow> []))
          else [])"

text \<open>The members of an object by name, each with its bytes; the last of equal names stays.\<close>

definition raw_map :: "string \<Rightarrow> (string, string) gomap option" where
  "raw_map data =
     (case json_parse data of
        Some JNull \<Rightarrow> Some []
      | Some (JObj _) \<Rightarrow>
          (case json_members data of
             None \<Rightarrow> None
           | Some ms \<Rightarrow>
               map_option (\<lambda>kvs. put_all kvs []) (those (map (\<lambda>(k, raw, v). map_option (\<lambda>k. (k, raw)) (unquote k)) ms)))
      | _ \<Rightarrow> None)"

text \<open>A field that is absent or has the wrong type keeps its zero value.\<close>

definition dec_or :: "'a \<Rightarrow> ('a \<Rightarrow> json \<Rightarrow> 'a option) \<Rightarrow> string option \<Rightarrow> 'a" where
  "dec_or z dec raw =
     (case raw of
        None \<Rightarrow> z
      | Some r \<Rightarrow> (case json_parse r of None \<Rightarrow> z | Some j \<Rightarrow> (case dec z j of None \<Rightarrow> z | Some x \<Rightarrow> x)))"

definition decode_lsp :: "string \<Rightarrow> lsp option" where
  "decode_lsp raw =
     (case raw_map (unwrap raw) of
        None \<Rightarrow> None
      | Some generic \<Rightarrow>
          let links = (case mget generic ''neighbors'' of Some n \<Rightarrow> Some n | None \<Rightarrow> mget generic ''links'')
          in Some \<lparr>lsp_origin = dec_or [] dec_string (mget generic ''origin''),
                   lsp_seq = dec_or 0 dec_int (mget generic ''seq''),
                   lsp_age = dec_or f0 dec_float (mget generic ''age_s''),
                   lsp_neighbors = (case links of None \<Rightarrow> [] | Some n \<Rightarrow> decode_neighbors n)\<rparr>)"

section \<open>Decoded costs are finite\<close>

lemma dec_entry_member_finite:
  "dec_entry_member i w e m = Some e' \<Longrightarrow> is_finite (ne_weight e) \<Longrightarrow> is_finite (ne_weight e')"
  using finite_dec_float_any
  by (auto simp: dec_entry_member_def split: prod.splits option.splits if_splits)

lemma dec_entry_members_finite:
  "dec_entry_members i w e ms = Some e' \<Longrightarrow> is_finite (ne_weight e) \<Longrightarrow> is_finite (ne_weight e')"
  by (induction i w e ms rule: dec_entry_members.induct)
    (auto split: option.splits dest: dec_entry_member_finite)

lemma dec_entries_finite: "dec_entries i w raw = Some es \<Longrightarrow> e \<in> set es \<Longrightarrow> is_finite (ne_weight e)"
proof -
  have z: "is_finite (ne_weight zero_entry)" by code_simp
  assume h: "dec_entries i w raw = Some es" "e \<in> set es"
  then consider "es = []" | vs where "map (dec_entry i w) vs = map Some es"
    by (auto simp: dec_entries_def those_iff split: option.splits json.splits)
  then show ?thesis
  proof cases
    case 2
    with h map_Some_set obtain v where "dec_entry i w v = Some e" by metis
    with z show ?thesis by (auto simp: dec_entry_def dec_entry_members_finite split: json.splits)
  qed (use h in simp)
qed

lemma decode_neighbors_finite: "e \<in> set (decode_neighbors raw) \<Longrightarrow> is_finite (ne_weight e)"
proof -
  have dict: "dec_dict r = Some d \<Longrightarrow> (k, c) \<in> set d \<Longrightarrow> is_finite c" for r d k c
    by (auto simp: dec_dict_def split: option.splits dest: finite_dec_floats)
  show "e \<in> set (decode_neighbors raw) \<Longrightarrow> is_finite (ne_weight e)"
    by (auto simp: decode_neighbors_def split: list.splits if_splits option.splits
      dest: dict dict [OF sym] dec_entries_finite dec_entries_finite [OF sym])
qed

lemma decode_lsp_finite:
  "decode_lsp raw = Some l \<Longrightarrow> e \<in> set (lsp_neighbors l) \<Longrightarrow> is_finite (ne_weight e)"
  by (auto simp: decode_lsp_def Let_def split: option.splits dest: decode_neighbors_finite)

section \<open>A link-state packet survives the wire\<close>

definition entry_ok :: "neighbor_entry \<Rightarrow> bool" where
  "entry_ok e \<longleftrightarrow> utf8_valid (ne_id e) \<and> ne_id e \<noteq> [] \<and> is_finite (ne_weight e)"

definition lsp_ok :: "lsp \<Rightarrow> bool" where
  "lsp_ok l \<longleftrightarrow> utf8_valid (lsp_origin l) \<and> is_finite (lsp_age l) \<and> list_all entry_ok (lsp_neighbors l)"

text \<open>The shapes a receiver tolerates, as other implementations may write them.\<close>

definition shape_list :: "string \<Rightarrow> string \<Rightarrow> neighbor_entry list \<Rightarrow> json" where
  "shape_list idn wn es =
     JArr (map (\<lambda>e. JObj [(idn, quote_str True (ne_id e)), (wn, JNum (json_float (ne_weight e)))]) es)"

definition shape_dict :: "neighbor_entry list \<Rightarrow> json" where
  "shape_dict es = JObj (map (\<lambda>e. (quote_body True (ne_id e), JNum (json_float (ne_weight e)))) es)"

definition shape_lsp :: "string \<Rightarrow> json \<Rightarrow> lsp \<Rightarrow> json" where
  "shape_lsp name links l =
     JObj [(''origin'', quote_str True (lsp_origin l)), (''seq'', int_json (lsp_seq l)),
           (''age_s'', JNum (json_float (lsp_age l))), (name, links)]"

lemma those_map_Some: "(\<And>x. x \<in> set xs \<Longrightarrow> f x = Some (g x)) \<Longrightarrow> those (map f xs) = Some (map g xs)"
  by (induction xs) simp_all

lemma lsp_json_shape:
  assumes "lsp_ok l"
  shows "lsp_json l = Some (shape_lsp ''neighbors'' (shape_list ''id'' ''weight'' (lsp_neighbors l)) l)"
proof -
  have "those (map entry_json (lsp_neighbors l)) =
      Some (map (\<lambda>e. JObj [(''id'', quote_str True (ne_id e)), (''weight'', JNum (json_float (ne_weight e)))]) (lsp_neighbors l))"
    using assms by (intro those_map_Some) (auto simp: entry_json_def float_json_def lsp_ok_def list_all_iff entry_ok_def)
  with assms show ?thesis by (simp add: lsp_json_def lsp_ok_def float_json_def both_def shape_lsp_def shape_list_def)
qed

lemma key_facts:
  "unquote ''origin'' = Some ''origin''" "unquote ''seq'' = Some ''seq''" "unquote ''age_s'' = Some ''age_s''"
  "unquote ''neighbors'' = Some ''neighbors''" "unquote ''links'' = Some ''links''"
  "unquote ''id'' = Some ''id''" "unquote ''weight'' = Some ''weight''" "unquote ''node'' = Some ''node''"
  "unquote ''cost'' = Some ''cost''" "body_ok ''origin''" "body_ok ''seq''" "body_ok ''age_s''"
  "body_ok ''neighbors''" "body_ok ''links''" "body_ok ''id''" "body_ok ''weight''" "body_ok ''node''" "body_ok ''cost''"
  "is_field ''id'' ''id''" "is_field ''weight'' ''weight''" "is_field ''node'' ''node''" "is_field ''cost'' ''cost''"
  "\<not> is_field ''id'' ''weight''" "\<not> is_field ''node'' ''cost''" "\<not> is_field ''id'' ''node''" "\<not> is_field ''id'' ''cost''"
  "\<not> is_field ''weight'' ''node''" "\<not> is_field ''weight'' ''cost''"
  by code_simp+

lemma dec_float_number [simp]: "is_finite x \<Longrightarrow> dec_float old (JNum (json_float x)) = Some x"
  by (simp add: dec_float_def json_float_roundtrip)

lemma json_parse_number: "is_finite x \<Longrightarrow> json_parse (json_float x) = Some (JNum (json_float x))"
  using json_parse_print [of "JNum (json_float x)"] by (simp add: max_depth_def)

lemma json_parse_quote: "json_parse (quoted (quote_body html s)) = Some (quote_str html s)"
  using json_parse_print [of "quote_str html s"] by (simp add: quote_str_def max_depth_def)

lemma json_parse_int: "json_parse (int_text (sint n)) = Some (int_json n)"
  using json_parse_print [of "int_json n"] by (simp add: int_json_def max_depth_def)

text \<open>The four members of a link-state object, whatever its last one holds.\<close>

lemma unwrap_object: "wf_json (JObj ms) \<Longrightarrow> json_depth (JObj ms) \<le> max_depth \<Longrightarrow>
    unwrap (json_print (JObj ms)) = json_print (JObj ms)"
  using json_parse_print [of "JObj ms"] by (simp add: unwrap_def unmarshal_string_def dec_string_def del: json_print.simps)

lemma decode_lsp_shape:
  assumes "lsp_ok l" and "name = ''neighbors'' \<or> name = ''links''" and "wf_json links"
    and "json_depth links < max_depth"
  shows "decode_lsp (json_print (shape_lsp name links l)) =
    Some (l\<lparr>lsp_neighbors := decode_neighbors (json_print links)\<rparr>)"
proof -
  have wf: "wf_json (shape_lsp name links l)"
    using assms by (auto simp: shape_lsp_def quote_str_def int_json_def key_facts lsp_ok_def)
  have d: "json_depth (shape_lsp name links l) \<le> max_depth"
    using assms(4) by (simp add: shape_lsp_def quote_str_def int_json_def max_depth_def)
  have raw: "raw_map (json_print (shape_lsp name links l)) =
      Some [(''origin'', json_print (quote_str True (lsp_origin l))), (''seq'', int_text (sint (lsp_seq l))),
            (''age_s'', json_float (lsp_age l)), (name, json_print links)]"
    using json_parse_print [OF wf d] json_members_print [OF wf [unfolded shape_lsp_def] d [unfolded shape_lsp_def]] assms(2)
    by (auto simp: raw_map_def shape_lsp_def key_facts put_all_def int_json_def simp del: json_print.simps)
      (auto simp: int_json_def)
  have un: "unwrap (json_print (shape_lsp name links l)) = json_print (shape_lsp name links l)"
    unfolding shape_lsp_def by (rule unwrap_object [OF wf [unfolded shape_lsp_def] d [unfolded shape_lsp_def]])
  show ?thesis
    using assms(1,2)
    by (auto simp: decode_lsp_def un raw Let_def dec_or_def quote_str_def json_parse_quote [unfolded quote_str_def]
        json_parse_int json_parse_number lsp_ok_def dec_string_def quote_roundtrip)
qed

lemma trim_print: "trim_space (json_print (JArr vs)) = json_print (JArr vs)"
    "trim_space (json_print (JObj ms)) = json_print (JObj ms)"
  by (rule trim_space_id; simp add: is_space_def)+

lemma foldr_max_const: "(\<forall>x \<in> set xs. x \<le> c) \<Longrightarrow> (0::int) \<le> c \<Longrightarrow> foldr max xs 0 \<le> c"
  by (induction xs) auto

lemma shape_list_wf:
  assumes "list_all entry_ok es" and "body_ok idn" and "body_ok wn"
  shows "wf_json (shape_list idn wn es)" and "json_depth (shape_list idn wn es) \<le> 2"
proof -
  show "wf_json (shape_list idn wn es)"
    using assms by (auto simp: shape_list_def quote_str_def list_all_iff entry_ok_def)
  have "foldr max (map (\<lambda>e. 1) es) 0 \<le> (1::int)" by (rule foldr_max_const) auto
  then show "json_depth (shape_list idn wn es) \<le> 2"
    by (simp add: shape_list_def comp_def quote_str_def)
qed

lemma dec_entries_shape:
  assumes "list_all entry_ok es" and "body_ok idn" and "body_ok wn"
  shows "dec_entries i w (json_print (shape_list idn wn es)) =
    those (map (\<lambda>e. dec_entry i w (JObj [(idn, quote_str True (ne_id e)), (wn, JNum (json_float (ne_weight e)))])) es)"
proof -
  note w = shape_list_wf [OF assms]
  have "json_parse (json_print (shape_list idn wn es)) = Some (shape_list idn wn es)"
    using w by (intro json_parse_print) (simp_all add: max_depth_def)
  then show ?thesis by (simp add: dec_entries_def shape_list_def comp_def del: json_print.simps)
qed

lemma dec_entry_match:
  assumes "entry_ok e" and "unquote idn = Some idn" "unquote wn = Some wn" "is_field idn idn" "is_field wn wn" "\<not> is_field idn wn"
  shows "dec_entry idn wn (JObj [(idn, quote_str True (ne_id e)), (wn, JNum (json_float (ne_weight e)))]) = Some e"
  using assms by (simp add: dec_entry_def dec_entry_member_def entry_ok_def zero_entry_def)

lemma all_have_id_iff: "all_have_id es \<longleftrightarrow> (\<forall>e \<in> set es. ne_id e \<noteq> [])"
  by (induction es) simp_all

lemma decode_neighbors_array:
  "decode_neighbors (json_print (shape_list idn wn es)) =
     (let t = json_print (shape_list idn wn es);
          other = (case dec_entries ''node'' ''cost'' t of Some es' \<Rightarrow> es' | None \<Rightarrow> [])
      in case dec_entries ''id'' ''weight'' t of
           Some es' \<Rightarrow> if all_have_id es' then es' else other | None \<Rightarrow> other)"
  unfolding decode_neighbors_def shape_list_def trim_print by (simp add: Let_def)

lemma decode_neighbors_object:
  "decode_neighbors (json_print (shape_dict es)) =
     (case dec_dict (json_print (shape_dict es)) of
        None \<Rightarrow> [] | Some dict \<Rightarrow> map (\<lambda>(pid, cost). \<lparr>ne_id = pid, ne_weight = cost\<rparr>) dict)"
  unfolding decode_neighbors_def shape_dict_def trim_print by simp

lemma decode_neighbors_list:
  assumes "list_all entry_ok es"
  shows "decode_neighbors (json_print (shape_list ''id'' ''weight'' es)) = es"
proof -
  have "dec_entries ''id'' ''weight'' (json_print (shape_list ''id'' ''weight'' es)) = those (map Some es)"
    using assms by (subst dec_entries_shape) (auto simp: key_facts list_all_iff intro!: arg_cong [where f = those] dec_entry_match)
  then have d: "dec_entries ''id'' ''weight'' (json_print (shape_list ''id'' ''weight'' es)) = Some es"
    by (simp add: those_iff)
  have "all_have_id es" using assms by (auto simp: all_have_id_iff list_all_iff entry_ok_def)
  with d show ?thesis by (simp add: decode_neighbors_array)
qed

lemma decode_neighbors_node_cost:
  assumes "list_all entry_ok es"
  shows "decode_neighbors (json_print (shape_list ''node'' ''cost'' es)) = es"
proof -
  let ?t = "json_print (shape_list ''node'' ''cost'' es)"
  have "dec_entries ''node'' ''cost'' ?t = those (map Some es)"
    using assms by (subst dec_entries_shape) (auto simp: key_facts list_all_iff intro!: arg_cong [where f = those] dec_entry_match)
  then have d: "dec_entries ''node'' ''cost'' ?t = Some es" by (simp add: those_iff)
  have "dec_entries ''id'' ''weight'' ?t = those (map (\<lambda>e. Some zero_entry) es)"
    using assms by (subst dec_entries_shape)
      (auto simp: key_facts list_all_iff dec_entry_def dec_entry_member_def intro!: arg_cong [where f = those])
  then have z: "dec_entries ''id'' ''weight'' ?t = Some (map (\<lambda>e. zero_entry) es)"
    using those_map_Some [of es "\<lambda>e. Some zero_entry" "\<lambda>e. zero_entry"] by simp
  have "all_have_id (map (\<lambda>e. zero_entry) es) \<Longrightarrow> es = []" by (cases es) (auto simp: zero_entry_def)
  with d z show ?thesis by (auto simp: decode_neighbors_array)
qed

lemma shape_dict_wf:
  assumes "list_all entry_ok es"
  shows "wf_json (shape_dict es)" and "json_depth (shape_dict es) \<le> 1"
proof -
  show "wf_json (shape_dict es)" using assms by (auto simp: shape_dict_def list_all_iff entry_ok_def)
  have "foldr max (map (\<lambda>e. 0) es) 0 \<le> (0::int)" by (rule foldr_max_const) auto
  then show "json_depth (shape_dict es) \<le> 1" by (simp add: shape_dict_def comp_def)
qed

lemma decode_neighbors_dict:
  assumes "list_all entry_ok es" and "distinct (map ne_id es)"
  shows "decode_neighbors (json_print (shape_dict es)) = es"
proof -
  note w = shape_dict_wf [OF assms(1)]
  have p: "json_parse (json_print (shape_dict es)) = Some (shape_dict es)"
    using w by (intro json_parse_print) (simp_all add: max_depth_def)
  let ?kv = "\<lambda>e. (ne_id e, ne_weight e)"
  have "those (map (\<lambda>(k, v). both (unquote k) (dec_float f0 v))
      (map (\<lambda>e. (quote_body True (ne_id e), JNum (json_float (ne_weight e)))) es)) = Some (map ?kv es)"
    unfolding list.map_comp using assms(1)
    by (intro those_map_Some) (auto simp: list_all_iff entry_ok_def both_def quote_roundtrip)
  then have "dec_floats (shape_dict es) = Some (put_all (map ?kv es) [])"
    by (simp add: dec_floats_def shape_dict_def)
  moreover have "wf_map (map ?kv es)" using assms(2) by (simp add: wf_map_def comp_def)
  ultimately have "dec_dict (json_print (shape_dict es)) = Some (map ?kv es)"
    by (simp add: dec_dict_def p put_all_fresh)
  moreover have "map (\<lambda>(pid, cost). \<lparr>ne_id = pid, ne_weight = cost\<rparr>) (map ?kv es) = es"
    by (simp add: comp_def map_idI)
  ultimately show ?thesis by (simp add: decode_neighbors_object)
qed

lemma decode_lsp_wrapped: "utf8_valid t \<Longrightarrow> unwrap t = t \<Longrightarrow> decode_lsp (json_print (quote_str html t)) = decode_lsp t"
  using unmarshal_quoted [of t html] by (simp add: decode_lsp_def unwrap_def)

lemma decode_lsp_own:
  assumes "lsp_ok l" and "lsp_json l = Some j"
  shows "decode_lsp (json_print j) = Some l"
proof -
  have es: "list_all entry_ok (lsp_neighbors l)" using assms(1) by (simp add: lsp_ok_def)
  note w = shape_list_wf [OF es, of "''id''" "''weight''"]
  from assms lsp_json_shape [OF assms(1)]
  have "j = shape_lsp ''neighbors'' (shape_list ''id'' ''weight'' (lsp_neighbors l)) l" by simp
  then show ?thesis
    using decode_lsp_shape [OF assms(1) _ w(1), of "''neighbors''"] w(2) decode_neighbors_list [OF es]
    by (simp add: key_facts max_depth_def)
qed

section \<open>Properties\<close>

text \<open>
  C33: a link-state packet is read back from every shape the protocol tolerates: our own, the
  list of node and cost, the dictionary, under either name, and the text of an object inside
  a string.
\<close>

theorem lsp_shapes:
  assumes "lsp_ok l" and "name \<in> {''neighbors'', ''links''}" and "distinct (map ne_id (lsp_neighbors l))"
    and "utf8_valid t" and "unwrap t = t"
  shows "decode_lsp (json_print (shape_lsp name (shape_list ''id'' ''weight'' (lsp_neighbors l)) l)) = Some l \<and>
    decode_lsp (json_print (shape_lsp name (shape_list ''node'' ''cost'' (lsp_neighbors l)) l)) = Some l \<and>
    decode_lsp (json_print (shape_lsp name (shape_dict (lsp_neighbors l)) l)) = Some l \<and>
    decode_lsp (json_print (quote_str html t)) = decode_lsp t"
proof -
  have es: "list_all entry_ok (lsp_neighbors l)" using assms(1) by (simp add: lsp_ok_def)
  have nm: "name = ''neighbors'' \<or> name = ''links''" using assms(2) by simp
  note w = shape_list_wf [OF es] and d = shape_dict_wf [OF es]
  have "decode_lsp (json_print (shape_lsp name (shape_list idn wn (lsp_neighbors l)) l)) =
      Some (l\<lparr>lsp_neighbors := decode_neighbors (json_print (shape_list idn wn (lsp_neighbors l)))\<rparr>)"
    if "body_ok idn" "body_ok wn" for idn wn
    using w [OF that] by (intro decode_lsp_shape [OF assms(1) nm]) (simp_all add: max_depth_def)
  moreover have "decode_lsp (json_print (shape_lsp name (shape_dict (lsp_neighbors l)) l)) =
      Some (l\<lparr>lsp_neighbors := decode_neighbors (json_print (shape_dict (lsp_neighbors l)))\<rparr>)"
    using d by (intro decode_lsp_shape [OF assms(1) nm]) (simp_all add: max_depth_def)
  ultimately show ?thesis
    using decode_neighbors_list [OF es] decode_neighbors_node_cost [OF es]
      decode_neighbors_dict [OF es assms(3)] decode_lsp_wrapped [OF assms(4,5)]
    by (simp add: key_facts)
qed

definition sample_lsp :: lsp where
  "sample_lsp = \<lparr>lsp_origin = ''10.0.0.1:5000'', lsp_seq = 7, lsp_age = f0,
     lsp_neighbors = [\<lparr>ne_id = ''B'', ne_weight = f64 (5/2)\<rparr>, \<lparr>ne_id = ''C'', ne_weight = f64 1\<rparr>]\<rparr>"

theorem lsp_shapes_witness:
  "decode_lsp (json_print (shape_lsp ''links'' (shape_dict (lsp_neighbors sample_lsp)) sample_lsp)) = Some sample_lsp"
proof -
  have l: "lsp_ok sample_lsp" by code_simp
  have n: "''links'' \<in> {''neighbors'', ''links''}" by simp
  have d: "distinct (map ne_id (lsp_neighbors sample_lsp))" by code_simp
  have t: "utf8_valid ''{}''" "unwrap ''{}'' = ''{}''" by code_simp+
  show ?thesis using lsp_shapes [OF l n d t] by blast
qed

end
