(* ===== verification/Rt_Table.thy ===== *)
theory Rt_Table
  imports Go_Float
begin

text \<open>
  internal/routing/table.go: a route, a routing table keyed by destination, its sorted
  listing, and the table shared between the routing and the forwarding goroutines, whose
  three operations each run under its lock and are therefore atomic.
\<close>

record route =
  r_dest :: string
  r_next :: string
  r_cost :: float64

type_synonym table = "(string, route) gomap"

text \<open>\<open>Sorted\<close>: \<open>sort.Slice\<close> by destination over the routes in map order.\<close>

definition table_sorted :: "table \<Rightarrow> route list" where
  "table_sorted t = sort_key r_dest (map snd t)"

record safe_table =
  st_table :: table

definition new_safe_table :: safe_table where
  "new_safe_table = \<lparr>st_table = []\<rparr>"

definition st_replace :: "table \<Rightarrow> safe_table \<Rightarrow> safe_table" where
  "st_replace t s = s\<lparr>st_table := t\<rparr>"

definition st_lookup :: "safe_table \<Rightarrow> string \<Rightarrow> route option" where
  "st_lookup s d = mget (st_table s) d"

text \<open>\<open>Snapshot\<close> copies the entries one by one into a fresh map.\<close>

definition st_snapshot :: "safe_table \<Rightarrow> table" where
  "st_snapshot s = foldl (\<lambda>out (k, v). mput k v out) [] (st_table s)"

text \<open>A table is keyed consistently when every route is stored under its own destination.\<close>

definition table_ok :: "table \<Rightarrow> bool" where
  "table_ok t \<longleftrightarrow> wf_map t \<and> (\<forall>(k, r) \<in> set t. r_dest r = k)"

lemma table_ok_Nil [simp]: "table_ok []"
  by (simp add: table_ok_def)

lemma table_okD: "table_ok t \<Longrightarrow> (k, r) \<in> set t \<Longrightarrow> r_dest r = k"
  by (auto simp: table_ok_def)

lemma table_ok_iff: "table_ok t \<longleftrightarrow> wf_map t \<and> (\<forall>k r. mget t k = Some r \<longrightarrow> r_dest r = k)"
  by (auto simp: table_ok_def mget_iff)

lemma table_ok_mput: "table_ok t \<Longrightarrow> r_dest r = k \<Longrightarrow> table_ok (mput k r t)"
  by (simp add: table_ok_iff)

lemma st_snapshot_eq: "wf_map (st_table s) \<Longrightarrow> st_snapshot s = st_table s"
  using foldl_mput_fresh [of "[]" "st_table s"] by (simp add: st_snapshot_def)

lemma st_lookup_replace [simp]: "st_lookup (st_replace t s) d = mget t d"
  by (simp add: st_lookup_def st_replace_def)

lemma table_keys:
  assumes "table_ok t"
  shows "map r_dest (map snd t) = mkeys t"
  using assms by (auto simp: table_ok_def split: prod.splits)

text \<open>The listing does not depend on the order in which the map is visited.\<close>

lemma table_sorted_same:
  assumes "same_map t t'" and "table_ok t" and "table_ok t'"
  shows "table_sorted t = table_sorted t'"
proof -
  have inj: "inj_on r_dest (set (map snd t))"
  proof (rule inj_onI)
    fix x y assume "x \<in> set (map snd t)" "y \<in> set (map snd t)" and eq: "r_dest x = r_dest y"
    then obtain k l where k: "(k, x) \<in> set t" and l: "(l, y) \<in> set t" by auto
    with assms(2) eq have "k = l" by (metis table_okD)
    with k l assms(2) show "x = y" by (metis eq_key_imp_eq_value table_ok_def wf_map_def)
  qed
  have "distinct t" "distinct t'" using assms(2,3) by (auto simp: table_ok_def wf_map_def distinct_map)
  moreover have "set t = set t'" using assms(1) by (simp add: same_map_def)
  ultimately have "mset t = mset t'" by (metis set_eq_iff_mset_eq_distinct)
  then show ?thesis
    unfolding table_sorted_def
    by (intro sort_key_inj_key_eq [OF _ inj]) simp_all
qed

end
