(* ===== verification/Go_Heap.thy ===== *)
theory Go_Heap
  imports Go_Base
begin

text \<open>
  The binary heap of Go's \<open>container/heap\<close>, on a slice as the source's \<open>nodeQueue\<close> keeps
  it: \<open>Push\<close> appends and sifts up, \<open>Pop\<close> swaps the root to the end, sifts the new root
  down and cuts the last element off. The order of equal elements is therefore the one the
  program sees. The locale \<open>prio_queue\<close> states what a client relies on, and
  \<open>heap_order\<close> proves it for every strict weak order.
\<close>

section \<open>The operations\<close>

definition swap :: "nat \<Rightarrow> nat \<Rightarrow> 'a list \<Rightarrow> 'a list" where
  "swap i j h = h[i := h ! j, j := h ! i]"

definition parent :: "nat \<Rightarrow> nat" where
  "parent j = (j - 1) div 2"

lemma parent_less: "0 < k \<Longrightarrow> parent k < k"
  by (simp add: parent_def)

lemma parent_le [simp]: "parent k \<le> k"
  by (simp add: parent_def)

lemma parent_bound [simp]: "k < n \<Longrightarrow> parent k < n"
  by (rule le_less_trans [OF parent_le])

lemma parent_0 [simp]: "parent 0 = 0"
  by (simp add: parent_def)

lemma parent_eq_self [simp]: "parent k = k \<longleftrightarrow> k = 0"
  by (cases k) (auto simp: parent_def)

lemma parent_iff: "0 < k \<Longrightarrow> parent k = i \<longleftrightarrow> k = 2 * i + 1 \<or> k = 2 * i + 2"
  by (auto simp: parent_def)

function heap_up :: "('a \<Rightarrow> 'a \<Rightarrow> bool) \<Rightarrow> nat \<Rightarrow> 'a list \<Rightarrow> 'a list" where
  "heap_up lt j h =
     (let i = parent j
      in if i = j \<or> \<not> lt (h ! j) (h ! i) then h else heap_up lt i (swap i j h))"
  by pat_completeness auto
termination
  by (relation "measure (\<lambda>(lt, j, h). j)") (auto intro: parent_less)

function heap_down :: "('a \<Rightarrow> 'a \<Rightarrow> bool) \<Rightarrow> nat \<Rightarrow> nat \<Rightarrow> 'a list \<Rightarrow> 'a list" where
  "heap_down lt i n h =
     (let j1 = 2 * i + 1
      in if n \<le> j1 then h
         else let j2 = j1 + 1; j = (if j2 < n \<and> lt (h ! j2) (h ! j1) then j2 else j1)
              in if \<not> lt (h ! j) (h ! i) then h else heap_down lt j n (swap i j h))"
  by pat_completeness auto
termination
  by (relation "measure (\<lambda>(lt, i, n, h). n - i)") (auto split: if_splits)

declare heap_up.simps [simp del] heap_down.simps [simp del]

definition heap_push :: "('a \<Rightarrow> 'a \<Rightarrow> bool) \<Rightarrow> 'a \<Rightarrow> 'a list \<Rightarrow> 'a list" where
  "heap_push lt x h = heap_up lt (length h) (h @ [x])"

text \<open>Popping an empty heap panics in Go: \<open>None\<close>.\<close>

definition heap_pop :: "('a \<Rightarrow> 'a \<Rightarrow> bool) \<Rightarrow> 'a list \<Rightarrow> ('a \<times> 'a list) option" where
  "heap_pop lt h =
     (if h = [] then None
      else let n = length h - 1; h' = heap_down lt 0 n (swap 0 n h)
           in Some (h' ! n, take n h'))"

section \<open>Sifting permutes\<close>

lemma length_swap [simp]: "length (swap i j h) = length h"
  by (simp add: swap_def)

lemma mset_swap [simp]: "i < length h \<Longrightarrow> j < length h \<Longrightarrow> mset (swap i j h) = mset h"
  unfolding swap_def by (metis Multiset.mset_swap list_update_swap list_update_id)

lemma nth_swap:
  "i < length h \<Longrightarrow> j < length h \<Longrightarrow> k < length h \<Longrightarrow>
   swap i j h ! k = (if k = j then h ! i else if k = i then h ! j else h ! k)"
  by (simp add: swap_def nth_list_update)

lemma mset_heap_up: "j < length h \<Longrightarrow> mset (heap_up lt j h) = mset h"
proof (induction lt j h rule: heap_up.induct)
  case (1 lt j h)
  then show ?case by (subst heap_up.simps) (auto simp: Let_def)
qed

lemma length_heap_up: "j < length h \<Longrightarrow> length (heap_up lt j h) = length h"
  by (metis mset_heap_up size_mset)

lemma heap_down_frame:
  "n \<le> length h \<Longrightarrow> i < n \<Longrightarrow>
   mset (heap_down lt i n h) = mset h \<and> (\<forall>k. n \<le> k \<longrightarrow> k < length h \<longrightarrow> heap_down lt i n h ! k = h ! k)"
proof (induction lt i n h rule: heap_down.induct)
  case (1 lt i n h)
  show ?case
  proof (cases "n \<le> 2 * i + 1")
    case True
    then show ?thesis by (subst heap_down.simps, subst (2) heap_down.simps) (simp add: Let_def)
  next
    case False
    define j where "j = (if 2 * i + 2 < n \<and> lt (h ! (2 * i + 2)) (h ! (2 * i + 1)) then 2 * i + 2 else 2 * i + 1)"
    have eq: "heap_down lt i n h = (if lt (h ! j) (h ! i) then heap_down lt j n (swap i j h) else h)"
      using False by (subst heap_down.simps) (simp add: Let_def j_def)
    from False have jn: "j < n" by (simp add: j_def)
    show ?thesis
    proof (cases "lt (h ! j) (h ! i)")
      case True
      have "mset (heap_down lt j n (swap i j h)) = mset (swap i j h) \<and>
        (\<forall>k. n \<le> k \<longrightarrow> k < length (swap i j h) \<longrightarrow> heap_down lt j n (swap i j h) ! k = swap i j h ! k)"
        by (rule "1.IH" [OF refl False refl])
          (use True jn "1.prems" in \<open>auto simp: j_def\<close>)
      with True jn "1.prems" show ?thesis by (auto simp: eq nth_swap)
    qed (simp add: eq)
  qed
qed

section \<open>The queue a client sees\<close>

locale prio_queue =
  fixes lt :: "'a \<Rightarrow> 'a \<Rightarrow> bool"
    and ok :: "'a \<Rightarrow> bool"
    and push :: "'a \<Rightarrow> 'q \<Rightarrow> 'q"
    and pop :: "'q \<Rightarrow> ('a \<times> 'q) option"
    and elems :: "'q \<Rightarrow> 'a multiset"
    and inv :: "'q \<Rightarrow> bool"
  assumes push_inv: "inv q \<Longrightarrow> ok x \<Longrightarrow> inv (push x q)"
    and push_elems: "elems (push x q) = add_mset x (elems q)"
    and pop_None: "pop q = None \<longleftrightarrow> elems q = {#}"
    and pop_inv: "inv q \<Longrightarrow> pop q = Some (x, q') \<Longrightarrow> inv q'"
    and pop_elems: "pop q = Some (x, q') \<Longrightarrow> elems q = add_mset x (elems q')"
    and pop_min: "inv q \<Longrightarrow> pop q = Some (x, q') \<Longrightarrow> y \<in># elems q \<Longrightarrow> \<not> lt y x"
begin

lemma pop_member: "pop q = Some (x, q') \<Longrightarrow> x \<in># elems q"
  by (simp add: pop_elems)

lemma pop_subset: "pop q = Some (x, q') \<Longrightarrow> y \<in># elems q' \<Longrightarrow> y \<in># elems q"
  by (simp add: pop_elems)

lemma pop_other: "pop q = Some (x, q') \<Longrightarrow> y \<in># elems q \<Longrightarrow> y \<noteq> x \<Longrightarrow> y \<in># elems q'"
  by (simp add: pop_elems)

lemma pop_size: "pop q = Some (x, q') \<Longrightarrow> size (elems q') < size (elems q)"
  by (simp add: pop_elems)

end

section \<open>The heap order\<close>

definition heap_upto :: "('a \<Rightarrow> 'a \<Rightarrow> bool) \<Rightarrow> nat \<Rightarrow> 'a list \<Rightarrow> bool" where
  "heap_upto lt n h \<longleftrightarrow> (\<forall>k. 0 < k \<longrightarrow> k < n \<longrightarrow> \<not> lt (h ! k) (h ! parent k))"

definition heap_inv :: "('a \<Rightarrow> 'a \<Rightarrow> bool) \<Rightarrow> ('a \<Rightarrow> bool) \<Rightarrow> 'a list \<Rightarrow> bool" where
  "heap_inv lt ok h \<longleftrightarrow> (\<forall>x \<in> set h. ok x) \<and> heap_upto lt (length h) h"

text \<open>Heap order except between position \<open>j\<close> and its parent, or \<open>i\<close> and its children.\<close>

definition up_inv :: "('a \<Rightarrow> 'a \<Rightarrow> bool) \<Rightarrow> nat \<Rightarrow> 'a list \<Rightarrow> bool" where
  "up_inv lt j h \<longleftrightarrow>
     (\<forall>k. 0 < k \<longrightarrow> k < length h \<longrightarrow> k \<noteq> j \<longrightarrow> \<not> lt (h ! k) (h ! parent k)) \<and>
     (\<forall>k. 0 < k \<longrightarrow> k < length h \<longrightarrow> parent k = j \<longrightarrow> 0 < j \<longrightarrow> \<not> lt (h ! k) (h ! (parent j)))"

definition down_inv :: "('a \<Rightarrow> 'a \<Rightarrow> bool) \<Rightarrow> nat \<Rightarrow> nat \<Rightarrow> 'a list \<Rightarrow> bool" where
  "down_inv lt i n h \<longleftrightarrow>
     (\<forall>k. 0 < k \<longrightarrow> k < n \<longrightarrow> parent k \<noteq> i \<longrightarrow> \<not> lt (h ! k) (h ! parent k)) \<and>
     (\<forall>k. 0 < k \<longrightarrow> k < n \<longrightarrow> parent k = i \<longrightarrow> 0 < i \<longrightarrow> \<not> lt (h ! k) (h ! (parent i)))"

locale heap_order =
  fixes lt :: "'a \<Rightarrow> 'a \<Rightarrow> bool"
    and ok :: "'a \<Rightarrow> bool"
  assumes asym: "ok x \<Longrightarrow> ok y \<Longrightarrow> lt x y \<Longrightarrow> \<not> lt y x"
    and neg_trans: "ok x \<Longrightarrow> ok y \<Longrightarrow> ok z \<Longrightarrow> \<not> lt x y \<Longrightarrow> \<not> lt y z \<Longrightarrow> \<not> lt x z"
begin

lemma heap_up_heap:
  "j < length h \<Longrightarrow> \<forall>x \<in> set h. ok x \<Longrightarrow> up_inv lt j h \<Longrightarrow>
   heap_upto lt (length h) (heap_up lt j h)"
proof (induction j arbitrary: h rule: less_induct)
  case (less j)
  let ?i = "parent j"
  note ok = less.prems(2) [rule_format, OF nth_mem]
  show ?case
  proof (cases "?i = j \<or> \<not> lt (h ! j) (h ! ?i)")
    case True
    then have "j = 0 \<or> \<not> lt (h ! j) (h ! ?i)" by auto
    with True less.prems(3) show ?thesis
      by (subst heap_up.simps) (auto simp: Let_def heap_upto_def up_inv_def)
  next
    case False
    then have j0: "0 < j" and ltji: "lt (h ! j) (h ! ?i)" by auto
    then have ij: "?i < j" by (simp add: parent_less)
    let ?h = "swap ?i j h"
    have il: "?i < length h" using ij less.prems(1) by simp
    have nlt: "\<not> lt (h ! ?i) (h ! j)" using asym ltji ok il less.prems(1) by blast
    have at: "?h ! k = (if k = j then h ! ?i else if k = ?i then h ! j else h ! k)"
      if "k < length h" for k using that il less.prems(1) by (simp add: nth_swap)
    have "up_inv lt ?i ?h"
      unfolding up_inv_def length_swap
    proof (intro conjI allI impI)
      fix k assume k: "0 < k" "k < length h" "k \<noteq> ?i"
      let ?p = "parent k"
      have "?p < k" using k by (simp add: parent_less)
      then have pl: "?p < length h" "?p < k" using k by simp_all
      show "\<not> lt (?h ! k) (?h ! ?p)"
      proof (cases "k = j")
        case True
        with k nlt ij show ?thesis by (simp add: at il)
      next
        case kj: False
        consider "?p = j" | "?p \<noteq> j" "?p = ?i" | "?p \<noteq> j" "?p \<noteq> ?i" by blast
        then show ?thesis
        proof cases
          case 1
          with k kj j0 less.prems(1,3) show ?thesis by (simp add: at up_inv_def)
        next
          case 2
          from less.prems(3) k kj have "\<not> lt (h ! k) (h ! parent k)" by (simp add: up_inv_def)
          with 2 have "\<not> lt (h ! k) (h ! ?i)" by simp
          with neg_trans [OF ok ok ok] nlt k il less.prems(1) have "\<not> lt (h ! k) (h ! j)" by blast
          with 2 k kj il show ?thesis by (simp add: at)
        next
          case 3
          with k kj pl less.prems(3) show ?thesis by (simp add: at up_inv_def)
        qed
      qed
    next
      fix k assume k: "0 < k" "k < length h" "parent k = ?i" "0 < ?i"
      let ?g = "parent ?i"
      have g: "?g < ?i" using k(4) by (rule parent_less)
      have up: "\<not> lt (h ! ?i) (h ! ?g)" using less.prems(3) k ij il by (simp add: up_inv_def)
      show "\<not> lt (?h ! k) (?h ! ?g)"
      proof (cases "k = j")
        case True
        with up g ij il k show ?thesis by (simp add: at)
      next
        case False
        have ki: "k \<noteq> ?i" using k parent_less [of k] by auto
        from less.prems(3) k(1,2) False have "\<not> lt (h ! k) (h ! parent k)"
          unfolding up_inv_def by blast
        with k have "\<not> lt (h ! k) (h ! ?i)" by simp
        with up neg_trans [OF ok ok ok] k il g have "\<not> lt (h ! k) (h ! ?g)" by (meson less_trans)
        with False ki g ij il k show ?thesis by (simp add: at)
      qed
    qed
    moreover have "\<forall>x \<in> set ?h. ok x"
      using less.prems(1,2) il by (metis mset_swap set_mset_mset)
    ultimately have "heap_upto lt (length ?h) (heap_up lt ?i ?h)"
      using less.IH [OF ij, of ?h] il by simp
    with False show ?thesis by (subst heap_up.simps) (simp add: Let_def)
  qed
qed

lemma heap_down_heap:
  "i < n \<Longrightarrow> n \<le> length h \<Longrightarrow> \<forall>x \<in> set h. ok x \<Longrightarrow> down_inv lt i n h \<Longrightarrow>
   heap_upto lt n (heap_down lt i n h)"
proof (induction "n - i" arbitrary: i h rule: less_induct)
  case (less i h)
  have ok: "ok (h ! k)" if "k < n" for k using less.prems(2,3) that by simp
  show ?case
  proof (cases "n \<le> 2 * i + 1")
    case True
    then have "parent k \<noteq> i" if "0 < k" "k < n" for k using that by (auto simp: parent_iff)
    with True less.prems(4) show ?thesis
      by (subst heap_down.simps) (simp add: Let_def heap_upto_def down_inv_def)
  next
    case False
    define j where "j = (if 2 * i + 2 < n \<and> lt (h ! (2 * i + 2)) (h ! (2 * i + 1)) then 2 * i + 2 else 2 * i + 1)"
    have eq: "heap_down lt i n h = (if lt (h ! j) (h ! i) then heap_down lt j n (swap i j h) else h)"
      using False by (subst heap_down.simps) (simp add: Let_def j_def)
    have j: "j < n" "i < j" "0 < j" using False by (auto simp: j_def)
    have pj: "parent j = i" using j(3) by (simp add: parent_iff j_def)
    have jmin: "\<not> lt (h ! k) (h ! j)" if "0 < k" "k < n" "parent k = i" for k
    proof -
      let ?l = "2 * i + 1" and ?r = "2 * i + 2"
      have refl: "\<not> lt (h ! k) (h ! k)" using asym [OF ok ok] that(2) by blast
      have flip: "\<not> lt (h ! ?l) (h ! ?r)" if "lt (h ! ?r) (h ! ?l)" "?r < n"
        by (rule asym [OF ok ok that(1)]) (use that(2) in simp_all)
      from that have "k = ?l \<or> k = ?r" by (simp add: parent_iff)
      then show ?thesis
      proof
        assume "k = ?l"
        then show ?thesis using refl flip unfolding j_def by presburger
      next
        assume "k = ?r"
        then show ?thesis using refl that(2) by (cases "lt (h ! ?r) (h ! ?l)") (simp_all add: j_def)
      qed
    qed
    show ?thesis
    proof (cases "lt (h ! j) (h ! i)")
      case no: False
      have "\<not> lt (h ! k) (h ! parent k)" if k: "0 < k" "k < n" for k
      proof (cases "parent k = i")
        case True
        have "\<not> lt (h ! k) (h ! i)"
          by (rule neg_trans [OF ok ok ok jmin [OF k True] no]) (use k j less.prems(1) in simp_all)
        with True show ?thesis by simp
      next
        case False
        with k less.prems(4) show ?thesis by (simp add: down_inv_def)
      qed
      with no show ?thesis by (simp add: eq heap_upto_def)
    next
      case True
      let ?h = "swap i j h"
      have at: "?h ! k = (if k = j then h ! i else if k = i then h ! j else h ! k)"
        if "k < n" for k using that j less.prems(1,2) by (simp add: nth_swap)
      have nlt: "\<not> lt (h ! i) (h ! j)" using asym [OF ok ok] True j less.prems(1) by blast
      have "down_inv lt j n ?h"
        unfolding down_inv_def
      proof (intro conjI allI impI)
        fix k assume k: "0 < k" "k < n" "parent k \<noteq> j"
        consider "k = j" | "k = i" | "k \<noteq> j" "k \<noteq> i" "parent k = i" | "k \<noteq> j" "k \<noteq> i" "parent k \<noteq> i"
          by blast
        then show "\<not> lt (?h ! k) (?h ! parent k)"
        proof cases
          case 1
          with nlt j k pj less.prems(1) show ?thesis by (simp add: at)
        next
          case 2
          have "parent i \<noteq> i" using k 2 by simp
          with 2 k j pj less.prems(1,4) show ?thesis by (simp add: at down_inv_def)
        next
          case 3
          with jmin k j less.prems(1) show ?thesis by (simp add: at)
        next
          case 4
          with k less.prems(4) show ?thesis by (simp add: at down_inv_def)
        qed
      next
        fix k assume k: "0 < k" "k < n" "parent k = j"
        then have "j < k" using parent_less [of k] by simp
        moreover have "parent k \<noteq> i" using k(3) j(2) by simp
        with less.prems(4) k(1,2) have "\<not> lt (h ! k) (h ! parent k)"
          unfolding down_inv_def by blast
        ultimately show "\<not> lt (?h ! k) (?h ! parent j)"
          using k j pj less.prems(1) by (simp add: at)
      qed
      moreover have "\<forall>x \<in> set ?h. ok x"
        using less.prems(1,2,3) j by (metis less_le_trans mset_swap set_mset_mset)
      ultimately have "heap_upto lt n (heap_down lt j n ?h)"
        using less.hyps [of j ?h] j less.prems(1,2) by simp
      with True show ?thesis by (simp add: eq)
    qed
  qed
qed

lemma heap_root_min:
  assumes "heap_inv lt ok h" and "k < length h"
  shows "\<not> lt (h ! k) (h ! 0)"
  using assms(2)
proof (induction k rule: less_induct)
  case (less k)
  have ok: "ok (h ! i)" if "i < length h" for i using assms(1) that by (simp add: heap_inv_def)
  show ?case
  proof (cases "k = 0")
    case True
    with asym [OF ok ok] less.prems show ?thesis by blast
  next
    case False
    then have p: "parent k < k" by (simp add: parent_less)
    with less.prems have pl: "parent k < length h" by simp
    have "\<not> lt (h ! k) (h ! parent k)"
      using assms(1) False less.prems by (simp add: heap_inv_def heap_upto_def)
    moreover have "\<not> lt (h ! parent k) (h ! 0)" using p pl by (rule less.IH)
    moreover have "0 < length h" using less.prems by (rule le_less_trans [OF le0])
    ultimately show ?thesis using neg_trans ok pl less.prems by blast
  qed
qed

lemma heap_push_inv:
  assumes "heap_inv lt ok h" and "ok x"
  shows "heap_inv lt ok (heap_push lt x h)"
proof -
  let ?h = "h @ [x]"
  have "up_inv lt (length h) ?h"
    unfolding up_inv_def
  proof (intro conjI allI impI)
    fix k assume k: "0 < k" "k < length ?h" "k \<noteq> length h"
    then have "k < length h" by simp
    moreover from this have "parent k < length h" by simp
    ultimately show "\<not> lt (?h ! k) (?h ! parent k)"
      using assms(1) k(1) by (simp add: heap_inv_def heap_upto_def nth_append)
  next
    fix k assume "0 < k" "k < length ?h" "parent k = length h"
    then show "\<not> lt (?h ! k) (?h ! parent (length h))" using parent_less [of k] by simp
  qed
  moreover have "\<forall>y \<in> set ?h. ok y" using assms by (simp add: heap_inv_def)
  moreover have "set (heap_up lt (length h) ?h) = set ?h"
    by (metis mset_heap_up set_mset_mset length_append_singleton lessI)
  ultimately show ?thesis
    using heap_up_heap [of "length h" ?h]
    by (simp add: heap_inv_def heap_push_def length_heap_up)
qed

lemma heap_pop_inv:
  assumes inv: "heap_inv lt ok h" and pop: "heap_pop lt h = Some (x, h')"
  shows "heap_inv lt ok h'"
proof -
  let ?n = "length h - 1"
  let ?s = "swap 0 ?n h"
  let ?d = "heap_down lt 0 ?n ?s"
  from pop have ne: "h \<noteq> []" and h': "h' = take ?n ?d"
    by (auto simp: heap_pop_def Let_def split: if_splits)
  from ne have n: "?n < length h" "0 < length h" by simp_all
  have oks: "\<forall>y \<in> set ?s. ok y"
    using inv n by (metis heap_inv_def mset_swap set_mset_mset)
  show ?thesis
  proof (cases "?n = 0")
    case True
    then show ?thesis by (simp add: h' heap_inv_def heap_upto_def)
  next
    case False
    have len: "length ?d = length h"
      using heap_down_frame [of ?n ?s 0 lt] False by (metis diff_le_self gr0I length_swap size_mset)
    have "down_inv lt 0 ?n ?s"
      unfolding down_inv_def
    proof (intro conjI allI impI)
      fix k assume k: "0 < k" "k < ?n" "parent k \<noteq> 0"
      moreover have "parent k < ?n" using k(2) by (rule parent_bound)
      then have "parent k \<noteq> ?n" "parent k < length h" using n by linarith+
      moreover have "\<not> lt (h ! k) (h ! parent k)"
        using inv k by (simp add: heap_inv_def heap_upto_def)
      ultimately show "\<not> lt (?s ! k) (?s ! parent k)"
        using n by (simp add: nth_swap)
    qed simp
    then have "heap_upto lt ?n ?d"
      using False oks by (intro heap_down_heap) simp_all
    moreover have "set ?d = set ?s"
      using heap_down_frame [of ?n ?s 0 lt] False by (metis diff_le_self gr0I length_swap set_mset_mset)
    moreover have "set h' \<subseteq> set ?d" by (simp add: h' set_take_subset)
    ultimately show ?thesis
      using oks len by (auto simp: heap_inv_def h' heap_upto_def)
  qed
qed

end

section \<open>The heap is a queue\<close>

lemma heap_pop_root:
  assumes "heap_pop lt h = Some (x, h')"
  shows "x = h ! 0" and "h \<noteq> []" and "mset h = add_mset x (mset h')"
proof -
  let ?n = "length h - 1"
  let ?s = "swap 0 ?n h"
  let ?d = "heap_down lt 0 ?n ?s"
  from assms show ne: "h \<noteq> []" by (auto simp: heap_pop_def)
  with assms have x: "x = ?d ! ?n" and h': "h' = take ?n ?d"
    by (auto simp: heap_pop_def Let_def)
  from ne have n: "?n < length h" "0 < length h" by simp_all
  have d: "mset ?d = mset ?s \<and> ?d ! ?n = ?s ! ?n"
  proof (cases "?n = 0")
    case True
    then show ?thesis by (simp add: heap_down.simps)
  next
    case False
    then show ?thesis using heap_down_frame [of ?n ?s 0 lt] n by simp
  qed
  with n show "x = h ! 0" by (simp add: x nth_swap)
  have "length ?d = Suc ?n" using d n by (metis length_swap Suc_pred' diff_Suc_1' size_mset Suc_diff_1)
  then have "?d = h' @ [x]" by (simp add: h' x take_Suc_conv_app_nth [symmetric])
  then have "mset ?d = add_mset x (mset h')" by simp
  with d n show "mset h = add_mset x (mset h')" by simp
qed

lemma mset_heap_push: "mset (heap_push lt x h) = add_mset x (mset h)"
  by (simp add: heap_push_def mset_heap_up)

sublocale heap_order \<subseteq> prio_queue lt ok "heap_push lt" "heap_pop lt" mset "heap_inv lt ok"
proof unfold_locales
  fix q x q' y
  show "heap_inv lt ok q \<Longrightarrow> ok x \<Longrightarrow> heap_inv lt ok (heap_push lt x q)" by (rule heap_push_inv)
  show "mset (heap_push lt x q) = add_mset x (mset q)" by (rule mset_heap_push)
  show "heap_pop lt q = None \<longleftrightarrow> mset q = {#}" by (simp add: heap_pop_def Let_def)
  show "heap_inv lt ok q \<Longrightarrow> heap_pop lt q = Some (x, q') \<Longrightarrow> heap_inv lt ok q'" by (rule heap_pop_inv)
  show "heap_pop lt q = Some (x, q') \<Longrightarrow> mset q = add_mset x (mset q')" by (rule heap_pop_root(3))
  show "heap_inv lt ok q \<Longrightarrow> heap_pop lt q = Some (x, q') \<Longrightarrow> y \<in># mset q \<Longrightarrow> \<not> lt y x"
    by (metis heap_pop_root(1) heap_root_min in_set_conv_nth set_mset_mset)
qed

lemma heap_inv_Nil [simp]: "heap_inv lt ok []"
  by (simp add: heap_inv_def heap_upto_def)

end
