(* ===== verification/Rt_Graph.thy ===== *)
theory Rt_Graph
  imports Rt_Table Go_Heap
begin

text \<open>
  internal/routing/graph.go: the weighted directed graph, \<open>AddEdge\<close>, \<open>Nodes\<close> and the
  \<open>Dijkstra\<close> routine with its priority queue, written as the code writes them: lazy
  deletion by the visited map, negative costs skipped, neighbours relaxed in sorted order,
  the first hop carried along. Termination is proved here; correctness is in
  \<open>Rt_Shortest\<close>.
\<close>

section \<open>The graph\<close>

type_synonym graph = "(string, (string, float64) gomap) gomap"

definition new_graph :: graph where
  "new_graph = []"

definition add_edge :: "string \<Rightarrow> string \<Rightarrow> float64 \<Rightarrow> graph \<Rightarrow> graph" where
  "add_edge u v cost g =
     (let g1 = (if mhas g u then g else mput u [] g);
          g2 = (if mhas g1 v then g1 else mput v [] g1);
          row = mget_or [] g2 u
      in case mget row v of
           None \<Rightarrow> mput u (mput v cost row) g2
         | Some existing \<Rightarrow>
             if fless cost existing then mput u (mput v cost row) g2 else g2)"

definition nodes :: "graph \<Rightarrow> string list" where
  "nodes g = sort (mkeys g)"

text \<open>The cost stored for a directed link.\<close>

definition edge :: "graph \<Rightarrow> string \<Rightarrow> string \<Rightarrow> float64 option" where
  "edge g u v = mget (mget_or [] g u) v"

definition wf_graph :: "graph \<Rightarrow> bool" where
  "wf_graph g \<longleftrightarrow> wf_map g \<and> (\<forall>(u, row) \<in> set g. wf_map row)"

definition nan_free :: "graph \<Rightarrow> bool" where
  "nan_free g \<longleftrightarrow> (\<forall>(u, row) \<in> set g. \<forall>(v, c) \<in> set row. c \<noteq> fnan)"

text \<open>Two graphs that differ only in the order their maps are visited.\<close>

definition same_graph :: "graph \<Rightarrow> graph \<Rightarrow> bool" where
  "same_graph g g' \<longleftrightarrow>
     wf_graph g \<and> wf_graph g' \<and> set (nodes g) = set (nodes g') \<and> (\<forall>u v. edge g u v = edge g' u v)"

section \<open>Dijkstra\<close>

record queued =
  q_id :: string
  q_dist :: float64

definition queued_less :: "queued \<Rightarrow> queued \<Rightarrow> bool" where
  "queued_less a b = fless (q_dist a) (q_dist b)"

definition queued_ok :: "queued \<Rightarrow> bool" where
  "queued_ok q \<longleftrightarrow> q_dist q \<noteq> fnan"

record dijkstra_state =
  d_dist :: "(string, float64) gomap"
  d_first :: "(string, string) gomap"
  d_visited :: "(string, bool) gomap"
  d_queue :: "queued list"

definition dijkstra_init :: "string \<Rightarrow> dijkstra_state" where
  "dijkstra_init source =
     \<lparr>d_dist = [(source, f0)], d_first = [], d_visited = [],
      d_queue = heap_push queued_less \<lparr>q_id = source, q_dist = f0\<rparr> []\<rparr>"

text \<open>One iteration of the inner loop: the link from the extracted node to \<open>next\<close>.\<close>

definition relax :: "graph \<Rightarrow> string \<Rightarrow> queued \<Rightarrow> dijkstra_state \<Rightarrow> string \<Rightarrow> dijkstra_state" where
  "relax g source current s next =
     (let cost = mget_or f0 (mget_or [] g (q_id current)) next in
      if fless cost f0 then s
      else
        let alt = fadd (q_dist current) cost in
        if (case mget (d_dist s) next of None \<Rightarrow> False | Some known \<Rightarrow> fle known alt) then s
        else s\<lparr>d_dist := mput next alt (d_dist s),
               d_first := mput next (if q_id current = source then next
                                     else mget_or [] (d_first s) (q_id current)) (d_first s),
               d_queue := heap_push queued_less \<lparr>q_id = next, q_dist = alt\<rparr> (d_queue s)\<rparr>)"

definition visit :: "graph \<Rightarrow> string \<Rightarrow> queued \<Rightarrow> dijkstra_state \<Rightarrow> dijkstra_state" where
  "visit g source current s =
     foldl (relax g source current)
       (s\<lparr>d_visited := mput (q_id current) True (d_visited s)\<rparr>)
       (sort (mkeys (mget_or [] g (q_id current))))"

abbreviation visited :: "dijkstra_state \<Rightarrow> string \<Rightarrow> bool" where
  "visited s u \<equiv> mget_or False (d_visited s) u"

function dijkstra_loop :: "graph \<Rightarrow> string \<Rightarrow> dijkstra_state \<Rightarrow> dijkstra_state" where
  "dijkstra_loop g source s =
     (case heap_pop queued_less (d_queue s) of
        None \<Rightarrow> s
      | Some (current, queue) \<Rightarrow>
          let s' = s\<lparr>d_queue := queue\<rparr> in
          if visited s' (q_id current) then dijkstra_loop g source s'
          else dijkstra_loop g source (visit g source current s'))"
  by pat_completeness auto

text \<open>The table: every reached node but the source, unless its distance is infinite.\<close>

definition table_entry :: "string \<Rightarrow> dijkstra_state \<Rightarrow> table \<Rightarrow> string \<times> float64 \<Rightarrow> table" where
  "table_entry source s t de =
     (case de of (dest, d) \<Rightarrow>
        if dest = source \<or> is_posinf d then t
        else case mget (d_first s) dest of
               None \<Rightarrow> t
             | Some hop \<Rightarrow> mput dest \<lparr>r_dest = dest, r_next = hop, r_cost = d\<rparr> t)"

definition table_of :: "string \<Rightarrow> dijkstra_state \<Rightarrow> table" where
  "table_of source s = foldl (table_entry source s) [] (d_dist s)"

section \<open>Termination of the loop\<close>

lemma visited_init [simp]: "\<not> visited (dijkstra_init s) u"
  by (simp add: dijkstra_init_def mget_or_def)

lemma visited_mark [simp]:
  "visited (s\<lparr>d_visited := mput u True (d_visited s)\<rparr>) w \<longleftrightarrow> w = u \<or> visited s w"
  by (simp add: mget_or_def)

lemma relax_visited [simp]: "d_visited (relax g source c s v) = d_visited s"
  by (simp add: relax_def Let_def)

lemma relax_queue:
  "q_id ` set (d_queue (relax g source c s v)) \<subseteq> insert v (q_id ` set (d_queue s))"
proof -
  have "set (heap_push queued_less x q) = insert x (set q)" for x q
    by (metis mset_heap_push set_mset_add_mset_insert set_mset_mset)
  then show ?thesis by (auto simp: relax_def Let_def)
qed

lemma foldl_relax_visited [simp]:
  "d_visited (foldl (relax g source c) s vs) = d_visited s"
  by (induction vs arbitrary: s) simp_all

lemma foldl_relax_queue:
  "q_id ` set (d_queue (foldl (relax g source c) s vs)) \<subseteq> set vs \<union> q_id ` set (d_queue s)"
proof (induction vs arbitrary: s)
  case (Cons v vs)
  from Cons.IH [of "relax g source c s v"] relax_queue [of g source c s v] show ?case
    by auto
qed simp

text \<open>What is still to be visited: names in the queue or at the end of a link.\<close>

definition targets :: "graph \<Rightarrow> string set" where
  "targets g = (\<Union>(u, row) \<in> set g. fst ` set row)"

definition pending :: "graph \<Rightarrow> dijkstra_state \<Rightarrow> string set" where
  "pending g s = {u \<in> q_id ` set (d_queue s) \<union> targets g. \<not> visited s u}"

lemma finite_pending [simp]: "finite (pending g s)"
  unfolding pending_def targets_def by (rule finite_subset [of _ "q_id ` set (d_queue s) \<union> targets g"])
    (auto simp: targets_def)

lemma row_targets: "set (mkeys (mget_or [] g u)) \<subseteq> targets g"
proof (cases "mget g u")
  case (Some row)
  then have "(u, row) \<in> set g" by (rule mget_SomeD)
  then show ?thesis by (force simp: Some mget_or_def targets_def)
qed (simp add: mget_or_def)

lemma pop_queue:
  assumes "heap_pop lt q = Some (x, q')"
  shows "x \<in> set q" and "set q' \<subseteq> set q" and "length q' < length q"
proof -
  note m = heap_pop_root(3) [OF assms]
  then have "set q = insert x (set q')" by (metis set_mset_add_mset_insert set_mset_mset)
  then show "x \<in> set q" and "set q' \<subseteq> set q" by auto
  from m show "length q' < length q" by (metis lessI size_add_mset size_mset)
qed

lemma pending_visit:
  assumes pop: "heap_pop queued_less (d_queue s) = Some (c, q)"
    and new: "\<not> visited s (q_id c)"
  shows "pending g (visit g source c (s\<lparr>d_queue := q\<rparr>)) \<subset> pending g s"
proof -
  let ?s = "visit g source c (s\<lparr>d_queue := q\<rparr>)"
  have vis: "visited ?s w \<longleftrightarrow> w = q_id c \<or> visited s w" for w
    by (simp add: visit_def mget_or_def)
  have "q_id ` set (d_queue ?s) \<subseteq> targets g \<union> q_id ` set q"
    unfolding visit_def
    by (rule order_trans [OF foldl_relax_queue]) (use row_targets [of g "q_id c"] in auto)
  also have "\<dots> \<subseteq> targets g \<union> q_id ` set (d_queue s)"
    using pop_queue(2) [OF pop] by auto
  finally have sub: "pending g ?s \<subseteq> pending g s"
    by (auto simp: pending_def vis)
  have "q_id c \<in> pending g s" using pop_queue(1) [OF pop] new by (auto simp: pending_def)
  moreover have "q_id c \<notin> pending g ?s" by (simp add: pending_def vis)
  ultimately show ?thesis using sub by blast
qed

termination dijkstra_loop
proof (relation "measures [\<lambda>(g, source, s). card (pending g s), \<lambda>(g, source, s). length (d_queue s)]")
  fix g and source :: string and s s' :: dijkstra_state and x c queue
  assume pop: "heap_pop queued_less (d_queue s) = Some x" "(c, queue) = x"
    and s': "s' = s\<lparr>d_queue := queue\<rparr>"
  then have pop': "heap_pop queued_less (d_queue s) = Some (c, queue)" by simp
  have "pending g s' \<subseteq> pending g s"
    using pop_queue(2) [OF pop'] by (auto simp: pending_def s')
  then have "card (pending g s') \<le> card (pending g s)" by (simp add: card_mono)
  then show "((g, source, s'), (g, source, s)) \<in> measures
      [\<lambda>(g, source, s). card (pending g s), \<lambda>(g, source, s). length (d_queue s)]"
    using pop_queue(3) [OF pop'] by (auto simp: s')
  assume "\<not> visited s' (q_id c)"
  then have "pending g (visit g source c s') \<subset> pending g s"
    using pending_visit [OF pop'] by (simp add: s')
  then show "((g, source, visit g source c s'), (g, source, s)) \<in> measures
      [\<lambda>(g, source, s). card (pending g s), \<lambda>(g, source, s). length (d_queue s)]"
    by (simp add: psubset_card_mono)
qed simp

declare dijkstra_loop.simps [simp del]

definition dijkstra :: "graph \<Rightarrow> string \<Rightarrow> table" where
  "dijkstra g source = table_of source (dijkstra_loop g source (dijkstra_init source))"

end
