(* ===== verification/Rt_Shortest.thy ===== *)
theory Rt_Shortest
  imports Rt_Graph
begin

text \<open>
  Correctness of the \<open>Dijkstra\<close> routine in the arithmetic it runs in. The locale
  \<open>extension_order\<close> is what the argument needs of path costs: extending a path is monotone
  and never makes it cheaper. Double-precision addition satisfies both (interpretation
  \<open>f64\<close>), so every statement below is about the rounded sums the program computes, added
  from the source outwards, and not about real numbers.
\<close>

section \<open>Walks and their cost\<close>

text \<open>A link the routine uses: one that is stored and not negative.\<close>

definition usable :: "graph \<Rightarrow> string \<Rightarrow> string \<Rightarrow> float64 option" where
  "usable g u v = (case edge g u v of None \<Rightarrow> None | Some c \<Rightarrow> if fless c f0 then None else Some c)"

text \<open>The cost of walking from \<open>u\<close> through the nodes of a list, on top of \<open>acc\<close>.\<close>

fun walk_cost :: "('c \<Rightarrow> 'c \<Rightarrow> 'c) \<Rightarrow> ('n \<Rightarrow> 'n \<Rightarrow> 'c option) \<Rightarrow> 'n \<Rightarrow> 'c \<Rightarrow> 'n list \<Rightarrow> 'c option" where
  "walk_cost ext E u acc [] = Some acc"
| "walk_cost ext E u acc (v # vs) =
     (case E u v of None \<Rightarrow> None | Some c \<Rightarrow> walk_cost ext E v (ext acc c) vs)"

definition path_cost :: "graph \<Rightarrow> string \<Rightarrow> string list \<Rightarrow> float64 option" where
  "path_cost g source vs = walk_cost fadd (usable g) source f0 vs"

lemma walk_cost_append:
  "walk_cost ext E u acc (vs @ ws) =
     (case walk_cost ext E u acc vs of None \<Rightarrow> None | Some c \<Rightarrow> walk_cost ext E (last (u # vs)) c ws)"
  by (induction vs arbitrary: u acc) (auto split: option.splits)

section \<open>What the argument needs of costs\<close>

locale extension_order =
  fixes zero :: "'c :: linorder"
    and ext :: "'c \<Rightarrow> 'c \<Rightarrow> 'c"
    and ok :: "'c \<Rightarrow> bool"
  assumes ok_zero: "ok zero"
    and ok_ext: "ok x \<Longrightarrow> ok c \<Longrightarrow> ok (ext x c)"
    and ext_mono: "ok x \<Longrightarrow> ok y \<Longrightarrow> ok c \<Longrightarrow> x \<le> y \<Longrightarrow> ext x c \<le> ext y c"
    and ext_increase: "ok x \<Longrightarrow> ok c \<Longrightarrow> x \<le> ext x c"
begin

lemma walk_ok:
  "\<forall>u v c. E u v = Some c \<longrightarrow> ok c \<Longrightarrow> ok acc \<Longrightarrow> walk_cost ext E u acc vs = Some d \<Longrightarrow> ok d \<and> acc \<le> d"
proof (induction vs arbitrary: u acc)
  case (Cons v vs)
  then obtain c where c: "E u v = Some c" "walk_cost ext E v (ext acc c) vs = Some d"
    by (auto split: option.splits)
  with Cons.prems have okc: "ok c" by blast
  with Cons.prems c(2) have "ok d \<and> ext acc c \<le> d" by (intro Cons.IH) (auto intro: ok_ext)
  with okc Cons.prems(2) show ?case by (metis ext_increase order_trans)
qed simp

text \<open>
  Estimates that no link can improve bound every walk from below: the reason why the
  routine may stop.
\<close>

lemma closed_bounds_walk:
  assumes E: "\<forall>u v c. E u v = Some c \<longrightarrow> ok c"
    and D: "\<forall>u d. D u = Some d \<longrightarrow> ok d"
    and closed: "\<forall>u v d c. D u = Some d \<longrightarrow> E u v = Some c \<longrightarrow> (\<exists>d'. D v = Some d' \<and> d' \<le> ext d c)"
  shows "D u = Some d \<Longrightarrow> d \<le> acc \<Longrightarrow> ok acc \<Longrightarrow> walk_cost ext E u acc vs = Some c \<Longrightarrow>
    \<exists>d'. D (last (u # vs)) = Some d' \<and> d' \<le> c"
proof (induction vs arbitrary: u d acc)
  case (Cons v vs)
  then obtain e where e: "E u v = Some e" "walk_cost ext E v (ext acc e) vs = Some c"
    by (auto split: option.splits)
  with closed Cons.prems(1) obtain d' where d': "D v = Some d'" "d' \<le> ext d e" by blast
  from E D e Cons.prems have oks: "ok e" "ok d" by blast+
  with Cons.prems have "ext d e \<le> ext acc e" by (intro ext_mono)
  with d' have "d' \<le> ext acc e" by simp
  with Cons.IH [OF d'(1) this _ e(2)] oks Cons.prems(3) show ?case by (simp add: ok_ext)
qed simp

end

interpretation f64: extension_order f0 fadd cost_ok
  by unfold_locales (auto intro: cost_ok_fadd fadd_mono fadd_increase)

interpretation nq: heap_order queued_less queued_ok
proof unfold_locales
  fix x y z
  show "queued_ok x \<Longrightarrow> queued_ok y \<Longrightarrow> queued_less x y \<Longrightarrow> \<not> queued_less y x"
    by (auto simp: queued_less_def fless_def)
  show "queued_ok x \<Longrightarrow> queued_ok y \<Longrightarrow> queued_ok z \<Longrightarrow> \<not> queued_less x y \<Longrightarrow> \<not> queued_less y z \<Longrightarrow> \<not> queued_less x z"
    by (auto simp: queued_less_def queued_ok_def fless_def)
qed

section \<open>The invariant\<close>

text \<open>
  \<open>achieved\<close>: every estimate is the cost of a walk that starts with the recorded first hop.
  \<open>settled\<close>: the links of visited nodes have been relaxed, but for those from \<open>u\<close> to \<open>R\<close>.
  \<open>queued_all\<close>: every node still to be visited waits in the queue with its estimate.
\<close>

definition achieved :: "graph \<Rightarrow> string \<Rightarrow> dijkstra_state \<Rightarrow> bool" where
  "achieved g source s \<longleftrightarrow>
     mget (d_dist s) source = Some f0 \<and>
     (\<forall>v d. mget (d_dist s) v = Some d \<longrightarrow> cost_ok d \<and>
        (v \<noteq> source \<longrightarrow> (\<exists>h vs. mget (d_first s) v = Some h \<and> last (h # vs) = v \<and>
                               path_cost g source (h # vs) = Some d)))"

definition settled :: "graph \<Rightarrow> string \<Rightarrow> string set \<Rightarrow> dijkstra_state \<Rightarrow> bool" where
  "settled g u R s \<longleftrightarrow>
     (\<forall>w. visited s w \<longrightarrow> (\<exists>d. mget (d_dist s) w = Some d \<and>
        (\<forall>v c. usable g w v = Some c \<longrightarrow> (w = u \<and> v \<in> R) \<or>
               (\<exists>d'. mget (d_dist s) v = Some d' \<and> d' \<le> fadd d c))))"

definition queue_covers :: "dijkstra_state \<Rightarrow> bool" where
  "queue_covers s \<longleftrightarrow>
     heap_inv queued_less queued_ok (d_queue s) \<and>
     (\<forall>v d. mget (d_dist s) v = Some d \<longrightarrow> \<not> visited s v \<longrightarrow>
        \<lparr>q_id = v, q_dist = d\<rparr> \<in> set (d_queue s)) \<and>
     (\<forall>q \<in> set (d_queue s). cost_ok (q_dist q) \<and>
        (\<exists>d. mget (d_dist s) (q_id q) = Some d \<and> d \<le> q_dist q))"

definition queue_above :: "dijkstra_state \<Rightarrow> bool" where
  "queue_above s \<longleftrightarrow>
     (\<forall>u d. visited s u \<longrightarrow> mget (d_dist s) u = Some d \<longrightarrow> (\<forall>q \<in> set (d_queue s). d \<le> q_dist q))"

definition dijkstra_inv :: "graph \<Rightarrow> string \<Rightarrow> dijkstra_state \<Rightarrow> bool" where
  "dijkstra_inv g source s \<longleftrightarrow>
     wf_map (d_dist s) \<and> achieved g source s \<and> settled g source {} s \<and> queue_covers s \<and> queue_above s"

text \<open>The invariant of the inner loop, after \<open>current\<close> was marked visited.\<close>

definition relaxing :: "graph \<Rightarrow> string \<Rightarrow> queued \<Rightarrow> string set \<Rightarrow> dijkstra_state \<Rightarrow> bool" where
  "relaxing g source current R s \<longleftrightarrow>
     wf_map (d_dist s) \<and> achieved g source s \<and> settled g (q_id current) R s \<and> queue_covers s \<and>
     visited s (q_id current) \<and> mget (d_dist s) (q_id current) = Some (q_dist current) \<and>
     (\<forall>u d. visited s u \<longrightarrow> mget (d_dist s) u = Some d \<longrightarrow> d \<le> q_dist current) \<and>
     (\<forall>q \<in> set (d_queue s). q_dist current \<le> q_dist q)"

lemma usable_ok:
  assumes "nan_free g" and "usable g u v = Some c"
  shows "cost_ok c"
proof -
  from assms(2) have e: "edge g u v = Some c" and c: "\<not> fless c f0"
    by (auto simp: usable_def split: option.splits if_splits)
  from e obtain row where "mget g u = Some row" "mget row v = Some c"
    by (auto simp: edge_def mget_or_def split: option.splits)
  then have "(u, row) \<in> set g" "(v, c) \<in> set row" by (auto dest: mget_SomeD)
  with assms(1) have "c \<noteq> fnan" unfolding nan_free_def by fast
  with c show ?thesis by (simp add: cost_okI)
qed

lemma usable_key: "usable g u v = Some c \<Longrightarrow> v \<in> set (mkeys (mget_or [] g u))"
  by (auto simp: usable_def edge_def dest: mget_SomeD split: option.splits intro: rev_image_eqI)

lemma set_heap_push [simp]: "set (heap_push lt x q) = insert x (set q)"
  by (metis mset_heap_push set_mset_add_mset_insert set_mset_mset)

lemma path_cost_snoc:
  "path_cost g s vs = Some d \<Longrightarrow> usable g (last (s # vs)) v = Some c \<Longrightarrow>
   path_cost g s (vs @ [v]) = Some (fadd d c)"
  by (simp add: path_cost_def walk_cost_append)

section \<open>The inner loop keeps the invariant\<close>

text \<open>The update of \<open>relax\<close>, when the walk through the current node is cheaper.\<close>

definition improve :: "string \<Rightarrow> queued \<Rightarrow> string \<Rightarrow> float64 \<Rightarrow> dijkstra_state \<Rightarrow> dijkstra_state" where
  "improve source current v alt s =
     s\<lparr>d_dist := mput v alt (d_dist s),
       d_first := mput v (if q_id current = source then v
                          else mget_or [] (d_first s) (q_id current)) (d_first s),
       d_queue := heap_push queued_less \<lparr>q_id = v, q_dist = alt\<rparr> (d_queue s)\<rparr>"

definition cheaper :: "dijkstra_state \<Rightarrow> string \<Rightarrow> float64 \<Rightarrow> bool" where
  "cheaper s v alt \<longleftrightarrow> (case mget (d_dist s) v of None \<Rightarrow> True | Some known \<Rightarrow> alt < known)"

lemma achieved_cost_ok: "achieved g source s \<Longrightarrow> mget (d_dist s) v = Some d \<Longrightarrow> cost_ok d"
  by (simp add: achieved_def)

lemma relax_cases:
  assumes nan: "nan_free g" and rel: "relaxing g source cur R s"
    and v: "v \<in> set (mkeys (mget_or [] g (q_id cur)))"
  obtains (skip) "usable g (q_id cur) v = None" "relax g source cur s v = s"
  | (keep) c d where "usable g (q_id cur) v = Some c" "mget (d_dist s) v = Some d"
      "d \<le> fadd (q_dist cur) c" "relax g source cur s v = s"
  | (better) c where "usable g (q_id cur) v = Some c" "cheaper s v (fadd (q_dist cur) c)"
      "relax g source cur s v = improve source cur v (fadd (q_dist cur) c) s"
proof -
  let ?c = "mget_or f0 (mget_or [] g (q_id cur)) v"
  let ?alt = "fadd (q_dist cur) ?c"
  from v have "edge g (q_id cur) v \<noteq> None" by (simp add: edge_def map_of_eq_None_iff)
  then have e: "edge g (q_id cur) v = Some ?c" by (auto simp: edge_def mget_or_def)
  show thesis
  proof (cases "fless ?c f0")
    case True
    with e show thesis by (intro skip) (simp_all add: usable_def relax_def)
  next
    case False
    with e have u: "usable g (q_id cur) v = Some ?c" by (simp add: usable_def)
    have ach: "achieved g source s" and cur: "mget (d_dist s) (q_id cur) = Some (q_dist cur)"
      using rel by (simp_all add: relaxing_def)
    have "cost_ok ?alt"
      using usable_ok [OF nan u] achieved_cost_ok [OF ach cur] by (intro cost_ok_fadd)
    then have alt: "?alt \<noteq> fnan" by (simp add: cost_ok_def)
    show thesis
    proof (cases "mget (d_dist s) v")
      case None
      with False u show thesis
        by (intro better [OF u]) (simp_all add: cheaper_def relax_def improve_def Let_def)
    next
      case (Some d)
      with achieved_cost_ok [OF ach] have d: "d \<noteq> fnan" by (auto simp: cost_ok_def)
      show thesis
      proof (cases "fle d ?alt")
        case True
        with Some False u show thesis
          by (intro keep [OF u Some]) (simp_all add: relax_def fle_def Let_def)
      next
        case worse: False
        with d alt have "?alt < d" by (simp add: fle_iff)
        with worse Some False u show thesis
          by (intro better [OF u]) (simp_all add: cheaper_def relax_def improve_def Let_def)
      qed
    qed
  qed
qed

lemma improve_reads [simp]:
  "mget (d_dist (improve source cur v alt s)) w = (if w = v then Some alt else mget (d_dist s) w)"
  "d_visited (improve source cur v alt s) = d_visited s"
  "set (d_queue (improve source cur v alt s)) = insert \<lparr>q_id = v, q_dist = alt\<rparr> (set (d_queue s))"
  by (simp_all add: improve_def)

lemma improve_unvisited:
  assumes rel: "relaxing g source cur R s" and c: "cost_ok c"
    and ch: "cheaper s v (fadd (q_dist cur) c)"
  shows "\<not> visited s v" and "v \<noteq> source"
proof -
  have ach: "achieved g source s" and cur: "mget (d_dist s) (q_id cur) = Some (q_dist cur)"
    using rel by (simp_all add: relaxing_def)
  note okd = achieved_cost_ok [OF ach cur]
  note inc = fadd_increase [OF okd c]
  show "\<not> visited s v"
  proof
    assume vis: "visited s v"
    then obtain d where "mget (d_dist s) v = Some d" using rel by (auto simp: relaxing_def settled_def)
    moreover from this vis rel have "d \<le> q_dist cur" by (auto simp: relaxing_def)
    ultimately show False using ch inc by (auto simp: cheaper_def)
  qed
  show "v \<noteq> source"
  proof
    assume "v = source"
    then have "mget (d_dist s) v = Some f0" using ach by (simp add: achieved_def)
    with ch inc okd show False by (auto simp: cheaper_def cost_ok_def)
  qed
qed

lemma improve_achieved:
  assumes rel: "relaxing g source cur R s" and u: "usable g (q_id cur) v = Some c"
    and c: "cost_ok c" and ch: "cheaper s v (fadd (q_dist cur) c)"
  shows "achieved g source (improve source cur v (fadd (q_dist cur) c) s)"
proof -
  let ?alt = "fadd (q_dist cur) c"
  let ?s = "improve source cur v ?alt s"
  have ach: "achieved g source s" and cur: "mget (d_dist s) (q_id cur) = Some (q_dist cur)"
    using rel by (simp_all add: relaxing_def)
  note vs = improve_unvisited(2) [OF rel c ch]
  have "\<exists>h vs. mget (d_first ?s) v = Some h \<and> last (h # vs) = v \<and> path_cost g source (h # vs) = Some ?alt"
  proof (cases "q_id cur = source")
    case True
    with ach cur have d: "q_dist cur = f0" by (simp add: achieved_def)
    have "path_cost g source [v] = Some ?alt"
      using u by (simp add: path_cost_def True d)
    then show ?thesis by (intro exI [of _ v] exI [of _ "[]"]) (simp add: improve_def True)
  next
    case False
    with ach cur obtain h vs where h: "mget (d_first s) (q_id cur) = Some h"
      and l: "last (h # vs) = q_id cur" and pc: "path_cost g source (h # vs) = Some (q_dist cur)"
      unfolding achieved_def by blast
    have "path_cost g source ((h # vs) @ [v]) = Some ?alt"
      by (rule path_cost_snoc [OF pc]) (use u l in simp)
    then show ?thesis
      by (intro exI [of _ h] exI [of _ "vs @ [v]"]) (simp add: improve_def False h mget_or_def)
  qed
  moreover have "cost_ok ?alt" by (intro cost_ok_fadd achieved_cost_ok [OF ach cur] c)
  moreover have "mget (d_first ?s) w = mget (d_first s) w" if "w \<noteq> v" for w
    using that by (simp add: improve_def)
  ultimately show ?thesis using ach vs by (simp add: achieved_def)
qed

lemma improve_settled:
  assumes rel: "relaxing g source cur (insert v R) s" and u: "usable g (q_id cur) v = Some c"
    and c: "cost_ok c" and ch: "cheaper s v (fadd (q_dist cur) c)"
  shows "settled g (q_id cur) R (improve source cur v (fadd (q_dist cur) c) s)"
  unfolding settled_def improve_reads
proof (intro allI impI)
  fix w assume vis: "visited s w"
  let ?alt = "fadd (q_dist cur) c"
  have set: "settled g (q_id cur) (insert v R) s" and cur: "mget (d_dist s) (q_id cur) = Some (q_dist cur)"
    using rel by (simp_all add: relaxing_def)
  from set vis obtain d where d: "mget (d_dist s) w = Some d"
    and ns: "\<And>x e. usable g w x = Some e \<Longrightarrow> (w = q_id cur \<and> x \<in> insert v R) \<or>
               (\<exists>d'. mget (d_dist s) x = Some d' \<and> d' \<le> fadd d e)"
    unfolding settled_def by blast
  from vis improve_unvisited(1) [OF rel c ch] have wv: "w \<noteq> v" by auto
  have "(w = q_id cur \<and> x \<in> R) \<or>
      (\<exists>d'. (if x = v then Some ?alt else mget (d_dist s) x) = Some d' \<and> d' \<le> fadd d e)"
    if xe: "usable g w x = Some e" for x e
  proof (cases "x = v")
    case False
    with ns [OF xe] show ?thesis by auto
  next
    case True
    show ?thesis
    proof (cases "w = q_id cur")
      case True
      with \<open>x = v\<close> xe u d cur show ?thesis by simp
    next
      case False
      with ns [OF xe] \<open>x = v\<close> obtain k where "mget (d_dist s) v = Some k" "k \<le> fadd d e" by auto
      with ch \<open>x = v\<close> show ?thesis by (auto simp: cheaper_def)
    qed
  qed
  with d wv show "\<exists>d. (if w = v then Some ?alt else mget (d_dist s) w) = Some d \<and>
      (\<forall>x e. usable g w x = Some e \<longrightarrow> (w = q_id cur \<and> x \<in> R) \<or>
        (\<exists>d'. (if x = v then Some ?alt else mget (d_dist s) x) = Some d' \<and> d' \<le> fadd d e))"
    by simp
qed

lemma improve_queue:
  assumes rel: "relaxing g source cur R s" and c: "cost_ok c"
    and ch: "cheaper s v (fadd (q_dist cur) c)"
  shows "queue_covers (improve source cur v (fadd (q_dist cur) c) s)"
proof -
  let ?alt = "fadd (q_dist cur) c"
  have ach: "achieved g source s" and cur: "mget (d_dist s) (q_id cur) = Some (q_dist cur)"
    and q: "queue_covers s"
    using rel by (simp_all add: relaxing_def)
  have alt: "cost_ok ?alt" by (intro cost_ok_fadd achieved_cost_ok [OF ach cur] c)
  have "heap_inv queued_less queued_ok (d_queue (improve source cur v ?alt s))"
    using q alt by (simp add: improve_def queue_covers_def nq.push_inv queued_ok_def cost_ok_def)
  moreover have "\<exists>d. (if q_id x = v then Some ?alt else mget (d_dist s) (q_id x)) = Some d \<and> d \<le> q_dist x"
    if "x \<in> set (d_queue s)" for x
  proof -
    from q that obtain d where "mget (d_dist s) (q_id x) = Some d" "d \<le> q_dist x"
      by (auto simp: queue_covers_def)
    with ch show ?thesis by (auto simp: cheaper_def)
  qed
  ultimately show ?thesis using q alt by (simp add: queue_covers_def)
qed

lemma settled_shrink:
  assumes set: "settled g u (insert v R) s"
    and v: "\<And>c e. usable g u v = Some c \<Longrightarrow> mget (d_dist s) u = Some e \<Longrightarrow>
              \<exists>d'. mget (d_dist s) v = Some d' \<and> d' \<le> fadd e c"
  shows "settled g u R s"
  unfolding settled_def
proof (intro allI impI)
  fix w assume "visited s w"
  with set obtain e where e: "mget (d_dist s) w = Some e" and
    l: "\<And>x c. usable g w x = Some c \<Longrightarrow> (w = u \<and> x \<in> insert v R) \<or>
       (\<exists>d'. mget (d_dist s) x = Some d' \<and> d' \<le> fadd e c)"
    unfolding settled_def by blast
  have "(w = u \<and> x \<in> R) \<or> (\<exists>d'. mget (d_dist s) x = Some d' \<and> d' \<le> fadd e c)"
    if x: "usable g w x = Some c" for x c
    using l [OF x] v [of c e] x e by blast
  with e show "\<exists>d. mget (d_dist s) w = Some d \<and> (\<forall>v c. usable g w v = Some c \<longrightarrow>
      (w = u \<and> v \<in> R) \<or> (\<exists>d'. mget (d_dist s) v = Some d' \<and> d' \<le> fadd d c))"
    by blast
qed

lemma relax_step:
  assumes nan: "nan_free g" and rel: "relaxing g source cur (insert v R) s"
    and v: "v \<in> set (mkeys (mget_or [] g (q_id cur)))"
  shows "relaxing g source cur R (relax g source cur s v)"
  using nan rel v
proof (cases rule: relax_cases)
  case skip
  from rel have "settled g (q_id cur) (insert v R) s" by (simp add: relaxing_def)
  then have "settled g (q_id cur) R s" by (rule settled_shrink) (simp add: skip)
  with rel skip show ?thesis by (simp add: relaxing_def)
next
  case (keep c d)
  from rel have "settled g (q_id cur) (insert v R) s" by (simp add: relaxing_def)
  then have "settled g (q_id cur) R s"
    by (rule settled_shrink) (use rel keep in \<open>auto simp: relaxing_def\<close>)
  with rel keep show ?thesis by (simp add: relaxing_def)
next
  case (better c)
  note c = usable_ok [OF nan better(1)]
  note unv = improve_unvisited [OF rel c better(2)]
  have ok: "cost_ok (q_dist cur)"
    using rel achieved_cost_ok by (auto simp: relaxing_def)
  have "wf_map (d_dist (improve source cur v (fadd (q_dist cur) c) s))"
    using rel by (simp add: improve_def relaxing_def)
  moreover have "q_id cur \<noteq> v" using unv rel by (auto simp: relaxing_def)
  moreover have "d \<le> q_dist cur" if "visited s u" "(if u = v then Some (fadd (q_dist cur) c) else mget (d_dist s) u) = Some d" for u d
    using that unv rel by (auto simp: relaxing_def split: if_splits)
  ultimately show ?thesis
    using rel improve_achieved [OF rel better(1) c better(2)] improve_settled [OF rel better(1) c better(2)]
      improve_queue [OF rel c better(2)] fadd_increase [OF ok c]
    by (auto simp: relaxing_def better(3))
qed

section \<open>The outer loop keeps the invariant\<close>

lemma foldl_relax_inv:
  assumes nan: "nan_free g"
  shows "relaxing g source cur (set vs) s \<Longrightarrow> set vs \<subseteq> set (mkeys (mget_or [] g (q_id cur))) \<Longrightarrow>
    relaxing g source cur {} (foldl (relax g source cur) s vs)"
proof (induction vs arbitrary: s)
  case (Cons v vs)
  then have "relaxing g source cur (set vs) (relax g source cur s v)"
    by (intro relax_step [OF nan]) auto
  with Cons show ?case by auto
qed simp

lemma relaxing_done: "relaxing g source cur {} s \<Longrightarrow> dijkstra_inv g source s"
  unfolding relaxing_def dijkstra_inv_def queue_above_def settled_def
  by (elim conjE, intro conjI) (simp_all, blast intro: order_trans)

lemma settled_empty: "settled g u {} s \<longleftrightarrow> settled g w {} s"
  by (simp add: settled_def)

lemma dijkstra_inv_init: "dijkstra_inv g source (dijkstra_init source)"
proof -
  have "heap_inv queued_less queued_ok (d_queue (dijkstra_init source))"
    by (simp add: dijkstra_init_def nq.push_inv queued_ok_def)
  then show ?thesis
    by (simp add: dijkstra_inv_def achieved_def settled_def queue_covers_def queue_above_def)
      (simp add: dijkstra_init_def)
qed

lemma pop_visited_inv:
  assumes inv: "dijkstra_inv g source s" and pop: "heap_pop queued_less (d_queue s) = Some (cur, q)"
    and vis: "visited s (q_id cur)"
  shows "dijkstra_inv g source (s\<lparr>d_queue := q\<rparr>)"
proof -
  have qc: "queue_covers s" using inv by (simp add: dijkstra_inv_def)
  have sub: "set q \<subseteq> set (d_queue s)" by (rule pop_queue(2) [OF pop])
  have "x \<in> set q" if "x \<in> set (d_queue s)" "q_id x \<noteq> q_id cur" for x
    using nq.pop_other [OF pop, of x] that by auto
  then have "\<lparr>q_id = v, q_dist = d\<rparr> \<in> set q"
    if "mget (d_dist s) v = Some d" "\<not> visited s v" for v d
    using that vis qc by (fastforce simp: queue_covers_def)
  moreover have "heap_inv queued_less queued_ok q"
    using qc nq.pop_inv [OF _ pop] by (simp add: queue_covers_def)
  ultimately show ?thesis
    using inv sub
    by (auto simp: dijkstra_inv_def achieved_def settled_def queue_covers_def queue_above_def)
qed

lemma pop_new_relaxing:
  assumes inv: "dijkstra_inv g source s" and pop: "heap_pop queued_less (d_queue s) = Some (cur, q)"
    and new: "\<not> visited s (q_id cur)"
  shows "relaxing g source cur (set (mkeys (mget_or [] g (q_id cur))))
    (s\<lparr>d_queue := q, d_visited := mput (q_id cur) True (d_visited s)\<rparr>)"
proof -
  let ?s = "s\<lparr>d_queue := q, d_visited := mput (q_id cur) True (d_visited s)\<rparr>"
  have qc: "queue_covers s" and qa: "queue_above s" and ach: "achieved g source s"
    and set: "settled g source {} s" and wf: "wf_map (d_dist s)"
    using inv by (simp_all add: dijkstra_inv_def)
  have hi: "heap_inv queued_less queued_ok (d_queue s)" using qc by (simp add: queue_covers_def)
  have mem: "cur \<in> set (d_queue s)" and sub: "set q \<subseteq> set (d_queue s)"
    using pop_queue [OF pop] by simp_all
  have ok: "q_dist x \<noteq> fnan" if "x \<in> set (d_queue s)" for x
    using qc that by (auto simp: queue_covers_def cost_ok_def)
  have min: "q_dist cur \<le> q_dist x" if "x \<in> set (d_queue s)" for x
    using nq.pop_min [OF hi pop, of x] that ok [OF that] ok [OF mem]
    by (simp add: queued_less_def fless_iff)
  obtain d where d: "mget (d_dist s) (q_id cur) = Some d" "d \<le> q_dist cur"
    using qc mem by (auto simp: queue_covers_def)
  with new qc have "\<lparr>q_id = q_id cur, q_dist = d\<rparr> \<in> set (d_queue s)"
    by (simp add: queue_covers_def)
  from min [OF this] d have cur: "mget (d_dist s) (q_id cur) = Some (q_dist cur)" by simp
  have vis: "visited ?s w \<longleftrightarrow> w = q_id cur \<or> visited s w" for w by (simp add: mget_or_def)
  have "settled g (q_id cur) (set (mkeys (mget_or [] g (q_id cur)))) ?s"
    unfolding settled_def vis
  proof (intro allI impI)
    fix w assume w: "w = q_id cur \<or> visited s w"
    show "\<exists>d. mget (d_dist ?s) w = Some d \<and> (\<forall>v c. usable g w v = Some c \<longrightarrow>
        (w = q_id cur \<and> v \<in> set (mkeys (mget_or [] g (q_id cur)))) \<or>
        (\<exists>d'. mget (d_dist ?s) v = Some d' \<and> d' \<le> fadd d c))"
    proof (cases "w = q_id cur")
      case True
      with cur usable_key show ?thesis by auto
    next
      case False
      with w set show ?thesis by (auto simp: settled_def)
    qed
  qed
  moreover have "queue_covers ?s"
  proof -
    have "x \<in> set q" if "x \<in> set (d_queue s)" "q_id x \<noteq> q_id cur" for x
      using nq.pop_other [OF pop, of x] that by auto
    then have "\<lparr>q_id = v, q_dist = d\<rparr> \<in> set q"
      if "mget (d_dist s) v = Some d" "\<not> visited ?s v" for v d
      using that qc by (simp add: queue_covers_def split: if_splits)
    moreover have "heap_inv queued_less queued_ok q" by (rule nq.pop_inv [OF hi pop])
    ultimately show ?thesis using qc sub by (auto simp: queue_covers_def)
  qed
  moreover have "achieved g source ?s" using ach by (simp add: achieved_def)
  moreover have "d \<le> q_dist cur" if "visited ?s u" "mget (d_dist s) u = Some d" for u d
    using that cur qa mem by (auto simp: queue_above_def split: if_splits)
  ultimately show ?thesis using wf cur min sub by (auto simp: relaxing_def vis)
qed

lemma dijkstra_loop_inv:
  "nan_free g \<Longrightarrow> dijkstra_inv g source s \<Longrightarrow>
    dijkstra_inv g source (dijkstra_loop g source s) \<and> d_queue (dijkstra_loop g source s) = []"
proof (induction g source s rule: dijkstra_loop.induct)
  case (1 g source s)
  show ?case
  proof (cases "heap_pop queued_less (d_queue s)")
    case None
    then have "d_queue s = []" by (simp add: nq.pop_None)
    with None 1 show ?thesis by (simp add: dijkstra_loop.simps [of g source s])
  next
    case (Some p)
    obtain cur q where p: "p = (cur, q)" by (cases p)
    with Some have pop: "heap_pop queued_less (d_queue s) = Some (cur, q)" by simp
    show ?thesis
    proof (cases "visited s (q_id cur)")
      case True
      then have "dijkstra_inv g source (s\<lparr>d_queue := q\<rparr>)"
        by (rule pop_visited_inv [OF "1.prems"(2) pop])
      with True pop "1.IH"(1) [OF Some p [symmetric] refl] "1.prems"(1) show ?thesis
        by (simp add: dijkstra_loop.simps [of g source s])
    next
      case False
      have "relaxing g source cur {} (visit g source cur (s\<lparr>d_queue := q\<rparr>))"
        unfolding visit_def using pop_new_relaxing [OF "1.prems"(2) pop False]
        by (intro foldl_relax_inv [OF "1.prems"(1)]) simp_all
      then have "dijkstra_inv g source (visit g source cur (s\<lparr>d_queue := q\<rparr>))"
        by (rule relaxing_done)
      with False pop "1.IH"(2) [OF Some p [symmetric] refl] "1.prems"(1) show ?thesis
        by (simp add: dijkstra_loop.simps [of g source s])
    qed
  qed
qed

section \<open>The routing table\<close>

lemma foldl_table_entry:
  "wf_map l \<Longrightarrow> mget (foldl (table_entry source s) t l) v =
     (case mget l v of
        None \<Rightarrow> mget t v
      | Some d \<Rightarrow>
          if v = source \<or> is_posinf d then mget t v
          else case mget (d_first s) v of
                 None \<Rightarrow> mget t v
               | Some hop \<Rightarrow> Some \<lparr>r_dest = v, r_next = hop, r_cost = d\<rparr>)"
proof (induction l arbitrary: t)
  case (Cons kd l)
  obtain k d where kd: "kd = (k, d)" by (cases kd)
  with Cons.prems have k: "mget l k = None" and wf: "wf_map l" by (simp_all add: map_of_eq_None_iff)
  have other: "mget (table_entry source s t (k, d)) v = mget t v" if "v \<noteq> k"
    using that by (simp add: table_entry_def split: option.splits)
  show ?case
    using Cons.IH [OF wf, of "table_entry source s t kd"] k other
    by (cases "v = k") (auto simp: kd table_entry_def split: option.splits)
qed simp

lemma mget_table_of:
  "wf_map (d_dist s) \<Longrightarrow> mget (table_of source s) v =
     (case mget (d_dist s) v of
        None \<Rightarrow> None
      | Some d \<Rightarrow>
          if v = source \<or> is_posinf d then None
          else map_option (\<lambda>hop. \<lparr>r_dest = v, r_next = hop, r_cost = d\<rparr>) (mget (d_first s) v))"
  by (auto simp: table_of_def foldl_table_entry split: option.splits)

lemma table_entry_ok: "table_ok t \<Longrightarrow> table_ok (table_entry source s t kd)"
  by (simp add: table_entry_def table_ok_mput split: prod.splits option.splits)

text \<open>The state in which the loop ends, for a graph without NaN.\<close>

definition final :: "graph \<Rightarrow> string \<Rightarrow> dijkstra_state" where
  "final g source = dijkstra_loop g source (dijkstra_init source)"

lemma final_facts:
  assumes "nan_free g"
  shows "wf_map (d_dist (final g s))" and "achieved g s (final g s)"
    and "path_cost g s vs = Some c \<Longrightarrow> \<exists>d'. mget (d_dist (final g s)) (last (s # vs)) = Some d' \<and> d' \<le> c"
proof -
  let ?f = "final g s"
  have inv: "dijkstra_inv g s ?f" and empty: "d_queue ?f = []"
    using dijkstra_loop_inv [OF assms dijkstra_inv_init, of s] by (simp_all add: final_def)
  then show "wf_map (d_dist ?f)" and ach: "achieved g s ?f" by (simp_all add: dijkstra_inv_def)
  have vis: "visited ?f v" if "mget (d_dist ?f) v = Some d" for v d
    using inv empty that by (auto simp: dijkstra_inv_def queue_covers_def)
  then have closed: "\<forall>u v d c. mget (d_dist ?f) u = Some d \<longrightarrow> usable g u v = Some c \<longrightarrow>
      (\<exists>d'. mget (d_dist ?f) v = Some d' \<and> d' \<le> fadd d c)"
    using inv by (fastforce simp: dijkstra_inv_def settled_def)
  have E: "\<forall>u v c. usable g u v = Some c \<longrightarrow> cost_ok c" using usable_ok [OF assms] by blast
  have D: "\<forall>u d. mget (d_dist ?f) u = Some d \<longrightarrow> cost_ok d" using achieved_cost_ok [OF ach] by blast
  have src: "mget (d_dist ?f) s = Some f0" using ach by (simp add: achieved_def)
  assume "path_cost g s vs = Some c"
  then show "\<exists>d'. mget (d_dist ?f) (last (s # vs)) = Some d' \<and> d' \<le> c"
    using f64.closed_bounds_walk [OF E D closed src order_refl cost_ok_f0]
    by (simp add: path_cost_def)
qed

lemma dijkstra_final: "dijkstra g s = table_of s (final g s)"
  by (simp add: dijkstra_def final_def)

lemma dijkstra_table_ok: "table_ok (dijkstra g s)"
proof -
  have "table_ok (foldl (table_entry s st) t l)" if "table_ok t" for st t l
    using that by (induction l arbitrary: t) (simp_all add: table_entry_ok)
  then show ?thesis by (simp add: dijkstra_def table_of_def)
qed

lemma dijkstra_entry:
  assumes nan: "nan_free g" and r: "mget (dijkstra g s) v = Some r"
  shows "r_dest r = v" and "v \<noteq> s" and "r_cost r \<noteq> fposinf"
    and "mget (d_dist (final g s)) v = Some (r_cost r)"
    and "\<exists>vs. last (r_next r # vs) = v \<and> path_cost g s (r_next r # vs) = Some (r_cost r)"
proof -
  note f = final_facts [OF nan, of s]
  from r f(1) obtain d h where d: "mget (d_dist (final g s)) v = Some d" and vs: "v \<noteq> s"
    and inf: "d \<noteq> fposinf" and h: "mget (d_first (final g s)) v = Some h"
    and rr: "r = \<lparr>r_dest = v, r_next = h, r_cost = d\<rparr>"
    by (auto simp: dijkstra_final mget_table_of is_posinf_def split: option.splits if_splits)
  from rr show "r_dest r = v" by simp
  show "v \<noteq> s" by (rule vs)
  from inf rr show "r_cost r \<noteq> fposinf" by simp
  from d rr show "mget (d_dist (final g s)) v = Some (r_cost r)" by simp
  from f(2) d vs obtain h' ws where "mget (d_first (final g s)) v = Some h'"
    and "last (h' # ws) = v" "path_cost g s (h' # ws) = Some d"
    unfolding achieved_def by blast
  with h have "last (h # ws) = v \<and> path_cost g s (h # ws) = Some d" by simp
  then show "\<exists>vs. last (r_next r # vs) = v \<and> path_cost g s (r_next r # vs) = Some (r_cost r)"
    by (intro exI [of _ ws]) (simp add: rr)
qed

lemma dijkstra_reaches:
  assumes nan: "nan_free g" and p: "path_cost g s vs = Some c" and v: "last (s # vs) = v"
    and vs: "v \<noteq> s" and c: "c \<noteq> fposinf"
  shows "\<exists>r. mget (dijkstra g s) v = Some r \<and> r_cost r \<le> c"
proof -
  note f = final_facts [OF nan, of s]
  from f(3) [OF p] v obtain d where d: "mget (d_dist (final g s)) v = Some d" "d \<le> c" by auto
  from f(2) d vs obtain h where h: "mget (d_first (final g s)) v = Some h"
    unfolding achieved_def by blast
  have E: "\<forall>u v c. usable g u v = Some c \<longrightarrow> cost_ok c" using usable_ok [OF nan] by blast
  from f64.walk_ok [OF E cost_ok_f0] p have "cost_ok c" by (simp add: path_cost_def)
  then have "c \<le> fposinf" by (simp add: cost_ok_def le_posinf)
  with c d(2) have "d \<noteq> fposinf" by auto
  with f(1) d h vs show ?thesis by (simp add: dijkstra_final mget_table_of is_posinf_def)
qed

section \<open>What a route promises\<close>

definition best_route :: "graph \<Rightarrow> string \<Rightarrow> string \<Rightarrow> route \<Rightarrow> bool" where
  "best_route g s v r \<longleftrightarrow>
     r_dest r = v \<and> v \<noteq> s \<and>
     (\<exists>vs. last (r_next r # vs) = v \<and> path_cost g s (r_next r # vs) = Some (r_cost r)) \<and>
     (\<forall>vs c. path_cost g s vs = Some c \<and> last (s # vs) = v \<longrightarrow> r_cost r \<le> c)"

lemma dijkstra_best: "nan_free g \<Longrightarrow> mget (dijkstra g s) v = Some r \<Longrightarrow> best_route g s v r"
proof -
  assume h: "nan_free g" "mget (dijkstra g s) v = Some r"
  note e = dijkstra_entry [OF h]
  have "r_cost r \<le> c" if "path_cost g s vs = Some c" "last (s # vs) = v" for vs c
    using final_facts(3) [OF h(1) that(1)] that(2) e(4) by simp
  with e(1,2,5) show "best_route g s v r" unfolding best_route_def by blast
qed

section \<open>The order of the maps does not matter\<close>

lemma same_graph_rows:
  assumes "same_graph g g'"
  shows "same_map (mget_or [] g u) (mget_or [] g' u)"
proof (rule same_mapI)
  have "wf_map (mget_or [] h u)" if "wf_graph h" for h
    using that by (auto simp: mget_or_def wf_graph_def dest: mget_SomeD split: option.splits)
  with assms show "wf_map (mget_or [] g u)" "wf_map (mget_or [] g' u)"
    by (auto simp: same_graph_def)
  from assms show "mget (mget_or [] g u) = mget (mget_or [] g' u)"
    by (auto simp: same_graph_def edge_def)
qed

lemma same_graph_visit: "same_graph g g' \<Longrightarrow> visit g s c st = visit g' s c st"
proof -
  assume g: "same_graph g g'"
  have "mget_or f0 (mget_or [] g u) v = mget_or f0 (mget_or [] g' u) v" for u v
    using same_map_mget [OF same_graph_rows [OF g, of u]] by (simp add: mget_or_def)
  then have "relax g s c = relax g' s c" by (intro ext) (simp add: relax_def)
  with same_map_keys_sorted [OF same_graph_rows [OF g]] show ?thesis by (simp add: visit_def)
qed

lemma same_graph_loop:
  "same_graph g g' \<Longrightarrow> dijkstra_loop g s st = dijkstra_loop g' s st"
proof (induction g s st rule: dijkstra_loop.induct)
  case (1 g s st)
  show ?case
  proof (cases "heap_pop queued_less (d_queue st)")
    case None
    then show ?thesis by (simp add: dijkstra_loop.simps [of _ s st])
  next
    case (Some p)
    then show ?thesis
      using "1.IH" [OF Some] "1.prems" same_graph_visit [OF "1.prems"]
      by (cases p) (simp add: dijkstra_loop.simps [of _ s st] Let_def)
  qed
qed

end
