(* ===== verification/Rt_Links.thy ===== *)
theory Rt_Links
  imports Rt_Shortest
begin

text \<open>
  The \<open>Edge\<close> of internal/routing/algorithm.go, here \<open>link\<close>, and the graphs that are built
  by adding a list of links: the stored cost is the least one declared, whatever the order
  of the declarations. This is what makes the tables of \<open>recompute\<close> independent of the
  order in which Go visits its maps.
\<close>

record link =
  l_from :: string
  l_to :: string
  l_cost :: float64

definition add_link :: "graph \<Rightarrow> link \<Rightarrow> graph" where
  "add_link g e = add_edge (l_from e) (l_to e) (l_cost e) g"

definition graph_of_links :: "link list \<Rightarrow> graph" where
  "graph_of_links es = foldl add_link new_graph es"

section \<open>AddEdge\<close>

lemma mget_or_mput_absent: "mget_or z (if mhas m k then m else mput k z m) k' = mget_or z m k'"
  by (auto simp: mget_or_def mhas_def split: option.splits)

lemma edge_add_edge:
  "edge (add_edge u v c g) u' v' =
     (if u' = u \<and> v' = v
      then (case edge g u v of None \<Rightarrow> Some c | Some e \<Rightarrow> Some (if fless c e then c else e))
      else edge g u' v')"
proof -
  define g1 where "g1 = (if mhas g u then g else mput u [] g)"
  define g2 where "g2 = (if mhas g1 v then g1 else mput v [] g1)"
  have rows: "mget_or [] g2 w = mget_or [] g w" for w
    unfolding g2_def g1_def by (simp only: mget_or_mput_absent)
  have "add_edge u v c g =
      (case mget (mget_or [] g2 u) v of None \<Rightarrow> mput u (mput v c (mget_or [] g2 u)) g2
       | Some e \<Rightarrow> if fless c e then mput u (mput v c (mget_or [] g2 u)) g2 else g2)"
    unfolding add_edge_def Let_def g2_def g1_def by (rule refl)
  then show ?thesis
    by (auto simp: edge_def rows split: option.splits)
qed

lemma row_wf: "wf_graph g \<Longrightarrow> wf_map (mget_or [] g u)"
  by (auto simp: wf_graph_def mget_or_def dest: mget_SomeD split: option.splits)

lemma wf_graph_iff: "wf_graph g \<longleftrightarrow> wf_map g \<and> (\<forall>u row. mget g u = Some row \<longrightarrow> wf_map row)"
  by (auto simp: wf_graph_def mget_iff)

lemma wf_graph_mput: "wf_graph g \<Longrightarrow> wf_map row \<Longrightarrow> wf_graph (mput u row g)"
  by (simp add: wf_graph_iff)

lemma wf_add_edge: "wf_graph g \<Longrightarrow> wf_graph (add_edge u v c g)"
  by (simp add: add_edge_def Let_def wf_graph_mput row_wf split: option.splits)

lemma set_nodes [simp]: "set (nodes g) = fst ` set g"
  by (simp add: nodes_def)

lemma mkeys_mput [simp]: "fst ` set (mput k v m) = insert k (fst ` set m)"
proof -
  have "dom (map_of (mput k v m)) = insert k (dom (map_of m))" by (simp add: update_conv')
  then show ?thesis by (simp add: dom_map_of_conv_image_fst)
qed

lemma nodes_add_edge: "set (nodes (add_edge u v c g)) = insert u (insert v (set (nodes g)))"
  by (auto simp: add_edge_def Let_def mhas_iff_key split: option.splits)

lemma nan_free_iff:
  "wf_graph g \<Longrightarrow> nan_free g \<longleftrightarrow> (\<forall>u v c. edge g u v = Some c \<longrightarrow> c \<noteq> fnan)"
proof -
  assume wf: "wf_graph g"
  have "(\<exists>row. (u, row) \<in> set g \<and> (v, c) \<in> set row) \<longleftrightarrow> edge g u v = Some c" for u v c
  proof
    assume "\<exists>row. (u, row) \<in> set g \<and> (v, c) \<in> set row"
    then obtain row where r: "(u, row) \<in> set g" "(v, c) \<in> set row" by blast
    with wf have "mget g u = Some row" "wf_map row" by (auto simp: wf_graph_def mget_iff)
    with r show "edge g u v = Some c" by (simp add: edge_def mget_or_def mget_iff)
  next
    assume "edge g u v = Some c"
    then obtain row where "mget g u = Some row" "mget row v = Some c"
      by (auto simp: edge_def mget_or_def split: option.splits)
    then show "\<exists>row. (u, row) \<in> set g \<and> (v, c) \<in> set row" by (blast dest: mget_SomeD)
  qed
  then show ?thesis by (fastforce simp: nan_free_def)
qed

lemma wf_new_graph [simp]: "wf_graph new_graph"
  by (simp add: wf_graph_def new_graph_def)

lemma edge_new_graph [simp]: "edge new_graph u v = None"
  by (simp add: edge_def new_graph_def)

section \<open>Graphs of link lists\<close>

definition links_nan_free :: "link list \<Rightarrow> bool" where
  "links_nan_free es \<longleftrightarrow> (\<forall>e \<in> set es. l_cost e \<noteq> fnan)"

definition link_costs :: "link list \<Rightarrow> string \<Rightarrow> string \<Rightarrow> float64 set" where
  "link_costs es u v = l_cost ` {e \<in> set es. l_from e = u \<and> l_to e = v}"

lemma finite_link_costs [simp]: "finite (link_costs es u v)"
  by (simp add: link_costs_def)

lemma wf_graph_of_links: "wf_graph (graph_of_links es)"
proof -
  have "wf_graph g \<Longrightarrow> wf_graph (foldl add_link g es)" for g
    by (induction es arbitrary: g) (simp_all add: add_link_def wf_add_edge)
  then show ?thesis by (simp add: graph_of_links_def)
qed

lemma nodes_graph_of_links:
  "set (nodes (graph_of_links es)) = l_from ` set es \<union> l_to ` set es"
proof -
  have "set (nodes (foldl add_link g es)) = set (nodes g) \<union> l_from ` set es \<union> l_to ` set es" for g
    by (induction es arbitrary: g) (auto simp: add_link_def nodes_add_edge simp del: set_nodes)
  from this [of new_graph] show ?thesis
    by (simp only: graph_of_links_def) (simp add: nodes_def new_graph_def)
qed

lemma edge_graph_of_links:
  assumes "links_nan_free es"
  shows "edge (graph_of_links es) u v =
    (if link_costs es u v = {} then None else Some (Min (link_costs es u v)))"
  using assms
proof (induction es rule: rev_induct)
  case Nil
  then show ?case by (simp add: graph_of_links_def link_costs_def)
next
  case (snoc e es)
  then have nan: "links_nan_free es" "l_cost e \<noteq> fnan" by (simp_all add: links_nan_free_def)
  have costs: "link_costs (es @ [e]) u v =
      (if l_from e = u \<and> l_to e = v then insert (l_cost e) (link_costs es u v) else link_costs es u v)"
    by (auto simp: link_costs_def)
  have app: "graph_of_links (es @ [e]) = add_edge (l_from e) (l_to e) (l_cost e) (graph_of_links es)"
    by (simp add: graph_of_links_def add_link_def)
  show ?case
  proof (cases "l_from e = u \<and> l_to e = v \<and> link_costs es u v \<noteq> {}")
    case True
    let ?m = "Min (link_costs es u v)"
    from True have "?m \<in> link_costs es u v" by simp
    with nan(1) have "?m \<noteq> fnan" by (auto simp: link_costs_def links_nan_free_def)
    with nan(2) have "(if fless (l_cost e) ?m then l_cost e else ?m) = min (l_cost e) ?m"
      by (auto simp: fless_iff min_def)
    also have "\<dots> = Min (link_costs (es @ [e]) u v)" using True by (simp add: costs)
    finally show ?thesis using True by (simp add: app edge_add_edge snoc.IH [OF nan(1)] costs)
  qed (auto simp: app edge_add_edge costs snoc.IH [OF nan(1)])
qed

lemma nan_free_graph_of_links: "links_nan_free es \<Longrightarrow> nan_free (graph_of_links es)"
proof -
  assume nan: "links_nan_free es"
  have "Min (link_costs es u v) \<noteq> fnan" if "link_costs es u v \<noteq> {}" for u v
  proof -
    from that have "Min (link_costs es u v) \<in> link_costs es u v" by simp
    with nan show ?thesis by (auto simp: link_costs_def links_nan_free_def)
  qed
  then show ?thesis
    by (auto simp: nan_free_iff [OF wf_graph_of_links] edge_graph_of_links [OF nan])
qed

lemma same_graph_of_links:
  assumes "set es = set es'" and "links_nan_free es"
  shows "same_graph (graph_of_links es) (graph_of_links es')"
proof -
  from assms have nan: "links_nan_free es'" by (simp add: links_nan_free_def)
  have "link_costs es = link_costs es'" using assms(1) by (intro ext) (simp add: link_costs_def)
  then show ?thesis
    by (simp add: same_graph_def wf_graph_of_links nodes_graph_of_links edge_graph_of_links
        assms nan del: set_nodes)
qed

text \<open>Two lists of the same links give the same table, down to the first hops.\<close>

lemma dijkstra_of_same_links:
  "set es = set es' \<Longrightarrow> links_nan_free es \<Longrightarrow>
   dijkstra (graph_of_links es) s = dijkstra (graph_of_links es') s"
  by (simp add: dijkstra_def same_graph_loop [OF same_graph_of_links])

lemma dijkstra_no_links: "dijkstra (graph_of_links []) s = []"
proof -
  have nan: "nan_free (graph_of_links [])" by (simp add: nan_free_def graph_of_links_def new_graph_def)
  have "usable (graph_of_links []) u v = None" for u v
    by (simp add: usable_def graph_of_links_def)
  then have "mget (dijkstra (graph_of_links []) s) v = None" for v
    using dijkstra_best [OF nan, of s v]
    by (cases "mget (dijkstra (graph_of_links []) s) v") (auto simp: best_route_def path_cost_def)
  then have "v \<notin> fst ` set (dijkstra (graph_of_links []) s)" for v by (simp add: map_of_eq_None_iff)
  then show ?thesis by (cases "dijkstra (graph_of_links []) s") auto
qed

section \<open>Properties\<close>

text \<open>
  C1: every route of the table is sound and optimal. Its cost is that of an actual path from
  the source whose first node is the next hop, and no other path to the destination, added
  up in the same rounded arithmetic, is cheaper.
\<close>

theorem dijkstra_correct:
  assumes "nan_free g" and "mget (dijkstra g s) v = Some r"
  shows "r_dest r = v \<and> v \<noteq> s \<and> r_cost r \<noteq> fposinf \<and>
    (\<exists>vs. last (r_next r # vs) = v \<and> path_cost g s (r_next r # vs) = Some (r_cost r)) \<and>
    (\<forall>vs c. path_cost g s vs = Some c \<and> last (s # vs) = v \<longrightarrow> r_cost r \<le> c)"
proof -
  note e = dijkstra_entry [OF assms]
  have "r_cost r \<le> c" if "path_cost g s vs = Some c" "last (s # vs) = v" for vs c
    using final_facts(3) [OF assms(1) that(1)] that(2) e(4) by simp
  with e(1-3,5) show ?thesis by blast
qed

definition square :: "link list" where
  "square =
     [\<lparr>l_from = ''A'', l_to = ''B'', l_cost = f64 1\<rparr>, \<lparr>l_from = ''A'', l_to = ''C'', l_cost = f64 4\<rparr>,
      \<lparr>l_from = ''B'', l_to = ''C'', l_cost = f64 1\<rparr>, \<lparr>l_from = ''C'', l_to = ''D'', l_cost = f64 1\<rparr>,
      \<lparr>l_from = ''C'', l_to = ''A'', l_cost = f64 4\<rparr>, \<lparr>l_from = ''A'', l_to = ''C'', l_cost = f64 8\<rparr>]"

theorem dijkstra_correct_witness:
  "r_cost \<lparr>r_dest = ''D'', r_next = ''B'', r_cost = f64 3\<rparr> \<le> f64 5"
proof -
  have n: "nan_free (graph_of_links square)" by code_simp
  have t: "mget (dijkstra (graph_of_links square) ''A'') ''D'' =
      Some \<lparr>r_dest = ''D'', r_next = ''B'', r_cost = f64 3\<rparr>" by code_simp
  have "path_cost (graph_of_links square) ''A'' [''C'', ''D''] = Some (f64 5) \<and>
      last [''A'', ''C'', ''D''] = ''D''" by code_simp
  with dijkstra_correct [OF n t] show ?thesis by (simp only: route.simps)
qed

text \<open>
  C25: the table is complete. It holds a route to exactly the other nodes that some path of
  finite rounded cost reaches.
\<close>

theorem dijkstra_reachable_iff:
  assumes "nan_free g"
  shows "mget (dijkstra g s) v \<noteq> None \<longleftrightarrow>
    v \<noteq> s \<and> (\<exists>vs c. path_cost g s vs = Some c \<and> c \<noteq> fposinf \<and> last (s # vs) = v)"
proof
  assume "mget (dijkstra g s) v \<noteq> None"
  then obtain r where r: "mget (dijkstra g s) v = Some r" by auto
  note e = dijkstra_entry [OF assms r]
  from e(5) obtain vs where "last (r_next r # vs) = v" "path_cost g s (r_next r # vs) = Some (r_cost r)"
    by blast
  with e(2,3) show "v \<noteq> s \<and> (\<exists>vs c. path_cost g s vs = Some c \<and> c \<noteq> fposinf \<and> last (s # vs) = v)"
    by (metis last_ConsR list.distinct(1))
next
  assume "v \<noteq> s \<and> (\<exists>vs c. path_cost g s vs = Some c \<and> c \<noteq> fposinf \<and> last (s # vs) = v)"
  then show "mget (dijkstra g s) v \<noteq> None" using dijkstra_reaches [OF assms] by fastforce
qed

theorem dijkstra_reachable_iff_witness:
  "mget (dijkstra (graph_of_links square) ''A'') ''D'' \<noteq> None"
proof -
  have n: "nan_free (graph_of_links square)" by code_simp
  have "path_cost (graph_of_links square) ''A'' [''C'', ''D''] = Some (f64 5)" by code_simp
  moreover have "f64 5 \<noteq> fposinf" by code_simp
  ultimately show ?thesis
    unfolding dijkstra_reachable_iff [OF n] by (intro conjI exI [of _ "[''C'', ''D'']"]) auto
qed

text \<open>
  \<open>AddEdge\<close> keeps the least cost declared for a directed link, and the table computed
  from a list of declarations depends neither on their order nor on their repetition.
\<close>

theorem links_commute:
  assumes "links_nan_free es" and "set es = set es'"
  shows "edge (graph_of_links es) u v =
      (if link_costs es u v = {} then None else Some (Min (link_costs es u v))) \<and>
    dijkstra (graph_of_links es) s = dijkstra (graph_of_links es') s"
  using edge_graph_of_links [OF assms(1)] dijkstra_of_same_links [OF assms(2,1)] by simp

theorem links_commute_witness:
  "dijkstra (graph_of_links square) ''A'' = dijkstra (graph_of_links (rev square)) ''A''"
proof -
  have n: "links_nan_free square" by code_simp
  show ?thesis using links_commute [OF n set_rev [symmetric]] by blast
qed

text \<open>
  The priority queue of the routine. A pop returns an entry of least distance, removes
  that entry and no other, keeps the heap order, and fails only on an empty queue.
\<close>

theorem queue_pop_least:
  assumes "heap_inv queued_less queued_ok q" and "heap_pop queued_less q = Some (x, q')"
  shows "mset q = add_mset x (mset q') \<and> heap_inv queued_less queued_ok q' \<and>
    (\<forall>y. y \<in> set q \<longrightarrow> q_dist x \<le> q_dist y)"
proof -
  have ok: "queued_ok y" if "y \<in> set q" for y using assms(1) that by (simp add: heap_inv_def)
  have x: "x \<in> set q" using nq.pop_member [OF assms(2)] by simp
  have "q_dist x \<le> q_dist y" if "y \<in> set q" for y
  proof -
    have "\<not> queued_less y x" by (rule nq.pop_min [OF assms]) (simp add: that)
    then show ?thesis using ok [OF that] ok [OF x]
      by (simp add: queued_less_def queued_ok_def fless_iff)
  qed
  then show ?thesis using nq.pop_elems [OF assms(2)] nq.pop_inv [OF assms] by blast
qed

theorem queue_pop_least_witness:
  "\<exists>q'. mset [\<lparr>q_id = ''B'', q_dist = f64 1\<rparr>, \<lparr>q_id = ''C'', q_dist = f64 2\<rparr>] =
     add_mset \<lparr>q_id = ''B'', q_dist = f64 1\<rparr> (mset q') \<and> heap_inv queued_less queued_ok q'"
proof -
  have i: "heap_inv queued_less queued_ok
      (heap_push queued_less \<lparr>q_id = ''B'', q_dist = f64 1\<rparr>
        (heap_push queued_less \<lparr>q_id = ''C'', q_dist = f64 2\<rparr> []))"
    by (intro nq.push_inv heap_inv_Nil) (simp_all add: queued_ok_def)
  have e: "heap_push queued_less \<lparr>q_id = ''B'', q_dist = f64 1\<rparr>
        (heap_push queued_less \<lparr>q_id = ''C'', q_dist = f64 2\<rparr> []) =
      [\<lparr>q_id = ''B'', q_dist = f64 1\<rparr>, \<lparr>q_id = ''C'', q_dist = f64 2\<rparr>]" by code_simp
  have p: "heap_pop queued_less [\<lparr>q_id = ''B'', q_dist = f64 1\<rparr>, \<lparr>q_id = ''C'', q_dist = f64 2\<rparr>] =
      Some (\<lparr>q_id = ''B'', q_dist = f64 1\<rparr>, [\<lparr>q_id = ''C'', q_dist = f64 2\<rparr>])" by code_simp
  show ?thesis using queue_pop_least [OF i [unfolded e] p] by blast
qed

end
