(* ===== verification/Rt_Symmetry.thy ===== *)
theory Rt_Symmetry
  imports Rt_Links "HOL-Library.Product_Lexorder"
begin

text \<open>
  internal/routing/symmetry.go: the links that only one endpoint declares, and the watch
  that decides when to print one. The first part is specified as a set of node pairs; the
  second refines a small alarm automaton per finding: idle, pending since an instant, raised.
\<close>

section \<open>One-sided links\<close>

record asymmetry =
  a_declared :: string
  a_missing :: string
  a_cost :: float64

type_synonym declarations = "(string, (string, float64) gomap) gomap"

definition declare_link :: "declarations \<Rightarrow> link \<Rightarrow> declarations" where
  "declare_link d e =
     (if l_from e = l_to e then d
      else let d = (if mhas d (l_from e) then d else mput (l_from e) [] d)
           in mput (l_from e) (mput (l_to e) (l_cost e) (mget_or [] d (l_from e))) d)"

definition declares :: "link list \<Rightarrow> declarations" where
  "declares es = foldl declare_link [] es"

definition one_sided :: "declarations \<Rightarrow> string \<Rightarrow> string \<times> float64 \<Rightarrow> asymmetry list" where
  "one_sided d from tc =
     (case tc of (to, cost) \<Rightarrow>
        case mget d to of
          None \<Rightarrow> []
        | Some back \<Rightarrow>
            if mhas back from then []
            else [\<lparr>a_declared = from, a_missing = to, a_cost = cost\<rparr>])"

definition found_in :: "declarations \<Rightarrow> asymmetry list" where
  "found_in d = concat (map (\<lambda>(from, links). concat (map (one_sided d from) links)) d)"

abbreviation a_key :: "asymmetry \<Rightarrow> string \<times> string" where
  "a_key a \<equiv> (a_declared a, a_missing a)"

definition asymmetries :: "link list \<Rightarrow> asymmetry list" where
  "asymmetries es = sort_key a_key (found_in (declares es))"

text \<open>The specification: who declares which link, and at what cost last.\<close>

definition declared :: "link list \<Rightarrow> string \<Rightarrow> string \<Rightarrow> bool" where
  "declared es u v \<longleftrightarrow> u \<noteq> v \<and> (\<exists>e \<in> set es. l_from e = u \<and> l_to e = v)"

definition announced :: "link list \<Rightarrow> string \<Rightarrow> bool" where
  "announced es u \<longleftrightarrow> (\<exists>v. declared es u v)"

definition last_cost :: "link list \<Rightarrow> string \<Rightarrow> string \<Rightarrow> float64 option" where
  "last_cost es u v = map_option l_cost (find (\<lambda>e. l_from e = u \<and> l_to e = v) (rev es))"

lemma last_cost_snoc:
  "last_cost (es @ [e]) u v = (if l_from e = u \<and> l_to e = v then Some (l_cost e) else last_cost es u v)"
  by (simp add: last_cost_def)

lemma declared_snoc:
  "declared (es @ [e]) u v \<longleftrightarrow> declared es u v \<or> (l_from e = u \<and> l_to e = v \<and> u \<noteq> v)"
  by (auto simp: declared_def)

lemma declares_snoc: "declares (es @ [e]) = declare_link (declares es) e"
  by (simp add: declares_def)

lemma declare_link_rows:
  "mget (mget_or [] (declare_link d e) u) v =
     (if l_from e \<noteq> l_to e \<and> u = l_from e \<and> v = l_to e then Some (l_cost e)
      else mget (mget_or [] d u) v)"
  by (auto simp: declare_link_def Let_def mhas_def) (auto simp: mget_or_def)

lemma declare_link_keys:
  "mhas (declare_link d e) u \<longleftrightarrow> mhas d u \<or> (l_from e \<noteq> l_to e \<and> u = l_from e)"
  by (auto simp: declare_link_def Let_def)

lemma declares_row:
  "mget (mget_or [] (declares es) u) v = (if declared es u v then last_cost es u v else None)"
proof (induction es rule: rev_induct)
  case Nil
  then show ?case by (simp add: declares_def declared_def)
next
  case (snoc e es)
  then show ?case
    by (auto simp: declares_snoc declare_link_rows declared_snoc last_cost_snoc)
      (auto simp: declared_def)
qed

lemma declares_key: "mhas (declares es) u \<longleftrightarrow> announced es u"
proof (induction es rule: rev_induct)
  case Nil
  then show ?case by (simp add: declares_def announced_def declared_def)
next
  case (snoc e es)
  then show ?case by (auto simp: declares_snoc declare_link_keys announced_def declared_snoc)
qed

lemma declared_last_cost: "declared es u v \<Longrightarrow> last_cost es u v \<noteq> None"
  by (auto simp: declared_def last_cost_def find_None_iff)

definition wf_declarations :: "declarations \<Rightarrow> bool" where
  "wf_declarations d \<longleftrightarrow> wf_map d \<and> (\<forall>(u, row) \<in> set d. wf_map row)"

lemma wf_declares: "wf_declarations (declares es)"
proof (induction es rule: rev_induct)
  case Nil
  then show ?case by (simp add: declares_def wf_declarations_def)
next
  case (snoc e es)
  have iff: "wf_declarations d \<longleftrightarrow> wf_map d \<and> (\<forall>u row. mget d u = Some row \<longrightarrow> wf_map row)" for d
    by (auto simp: wf_declarations_def mget_iff)
  from snoc show ?case
    by (auto simp: declares_snoc declare_link_def Let_def iff mget_or_def split: option.splits)
qed

lemma declares_pair:
  "(\<exists>row. (u, row) \<in> set (declares es) \<and> (v, c) \<in> set row) \<longleftrightarrow>
     declared es u v \<and> last_cost es u v = Some c"
proof -
  let ?d = "declares es"
  have "(\<exists>row. (u, row) \<in> set ?d \<and> (v, c) \<in> set row) \<longleftrightarrow> (\<exists>row. mget ?d u = Some row \<and> mget row v = Some c)"
    using wf_declares [of es] by (fastforce simp: wf_declarations_def mget_iff dest: mget_SomeD)
  also have "\<dots> \<longleftrightarrow> mget (mget_or [] ?d u) v = Some c"
    by (auto simp: mget_or_def split: option.splits)
  also have "\<dots> \<longleftrightarrow> declared es u v \<and> last_cost es u v = Some c"
    by (simp add: declares_row)
  finally show ?thesis .
qed

lemma one_sided_declares:
  "a \<in> set (one_sided (declares es) u (v, c)) \<longleftrightarrow>
     announced es v \<and> \<not> declared es v u \<and> a = \<lparr>a_declared = u, a_missing = v, a_cost = c\<rparr>"
proof (cases "mget (declares es) v")
  case None
  then have "\<not> announced es v" by (simp add: declares_key [symmetric] mhas_def)
  with None show ?thesis by (simp add: one_sided_def)
next
  case (Some row)
  then have ann: "announced es v" by (simp add: declares_key [symmetric] mhas_def)
  have "mhas row u \<longleftrightarrow> declared es v u"
    using declares_row [of es v u] declared_last_cost [of es v u] Some
    by (auto simp: mget_or_def mhas_def split: if_splits)
  with Some ann show ?thesis by (auto simp: one_sided_def)
qed

text \<open>
  The list holds exactly the links one endpoint declares and the other, although it
  announced something, does not.
\<close>

lemma set_asymmetries:
  "a \<in> set (asymmetries es) \<longleftrightarrow>
     declared es (a_declared a) (a_missing a) \<and> announced es (a_missing a) \<and>
     \<not> declared es (a_missing a) (a_declared a) \<and>
     last_cost es (a_declared a) (a_missing a) = Some (a_cost a)"
proof -
  have "a \<in> set (asymmetries es) \<longleftrightarrow>
      (\<exists>u row v c. (u, row) \<in> set (declares es) \<and> (v, c) \<in> set row \<and>
        a \<in> set (one_sided (declares es) u (v, c)))"
    by (fastforce simp: asymmetries_def found_in_def)
  also have "\<dots> \<longleftrightarrow> (\<exists>u v c. (\<exists>row. (u, row) \<in> set (declares es) \<and> (v, c) \<in> set row) \<and>
        a \<in> set (one_sided (declares es) u (v, c)))"
    by blast
  also have "\<dots> \<longleftrightarrow> (\<exists>u v c. declared es u v \<and> last_cost es u v = Some c \<and> announced es v \<and>
        \<not> declared es v u \<and> a = \<lparr>a_declared = u, a_missing = v, a_cost = c\<rparr>)"
    by (simp only: declares_pair one_sided_declares conj_assoc)
  finally show ?thesis by (cases a) auto
qed

text \<open>
  Go visits both maps in an order of its own choosing and does not sort stably. The
  findings have pairwise distinct keys, so every order gives the same list.
\<close>

definition same_declarations :: "declarations \<Rightarrow> declarations \<Rightarrow> bool" where
  "same_declarations d d' \<longleftrightarrow> wf_declarations d \<and> wf_declarations d' \<and>
     (\<forall>u. mhas d u = mhas d' u \<and> mget (mget_or [] d u) = mget (mget_or [] d' u))"

lemma set_found_in:
  "wf_declarations d \<Longrightarrow> a \<in> set (found_in d) \<longleftrightarrow>
     mget (mget_or [] d (a_declared a)) (a_missing a) = Some (a_cost a) \<and>
     mhas d (a_missing a) \<and> mget (mget_or [] d (a_missing a)) (a_declared a) = None"
proof -
  assume wf: "wf_declarations d"
  have "a \<in> set (found_in d) \<longleftrightarrow>
      (\<exists>u row v c. (u, row) \<in> set d \<and> (v, c) \<in> set row \<and> a \<in> set (one_sided d u (v, c)))"
    by (fastforce simp: found_in_def)
  also have "\<dots> \<longleftrightarrow> (\<exists>u row v c. mget d u = Some row \<and> mget row v = Some c \<and>
      a \<in> set (one_sided d u (v, c)))"
    using wf by (fastforce simp: wf_declarations_def mget_iff dest: mget_SomeD)
  also have "\<dots> \<longleftrightarrow> mget (mget_or [] d (a_declared a)) (a_missing a) = Some (a_cost a) \<and>
      mhas d (a_missing a) \<and> mget (mget_or [] d (a_missing a)) (a_declared a) = None"
    by (cases a) (auto simp: one_sided_def mget_or_def mhas_def split: option.splits if_splits, metis)
  finally show ?thesis .
qed

lemma distinct_concat_map_key:
  assumes "distinct (map g xs)" and "\<And>x. x \<in> set xs \<Longrightarrow> distinct (map f (h x))"
    and "\<And>x a. x \<in> set xs \<Longrightarrow> a \<in> set (h x) \<Longrightarrow> k (f a) = g x"
  shows "distinct (map f (concat (map h xs)))"
  using assms
proof (induction xs)
  case (Cons x xs)
  have "f a \<noteq> f b" if "a \<in> set (h x)" "y \<in> set xs" "b \<in> set (h y)" for a y b
  proof
    assume "f a = f b"
    with that Cons.prems(3) [of x a] Cons.prems(3) [of y b] have "g x = g y" by simp
    with that Cons.prems(1) show False by auto
  qed
  then show ?case using Cons by auto
qed simp

lemma distinct_found_in: "wf_declarations d \<Longrightarrow> distinct (map a_key (found_in d))"
  unfolding found_in_def
proof (rule distinct_concat_map_key [where g = fst and k = fst], goal_cases)
  case 1
  then show ?case by (simp add: wf_declarations_def wf_map_def)
next
  case (2 ur)
  obtain u row where ur: "ur = (u, row)" by (cases ur)
  with 2 have "distinct (map fst row)" by (auto simp: wf_declarations_def wf_map_def)
  then have "distinct (map a_key (concat (map (one_sided d u) row)))"
    by (rule distinct_concat_map_key [where k = snd])
      (auto simp: one_sided_def split: option.splits if_splits)
  then show ?case by (simp add: ur)
next
  case 3
  then show ?case by (auto simp: one_sided_def split: option.splits if_splits)
qed

lemma sorted_by_key_unique:
  assumes "distinct (map k xs)" "distinct (map k ys)" "set xs = set ys"
  shows "sort_key k xs = sort_key k ys"
  using assms by (intro map_sorted_distinct_set_unique [of k]) (auto simp: distinct_map)

lemma found_in_same:
  "same_declarations d d' \<Longrightarrow> sort_key a_key (found_in d) = sort_key a_key (found_in d')"
  by (rule sorted_by_key_unique)
    (auto simp: same_declarations_def distinct_found_in set_found_in)

lemma asymmetries_sorted: "sorted (map a_key (asymmetries es))"
  by (simp add: asymmetries_def)

lemma asymmetries_distinct: "distinct (map a_key (asymmetries es))"
proof -
  have "mset (map a_key (asymmetries es)) = mset (map a_key (found_in (declares es)))"
    by (simp add: asymmetries_def)
  then show ?thesis using distinct_found_in [OF wf_declares] by (metis mset_eq_imp_distinct_iff)
qed

section \<open>The watch\<close>

record asymmetry_watch =
  w_first :: "(string, gotime) gomap"
  w_warned :: "(string, bool) gomap"

definition new_watch :: asymmetry_watch where
  "new_watch = \<lparr>w_first = [], w_warned = []\<rparr>"

definition watch_key :: "asymmetry \<Rightarrow> string" where
  "watch_key a = a_declared a @ ''->'' @ a_missing a"

definition due_one :: "gotime \<Rightarrow> duration \<Rightarrow> asymmetry \<Rightarrow> asymmetry_watch \<Rightarrow> bool \<times> asymmetry_watch" where
  "due_one now grace a w =
     (let key = watch_key a;
          w = (if mhas (w_first w) key then w else w\<lparr>w_first := mput key now (w_first w)\<rparr>)
      in if mget_or False (w_warned w) key \<or>
            time_sub now (mget_or zero_time (w_first w) key) \<le> grace
         then (False, w)
         else (True, w\<lparr>w_warned := mput key True (w_warned w)\<rparr>))"

fun due_found :: "gotime \<Rightarrow> duration \<Rightarrow> asymmetry list \<Rightarrow> asymmetry_watch \<Rightarrow> asymmetry list \<times> asymmetry_watch" where
  "due_found now grace [] w = ([], w)"
| "due_found now grace (a # found) w =
     (case due_one now grace a w of (warn, w) \<Rightarrow>
        case due_found now grace found w of (report, w) \<Rightarrow>
          (if warn then a # report else report, w))"

definition forget :: "string list \<Rightarrow> asymmetry_watch \<Rightarrow> asymmetry_watch" where
  "forget current w =
     foldl (\<lambda>w key. if key \<in> set current then w
                 else w\<lparr>w_first := mdel key (w_first w), w_warned := mdel key (w_warned w)\<rparr>)
       w (mkeys (w_first w))"

definition due :: "gotime \<Rightarrow> duration \<Rightarrow> asymmetry list \<Rightarrow> asymmetry_watch \<Rightarrow> asymmetry list \<times> asymmetry_watch" where
  "due now grace found w =
     (case due_found now grace found w of (report, w) \<Rightarrow>
        (report, forget (map watch_key found) w))"

section \<open>The alarm automaton\<close>

text \<open>
  What the watch promises of one finding: it is pending from the sweep that first sees it,
  raised by the first later sweep that still sees it after the grace period, silent from
  then on, and idle again as soon as a sweep does not see it.
\<close>

datatype alarm = Idle | Pending gotime | Raised gotime

definition alarm_step :: "gotime \<Rightarrow> duration \<Rightarrow> bool \<Rightarrow> alarm \<Rightarrow> alarm" where
  "alarm_step now grace present s =
     (if \<not> present then Idle
      else case s of
        Idle \<Rightarrow> if time_sub now now \<le> grace then Pending now else Raised now
      | Pending t \<Rightarrow> if time_sub now t \<le> grace then Pending t else Raised t
      | Raised t \<Rightarrow> Raised t)"

definition alarm_rings :: "gotime \<Rightarrow> duration \<Rightarrow> bool \<Rightarrow> alarm \<Rightarrow> bool" where
  "alarm_rings now grace present s \<longleftrightarrow>
     (case (s, alarm_step now grace present s) of
        (Raised _, _) \<Rightarrow> False | (_, Raised _) \<Rightarrow> True | _ \<Rightarrow> False)"

definition alarm_of :: "asymmetry_watch \<Rightarrow> string \<Rightarrow> alarm" where
  "alarm_of w key =
     (case mget (w_first w) key of
        None \<Rightarrow> Idle
      | Some t \<Rightarrow> if mget_or False (w_warned w) key then Raised t else Pending t)"

text \<open>Only findings that are being watched are marked as warned.\<close>

definition watch_ok :: "asymmetry_watch \<Rightarrow> bool" where
  "watch_ok w \<longleftrightarrow> (\<forall>key. mhas (w_warned w) key \<longrightarrow> mhas (w_first w) key)"

lemma watch_ok_new [simp]: "watch_ok new_watch"
  by (simp add: watch_ok_def new_watch_def)

lemma due_one_ok: "watch_ok w \<Longrightarrow> watch_ok (snd (due_one now grace a w))"
  by (auto simp: watch_ok_def due_one_def Let_def)

lemma due_one_rings:
  "watch_ok w \<Longrightarrow>
   fst (due_one now grace a w) \<longleftrightarrow> alarm_rings now grace True (alarm_of w (watch_key a))"
  by (auto simp: due_one_def Let_def alarm_rings_def alarm_step_def alarm_of_def mget_or_def
      mhas_def watch_ok_def split: option.splits)

lemma due_one_alarm:
  "watch_ok w \<Longrightarrow>
   alarm_of (snd (due_one now grace a w)) key =
     (if key = watch_key a then alarm_step now grace True (alarm_of w key) else alarm_of w key)"
  by (auto simp: due_one_def Let_def alarm_step_def alarm_of_def mget_or_def mhas_def
      watch_ok_def split: option.splits)

lemma due_found_ok: "watch_ok w \<Longrightarrow> watch_ok (snd (due_found now grace found w))"
proof (induction found arbitrary: w)
  case (Cons a found)
  from due_one_ok [OF Cons.prems] have "watch_ok (snd (due_one now grace a w))" .
  from Cons.IH [OF this] show ?case by (simp add: split_beta)
qed simp

lemma due_found_alarm:
  "watch_ok w \<Longrightarrow> distinct (map watch_key found) \<Longrightarrow>
   alarm_of (snd (due_found now grace found w)) key =
     (if key \<in> watch_key ` set found then alarm_step now grace True (alarm_of w key) else alarm_of w key)"
proof (induction found arbitrary: w)
  case (Cons a found)
  from due_one_ok [OF Cons.prems(1)] have "watch_ok (snd (due_one now grace a w))" .
  from Cons.IH [OF this] Cons.prems show ?case
    by (auto simp: split_beta due_one_alarm)
qed simp

lemma due_found_report:
  "watch_ok w \<Longrightarrow> distinct (map watch_key found) \<Longrightarrow>
   fst (due_found now grace found w) =
     filter (\<lambda>a. alarm_rings now grace True (alarm_of w (watch_key a))) found"
proof (induction found arbitrary: w)
  case (Cons a found)
  let ?w = "snd (due_one now grace a w)"
  from due_one_ok [OF Cons.prems(1)] have "watch_ok ?w" .
  from Cons.IH [OF this] Cons.prems
  have "fst (due_found now grace found ?w) =
      filter (\<lambda>b. alarm_rings now grace True (alarm_of ?w (watch_key b))) found" by simp
  also have "\<dots> = filter (\<lambda>b. alarm_rings now grace True (alarm_of w (watch_key b))) found"
    using Cons.prems by (intro filter_cong refl) (metis due_one_alarm distinct.simps(2) image_eqI image_set list.simps(9))
  finally show ?case
    using due_one_rings [OF Cons.prems(1), of now grace a] by (simp add: split_beta)
qed simp

lemma forget_fields:
  "mget (w_first (foldl (\<lambda>w key. if key \<in> S then w
      else w\<lparr>w_first := mdel key (w_first w), w_warned := mdel key (w_warned w)\<rparr>) w keys)) k =
     (if k \<in> set keys - S then None else mget (w_first w) k)"
  "mget (w_warned (foldl (\<lambda>w key. if key \<in> S then w
      else w\<lparr>w_first := mdel key (w_first w), w_warned := mdel key (w_warned w)\<rparr>) w keys)) k =
     (if k \<in> set keys - S then None else mget (w_warned w) k)"
  by (induction keys arbitrary: w) auto

lemma forget_first: "mget (w_first (forget current w)) k = (if k \<in> set current then mget (w_first w) k else None)"
  by (auto simp: forget_def forget_fields map_of_eq_None_iff)

lemma forget_warned:
  "mget (w_warned (forget current w)) k =
     (if k \<notin> set current \<and> mhas (w_first w) k then None else mget (w_warned w) k)"
  by (auto simp: forget_def forget_fields mhas_iff_key)

lemma alarm_forget: "alarm_of (forget current w) key = (if key \<in> set current then alarm_of w key else Idle)"
  by (auto simp: alarm_of_def forget_first forget_warned mget_or_def split: option.split)

lemma forget_ok: "watch_ok w \<Longrightarrow> watch_ok (forget current w)"
  by (auto simp: watch_ok_def mhas_def forget_first forget_warned)

lemma due_ok: "watch_ok w \<Longrightarrow> watch_ok (snd (due now grace found w))"
  by (simp add: due_def split_beta forget_ok due_found_ok)

lemma due_alarm:
  "watch_ok w \<Longrightarrow> distinct (map watch_key found) \<Longrightarrow>
   alarm_of (snd (due now grace found w)) key =
     alarm_step now grace (key \<in> watch_key ` set found) (alarm_of w key)"
  by (auto simp: due_def split_beta alarm_forget due_found_alarm) (simp_all add: alarm_step_def)

lemma due_report:
  "watch_ok w \<Longrightarrow> distinct (map watch_key found) \<Longrightarrow>
   fst (due now grace found w) =
     filter (\<lambda>a. alarm_rings now grace True (alarm_of w (watch_key a))) found"
  by (simp add: due_def split_beta due_found_report)

text \<open>A watched link is reported at most once while sweeps keep seeing it.\<close>

lemma alarm_rings_once:
  "alarm_rings now grace True s \<Longrightarrow> \<not> alarm_rings now' grace' True (alarm_step now grace True s)"
  by (auto simp: alarm_rings_def split: alarm.splits)

lemma alarm_rings_pending:
  "0 \<le> grace \<Longrightarrow> alarm_rings now grace True s \<longleftrightarrow> (\<exists>t. s = Pending t \<and> grace < time_sub now t)"
  by (auto simp: alarm_rings_def alarm_step_def split: alarm.splits)

text \<open>
  The text the watch keys a finding by is one-to-one on node names without the bytes of
  the arrow, so on such names the findings of one sweep have distinct keys.
\<close>

lemma watch_key_inj:
  "CHR ''-'' \<notin> set (a_declared a) \<Longrightarrow> CHR ''-'' \<notin> set (a_declared b) \<Longrightarrow>
   watch_key a = watch_key b \<Longrightarrow> a_key a = a_key b"
proof -
  assume h: "CHR ''-'' \<notin> set (a_declared a)" "CHR ''-'' \<notin> set (a_declared b)"
    "watch_key a = watch_key b"
  have "str_cut (CHR ''-'') (watch_key x) = (a_declared x, CHR ''>'' # a_missing x, True)"
    if "CHR ''-'' \<notin> set (a_declared x)" for x :: asymmetry
    using cut_found [OF that] by (simp add: watch_key_def)
  from this [OF h(1)] this [OF h(2)] h(3) show ?thesis by simp
qed

lemma distinct_watch_keys:
  assumes "\<forall>e \<in> set es. CHR ''-'' \<notin> set (l_from e)"
  shows "distinct (map watch_key (asymmetries es))"
proof -
  have clean: "CHR ''-'' \<notin> set (a_declared a)" if "a \<in> set (asymmetries es)" for a
    using that assms by (auto simp: set_asymmetries declared_def)
  have "inj_on watch_key (set (asymmetries es))"
  proof (rule inj_onI)
    fix a b assume ab: "a \<in> set (asymmetries es)" "b \<in> set (asymmetries es)" "watch_key a = watch_key b"
    then have "a_key a = a_key b" by (intro watch_key_inj clean)
    moreover have "inj_on a_key (set (asymmetries es))"
      using asymmetries_distinct [of es] by (simp add: distinct_map)
    ultimately show "a = b" using ab by (auto dest: inj_onD)
  qed
  moreover have "distinct (asymmetries es)" using asymmetries_distinct [of es] by (simp add: distinct_map)
  ultimately show ?thesis by (simp add: distinct_map)
qed

section \<open>Properties\<close>

text \<open>
  C26: the list of one-sided links is exact, sorted and free of repetitions. It reports a
  link when one end declares it and the other, although it announced something, does not,
  with the cost declared last.
\<close>

theorem asymmetries_exact:
  "sorted (map a_key (asymmetries es)) \<and> distinct (map a_key (asymmetries es)) \<and>
   (a \<in> set (asymmetries es) \<longleftrightarrow>
      declared es (a_declared a) (a_missing a) \<and> announced es (a_missing a) \<and>
      \<not> declared es (a_missing a) (a_declared a) \<and>
      last_cost es (a_declared a) (a_missing a) = Some (a_cost a))"
  using asymmetries_sorted asymmetries_distinct set_asymmetries by blast

text \<open>
  The list does not depend on the order in which Go visits the two nested maps, although
  \<open>sort.Slice\<close> is not stable: on equal maps the same list comes out.
\<close>

theorem asymmetries_any_order:
  "same_declarations (declares es) d \<Longrightarrow> asymmetries es = sort_key a_key (found_in d)"
  by (simp add: asymmetries_def found_in_same)

definition half_mesh :: "link list" where
  "half_mesh =
     [\<lparr>l_from = ''A'', l_to = ''B'', l_cost = f64 1\<rparr>, \<lparr>l_from = ''A'', l_to = ''C'', l_cost = f64 2\<rparr>,
      \<lparr>l_from = ''B'', l_to = ''C'', l_cost = f64 2\<rparr>, \<lparr>l_from = ''C'', l_to = ''A'', l_cost = f64 2\<rparr>]"

theorem asymmetries_any_order_witness:
  "asymmetries half_mesh = sort_key a_key (found_in (rev (declares half_mesh)))"
proof (rule asymmetries_any_order)
  have wf: "wf_declarations (rev (declares half_mesh))" by code_simp
  have "same_map (declares half_mesh) (rev (declares half_mesh))"
    using wf wf_declares [of half_mesh] by (simp add: same_map_def wf_declarations_def)
  then have "mget (declares half_mesh) = mget (rev (declares half_mesh))" by (rule same_map_mget)
  with wf show "same_declarations (declares half_mesh) (rev (declares half_mesh))"
    by (simp add: same_declarations_def wf_declares mhas_def mget_or_def)
qed

text \<open>
  C20: the watch implements one alarm per finding: a sweep reports exactly the findings that
  have been pending for longer than the grace period, in order, and afterwards every alarm
  has taken one step of the automaton, resolved findings being idle again.
\<close>

theorem due_implements_alarms:
  assumes "watch_ok w" and "distinct (map watch_key found)" and "0 \<le> grace"
  shows "fst (due now grace found w) =
      filter (\<lambda>a. \<exists>t. alarm_of w (watch_key a) = Pending t \<and> grace < time_sub now t) found \<and>
    alarm_of (snd (due now grace found w)) key =
      alarm_step now grace (key \<in> watch_key ` set found) (alarm_of w key) \<and>
    watch_ok (snd (due now grace found w))"
  using due_report [OF assms(1,2)] due_alarm [OF assms(1,2)] due_ok [OF assms(1)]
    alarm_rings_pending [OF assms(3)] by simp

theorem due_implements_alarms_witness:
  "let w = snd (due 0 (30 * second) (asymmetries half_mesh) new_watch) in
   alarm_of (snd (due (31 * second) (30 * second) (asymmetries half_mesh) w)) ''A->B'' = Raised 0"
proof -
  let ?f = "asymmetries half_mesh"
  let ?w = "snd (due 0 (30 * second) ?f new_watch)"
  have d: "distinct (map watch_key ?f)" by code_simp
  have g: "0 \<le> 30 * second" by (simp add: second_def)
  have ok: "watch_ok ?w" by (rule due_ok) simp
  have a: "alarm_of ?w ''A->B'' = Pending 0" by code_simp
  have m: "''A->B'' \<in> watch_key ` set ?f" by code_simp
  have "alarm_of (snd (due (31 * second) (30 * second) ?f ?w)) ''A->B'' =
      alarm_step (31 * second) (30 * second) True (Pending 0)"
    using due_implements_alarms [OF ok d g, of "31 * second" "''A->B''", THEN conjunct2, THEN conjunct1]
    by (simp only: a m)
  also have "\<dots> = Raised 0" by code_simp
  finally show ?thesis by (simp only: Let_def)
qed

end
