(* ===== verification/Rt_Flood.thy ===== *)
theory Rt_Flood
  imports Go_Base
begin

text \<open>
  internal/routing/flood.go and internal/routing/seen.go: the flooding primitive and the
  cache of packet identifiers that makes flooding terminate. The locale \<open>dup_filter\<close> is what
  the message and link-state handlers rely on; the cache provides it, and the abstract
  specification is a set of identifiers that never forgets (\<open>dup_flags\<close>), which the cache
  implements as long as its window lasts.
\<close>

section \<open>Flood\<close>

fun flood :: "string list \<Rightarrow> string \<Rightarrow> string list" where
  "flood [] previous_hop = []"
| "flood (n # ns) previous_hop =
     (if n = previous_hop then flood ns previous_hop else n # flood ns previous_hop)"

lemma flood_filter: "flood ns p = filter (\<lambda>n. n \<noteq> p) ns"
  by (induction ns) simp_all

section \<open>The cache\<close>

record seen_cache =
  sc_entries :: "(string, gotime) gomap"
  sc_ttl :: duration

definition new_seen_cache :: "duration \<Rightarrow> seen_cache" where
  "new_seen_cache ttl = \<lparr>sc_entries = [], sc_ttl = ttl\<rparr>"

definition evict :: "gotime \<Rightarrow> seen_cache \<Rightarrow> seen_cache" where
  "evict now c =
     c\<lparr>sc_entries := filter (\<lambda>(pid, at). \<not> sc_ttl c < time_sub now at) (sc_entries c)\<rparr>"

text \<open>\<open>Seen\<close> at the instant \<open>now\<close>: whether the identifier was known, and the new cache.\<close>

definition seen :: "gotime \<Rightarrow> string \<Rightarrow> seen_cache \<Rightarrow> bool \<times> seen_cache" where
  "seen now pid c =
     (if pid = [] then (False, c)
      else let c = evict now c in
           if mhas (sc_entries c) pid then (True, c)
           else (False, c\<lparr>sc_entries := mput pid now (sc_entries c)\<rparr>))"

definition seen_len :: "seen_cache \<Rightarrow> nat" where
  "seen_len c = length (sc_entries c)"

definition seen_at :: "seen_cache \<Rightarrow> string \<Rightarrow> gotime option" where
  "seen_at c pid = mget (sc_entries c) pid"

definition seen_ok :: "seen_cache \<Rightarrow> bool" where
  "seen_ok c \<longleftrightarrow> wf_map (sc_entries c) \<and> mget (sc_entries c) [] = None"

lemma seen_ok_new [simp]: "seen_ok (new_seen_cache ttl)"
  by (simp add: seen_ok_def new_seen_cache_def)

lemma ttl_new [simp]: "sc_ttl (new_seen_cache ttl) = ttl"
  by (simp add: new_seen_cache_def)

lemma seen_at_new [simp]: "seen_at (new_seen_cache ttl) pid = None"
  by (simp add: seen_at_def new_seen_cache_def)

lemma evict_ttl [simp]: "sc_ttl (evict now c) = sc_ttl c"
  by (simp add: evict_def)

lemma seen_ttl [simp]: "sc_ttl (snd (seen now pid c)) = sc_ttl c"
  by (simp add: seen_def Let_def)

lemma seen_at_evict:
  "seen_ok c \<Longrightarrow> seen_at (evict now c) pid =
     (case seen_at c pid of None \<Rightarrow> None | Some at \<Rightarrow> if sc_ttl c < time_sub now at then None else Some at)"
  by (simp add: seen_at_def evict_def mget_filter seen_ok_def split: option.splits)

lemma seen_ok_evict [simp]: "seen_ok c \<Longrightarrow> seen_ok (evict now c)"
  by (simp add: seen_ok_def evict_def wf_map_filter mget_filter)

lemma seen_ok_seen: "seen_ok c \<Longrightarrow> seen_ok (snd (seen now pid c))"
  using seen_ok_evict [of c now] by (auto simp: seen_def Let_def seen_ok_def)

lemma fst_seen:
  "seen_ok c \<Longrightarrow> fst (seen now pid c) \<longleftrightarrow>
     pid \<noteq> [] \<and> (\<exists>at. seen_at c pid = Some at \<and> \<not> sc_ttl c < time_sub now at)"
  using seen_at_evict [of c now pid]
  by (auto simp: seen_def Let_def mhas_def seen_at_def split: option.splits if_splits)

lemma seen_at_seen:
  "seen_ok c \<Longrightarrow> seen_at (snd (seen now pid c)) pid' =
     (if pid' = pid \<and> pid \<noteq> [] \<and> \<not> fst (seen now pid c) then Some now
      else if pid = [] then seen_at c pid' else seen_at (evict now c) pid')"
  by (auto simp: seen_def Let_def seen_at_def)

section \<open>What the handlers rely on\<close>

text \<open>One call of the filter per packet: the answers of a whole run.\<close>

fun filter_run :: "(gotime \<Rightarrow> string \<Rightarrow> 'c \<Rightarrow> bool \<times> 'c) \<Rightarrow> 'c \<Rightarrow> (gotime \<times> string) list \<Rightarrow> bool list" where
  "filter_run f c [] = []"
| "filter_run f c ((now, pid) # calls) = fst (f now pid c) # filter_run f (snd (f now pid c)) calls"

text \<open>The abstract filter remembers every non-empty identifier for ever.\<close>

fun dup_flags :: "string set \<Rightarrow> string list \<Rightarrow> bool list" where
  "dup_flags S [] = []"
| "dup_flags S (pid # pids) = (pid \<noteq> [] \<and> pid \<in> S) # dup_flags (insert pid S) pids"

locale dup_filter =
  fixes f :: "gotime \<Rightarrow> string \<Rightarrow> 'c \<Rightarrow> bool \<times> 'c"
    and ok :: "'c \<Rightarrow> bool"
    and at :: "'c \<Rightarrow> string \<Rightarrow> gotime option"
    and window :: "'c \<Rightarrow> duration"
  assumes ok_step: "ok c \<Longrightarrow> ok (snd (f now pid c))"
    and window_step: "ok c \<Longrightarrow> window (snd (f now pid c)) = window c"
    and answers: "ok c \<Longrightarrow> fst (f now pid c) \<longleftrightarrow>
      pid \<noteq> [] \<and> (\<exists>t. at c pid = Some t \<and> \<not> window c < time_sub now t)"
    and remembers: "ok c \<Longrightarrow> pid \<noteq> [] \<Longrightarrow> \<not> fst (f now pid c) \<Longrightarrow> at (snd (f now pid c)) pid = Some now"
    and keeps: "ok c \<Longrightarrow> at c pid' = Some t \<Longrightarrow> \<not> window c < time_sub now t \<Longrightarrow>
      at (snd (f now pid c)) pid' = Some t"
    and invents_nothing: "ok c \<Longrightarrow> pid' \<noteq> pid \<Longrightarrow> at c pid' = None \<Longrightarrow> at (snd (f now pid c)) pid' = None"
begin

lemma implements_set:
  assumes w: "0 \<le> window c" "window c < 9223372036854775807"
  shows "ok c \<Longrightarrow> \<forall>(t, pid) \<in> set calls. lo \<le> t \<and> t \<le> lo + window c \<Longrightarrow>
    \<forall>pid. pid \<noteq> [] \<longrightarrow> (pid \<in> S \<longleftrightarrow> at c pid \<noteq> None) \<Longrightarrow>
    \<forall>pid t. pid \<noteq> [] \<longrightarrow> at c pid = Some t \<longrightarrow> lo \<le> t \<Longrightarrow>
    filter_run f c calls = dup_flags S (map snd calls)"
  using w
proof (induction calls arbitrary: c S)
  case (Cons call calls)
  obtain now pid where call: "call = (now, pid)" by (cases call)
  let ?c = "snd (f now pid c)"
  note ok = Cons.prems(1)
  note win = window_step [OF ok, of now pid]
  have now: "lo \<le> now" "now \<le> lo + window c" using Cons.prems(2) by (auto simp: call)
  have fresh: "\<not> window c < time_sub now t" if "pid' \<noteq> []" "at c pid' = Some t" for pid' t
  proof -
    from Cons.prems(4) that have "lo \<le> t" by blast
    with now Cons.prems(5,6) show ?thesis by (auto simp: time_sub_def)
  qed
  have ans: "fst (f now pid c) \<longleftrightarrow> pid \<noteq> [] \<and> pid \<in> S"
  proof (cases "pid = []")
    case True
    then show ?thesis by (simp add: answers [OF ok])
  next
    case False
    then have "pid \<in> S \<longleftrightarrow> at c pid \<noteq> None" using Cons.prems(3) by blast
    with False fresh [OF False] show ?thesis by (auto simp: answers [OF ok])
  qed
  have at': "at ?c pid' = (if pid' = pid \<and> pid \<noteq> [] \<and> pid \<notin> S then Some now else at c pid')"
    if "pid' \<noteq> []" for pid'
  proof (cases "pid' = pid \<and> pid \<notin> S")
    case True
    with that ans remembers [OF ok] show ?thesis by simp
  next
    case False
    show ?thesis
    proof (cases "at c pid'")
      case None
      then have "pid' \<noteq> pid" using Cons.prems(3) False that by blast
      with None invents_nothing [OF ok] show ?thesis by simp
    next
      case (Some t)
      with False keeps [OF ok Some fresh [OF that Some]] show ?thesis by auto
    qed
  qed
  have "filter_run f ?c calls = dup_flags (insert pid S) (map snd calls)"
  proof (rule Cons.IH)
    show "ok ?c" by (rule ok_step [OF ok])
    show "\<forall>(t, pid) \<in> set calls. lo \<le> t \<and> t \<le> lo + window ?c"
      using Cons.prems(2) by (simp add: win)
    show "\<forall>q. q \<noteq> [] \<longrightarrow> (q \<in> insert pid S \<longleftrightarrow> at ?c q \<noteq> None)"
      using Cons.prems(3) at' by auto
    show "\<forall>q t. q \<noteq> [] \<longrightarrow> at ?c q = Some t \<longrightarrow> lo \<le> t"
      using Cons.prems(4) at' now by (auto split: if_splits)
  qed (simp_all add: win Cons.prems)
  with ans show ?case by (simp add: call)
qed simp

end

interpretation seen: dup_filter seen seen_ok seen_at sc_ttl
proof unfold_locales
  fix c now pid pid' t
  assume ok: "seen_ok c"
  show "seen_ok (snd (seen now pid c))" by (rule seen_ok_seen [OF ok])
  show "sc_ttl (snd (seen now pid c)) = sc_ttl c" by simp
  show "fst (seen now pid c) \<longleftrightarrow> pid \<noteq> [] \<and> (\<exists>t. seen_at c pid = Some t \<and> \<not> sc_ttl c < time_sub now t)"
    by (rule fst_seen [OF ok])
  show "pid \<noteq> [] \<Longrightarrow> \<not> fst (seen now pid c) \<Longrightarrow> seen_at (snd (seen now pid c)) pid = Some now"
    by (simp add: seen_at_seen [OF ok])
  show "seen_at (snd (seen now pid c)) pid' = Some t"
    if "seen_at c pid' = Some t" "\<not> sc_ttl c < time_sub now t"
    using that fst_seen [OF ok] by (auto simp: seen_at_seen [OF ok] seen_at_evict [OF ok])
  show "seen_at (snd (seen now pid c)) pid' = None" if "pid' \<noteq> pid" "seen_at c pid' = None"
    using that by (simp add: seen_at_seen [OF ok] seen_at_evict [OF ok])
qed

section \<open>Bounded memory\<close>

text \<open>After a call nothing older than the window is remembered, and the clock bounds the rest.\<close>

lemma seen_forgets:
  assumes "seen_ok c" and "pid \<noteq> []" and "seen_at (snd (seen now pid c)) q = Some t"
    and "0 \<le> sc_ttl c"
  shows "time_sub now t \<le> sc_ttl c"
proof -
  have "t = now \<or> seen_at (evict now c) q = Some t"
    using assms(2,3) by (auto simp: seen_at_seen [OF assms(1)] split: if_splits)
  then show ?thesis
    using assms(4) by (auto simp: seen_at_evict [OF assms(1)] split: option.splits if_splits)
qed

text \<open>The cache never holds the same identifier twice.\<close>

lemma seen_len_card: "seen_ok c \<Longrightarrow> seen_len c = card {pid. seen_at c pid \<noteq> None}"
proof -
  assume "seen_ok c"
  then have d: "distinct (mkeys (sc_entries c))" by (simp add: seen_ok_def wf_map_def)
  have "{pid. seen_at c pid \<noteq> None} = set (mkeys (sc_entries c))"
    by (auto simp: seen_at_def map_of_eq_None_iff)
  then show ?thesis using distinct_card [OF d] by (simp add: seen_len_def)
qed

section \<open>Properties\<close>

text \<open>
  C19: within its window the duplicate cache answers like a set that never forgets, over any
  sequence of calls: an identifier is new exactly the first time, the empty one always.
\<close>

theorem cache_is_a_set:
  assumes "0 \<le> ttl" and "ttl < 9223372036854775807"
    and "\<forall>(t, pid) \<in> set calls. lo \<le> t \<and> t \<le> lo + ttl"
  shows "filter_run seen (new_seen_cache ttl) calls = dup_flags {} (map snd calls)"
proof (rule seen.implements_set [where lo = lo])
  show "0 \<le> sc_ttl (new_seen_cache ttl)" "sc_ttl (new_seen_cache ttl) < 9223372036854775807"
    using assms(1,2) by simp_all
  show "\<forall>(t, pid) \<in> set calls. lo \<le> t \<and> t \<le> lo + sc_ttl (new_seen_cache ttl)"
    using assms(3) by simp
qed simp_all

theorem cache_is_a_set_witness:
  "filter_run seen (new_seen_cache 60) [(100, ''a''), (120, ''b''), (140, ''a''), (150, [])] =
   [False, False, True, False]"
  by (subst cache_is_a_set [where lo = 100]) simp_all

text \<open>
  The cache is bounded. After a call with a real identifier it remembers nothing older
  than its window, and no identifier twice.
\<close>

theorem cache_is_bounded:
  assumes "seen_ok c" and "pid \<noteq> []" and "0 \<le> sc_ttl c"
  shows "(\<forall>q t. seen_at (snd (seen now pid c)) q = Some t \<longrightarrow> time_sub now t \<le> sc_ttl c) \<and>
    seen_len (snd (seen now pid c)) = card {q. seen_at (snd (seen now pid c)) q \<noteq> None} \<and>
    seen_ok (snd (seen now pid c))"
  using seen_forgets [OF assms(1,2) _ assms(3)] seen_len_card [OF seen_ok_seen [OF assms(1)]]
    seen_ok_seen [OF assms(1)] by blast

theorem cache_is_bounded_witness:
  "seen_at (snd (seen 100 ''b'' (snd (seen 0 ''a'' (new_seen_cache 60))))) ''a'' \<noteq> Some 0"
proof
  let ?c = "snd (seen 0 ''a'' (new_seen_cache 60))"
  have ok: "seen_ok ?c" by (rule seen_ok_seen) simp
  assume "seen_at (snd (seen 100 ''b'' ?c)) ''a'' = Some 0"
  with cache_is_bounded [OF ok, of "''b''" 100] have "time_sub 100 0 \<le> 60"
    by simp
  then show False by (simp add: time_sub_def)
qed

end
