(* ===== verification/Alg_Base.thy ===== *)
theory Alg_Base
  imports Proto_Payload Rt_Symmetry Rt_Flood
begin

text \<open>
  internal/routing/algorithm.go: what a routing algorithm may see of its node (\<open>Fabric\<close>) and
  what the node may ask of it (\<open>Algorithm\<close>). The read side of the fabric is a record; its
  write side is a list of events in program order: packets handed to the transport and lines
  written to the console. The line that reports a failed send is left to the transport,
  which performs the event. The interface is a record of operations over the algorithm's
  own state; the locale \<open>routing_algorithm\<close> is the contract every algorithm keeps.
\<close>

record fabric =
  fb_id :: string
  fb_neighbors :: "string list"
  fb_address :: "string \<Rightarrow> string"
  fb_local_id :: "string \<Rightarrow> string"

datatype log_line =
    NoRoute string string
  | IgnoringInfo string
  | LinkRestored string
  | LinkLost string
  | ChecksumMismatch string string
  | LspChecksum string
  | UnreadableLsp string
  | TopologyUpdate string "string list"
  | LinkUp string float64
  | LinkDown string
  | InconsistentTopology string string float64
  | CannotEncode
  | CannotBuild string string
  | Expired string
  | Received string
  | InboxFull string
  | WrongVersion string goint
  | UnknownType string string
  | Duplicate string
  | UnreadableMessage string
  | Message string "string list" string
  | TtlExpired string
  | NewNeighbor string
  | Stopped string
  | NeverAnswered string string
  | NoNeighbors string
  | SentVia string "string list"

datatype event =
    Send string packet
  | Log log_line
  | Deliver packet

text \<open>The neighbours an event list sends to, in order.\<close>

fun sends :: "event list \<Rightarrow> (string \<times> packet) list" where
  "sends [] = []"
| "sends (Send n p # es) = (n, p) # sends es"
| "sends (e # es) = sends es"

lemma sends_append [simp]: "sends (xs @ ys) = sends xs @ sends ys"
  by (induction xs rule: sends.induct) simp_all

lemma sends_logs [simp]: "sends (map (\<lambda>x. Log (f x)) xs) = []"
  by (induction xs) simp_all

lemma sends_map [simp]: "sends (map (\<lambda>x. Send (f x) (g x)) xs) = map (\<lambda>x. (f x, g x)) xs"
  by (induction xs) simp_all

lemma concat_pairs: "e \<in> set (concat (map (\<lambda>(u, l). g u l) xs)) \<longleftrightarrow> (\<exists>u l. (u, l) \<in> set xs \<and> e \<in> set (g u l))"
  by auto

text \<open>The packet's previous hop, in local ids: the \<open>via\<close> header, or its origin.\<close>

definition previous_hop_id :: "fabric \<Rightarrow> packet \<Rightarrow> string" where
  "previous_hop_id fab p =
     (let via = header_string p header_via;
          via = (if via = [] then p_from p else via)
      in fb_local_id fab via)"

record 'a algorithm =
  op_proto :: "'a \<Rightarrow> string"
  op_forward :: "fabric \<Rightarrow> packet \<Rightarrow> 'a \<Rightarrow> string list \<times> event list"
  op_handle_info :: "fabric \<Rightarrow> gotime \<Rightarrow> string \<Rightarrow> packet \<Rightarrow> 'a \<Rightarrow> 'a \<times> event list"
  op_link_up :: "fabric \<Rightarrow> gotime \<Rightarrow> string \<Rightarrow> string \<Rightarrow> float64 \<Rightarrow> 'a \<Rightarrow> 'a \<times> event list"
  op_link_down :: "fabric \<Rightarrow> gotime \<Rightarrow> string \<Rightarrow> string \<Rightarrow> 'a \<Rightarrow> 'a \<times> event list"
  op_table :: "'a \<Rightarrow> table"
  op_topology :: "fabric \<Rightarrow> 'a \<Rightarrow> link list"

text \<open>
  The contract: the operations keep the invariant of the algorithm as long as no measured
  cost is a NaN, its table is keyed by destination, and everything it sends is a copy for a
  neighbour that is up.
\<close>

locale routing_algorithm =
  fixes ops :: "'a algorithm"
    and inv :: "string \<Rightarrow> 'a \<Rightarrow> bool"
  assumes info_inv: "inv (fb_id fab) s \<Longrightarrow> inv (fb_id fab) (fst (op_handle_info ops fab now rid p s))"
    and up_inv: "inv (fb_id fab) s \<Longrightarrow> c \<noteq> fnan \<Longrightarrow> inv (fb_id fab) (fst (op_link_up ops fab now rid n c s))"
    and down_inv: "inv (fb_id fab) s \<Longrightarrow> inv (fb_id fab) (fst (op_link_down ops fab now rid n s))"
    and table_keyed: "inv self s \<Longrightarrow> table_ok (op_table ops s)"
    and info_sends: "set (map fst (sends (snd (op_handle_info ops fab now rid p s)))) \<subseteq> set (fb_neighbors fab)"
    and up_sends: "set (map fst (sends (snd (op_link_up ops fab now rid n c s)))) \<subseteq> set (fb_neighbors fab)"
    and down_sends: "set (map fst (sends (snd (op_link_down ops fab now rid n s)))) \<subseteq> set (fb_neighbors fab)"
begin

text \<open>A run of link events, as the discovery plane produces them.\<close>

definition notify :: "fabric \<Rightarrow> gotime \<Rightarrow> string \<Rightarrow> string \<times> float64 option \<Rightarrow> 'a \<Rightarrow> 'a \<times> event list" where
  "notify fab now rid ev s =
     (case ev of (n, Some c) \<Rightarrow> op_link_up ops fab now rid n c s | (n, None) \<Rightarrow> op_link_down ops fab now rid n s)"

lemma notify_inv: "inv (fb_id fab) s \<Longrightarrow> snd ev \<noteq> Some fnan \<Longrightarrow> inv (fb_id fab) (fst (notify fab now rid ev s))"
  by (auto simp: notify_def up_inv down_inv split: prod.splits option.splits)

lemma notify_sends: "set (map fst (sends (snd (notify fab now rid ev s)))) \<subseteq> set (fb_neighbors fab)"
  using up_sends down_sends by (auto simp: notify_def split: prod.splits option.splits)

end

end
