(* ===== verification/Alg_Flooding.thy ===== *)
theory Alg_Flooding
  imports Alg_Base
begin

text \<open>
  internal/routing/alg_flooding.go: relay to every live neighbour but the previous hop, and
  keep the measured costs for the console.
\<close>

record flooding_alg =
  fl_costs :: "(string, float64) gomap"

definition new_flooding :: flooding_alg where
  "new_flooding = \<lparr>fl_costs = []\<rparr>"

definition flooding_forward :: "fabric \<Rightarrow> packet \<Rightarrow> flooding_alg \<Rightarrow> string list \<times> event list" where
  "flooding_forward fab p s = (flood (fb_neighbors fab) (previous_hop_id fab p), [])"

definition flooding_handle_info ::
    "fabric \<Rightarrow> gotime \<Rightarrow> string \<Rightarrow> packet \<Rightarrow> flooding_alg \<Rightarrow> flooding_alg \<times> event list" where
  "flooding_handle_info fab now rid p s = (s, [])"

definition flooding_link_up ::
    "fabric \<Rightarrow> gotime \<Rightarrow> string \<Rightarrow> string \<Rightarrow> float64 \<Rightarrow> flooding_alg \<Rightarrow> flooding_alg \<times> event list" where
  "flooding_link_up fab now rid n c s = (s\<lparr>fl_costs := mput n c (fl_costs s)\<rparr>, [])"

definition flooding_link_down ::
    "fabric \<Rightarrow> gotime \<Rightarrow> string \<Rightarrow> string \<Rightarrow> flooding_alg \<Rightarrow> flooding_alg \<times> event list" where
  "flooding_link_down fab now rid n s = (s\<lparr>fl_costs := mdel n (fl_costs s)\<rparr>, [])"

definition flooding_table :: "flooding_alg \<Rightarrow> table" where
  "flooding_table s =
     foldl (\<lambda>t (n, c). mput n \<lparr>r_dest = n, r_next = n, r_cost = c\<rparr> t) [] (fl_costs s)"

definition flooding_topology :: "fabric \<Rightarrow> flooding_alg \<Rightarrow> link list" where
  "flooding_topology fab s = map (\<lambda>(n, c). \<lparr>l_from = fb_id fab, l_to = n, l_cost = c\<rparr>) (fl_costs s)"

definition flooding_ops :: "flooding_alg algorithm" where
  "flooding_ops =
     \<lparr>op_proto = (\<lambda>s. proto_flooding), op_forward = flooding_forward, op_handle_info = flooding_handle_info,
      op_link_up = flooding_link_up, op_link_down = flooding_link_down, op_table = flooding_table,
      op_topology = flooding_topology\<rparr>"

definition flooding_inv :: "string \<Rightarrow> flooding_alg \<Rightarrow> bool" where
  "flooding_inv self s \<longleftrightarrow> wf_map (fl_costs s)"

lemma mget_flooding_table:
  "wf_map (fl_costs s) \<Longrightarrow> mget (flooding_table s) n =
     map_option (\<lambda>c. \<lparr>r_dest = n, r_next = n, r_cost = c\<rparr>) (mget (fl_costs s) n)"
proof -
  have "wf_map m \<Longrightarrow> mget (foldl (\<lambda>t (n, c). mput n \<lparr>r_dest = n, r_next = n, r_cost = c\<rparr> t) t m) n =
      (case mget m n of Some c \<Rightarrow> Some \<lparr>r_dest = n, r_next = n, r_cost = c\<rparr> | None \<Rightarrow> mget t n)"
    for m and t :: table
    by (induction m arbitrary: t)
      (auto simp: map_of_eq_None_iff [symmetric] simp del: map_of_eq_None_iff split: option.splits)
  from this [of "fl_costs s" "[]"] show "wf_map (fl_costs s) \<Longrightarrow> ?thesis"
    by (auto simp: flooding_table_def split: option.splits)
qed

lemma table_ok_flooding: "table_ok (flooding_table s)"
proof -
  have "table_ok t \<Longrightarrow> table_ok (foldl (\<lambda>t (n, c). mput n \<lparr>r_dest = n, r_next = n, r_cost = c\<rparr> t) t m)"
    for m :: "(string, float64) gomap" and t
    by (induction m arbitrary: t) (auto simp: table_ok_mput)
  then show ?thesis by (simp add: flooding_table_def)
qed

interpretation fl: routing_algorithm flooding_ops flooding_inv
  by unfold_locales
    (simp_all add: flooding_ops_def flooding_inv_def flooding_handle_info_def flooding_link_up_def
      flooding_link_down_def table_ok_flooding)

section \<open>Properties\<close>

text \<open>
  Flooding relays to every live neighbour exactly once except the one the packet came
  from, and its console table holds exactly the links reported up and not down since.
\<close>

theorem flooding_relays:
  assumes "distinct (fb_neighbors fab)" and "flooding_inv self s"
  shows "set (fst (flooding_forward fab p s)) = set (fb_neighbors fab) - {previous_hop_id fab p} \<and>
    distinct (fst (flooding_forward fab p s)) \<and>
    mget (flooding_table (fst (flooding_link_up fab now rid n c s))) m =
      (if m = n then Some \<lparr>r_dest = n, r_next = n, r_cost = c\<rparr> else mget (flooding_table s) m) \<and>
    mget (flooding_table (fst (flooding_link_down fab now rid n s))) m =
      (if m = n then None else mget (flooding_table s) m)"
  using assms
  by (auto simp: flooding_forward_def flood_filter mget_flooding_table flooding_inv_def
      flooding_link_up_def flooding_link_down_def)

definition sample_fabric :: fabric where
  "sample_fabric =
     \<lparr>fb_id = ''B'', fb_neighbors = [''A'', ''C'', ''D''], fb_address = (\<lambda>x. x), fb_local_id = (\<lambda>x. x)\<rparr>"

theorem flooding_relays_witness:
  "set (fst (flooding_forward sample_fabric (new_packet ''7f'' proto_flooding type_message ''A'' ''Z'') new_flooding)) =
   {''C'', ''D''}"
proof -
  have d: "distinct (fb_neighbors sample_fabric)" by code_simp
  have i: "flooding_inv ''B'' new_flooding" by (simp add: flooding_inv_def new_flooding_def)
  have h: "previous_hop_id sample_fabric (new_packet ''7f'' proto_flooding type_message ''A'' ''Z'') = ''A''"
    by code_simp
  show ?thesis using flooding_relays [OF d i] h by (auto simp: sample_fabric_def)
qed

end
