(* ===== verification/Alg_Dijkstra.thy ===== *)
theory Alg_Dijkstra
  imports Alg_Base
begin

text \<open>
  internal/routing/alg_dijkstra.go: the static mode. The table is the shortest-path table of
  the configured graph without the links that touch a neighbour considered down; the
  invariant says so after every event.
\<close>

record dijkstra_alg =
  da_table :: safe_table
  da_base :: graph
  da_down :: "(string, bool) gomap"

definition new_dijkstra :: "graph \<Rightarrow> dijkstra_alg" where
  "new_dijkstra topo = \<lparr>da_table = new_safe_table, da_base = topo, da_down = []\<rparr>"

abbreviation is_down :: "(string, bool) gomap \<Rightarrow> string \<Rightarrow> bool" where
  "is_down d u \<equiv> mget_or False d u"

text \<open>The links \<open>recompute\<close> adds to its graph, in the order it visits the maps.\<close>

definition live_links :: "graph \<Rightarrow> (string, bool) gomap \<Rightarrow> link list" where
  "live_links base down =
     concat (map (\<lambda>(u, links).
       concat (map (\<lambda>(v, c). if is_down down u \<or> is_down down v then [] else [\<lparr>l_from = u, l_to = v, l_cost = c\<rparr>])
         links)) base)"

definition dj_recompute :: "string \<Rightarrow> dijkstra_alg \<Rightarrow> dijkstra_alg" where
  "dj_recompute self s =
     s\<lparr>da_table := st_replace (dijkstra (graph_of_links (live_links (da_base s) (da_down s))) self) (da_table s)\<rparr>"

definition dj_start :: "string \<Rightarrow> dijkstra_alg \<Rightarrow> dijkstra_alg" where
  "dj_start self s = dj_recompute self s"

definition dj_forward :: "fabric \<Rightarrow> packet \<Rightarrow> dijkstra_alg \<Rightarrow> string list \<times> event list" where
  "dj_forward fab p s =
     (let dest = fb_local_id fab (p_to p)
      in case st_lookup (da_table s) dest of
           None \<Rightarrow> ([], [Log (NoRoute dest (packet_line p))])
         | Some r \<Rightarrow> ([r_next r], []))"

definition dj_handle_info ::
    "fabric \<Rightarrow> gotime \<Rightarrow> string \<Rightarrow> packet \<Rightarrow> dijkstra_alg \<Rightarrow> dijkstra_alg \<times> event list" where
  "dj_handle_info fab now rid p s = (s, [Log (IgnoringInfo (packet_line p))])"

definition dj_link_up ::
    "fabric \<Rightarrow> gotime \<Rightarrow> string \<Rightarrow> string \<Rightarrow> float64 \<Rightarrow> dijkstra_alg \<Rightarrow> dijkstra_alg \<times> event list" where
  "dj_link_up fab now rid n c s =
     (let changed = is_down (da_down s) n;
          s = s\<lparr>da_down := mdel n (da_down s)\<rparr>
      in if changed then (dj_recompute (fb_id fab) s, [Log (LinkRestored n)]) else (s, []))"

definition dj_link_down ::
    "fabric \<Rightarrow> gotime \<Rightarrow> string \<Rightarrow> string \<Rightarrow> dijkstra_alg \<Rightarrow> dijkstra_alg \<times> event list" where
  "dj_link_down fab now rid n s =
     (let changed = \<not> is_down (da_down s) n;
          s = s\<lparr>da_down := mput n True (da_down s)\<rparr>
      in if changed then (dj_recompute (fb_id fab) s, [Log (LinkLost n)]) else (s, []))"

definition dj_table :: "dijkstra_alg \<Rightarrow> table" where
  "dj_table s = st_snapshot (da_table s)"

definition dj_topology :: "fabric \<Rightarrow> dijkstra_alg \<Rightarrow> link list" where
  "dj_topology fab s =
     concat (map (\<lambda>(u, links).
       if is_down (da_down s) u then []
       else concat (map (\<lambda>(v, c). if is_down (da_down s) v then [] else [\<lparr>l_from = u, l_to = v, l_cost = c\<rparr>]) links))
     (da_base s))"

definition dijkstra_ops :: "dijkstra_alg algorithm" where
  "dijkstra_ops =
     \<lparr>op_proto = (\<lambda>s. proto_dijkstra), op_forward = dj_forward, op_handle_info = dj_handle_info,
      op_link_up = dj_link_up, op_link_down = dj_link_down, op_table = dj_table, op_topology = dj_topology\<rparr>"

section \<open>The table is always current\<close>

definition dj_inv :: "string \<Rightarrow> dijkstra_alg \<Rightarrow> bool" where
  "dj_inv self s \<longleftrightarrow>
     st_table (da_table s) = dijkstra (graph_of_links (live_links (da_base s) (da_down s))) self"

lemma live_links_cong: "(\<And>u. is_down d u = is_down d' u) \<Longrightarrow> live_links base d = live_links base d'"
  by (simp add: live_links_def)

lemma dj_inv_recompute: "dj_inv self (dj_recompute self s)"
  by (simp add: dj_inv_def dj_recompute_def st_replace_def)

lemma dj_inv_same: "dj_inv self s \<Longrightarrow> (\<And>u. is_down d u = is_down (da_down s) u) \<Longrightarrow> dj_inv self (s\<lparr>da_down := d\<rparr>)"
  using live_links_cong [of d "da_down s" "da_base s"] by (simp add: dj_inv_def)

lemma dj_inv_up: "dj_inv (fb_id fab) s \<Longrightarrow> dj_inv (fb_id fab) (fst (dj_link_up fab now rid n c s))"
  by (auto simp: dj_link_up_def Let_def dj_inv_recompute intro!: dj_inv_same split: if_splits)

lemma dj_inv_down: "dj_inv (fb_id fab) s \<Longrightarrow> dj_inv (fb_id fab) (fst (dj_link_down fab now rid n s))"
  by (auto simp: dj_link_down_def Let_def dj_inv_recompute intro!: dj_inv_same split: if_splits)

lemma dj_table_ok: "dj_inv self s \<Longrightarrow> table_ok (dj_table s)"
  using dijkstra_table_ok st_snapshot_eq [of "da_table s"]
  by (simp add: dj_table_def dj_inv_def table_ok_def)

lemma dj_no_sends [simp]:
  "sends (snd (dj_handle_info fab now rid p s)) = []"
  "sends (snd (dj_link_up fab now rid n c s)) = []"
  "sends (snd (dj_link_down fab now rid n s)) = []"
  by (simp_all add: dj_handle_info_def dj_link_up_def dj_link_down_def Let_def)

interpretation dj: routing_algorithm dijkstra_ops dj_inv
  by unfold_locales
    (simp_all add: dijkstra_ops_def dj_inv_up dj_inv_down dj_table_ok, simp add: dj_handle_info_def)

section \<open>The pruned graph\<close>

lemma set_live_links:
  "e \<in> set (live_links base d) \<longleftrightarrow>
     (\<exists>links. (l_from e, links) \<in> set base \<and> (l_to e, l_cost e) \<in> set links) \<and>
     \<not> is_down d (l_from e) \<and> \<not> is_down d (l_to e)"
proof -
  let ?f = "\<lambda>u (v, c). if is_down d u \<or> is_down d v then [] else [\<lparr>l_from = u, l_to = v, l_cost = c\<rparr>]"
  have row: "e \<in> set (concat (map (?f u) links)) \<longleftrightarrow>
      l_from e = u \<and> (l_to e, l_cost e) \<in> set links \<and> \<not> is_down d u \<and> \<not> is_down d (l_to e)" for u links
    by (induction links) (cases e; auto)+
  have "e \<in> set (live_links base d) \<longleftrightarrow>
      (\<exists>u links. (u, links) \<in> set base \<and> e \<in> set (concat (map (?f u) links)))"
    unfolding live_links_def by (rule concat_pairs)
  then show ?thesis unfolding row by blast
qed

lemma link_costs_live:
  assumes "wf_graph base"
  shows "link_costs (live_links base d) u v =
    (if is_down d u \<or> is_down d v then {} else (case edge base u v of None \<Rightarrow> {} | Some c \<Rightarrow> {c}))"
proof -
  have row: "(u, l) \<in> set base \<longleftrightarrow> mget base u = Some l" for l
    using assms by (simp add: wf_graph_def mget_iff)
  moreover have "(v, c) \<in> set l \<longleftrightarrow> mget l v = Some c" if "(u, l) \<in> set base" for l c
    using assms that by (auto simp: wf_graph_def mget_iff)
  ultimately have "(\<exists>links. (u, links) \<in> set base \<and> (v, c) \<in> set links) \<longleftrightarrow> edge base u v = Some c" for c
    by (auto simp: edge_def mget_or_def split: option.splits)
  then have "link_costs (live_links base d) u v = {c. edge base u v = Some c \<and> \<not> is_down d u \<and> \<not> is_down d v}"
    by (auto simp: link_costs_def set_live_links image_iff) (metis link.select_convs)
  then show ?thesis by (auto split: option.splits)
qed

lemma links_nan_free_live: "nan_free base \<Longrightarrow> links_nan_free (live_links base d)"
  by (fastforce simp: links_nan_free_def set_live_links nan_free_def)

lemma edge_live:
  "wf_graph base \<Longrightarrow> nan_free base \<Longrightarrow> edge (graph_of_links (live_links base d)) u v =
     (if is_down d u \<or> is_down d v then None else edge base u v)"
  by (auto simp: edge_graph_of_links links_nan_free_live link_costs_live split: option.splits)

lemma dj_topology_live: "dj_topology fab s = live_links (da_base s) (da_down s)"
proof -
  have "concat (map (\<lambda>(v, c). if is_down d u \<or> is_down d v then [] else [\<lparr>l_from = u, l_to = v, l_cost = c\<rparr>]) links) = []"
    if "is_down d u" for d u and links :: "(string, float64) gomap"
    using that by (auto simp: concat_eq_Nil_conv)
  then show ?thesis
    unfolding dj_topology_def live_links_def by (intro arg_cong [where f = concat] map_cong refl) auto
qed

lemma dj_table_eq: "dj_inv self s \<Longrightarrow> dj_table s = dijkstra (graph_of_links (live_links (da_base s) (da_down s))) self"
  using dijkstra_table_ok st_snapshot_eq [of "da_table s"] by (simp add: dj_table_def dj_inv_def table_ok_def)

section \<open>A run of link events\<close>

text \<open>Up carries the measured cost, which this mode ignores.\<close>

definition dj_event :: "fabric \<Rightarrow> dijkstra_alg \<Rightarrow> string \<times> float64 option \<Rightarrow> dijkstra_alg" where
  "dj_event fab s ev =
     (case ev of (n, Some c) \<Rightarrow> fst (dj_link_up fab 0 [] n c s) | (n, None) \<Rightarrow> fst (dj_link_down fab 0 [] n s))"

definition dj_run :: "fabric \<Rightarrow> graph \<Rightarrow> (string \<times> float64 option) list \<Rightarrow> dijkstra_alg" where
  "dj_run fab base evs = foldl (dj_event fab) (dj_start (fb_id fab) (new_dijkstra base)) evs"

text \<open>The neighbours whose last event is a loss.\<close>

definition lost :: "(string \<times> float64 option) list \<Rightarrow> string set" where
  "lost evs = foldl (\<lambda>D (n, c). if c = None then insert n D else D - {n}) {} evs"

lemma lost_snoc: "lost (evs @ [(n, c)]) = (if c = None then insert n (lost evs) else lost evs - {n})"
  by (simp add: lost_def)

lemma dj_event_facts:
  "da_base (dj_event fab s (n, c)) = da_base s"
  "is_down (da_down (dj_event fab s (n, c))) u = (if u = n then c = None else is_down (da_down s) u)"
  "dj_inv (fb_id fab) s \<Longrightarrow> dj_inv (fb_id fab) (dj_event fab s (n, c))"
proof -
  show "da_base (dj_event fab s (n, c)) = da_base s"
    "is_down (da_down (dj_event fab s (n, c))) u = (if u = n then c = None else is_down (da_down s) u)"
    by (auto simp: dj_event_def dj_link_up_def dj_link_down_def dj_recompute_def Let_def split: option.splits)
  show "dj_inv (fb_id fab) s \<Longrightarrow> dj_inv (fb_id fab) (dj_event fab s (n, c))"
    by (cases c) (simp_all add: dj_event_def dj_inv_up dj_inv_down)
qed

lemma dj_run_facts:
  "da_base (dj_run fab base evs) = base \<and> dj_inv (fb_id fab) (dj_run fab base evs) \<and>
   (\<forall>u. is_down (da_down (dj_run fab base evs)) u \<longleftrightarrow> u \<in> lost evs)"
proof (induction evs rule: rev_induct)
  case Nil
  then show ?case
    by (simp add: dj_run_def dj_start_def dj_inv_recompute lost_def)
      (simp add: dj_recompute_def new_dijkstra_def)
next
  case (snoc ev evs)
  obtain n c where ev: "ev = (n, c)" by (cases ev)
  have "dj_run fab base (evs @ [ev]) = dj_event fab (dj_run fab base evs) (n, c)" by (simp add: dj_run_def ev)
  with snoc show ?case by (simp add: dj_event_facts ev lost_snoc)
qed

lemma dj_run_table:
  "dj_table (dj_run fab base evs) =
     dijkstra (graph_of_links (live_links base (da_down (dj_run fab base evs)))) (fb_id fab)"
  using dj_run_facts [of fab base evs] st_snapshot_eq [of "da_table (dj_run fab base evs)"]
    dijkstra_table_ok by (simp add: dj_table_def dj_inv_def table_ok_def)

section \<open>Properties\<close>

definition sample_static :: fabric where
  "sample_static =
     \<lparr>fb_id = ''A'', fb_neighbors = [''B'', ''C''], fb_address = (\<lambda>x. x), fb_local_id = (\<lambda>x. x)\<rparr>"

text \<open>
  C23: after any sequence of losses and recoveries the static table is the shortest-path table
  of the configured graph without the links that touch a lost neighbour, and the topology
  shown to the user is exactly that graph.
\<close>

theorem static_table_current:
  assumes "wf_graph base" and "nan_free base"
  shows "dj_table (dj_run fab base evs) =
      dijkstra (graph_of_links (dj_topology fab (dj_run fab base evs))) (fb_id fab) \<and>
    edge (graph_of_links (dj_topology fab (dj_run fab base evs))) u v =
      (if u \<in> lost evs \<or> v \<in> lost evs then None else edge base u v)"
  using dj_run_facts [of fab base evs] dj_run_table [of fab base evs] edge_live [OF assms]
  by (simp add: dj_topology_live)

theorem static_table_current_witness:
  "edge (graph_of_links (dj_topology sample_static (dj_run sample_static (graph_of_links square)
      [(''B'', None), (''C'', None), (''B'', Some (f64 7))]))) ''A'' ''B'' = Some (f64 1)"
proof -
  have w: "wf_graph (graph_of_links square)" by (rule wf_graph_of_links)
  have n: "nan_free (graph_of_links square)" by code_simp
  have e: "edge (graph_of_links square) ''A'' ''B'' = Some (f64 1)" by code_simp
  show ?thesis using static_table_current [OF w n] e by (simp add: lost_def)
qed

text \<open>
  Only the set of lost neighbours matters. Two histories that end with the same
  neighbours lost end with the same table, so a link that goes down and comes back leaves
  no trace, and repeated or contradictory events in between do no harm.
\<close>

theorem static_history_irrelevant:
  assumes "lost evs = lost evs'"
  shows "dj_table (dj_run fab base evs) = dj_table (dj_run fab base evs')"
proof -
  have "live_links base (da_down (dj_run fab base evs)) = live_links base (da_down (dj_run fab base evs'))"
    using dj_run_facts [of fab base evs] dj_run_facts [of fab base evs'] assms
    by (intro live_links_cong) simp
  then show ?thesis by (simp add: dj_run_table)
qed

theorem static_history_irrelevant_witness:
  "dj_table (dj_run sample_static (graph_of_links square) [(''B'', None), (''B'', Some (f64 7))]) =
   dj_table (dj_run sample_static (graph_of_links square) [])"
  by (rule static_history_irrelevant) (simp add: lost_def)

text \<open>
  A static node hands a packet to the next hop of a least-cost path over live links, and
  drops it only when the table has no entry for its destination.
\<close>

theorem static_forward_best:
  assumes "wf_graph base" and "nan_free base"
    and "dj_forward fab p (dj_run fab base evs) = (hops, out)"
  shows "(hops = [] \<and> mget (dj_table (dj_run fab base evs)) (fb_local_id fab (p_to p)) = None) \<or>
    (\<exists>r. hops = [r_next r] \<and>
      best_route (graph_of_links (dj_topology fab (dj_run fab base evs))) (fb_id fab) (fb_local_id fab (p_to p)) r)"
proof -
  let ?s = "dj_run fab base evs" and ?d = "fb_local_id fab (p_to p)"
  have look: "st_lookup (da_table ?s) ?d = mget (dj_table ?s) ?d"
    using dj_run_facts [of fab base evs] dj_run_table [of fab base evs]
    by (simp add: st_lookup_def dj_inv_def)
  have nan: "nan_free (graph_of_links (dj_topology fab ?s))"
    using assms(2) dj_run_facts [of fab base evs]
    by (simp add: dj_topology_live nan_free_graph_of_links links_nan_free_live)
  show ?thesis
  proof (cases "mget (dj_table ?s) ?d")
    case None
    with assms(3) look show ?thesis by (simp add: dj_forward_def Let_def)
  next
    case (Some r)
    then have "best_route (graph_of_links (dj_topology fab ?s)) (fb_id fab) ?d r"
      using dj_run_table [of fab base evs] dj_run_facts [of fab base evs]
      by (intro dijkstra_best [OF nan]) (simp add: dj_topology_live)
    with Some assms(3) look show ?thesis by (auto simp: dj_forward_def Let_def)
  qed
qed

theorem static_forward_best_witness:
  "\<exists>r. r_next r = ''B'' \<and>
     best_route (graph_of_links (dj_topology sample_static (dj_run sample_static (graph_of_links square) []))) ''A'' ''D'' r"
proof -
  have w: "wf_graph (graph_of_links square)" by (rule wf_graph_of_links)
  have n: "nan_free (graph_of_links square)" by code_simp
  have f: "dj_forward sample_static (new_packet ''7f'' proto_dijkstra type_message ''A'' ''D'')
      (dj_run sample_static (graph_of_links square) []) = ([''B''], [])" by code_simp
  have d: "fb_local_id sample_static (p_to (new_packet ''7f'' proto_dijkstra type_message ''A'' ''D'')) = ''D''"
      "fb_id sample_static = ''A''" by code_simp+
  show ?thesis using static_forward_best [OF w n f] unfolding d by auto
qed

end
