(* ===== verification/Alg_Lsr.thy ===== *)
theory Alg_Lsr
  imports Alg_Base
begin

text \<open>
  internal/routing/alg_lsr.go: the link-state algorithm. Each method is one atomic step: the
  code takes the lock around its reads and writes, and the instant an operation runs at is
  an argument read once. The random identifier of the packet an operation may create is an
  argument too. \<open>lsr_step\<close> collects the entry points, and the invariant of every reachable
  state says that the forwarding table is the shortest-path table of the known topology.
\<close>

section \<open>Timings\<close>

definition lsp_interval :: duration where "lsp_interval = 10 * second"
definition lsp_max_age :: duration where "lsp_max_age = 30 * second"
definition age_interval :: duration where "age_interval = 3 * second"
definition lsp_seen_ttl :: duration where "lsp_seen_ttl = 60 * second"
definition min_announce_interval :: duration where "min_announce_interval = 5 * second"
definition asymmetry_grace :: duration where "asymmetry_grace = 3 * lsp_interval"
definition seq_reset_gap :: goint where "seq_reset_gap = 16"
definition cost_change_threshold :: float64 where "cost_change_threshold = f64 (1 / 2)"

section \<open>State\<close>

record announcement =
  an_origin :: string
  an_seq :: goint
  an_neighbors :: "(string, float64) gomap"

record lsdb_entry =
  le_entry :: announcement
  le_refreshed :: gotime

record lsr_alg =
  ls_table :: safe_table
  ls_seen :: seen_cache
  ls_links :: "(string, float64) gomap"
  ls_lsdb :: "(string, lsdb_entry) gomap"
  ls_seq :: goint
  ls_last :: gotime
  ls_watch :: asymmetry_watch

definition new_lsr :: lsr_alg where
  "new_lsr =
     \<lparr>ls_table = new_safe_table, ls_seen = new_seen_cache lsp_seen_ttl, ls_links = [], ls_lsdb = [],
      ls_seq = 0, ls_last = zero_time, ls_watch = new_watch\<rparr>"

section \<open>Helpers\<close>

definition relative_change :: "float64 \<Rightarrow> float64 \<Rightarrow> float64" where
  "relative_change old new =
     (if fle old f0 then f64 1
      else
        let delta = fsub new old;
            delta = (if fless delta f0 then fneg delta else delta)
        in fdiv delta old)"

definition same_neighbor_set :: "(string, float64) gomap \<Rightarrow> (string, float64) gomap \<Rightarrow> bool" where
  "same_neighbor_set a b = (length a = length b \<and> list_all (\<lambda>(pid, c). mhas b pid) a)"

definition neighbor_names :: "(string, float64) gomap \<Rightarrow> string list" where
  "neighbor_names links = sort (mkeys links)"

text \<open>The edges of \<open>Topology\<close>, which are the ones \<open>recompute\<close> adds to its graph.\<close>

definition links_of :: "string \<Rightarrow> (string, float64) gomap \<Rightarrow> link list" where
  "links_of origin m = map (\<lambda>(n, c). \<lparr>l_from = origin, l_to = n, l_cost = c\<rparr>) m"

definition lsr_links :: "string \<Rightarrow> lsr_alg \<Rightarrow> link list" where
  "lsr_links self s =
     links_of self (ls_links s) @
     concat (map (\<lambda>(origin, e). links_of origin (an_neighbors (le_entry e))) (ls_lsdb s))"

definition lsr_topology :: "fabric \<Rightarrow> lsr_alg \<Rightarrow> link list" where
  "lsr_topology fab s = lsr_links (fb_id fab) s"

definition lsr_recompute :: "string \<Rightarrow> lsr_alg \<Rightarrow> lsr_alg" where
  "lsr_recompute self s =
     s\<lparr>ls_table := st_replace (dijkstra (graph_of_links (lsr_links self s)) self) (ls_table s)\<rparr>"

section \<open>Flooding our own and foreign announcements\<close>

text \<open>One copy per neighbour, until a copy has no hop left.\<close>

definition relay_copy :: "fabric \<Rightarrow> packet \<Rightarrow> packet \<times> bool" where
  "relay_copy fab p = decrement_ttl (set_header header_via (GStr (fb_address fab (fb_id fab))) (clone p))"

fun relay_to :: "fabric \<Rightarrow> packet \<Rightarrow> string list \<Rightarrow> event list" where
  "relay_to fab p [] = []"
| "relay_to fab p (n # ns) =
     (case relay_copy fab p of (copy, alive) \<Rightarrow> if alive then Send n copy # relay_to fab p ns else [])"

definition lsr_relay :: "fabric \<Rightarrow> packet \<Rightarrow> event list" where
  "lsr_relay fab p = relay_to fab p (flood (fb_neighbors fab) (previous_hop_id fab p))"

definition own_lsp :: "fabric \<Rightarrow> lsr_alg \<Rightarrow> lsp" where
  "own_lsp fab s =
     \<lparr>lsp_origin = fb_address fab (fb_id fab), lsp_seq = ls_seq s, lsp_age = f0,
      lsp_neighbors = map (\<lambda>(n, c). \<lparr>ne_id = fb_address fab n, ne_weight = c\<rparr>) (ls_links s)\<rparr>"

definition announce :: "fabric \<Rightarrow> gotime \<Rightarrow> string \<Rightarrow> lsr_alg \<Rightarrow> lsr_alg \<times> event list" where
  "announce fab now rid s =
     (let s = s\<lparr>ls_seq := ls_seq s + 1, ls_last := now\<rparr>;
          self = fb_address fab (fb_id fab)
      in case new_object rid proto_lsr type_info self ''*'' (lsp_json (own_lsp fab s)) of
           None \<Rightarrow> (s, [Log CannotEncode])
         | Some p \<Rightarrow>
             (s\<lparr>ls_seen := snd (seen now (header_string p header_msg_id) (ls_seen s))\<rparr>, lsr_relay fab p))"

section \<open>The database\<close>

definition stale :: "lsr_alg \<Rightarrow> string \<Rightarrow> goint \<Rightarrow> bool" where
  "stale s origin seq =
     (case mget (ls_lsdb s) origin of
        None \<Rightarrow> False
      | Some e \<Rightarrow>
          int_le seq (an_seq (le_entry e)) \<and> int_less (an_seq (le_entry e) - seq) seq_reset_gap)"

definition store ::
    "gotime \<Rightarrow> string \<Rightarrow> goint \<Rightarrow> (string, float64) gomap \<Rightarrow> lsr_alg \<Rightarrow> (bool \<times> bool) \<times> lsr_alg" where
  "store now origin seq neighbors s =
     (if stale s origin seq
      then ((False, False),
            case mget (ls_lsdb s) origin of
              None \<Rightarrow> s
            | Some e \<Rightarrow>
                if seq = an_seq (le_entry e)
                then s\<lparr>ls_lsdb := mput origin (e\<lparr>le_refreshed := now\<rparr>) (ls_lsdb s)\<rparr> else s)
      else
        let entry = \<lparr>an_origin = origin, an_seq = seq, an_neighbors = neighbors\<rparr>;
            structural = (case mget (ls_lsdb s) origin of
                            None \<Rightarrow> True
                          | Some e \<Rightarrow> \<not> same_neighbor_set (an_neighbors (le_entry e)) neighbors)
        in ((True, structural),
            s\<lparr>ls_lsdb := mput origin \<lparr>le_entry = entry, le_refreshed = now\<rparr> (ls_lsdb s)\<rparr>))"

definition resolve_neighbors :: "fabric \<Rightarrow> neighbor_entry list \<Rightarrow> (string, float64) gomap" where
  "resolve_neighbors fab es = foldl (\<lambda>m e. mput (fb_local_id fab (ne_id e)) (ne_weight e) m) [] es"

definition lsr_learn :: "fabric \<Rightarrow> gotime \<Rightarrow> packet \<Rightarrow> lsp \<Rightarrow> lsr_alg \<Rightarrow> lsr_alg \<times> event list" where
  "lsr_learn fab now p l s =
     (let origin = fb_local_id fab (lsp_origin l)
      in if origin = [] \<or> origin = fb_id fab then (s, [])
         else
           let neighbors = resolve_neighbors fab (lsp_neighbors l)
           in case store now origin (lsp_seq l) neighbors s of
                ((accepted, structural), s) \<Rightarrow>
                  if \<not> accepted then (s, [])
                  else (lsr_recompute (fb_id fab) s,
                        (if structural then [Log (TopologyUpdate origin (neighbor_names neighbors))] else []) @
                        lsr_relay fab p))"

definition lsr_handle_info :: "fabric \<Rightarrow> gotime \<Rightarrow> string \<Rightarrow> packet \<Rightarrow> lsr_alg \<Rightarrow> lsr_alg \<times> event list" where
  "lsr_handle_info fab now rid p s =
     (case seen now (header_string p header_msg_id) (ls_seen s) of
        (known, cache) \<Rightarrow>
          let s = s\<lparr>ls_seen := cache\<rparr>
          in if known then (s, [])
             else
               let warn = (if checksum_valid p then [] else [Log (LspChecksum (p_from p))])
               in case decode_lsp (p_payload p) of
                    None \<Rightarrow> (s, warn @ [Log (UnreadableLsp (p_from p))])
                  | Some l \<Rightarrow> (case lsr_learn fab now p l s of (s, out) \<Rightarrow> (s, warn @ out)))"

section \<open>Link events\<close>

definition cost_moved :: "gotime \<Rightarrow> float64 option \<Rightarrow> float64 \<Rightarrow> lsr_alg \<Rightarrow> bool" where
  "cost_moved now previous cost s =
     (case previous of
        None \<Rightarrow> False
      | Some old \<Rightarrow>
          fless cost_change_threshold (relative_change old cost) \<and>
          min_announce_interval < time_sub now (ls_last s))"

definition lsr_link_up ::
    "fabric \<Rightarrow> gotime \<Rightarrow> string \<Rightarrow> string \<Rightarrow> float64 \<Rightarrow> lsr_alg \<Rightarrow> lsr_alg \<times> event list" where
  "lsr_link_up fab now rid n c s =
     (let previous = mget (ls_links s) n;
          s = s\<lparr>ls_links := mput n c (ls_links s)\<rparr>;
          new_neighbor = (previous = None);
          log = (if new_neighbor then [Log (LinkUp n c)] else [])
      in case (if new_neighbor \<or> cost_moved now previous c s then announce fab now rid s else (s, [])) of
           (s, out) \<Rightarrow> (lsr_recompute (fb_id fab) s, log @ out))"

definition lsr_link_down ::
    "fabric \<Rightarrow> gotime \<Rightarrow> string \<Rightarrow> string \<Rightarrow> lsr_alg \<Rightarrow> lsr_alg \<times> event list" where
  "lsr_link_down fab now rid n s =
     (let existed = mhas (ls_links s) n;
          s = s\<lparr>ls_links := mdel n (ls_links s)\<rparr>
      in if existed
         then (case announce fab now rid s of
                 (s, out) \<Rightarrow> (lsr_recompute (fb_id fab) s, Log (LinkDown n) # out))
         else (s, []))"

section \<open>The periodic duties\<close>

definition lsr_refresh :: "fabric \<Rightarrow> gotime \<Rightarrow> string \<Rightarrow> lsr_alg \<Rightarrow> lsr_alg \<times> event list" where
  "lsr_refresh fab now rid s = announce fab now rid s"

definition expired :: "gotime \<Rightarrow> lsdb_entry \<Rightarrow> bool" where
  "expired now e \<longleftrightarrow> lsp_max_age < time_sub now (le_refreshed e)"

definition expire :: "gotime \<Rightarrow> lsr_alg \<Rightarrow> (bool \<times> lsr_alg) \<times> event list" where
  "expire now s =
     (let old = filter (\<lambda>(origin, e). expired now e) (ls_lsdb s)
      in ((old \<noteq> [], s\<lparr>ls_lsdb := filter (\<lambda>(origin, e). \<not> expired now e) (ls_lsdb s)\<rparr>),
          map (\<lambda>(origin, e). Log (Expired origin)) old))"

definition lsr_asymmetries :: "fabric \<Rightarrow> lsr_alg \<Rightarrow> asymmetry list" where
  "lsr_asymmetries fab s = asymmetries (lsr_topology fab s)"

definition report_asymmetries :: "fabric \<Rightarrow> gotime \<Rightarrow> lsr_alg \<Rightarrow> lsr_alg \<times> event list" where
  "report_asymmetries fab now s =
     (case due now asymmetry_grace (lsr_asymmetries fab s) (ls_watch s) of
        (report, w) \<Rightarrow>
          (s\<lparr>ls_watch := w\<rparr>,
           map (\<lambda>a. Log (InconsistentTopology (a_declared a) (a_missing a) (a_cost a))) report))"

definition lsr_sweep :: "fabric \<Rightarrow> gotime \<Rightarrow> lsr_alg \<Rightarrow> lsr_alg \<times> event list" where
  "lsr_sweep fab now s =
     (case expire now s of
        ((removed, s), out) \<Rightarrow>
          let s = (if removed then lsr_recompute (fb_id fab) s else s)
          in case report_asymmetries fab now s of (s, out') \<Rightarrow> (s, out @ out'))"

section \<open>Reading\<close>

definition lsr_forward :: "fabric \<Rightarrow> packet \<Rightarrow> lsr_alg \<Rightarrow> string list \<times> event list" where
  "lsr_forward fab p s =
     (let dest = fb_local_id fab (p_to p)
      in case st_lookup (ls_table s) dest of
           None \<Rightarrow> ([], [Log (NoRoute dest (packet_line p))])
         | Some r \<Rightarrow> ([r_next r], []))"

definition lsr_table :: "lsr_alg \<Rightarrow> table" where
  "lsr_table s = st_snapshot (ls_table s)"

definition lsr_database :: "lsr_alg \<Rightarrow> (string, announcement) gomap" where
  "lsr_database s = foldl (\<lambda>out (origin, e). mput origin (le_entry e) out) [] (ls_lsdb s)"

definition lsr_ops :: "lsr_alg algorithm" where
  "lsr_ops =
     \<lparr>op_proto = (\<lambda>s. proto_lsr), op_forward = lsr_forward, op_handle_info = lsr_handle_info,
      op_link_up = lsr_link_up, op_link_down = lsr_link_down, op_table = lsr_table,
      op_topology = lsr_topology\<rparr>"

section \<open>The invariant\<close>

definition entry_sound :: "string \<Rightarrow> string \<times> lsdb_entry \<Rightarrow> bool" where
  "entry_sound self oe \<longleftrightarrow>
     (case oe of (origin, e) \<Rightarrow>
        an_origin (le_entry e) = origin \<and> origin \<noteq> self \<and> origin \<noteq> [] \<and>
        wf_map (an_neighbors (le_entry e)) \<and> list_all (\<lambda>(n, c). c \<noteq> fnan) (an_neighbors (le_entry e)))"

definition lsdb_ok :: "string \<Rightarrow> lsr_alg \<Rightarrow> bool" where
  "lsdb_ok self s \<longleftrightarrow> wf_map (ls_lsdb s) \<and> list_all (entry_sound self) (ls_lsdb s)"

definition links_ok :: "lsr_alg \<Rightarrow> bool" where
  "links_ok s \<longleftrightarrow> wf_map (ls_links s) \<and> list_all (\<lambda>(n, c). c \<noteq> fnan) (ls_links s)"

definition cache_ok :: "lsr_alg \<Rightarrow> bool" where
  "cache_ok s \<longleftrightarrow> seen_ok (ls_seen s) \<and> sc_ttl (ls_seen s) = lsp_seen_ttl \<and> watch_ok (ls_watch s)"

definition table_current :: "string \<Rightarrow> lsr_alg \<Rightarrow> bool" where
  "table_current self s \<longleftrightarrow> st_table (ls_table s) = dijkstra (graph_of_links (lsr_links self s)) self"

definition lsr_inv :: "string \<Rightarrow> lsr_alg \<Rightarrow> bool" where
  "lsr_inv self s \<longleftrightarrow> lsdb_ok self s \<and> links_ok s \<and> cache_ok s \<and> table_current self s"

text \<open>Steps that touch neither the links nor the content of the database.\<close>

definition same_view :: "lsr_alg \<Rightarrow> lsr_alg \<Rightarrow> bool" where
  "same_view s s' \<longleftrightarrow>
     ls_links s' = ls_links s \<and>
     map (\<lambda>(origin, e). (origin, le_entry e)) (ls_lsdb s') = map (\<lambda>(origin, e). (origin, le_entry e)) (ls_lsdb s)"

lemma lsr_links_view:
  "lsr_links self s =
     links_of self (ls_links s) @
     concat (map (\<lambda>(origin, a). links_of origin (an_neighbors a)) (map (\<lambda>(origin, e). (origin, le_entry e)) (ls_lsdb s)))"
  by (simp add: lsr_links_def comp_def case_prod_unfold)

lemma same_view_links: "same_view s s' \<Longrightarrow> lsr_links self s' = lsr_links self s"
  by (simp add: same_view_def lsr_links_view)

lemma same_view_refl [simp]: "same_view s s"
  by (simp add: same_view_def)

lemma mput_same_value:
  "mget m k = Some v \<Longrightarrow> f v' = f v \<Longrightarrow> map (\<lambda>(k, v). (k, f v)) (mput k v' m) = map (\<lambda>(k, v). (k, f v)) m"
  by (induction m) auto

lemma mdel_absent: "\<not> mhas m k \<Longrightarrow> mdel k m = m"
  by (simp add: mhas_def delete_idem map_of_eq_None_iff)

lemma lsdb_ok_view:
  "lsdb_ok self s \<longleftrightarrow>
     (let m = map (\<lambda>(origin, e). (origin, le_entry e)) (ls_lsdb s)
      in wf_map m \<and> list_all (\<lambda>(origin, a). entry_sound self (origin, \<lparr>le_entry = a, le_refreshed = 0\<rparr>)) m)"
  by (auto simp: lsdb_ok_def wf_map_def entry_sound_def list_all_iff comp_def case_prod_unfold Let_def)

lemma inv_same_view:
  "lsr_inv self s \<Longrightarrow> same_view s s' \<Longrightarrow> ls_table s' = ls_table s \<Longrightarrow> cache_ok s' \<Longrightarrow> lsr_inv self s'"
  using same_view_links [of s s' self]
  by (auto simp: lsr_inv_def table_current_def lsdb_ok_view same_view_def links_ok_def)

lemma recompute_fields [simp]:
  "ls_links (lsr_recompute self s) = ls_links s" "ls_lsdb (lsr_recompute self s) = ls_lsdb s"
  "ls_seen (lsr_recompute self s) = ls_seen s" "ls_watch (lsr_recompute self s) = ls_watch s"
  "ls_seq (lsr_recompute self s) = ls_seq s" "ls_last (lsr_recompute self s) = ls_last s"
  by (simp_all add: lsr_recompute_def)

lemma recompute_links [simp]: "lsr_links self' (lsr_recompute self s) = lsr_links self' s"
  by (simp add: lsr_links_def)

lemma recompute_inv: "lsdb_ok self s \<Longrightarrow> links_ok s \<Longrightarrow> cache_ok s \<Longrightarrow> lsr_inv self (lsr_recompute self s)"
proof -
  have "table_current self (lsr_recompute self s)"
    by (simp add: table_current_def) (simp add: lsr_recompute_def st_replace_def)
  then show "lsdb_ok self s \<Longrightarrow> links_ok s \<Longrightarrow> cache_ok s \<Longrightarrow> lsr_inv self (lsr_recompute self s)"
    by (simp add: lsr_inv_def lsdb_ok_def links_ok_def cache_ok_def)
qed

lemma announce_fields [simp]:
  "ls_links (fst (announce fab now rid s)) = ls_links s" "ls_lsdb (fst (announce fab now rid s)) = ls_lsdb s"
  "ls_table (fst (announce fab now rid s)) = ls_table s" "ls_watch (fst (announce fab now rid s)) = ls_watch s"
  "ls_seq (fst (announce fab now rid s)) = ls_seq s + 1" "ls_last (fst (announce fab now rid s)) = now"
  by (simp_all add: announce_def Let_def split: option.split)

lemma announce_cache: "cache_ok s \<Longrightarrow> cache_ok (fst (announce fab now rid s))"
  by (simp add: announce_def Let_def cache_ok_def seen_ok_seen split: option.split)

lemma lsdb_ok_announce [simp]: "lsdb_ok self (fst (announce fab now rid s)) = lsdb_ok self s"
  by (simp add: lsdb_ok_def)

lemma links_ok_announce [simp]: "links_ok (fst (announce fab now rid s)) = links_ok s"
  by (simp add: links_ok_def)

lemma other_fields_ok [simp]:
  "cache_ok (s\<lparr>ls_links := m\<rparr>) = cache_ok s" "lsdb_ok self (s\<lparr>ls_links := m\<rparr>) = lsdb_ok self s"
  "cache_ok (s\<lparr>ls_lsdb := d\<rparr>) = cache_ok s" "links_ok (s\<lparr>ls_lsdb := d\<rparr>) = links_ok s"
  "links_ok (s\<lparr>ls_seen := c\<rparr>) = links_ok s" "lsdb_ok self (s\<lparr>ls_seen := c\<rparr>) = lsdb_ok self s"
  "links_ok (s\<lparr>ls_watch := w\<rparr>) = links_ok s" "lsdb_ok self (s\<lparr>ls_watch := w\<rparr>) = lsdb_ok self s"
  by (simp_all add: cache_ok_def lsdb_ok_def links_ok_def)

lemma announce_inv: "lsr_inv self s \<Longrightarrow> lsr_inv self (fst (announce fab now rid s))"
  by (rule inv_same_view) (auto simp: same_view_def announce_cache lsr_inv_def)

section \<open>Link events keep the invariant\<close>

lemma values_mput: "(k, v) \<in> set (mput k' v' m) \<Longrightarrow> (k, v) = (k', v') \<or> (k, v) \<in> set m"
  by (induction m) (auto split: if_splits)

lemma links_ok_mput: "links_ok s \<Longrightarrow> c \<noteq> fnan \<Longrightarrow> links_ok (s\<lparr>ls_links := mput n c (ls_links s)\<rparr>)"
  by (auto simp: links_ok_def list_all_iff dest!: values_mput)

lemma links_ok_mdel: "links_ok s \<Longrightarrow> links_ok (s\<lparr>ls_links := mdel n (ls_links s)\<rparr>)"
  by (auto simp: links_ok_def list_all_iff AList.delete_eq intro!: wf_map_filter)

lemma fst_link_up:
  "fst (lsr_link_up fab now rid n c s) =
     lsr_recompute (fb_id fab)
       (let s' = s\<lparr>ls_links := mput n c (ls_links s)\<rparr>
        in if \<not> mhas (ls_links s) n \<or> cost_moved now (mget (ls_links s) n) c s'
           then fst (announce fab now rid s') else s')"
  by (auto simp: lsr_link_up_def Let_def mhas_def split: prod.split)

lemma lsr_up_inv: "lsr_inv (fb_id fab) s \<Longrightarrow> c \<noteq> fnan \<Longrightarrow> lsr_inv (fb_id fab) (fst (lsr_link_up fab now rid n c s))"
  unfolding fst_link_up Let_def
  using links_ok_mput [of s c n]
  by (intro recompute_inv) (auto simp: lsr_inv_def announce_cache)

lemma fst_link_down:
  "fst (lsr_link_down fab now rid n s) =
     (if mhas (ls_links s) n
      then lsr_recompute (fb_id fab) (fst (announce fab now rid (s\<lparr>ls_links := mdel n (ls_links s)\<rparr>)))
      else s)"
  by (auto simp: lsr_link_down_def Let_def mdel_absent split: prod.split)

lemma lsr_down_inv: "lsr_inv (fb_id fab) s \<Longrightarrow> lsr_inv (fb_id fab) (fst (lsr_link_down fab now rid n s))"
proof -
  assume i: "lsr_inv (fb_id fab) s"
  have "lsr_inv (fb_id fab) (lsr_recompute (fb_id fab) (fst (announce fab now rid (s\<lparr>ls_links := mdel n (ls_links s)\<rparr>))))"
    using i links_ok_mdel [of s n] by (intro recompute_inv) (auto simp: lsr_inv_def announce_cache)
  with i show ?thesis by (simp add: fst_link_down)
qed

section \<open>Packets keep the invariant\<close>

lemma wf_resolve: "wf_map (resolve_neighbors fab es)"
proof -
  have "wf_map m \<Longrightarrow> wf_map (foldl (\<lambda>m e. mput (fb_local_id fab (ne_id e)) (ne_weight e) m) m es)" for m
    by (induction es arbitrary: m) auto
  then show ?thesis by (simp add: resolve_neighbors_def)
qed

lemma resolve_values:
  "(n, c) \<in> set (resolve_neighbors fab es) \<Longrightarrow> c \<in> ne_weight ` set es"
proof -
  have "(n, c) \<in> set (foldl (\<lambda>m e. mput (fb_local_id fab (ne_id e)) (ne_weight e) m) m es) \<Longrightarrow>
      (n, c) \<in> set m \<or> c \<in> ne_weight ` set es" for m
    by (induction es arbitrary: m) (auto dest!: values_mput)
  from this [of "[]"] show "(n, c) \<in> set (resolve_neighbors fab es) \<Longrightarrow> c \<in> ne_weight ` set es"
    by (simp add: resolve_neighbors_def)
qed

lemma lsdb_ok_mput:
  "lsdb_ok self s \<Longrightarrow> entry_sound self (origin, e) \<Longrightarrow> lsdb_ok self (s\<lparr>ls_lsdb := mput origin e (ls_lsdb s)\<rparr>)"
  by (auto simp: lsdb_ok_def list_all_iff dest!: values_mput)

lemma lsdb_entry_sound: "lsdb_ok self s \<Longrightarrow> mget (ls_lsdb s) origin = Some e \<Longrightarrow> entry_sound self (origin, e)"
  by (auto simp: lsdb_ok_def list_all_iff dest: mget_SomeD)

lemma store_fields [simp]:
  "ls_links (snd (store now origin seq nb s)) = ls_links s" "ls_seen (snd (store now origin seq nb s)) = ls_seen s"
  "ls_table (snd (store now origin seq nb s)) = ls_table s" "ls_watch (snd (store now origin seq nb s)) = ls_watch s"
  "ls_seq (snd (store now origin seq nb s)) = ls_seq s" "ls_last (snd (store now origin seq nb s)) = ls_last s"
  by (auto simp: store_def Let_def split: option.split)

lemma store_rejected: "\<not> fst (fst (store now origin seq nb s)) \<Longrightarrow> same_view s (snd (store now origin seq nb s))"
  by (auto simp: store_def Let_def same_view_def mput_same_value split: if_splits option.split)

lemma store_lsdb_ok:
  assumes "lsdb_ok self s" and "origin \<noteq> self" "origin \<noteq> []" "wf_map nb" "list_all (\<lambda>(n, c). c \<noteq> fnan) nb"
  shows "lsdb_ok self (snd (store now origin seq nb s))"
proof -
  have "entry_sound self (origin, e\<lparr>le_refreshed := now\<rparr>)" if "mget (ls_lsdb s) origin = Some e" for e
    using lsdb_entry_sound [OF assms(1) that] by (simp add: entry_sound_def)
  with assms show ?thesis
    by (auto simp: store_def Let_def entry_sound_def intro!: lsdb_ok_mput split: option.split)
qed

lemma learn_inv:
  assumes i: "lsr_inv (fb_id fab) s" and fin: "\<forall>e \<in> set (lsp_neighbors l). is_finite (ne_weight e)"
  shows "lsr_inv (fb_id fab) (fst (lsr_learn fab now p l s))"
proof -
  let ?o = "fb_local_id fab (lsp_origin l)" and ?nb = "resolve_neighbors fab (lsp_neighbors l)"
  let ?st = "store now ?o (lsp_seq l) ?nb s"
  have "list_all (\<lambda>(n, c). c \<noteq> fnan) ?nb"
    using fin by (auto simp: list_all_iff finite_not_nan dest!: resolve_values)
  then have d: "lsdb_ok (fb_id fab) (snd ?st)" if "?o \<noteq> []" "?o \<noteq> fb_id fab"
    using that i by (intro store_lsdb_ok) (auto simp: lsr_inv_def wf_resolve)
  have c: "cache_ok (snd ?st)" "links_ok (snd ?st)"
    using i by (simp_all add: lsr_inv_def cache_ok_def links_ok_def)
  have "lsr_inv (fb_id fab) (snd ?st)" if "\<not> fst (fst ?st)"
    using i store_rejected [OF that] c by (intro inv_same_view [OF i]) simp_all
  with d c i show ?thesis
    by (auto simp: lsr_learn_def Let_def intro!: recompute_inv split: prod.splits)
qed

lemma seen_inv: "lsr_inv self s \<Longrightarrow> lsr_inv self (s\<lparr>ls_seen := snd (seen now pid (ls_seen s))\<rparr>)"
  by (rule inv_same_view) (auto simp: same_view_def lsr_inv_def cache_ok_def seen_ok_seen)

lemma fst_handle_info:
  "fst (lsr_handle_info fab now rid p s) =
     (let s' = s\<lparr>ls_seen := snd (seen now (header_string p header_msg_id) (ls_seen s))\<rparr>
      in if fst (seen now (header_string p header_msg_id) (ls_seen s)) then s'
         else case decode_lsp (p_payload p) of None \<Rightarrow> s' | Some l \<Rightarrow> fst (lsr_learn fab now p l s'))"
  by (simp add: lsr_handle_info_def Let_def split: prod.split option.split)

lemma lsr_info_inv: "lsr_inv (fb_id fab) s \<Longrightarrow> lsr_inv (fb_id fab) (fst (lsr_handle_info fab now rid p s))"
proof -
  assume "lsr_inv (fb_id fab) s"
  note i = seen_inv [OF this, of now "header_string p header_msg_id"]
  have "lsr_inv (fb_id fab) (fst (lsr_learn fab now p l (s\<lparr>ls_seen := snd (seen now (header_string p header_msg_id) (ls_seen s))\<rparr>)))"
    if "decode_lsp (p_payload p) = Some l" for l
    using i decode_lsp_finite [OF that] by (intro learn_inv) simp_all
  with i show ?thesis unfolding fst_handle_info Let_def by (simp split: option.split)
qed

section \<open>The periodic duties keep the invariant\<close>

lemma expire_fields [simp]:
  "ls_links (snd (fst (expire now s))) = ls_links s" "ls_seen (snd (fst (expire now s))) = ls_seen s"
  "ls_table (snd (fst (expire now s))) = ls_table s" "ls_watch (snd (fst (expire now s))) = ls_watch s"
  "ls_lsdb (snd (fst (expire now s))) = filter (\<lambda>(origin, e). \<not> expired now e) (ls_lsdb s)"
  by (simp_all add: expire_def Let_def)

lemma expire_nothing: "\<not> fst (fst (expire now s)) \<Longrightarrow> snd (fst (expire now s)) = s"
  by (simp add: expire_def Let_def filter_empty_conv case_prod_unfold)

lemma lsdb_ok_filter: "lsdb_ok self s \<Longrightarrow> lsdb_ok self (s\<lparr>ls_lsdb := filter P (ls_lsdb s)\<rparr>)"
  by (auto simp: lsdb_ok_def wf_map_filter list_all_iff)

lemma fst_report:
  "fst (report_asymmetries fab now s) =
     s\<lparr>ls_watch := snd (due now asymmetry_grace (lsr_asymmetries fab s) (ls_watch s))\<rparr>"
  by (simp add: report_asymmetries_def split: prod.split)

lemma report_inv: "lsr_inv self s \<Longrightarrow> lsr_inv self (fst (report_asymmetries fab now s))"
  unfolding fst_report
  by (rule inv_same_view) (auto simp: same_view_def lsr_inv_def cache_ok_def due_ok)

lemma fst_sweep:
  "fst (lsr_sweep fab now s) =
     fst (report_asymmetries fab now
       (if fst (fst (expire now s)) then lsr_recompute (fb_id fab) (snd (fst (expire now s))) else s))"
  by (simp add: lsr_sweep_def Let_def split: prod.split) (metis expire_nothing fst_conv snd_conv)

lemma lsr_sweep_inv: "lsr_inv (fb_id fab) s \<Longrightarrow> lsr_inv (fb_id fab) (fst (lsr_sweep fab now s))"
proof -
  assume i: "lsr_inv (fb_id fab) s"
  have "lsr_inv (fb_id fab) (lsr_recompute (fb_id fab) (snd (fst (expire now s))))"
    using i lsdb_ok_filter [of "fb_id fab" s "\<lambda>(origin, e). \<not> expired now e"]
    by (intro recompute_inv) (simp_all add: lsr_inv_def lsdb_ok_def links_ok_def cache_ok_def)
  with i show ?thesis by (simp add: fst_sweep report_inv)
qed

lemma new_lsr_inv: "lsr_inv self new_lsr"
  by (simp add: lsr_inv_def new_lsr_def lsdb_ok_def links_ok_def cache_ok_def table_current_def
      lsr_links_def links_of_def new_safe_table_def dijkstra_no_links)

section \<open>What is sent\<close>

lemma relay_to_events:
  "relay_to fab p ns = (if snd (relay_copy fab p) then map (\<lambda>n. Send n (fst (relay_copy fab p))) ns else [])"
  by (induction ns) (auto split: prod.split)

lemma relay_events:
  "lsr_relay fab p =
     (if snd (relay_copy fab p)
      then map (\<lambda>n. Send n (fst (relay_copy fab p)))
        (filter (\<lambda>n. n \<noteq> previous_hop_id fab p) (fb_neighbors fab)) else [])"
  by (simp add: lsr_relay_def relay_to_events flood_filter)

lemma relay_sends:
  "sends (lsr_relay fab p) =
     (if snd (relay_copy fab p)
      then map (\<lambda>n. (n, fst (relay_copy fab p)))
        (filter (\<lambda>n. n \<noteq> previous_hop_id fab p) (fb_neighbors fab)) else [])"
  by (simp add: relay_events)

lemma relay_targets: "set (map fst (sends (lsr_relay fab p))) \<subseteq> set (fb_neighbors fab)"
  by (auto simp: relay_sends)

lemma announce_targets: "set (map fst (sends (snd (announce fab now rid s)))) \<subseteq> set (fb_neighbors fab)"
  using relay_targets by (simp add: announce_def Let_def split: option.split)

lemma learn_targets: "set (map fst (sends (snd (lsr_learn fab now p l s)))) \<subseteq> set (fb_neighbors fab)"
  using relay_targets [of fab p] by (simp add: lsr_learn_def Let_def split: prod.split)

lemma info_targets: "set (map fst (sends (snd (lsr_handle_info fab now rid p s)))) \<subseteq> set (fb_neighbors fab)"
  unfolding lsr_handle_info_def Let_def
  by (simp split: prod.split option.split) (metis learn_targets list.set_map snd_conv)

lemma up_targets: "set (map fst (sends (snd (lsr_link_up fab now rid n c s)))) \<subseteq> set (fb_neighbors fab)"
  unfolding lsr_link_up_def Let_def
  by (simp split: prod.split) (metis announce_targets list.set_map snd_conv)

lemma down_targets: "set (map fst (sends (snd (lsr_link_down fab now rid n s)))) \<subseteq> set (fb_neighbors fab)"
  unfolding lsr_link_down_def Let_def
  by (simp split: prod.split) (metis announce_targets list.set_map snd_conv)

lemma lsr_table_eq: "lsr_inv self s \<Longrightarrow> lsr_table s = dijkstra (graph_of_links (lsr_links self s)) self"
  using dijkstra_table_ok st_snapshot_eq [of "ls_table s"]
  by (simp add: lsr_table_def lsr_inv_def table_current_def table_ok_def)

interpretation ls: routing_algorithm lsr_ops lsr_inv
  by unfold_locales
    (simp_all only: lsr_ops_def algorithm.simps lsr_info_inv lsr_down_inv lsr_table_eq
      dijkstra_table_ok info_targets up_targets down_targets, erule (1) lsr_up_inv)

section \<open>Runs\<close>

text \<open>
  The entry points of the algorithm as steps of node \<open>self\<close>. The rest of the node may change
  between steps: which neighbours are up, and how names resolve.
\<close>

inductive lsr_step :: "string \<Rightarrow> lsr_alg \<Rightarrow> event list \<Rightarrow> lsr_alg \<Rightarrow> bool" for self where
  step_info: "fb_id fab = self \<Longrightarrow> lsr_handle_info fab now rid p s = (s', out) \<Longrightarrow> lsr_step self s out s'"
| step_up: "fb_id fab = self \<Longrightarrow> c \<noteq> fnan \<Longrightarrow> lsr_link_up fab now rid n c s = (s', out) \<Longrightarrow> lsr_step self s out s'"
| step_down: "fb_id fab = self \<Longrightarrow> lsr_link_down fab now rid n s = (s', out) \<Longrightarrow> lsr_step self s out s'"
| step_refresh: "fb_id fab = self \<Longrightarrow> lsr_refresh fab now rid s = (s', out) \<Longrightarrow> lsr_step self s out s'"
| step_sweep: "fb_id fab = self \<Longrightarrow> lsr_sweep fab now s = (s', out) \<Longrightarrow> lsr_step self s out s'"

inductive lsr_reaches :: "string \<Rightarrow> lsr_alg \<Rightarrow> bool" for self where
  reach_new: "lsr_reaches self new_lsr"
| reach_step: "lsr_reaches self s \<Longrightarrow> lsr_step self s out s' \<Longrightarrow> lsr_reaches self s'"

lemma step_inv: "lsr_step self s out s' \<Longrightarrow> lsr_inv self s \<Longrightarrow> lsr_inv self s'"
proof (induction rule: lsr_step.induct)
  case (step_info fab now rid p s s' out)
  then show ?case using lsr_info_inv [of fab s now rid p] by simp
next
  case (step_up fab c now rid n s s' out)
  then show ?case using lsr_up_inv [of fab s c now rid n] by simp
next
  case (step_down fab now rid n s s' out)
  then show ?case using lsr_down_inv [of fab s now rid n] by simp
next
  case (step_refresh fab now rid s s' out)
  then show ?case using announce_inv [of self s fab now rid] by (simp add: lsr_refresh_def)
next
  case (step_sweep fab now s s' out)
  then show ?case using lsr_sweep_inv [of fab s now] by simp
qed

lemma reaches_inv: "lsr_reaches self s \<Longrightarrow> lsr_inv self s"
  by (induction rule: lsr_reaches.induct) (auto simp: new_lsr_inv intro: step_inv)

lemma inv_nan_free: "lsr_inv self s \<Longrightarrow> links_nan_free (lsr_links self s)"
  by (fastforce simp: lsr_inv_def lsr_links_def links_of_def links_nan_free_def links_ok_def lsdb_ok_def
      entry_sound_def list_all_iff)

end
