(* ===== verification/Cfg_Config.thy ===== *)
theory Cfg_Config
  imports Go_Value
begin

text \<open>
  internal/config/config.go: the topology and the name table, read from the bytes of a file
  (None when the file cannot be read), and the translation between node ids and addresses.
  The locale \<open>address_book\<close> is what the rest of the program expects of that translation; a
  name table provides it when its addresses are complete and pairwise different.
\<close>

section \<open>Loading\<close>

datatype config_error = CannotRead | CannotParse | NoNodes

record topology =
  t_type :: string
  t_config :: "(string, (string, float64) gomap) gomap"

record name_table =
  n_type :: string
  n_config :: "(string, string) gomap"

definition default_link_cost :: float64 where
  "default_link_cost = f64 1"

text \<open>A struct with the two fields \<open>type\<close> and \<open>config\<close>; the latter decoded by the argument.\<close>

definition dec_pair_member ::
    "('a \<Rightarrow> json \<Rightarrow> 'a option) \<Rightarrow> string \<times> 'a \<Rightarrow> string \<times> json \<Rightarrow> (string \<times> 'a) option" where
  "dec_pair_member dec tc m =
     (case (tc, m) of ((t, c), (k, v)) \<Rightarrow>
       case unquote k of
         None \<Rightarrow> None
       | Some key \<Rightarrow>
           if is_field ''type'' key then map_option (\<lambda>t. (t, c)) (dec_string t v)
           else if is_field ''config'' key then map_option (\<lambda>c. (t, c)) (dec c v)
           else Some (t, c))"

fun dec_pair_members ::
    "('a \<Rightarrow> json \<Rightarrow> 'a option) \<Rightarrow> string \<times> 'a \<Rightarrow> (string \<times> json) list \<Rightarrow> (string \<times> 'a) option" where
  "dec_pair_members dec tc [] = Some tc"
| "dec_pair_members dec tc (m # ms) =
     (case dec_pair_member dec tc m of None \<Rightarrow> None | Some tc \<Rightarrow> dec_pair_members dec tc ms)"

definition dec_pair :: "('a \<Rightarrow> json \<Rightarrow> 'a option) \<Rightarrow> 'a \<Rightarrow> json \<Rightarrow> (string \<times> 'a) option" where
  "dec_pair dec z j =
     (case j of
        JNull \<Rightarrow> Some ([], z)
      | JObj ms \<Rightarrow> dec_pair_members dec ([], z) ms
      | _ \<Rightarrow> None)"

text \<open>Decoding an object into a map that may already hold entries.\<close>

definition dec_map_with :: "(json \<Rightarrow> 'a option) \<Rightarrow> (string, 'a) gomap \<Rightarrow> json \<Rightarrow> (string, 'a) gomap option" where
  "dec_map_with dec old j =
     (case j of
        JNull \<Rightarrow> Some []
      | JObj ms \<Rightarrow> map_option (\<lambda>kvs. put_all kvs old) (those (map (\<lambda>(k, v). both (unquote k) (dec v)) ms))
      | _ \<Rightarrow> None)"

definition dec_string_list :: "json \<Rightarrow> string list option" where
  "dec_string_list j =
     (case j of
        JNull \<Rightarrow> Some []
      | JArr vs \<Rightarrow> those (map (dec_string []) vs)
      | _ \<Rightarrow> None)"

text \<open>The two shapes of a node's entry: costs by neighbour, or a list of neighbours.\<close>

definition dec_links :: "json \<Rightarrow> (string, float64) gomap option" where
  "dec_links entry =
     (case dec_floats entry of
        Some weighted \<Rightarrow> Some weighted
      | None \<Rightarrow>
          map_option (\<lambda>ns. put_all (map (\<lambda>n. (n, default_link_cost)) ns) []) (dec_string_list entry))"

definition unmarshal_topology :: "json \<Rightarrow> topology option" where
  "unmarshal_topology j =
     (case dec_pair (dec_map_with Some) [] j of
        None \<Rightarrow> None
      | Some (t, raw) \<Rightarrow>
          map_option (\<lambda>kvs. \<lparr>t_type = t, t_config = put_all kvs []\<rparr>)
            (those (map (\<lambda>(node, entry). map_option (Pair node) (dec_links entry)) raw)))"

definition load_topology :: "string option \<Rightarrow> config_error + topology" where
  "load_topology file =
     (case file of
        None \<Rightarrow> Inl CannotRead
      | Some data \<Rightarrow>
          (case json_parse data of
             None \<Rightarrow> Inl CannotParse
           | Some j \<Rightarrow>
               (case unmarshal_topology j of
                  None \<Rightarrow> Inl CannotParse
                | Some topo \<Rightarrow> if t_config topo = [] then Inl NoNodes else Inr topo)))"

definition load_names :: "string option \<Rightarrow> config_error + name_table" where
  "load_names file =
     (case file of
        None \<Rightarrow> Inl CannotRead
      | Some data \<Rightarrow>
          (case json_parse data of
             None \<Rightarrow> Inl CannotParse
           | Some j \<Rightarrow>
               (case dec_pair (dec_map_with (dec_string [])) [] j of
                  None \<Rightarrow> Inl CannotParse
                | Some (t, c) \<Rightarrow> if c = [] then Inl NoNodes else Inr \<lparr>n_type = t, n_config = c\<rparr>)))"

definition topo_neighbors :: "topology \<Rightarrow> string \<Rightarrow> (string, float64) gomap" where
  "topo_neighbors t pid =
     (case mget (t_config t) pid of None \<Rightarrow> [] | Some links \<Rightarrow> put_all links [])"

section \<open>Names and addresses\<close>

definition endpoint :: "name_table \<Rightarrow> string \<Rightarrow> string option" where
  "endpoint n pid =
     (case mget (n_config n) pid of
        Some addr \<Rightarrow> Some addr
      | None \<Rightarrow> if has_byte (CHR '':'') pid then Some pid else None)"

definition complete_port :: "string \<Rightarrow> string \<Rightarrow> string" where
  "complete_port addr fallback =
     (if fallback = [] then addr
      else if has_byte (CHR '':'') addr then addr
      else addr @ '':'' @ fallback)"

fun first_id :: "string \<Rightarrow> (string, string) gomap \<Rightarrow> string option" where
  "first_id addr [] = None"
| "first_id addr ((pid, a) # m) = (if a = addr then Some pid else first_id addr m)"

definition id_for :: "name_table \<Rightarrow> string \<Rightarrow> string \<Rightarrow> string" where
  "id_for n addr fallback =
     (let addr = complete_port addr fallback
      in case first_id addr (n_config n) of Some pid \<Rightarrow> pid | None \<Rightarrow> addr)"

text \<open>What the other components expect: an id that has an address is found again by it.\<close>

locale address_book =
  fixes known :: "string \<Rightarrow> bool"
    and address :: "string \<Rightarrow> string"
    and local_id :: "string \<Rightarrow> string"
  assumes resolves: "known pid \<Longrightarrow> local_id (address pid) = pid"
begin

lemma address_inj: "known p \<Longrightarrow> known q \<Longrightarrow> address p = address q \<Longrightarrow> p = q"
  by (metis resolves)

lemma addresses_distinct: "list_all known ps \<Longrightarrow> distinct ps \<Longrightarrow> distinct (map address ps)"
  by (auto simp: distinct_map inj_on_def list_all_iff intro: address_inj)

lemma translate_links:
  "list_all (\<lambda>(pid, c). known pid) m \<Longrightarrow> map (\<lambda>(a, c). (local_id a, c)) (map (\<lambda>(pid, c). (address pid, c)) m) = m"
  by (induction m) (auto simp: resolves)

end

definition names_ok :: "name_table \<Rightarrow> bool" where
  "names_ok n \<longleftrightarrow> wf_map (n_config n) \<and> distinct (map snd (n_config n)) \<and>
     list_all (\<lambda>(pid, a). has_byte (CHR '':'') a) (n_config n)"

lemma first_id_Some: "first_id a m = Some p \<Longrightarrow> (p, a) \<in> set m"
  by (induction m) (auto split: if_splits)

lemma first_id_None: "first_id a m = None \<Longrightarrow> a \<notin> snd ` set m"
  by (induction m) (force split: if_splits)+

lemma first_id_unique:
  assumes "distinct (map snd m)"
  shows "first_id a m = Some p \<longleftrightarrow> (p, a) \<in> set m"
proof
  assume p: "(p, a) \<in> set m"
  then obtain q where q: "first_id a m = Some q" using first_id_None [of a m] by force
  have "inj_on snd (set m)" using assms by (simp add: distinct_map)
  from inj_onD [OF this, of "(q, a)" "(p, a)"] p first_id_Some [OF q] have "q = p" by simp
  with q show "first_id a m = Some p" by simp
qed (rule first_id_Some)

lemma endpoint_id_for:
  assumes "names_ok n" and "mget (n_config n) pid = Some a"
  shows "id_for n a fallback = pid"
proof -
  from assms(2) have in_m: "(pid, a) \<in> set (n_config n)" by (rule mget_SomeD)
  with assms(1) have "has_byte (CHR '':'') a" by (auto simp: names_ok_def list_all_iff)
  then have "complete_port a fallback = a" by (simp add: complete_port_def)
  moreover have "first_id a (n_config n) = Some pid"
    using assms(1) in_m by (simp add: names_ok_def first_id_unique)
  ultimately show ?thesis by (simp add: id_for_def)
qed

text \<open>A table with complete and different addresses provides the contract, for any fallback port.\<close>

definition listed :: "name_table \<Rightarrow> string \<Rightarrow> bool" where
  "listed n pid \<longleftrightarrow> names_ok n \<and> mhas (n_config n) pid"

definition address_in :: "name_table \<Rightarrow> string \<Rightarrow> string" where
  "address_in n pid = (case endpoint n pid of Some a \<Rightarrow> a | None \<Rightarrow> pid)"

lemma listed_resolves: "listed n pid \<Longrightarrow> id_for n (address_in n pid) fallback = pid"
  by (auto simp: listed_def mhas_def address_in_def endpoint_def endpoint_id_for)

lemma listed_address: "listed n pid \<Longrightarrow> has_byte (CHR '':'') (address_in n pid)"
proof -
  assume l: "listed n pid"
  then obtain a where a: "mget (n_config n) pid = Some a" by (auto simp: listed_def mhas_def)
  from mget_SomeD [OF a] l have "has_byte (CHR '':'') a" by (auto simp: listed_def names_ok_def list_all_iff)
  with a show ?thesis by (simp add: address_in_def endpoint_def)
qed

interpretation book: address_book "listed n" "address_in n" "\<lambda>a. id_for n a fallback" for n fallback
  by unfold_locales (rule listed_resolves)

text \<open>Without the port the same id is found when the table lists the address with that port.\<close>

lemma id_for_short:
  assumes "names_ok n" and "mget (n_config n) pid = Some (host @ '':'' @ port)"
    and "\<not> has_byte (CHR '':'') host" and "port \<noteq> []"
  shows "id_for n host port = pid"
proof -
  have "complete_port host port = host @ '':'' @ port" using assms(3,4) by (simp add: complete_port_def)
  moreover have "first_id (host @ '':'' @ port) (n_config n) = Some pid"
    using assms(1) mget_SomeD [OF assms(2)] by (simp add: names_ok_def first_id_unique)
  ultimately show ?thesis by (simp add: id_for_def)
qed

lemma id_for_same:
  assumes "names_ok n" and "same_map (n_config n) (n_config n')" and "distinct (map snd (n_config n'))"
  shows "id_for n a port = id_for n' a port"
proof -
  let ?a = "complete_port a port"
  have "first_id ?a (n_config n) = Some p \<longleftrightarrow> first_id ?a (n_config n') = Some p" for p
    using assms by (simp add: names_ok_def first_id_unique same_map_def)
  then have "first_id ?a (n_config n) = first_id ?a (n_config n')" by (metis not_Some_eq)
  then show ?thesis by (simp add: id_for_def)
qed

section \<open>What a loaded configuration satisfies\<close>

lemma wf_dec_floats: "dec_floats j = Some m \<Longrightarrow> wf_map m"
  by (auto simp: dec_floats_def wf_put_all split: json.splits)

lemma wf_dec_links: "dec_links j = Some m \<Longrightarrow> wf_map m"
  by (auto simp: dec_links_def wf_dec_floats wf_put_all split: option.splits)

lemma finite_dec_links: "dec_links j = Some m \<Longrightarrow> (k, c) \<in> set m \<Longrightarrow> is_finite c"
proof -
  have one: "is_finite default_link_cost" by code_simp
  assume h: "dec_links j = Some m" "(k, c) \<in> set m"
  show "is_finite c"
  proof (cases "dec_floats j")
    case None
    with h obtain ns :: "string list" where "m = put_all (map (\<lambda>n. (n, default_link_cost)) ns) []"
      by (auto simp: dec_links_def)
    with h(2) put_all_values [of k c "map (\<lambda>n. (n, default_link_cost)) ns" "[]"] one show ?thesis by auto
  next
    case (Some m')
    with h finite_dec_floats [of j m k c] show ?thesis by (simp add: dec_links_def)
  qed
qed

definition topology_ok :: "topology \<Rightarrow> bool" where
  "topology_ok t \<longleftrightarrow> wf_map (t_config t) \<and>
     list_all (\<lambda>(u, links). wf_map links \<and> list_all (\<lambda>(v, c). is_finite c) links) (t_config t)"

lemma load_topology_ok: "load_topology file = Inr t \<Longrightarrow> t_config t \<noteq> [] \<and> topology_ok t"
proof -
  assume "load_topology file = Inr t"
  then obtain j where j: "unmarshal_topology j = Some t" and ne: "t_config t \<noteq> []"
    by (auto simp: load_topology_def split: option.splits if_splits)
  then obtain raw kvs where kvs: "map (\<lambda>(node, entry). map_option (Pair node) (dec_links entry)) raw = map Some kvs"
    and t: "t_config t = put_all kvs []"
    by (auto simp: unmarshal_topology_def those_iff split: option.splits)
  have "\<exists>entry. dec_links entry = Some links" if "links \<in> snd ` set kvs" for links
  proof -
    from that obtain kl where "kl \<in> set kvs" "links = snd kl" by blast
    with map_Some_set [OF kvs] show ?thesis by fastforce
  qed
  then have "wf_map links \<and> list_all (\<lambda>(v, c). is_finite c) links" if "(u, links) \<in> set (t_config t)" for u links
    using that put_all_values [of u links kvs "[]"] wf_dec_links finite_dec_links
    by (fastforce simp: t list_all_iff)
  then show ?thesis using ne by (fastforce simp: topology_ok_def t wf_put_all list_all_iff)
qed

section \<open>Properties\<close>

text \<open>
  C40: a topology file that loads declares at least one node and only finite costs, whichever
  of the two shapes each entry has, so no NaN or infinity reaches the shortest-path routine.
\<close>

theorem loaded_topology_finite:
  assumes "load_topology file = Inr t"
  shows "t_config t \<noteq> [] \<and> wf_map (t_config t) \<and>
    (\<forall>u links v c. (u, links) \<in> set (t_config t) \<and> (v, c) \<in> set links \<longrightarrow> wf_map links \<and> is_finite c)"
  using load_topology_ok [OF assms] by (fastforce simp: topology_ok_def list_all_iff)

definition sample_topology_file :: string where
  "sample_topology_file =
     (let q = quoted in
      ''{'' @ q ''config'' @ '':{'' @ q ''A'' @ '':['' @ q ''B'' @ ''],'' @ q ''B'' @ '':{'' @ q ''A'' @ '':2.5}}}'')"

theorem loaded_topology_finite_witness:
  "case load_topology (Some sample_topology_file) of
     Inr t \<Rightarrow> t_config t = [(''A'', [(''B'', f64 1)]), (''B'', [(''A'', f64 (5/2))])] \<and> wf_map (t_config t)
   | Inl _ \<Rightarrow> False"
proof -
  let ?c = "[(''A'', [(''B'', f64 1)]), (''B'', [(''A'', f64 (5/2))])]"
  have l: "load_topology (Some sample_topology_file) = Inr \<lparr>t_type = [], t_config = ?c\<rparr>" by code_simp
  with loaded_topology_finite [OF l] show ?thesis by simp
qed

text \<open>
  Ids and addresses translate back and forth. In a table whose addresses carry a port
  and differ, an id resolves to its address, the address resolves back to the id, with or
  without the common port, and whichever order Go visits the table in.
\<close>

theorem names_roundtrip:
  assumes "names_ok n" and "mget (n_config n) pid = Some (host @ '':'' @ port)"
    and "\<not> has_byte (CHR '':'') host" and "port \<noteq> []" and "same_map (n_config n) (n_config n')"
  shows "endpoint n pid = Some (host @ '':'' @ port) \<and> id_for n (host @ '':'' @ port) fallback = pid \<and>
    id_for n host port = pid \<and> (distinct (map snd (n_config n')) \<longrightarrow> id_for n' a fallback = id_for n a fallback)"
  using endpoint_id_for [OF assms(1,2)] id_for_short [OF assms(1-4)] id_for_same [OF assms(1,5)] assms(2)
  by (auto simp: endpoint_def)

definition sample_names :: name_table where
  "sample_names = \<lparr>n_type = ''names'', n_config = [(''A'', ''10.0.0.1:5000''), (''B'', ''10.0.0.2:5000'')]\<rparr>"

theorem names_roundtrip_witness: "id_for sample_names ''10.0.0.2'' ''5000'' = ''B''"
proof -
  have n: "names_ok sample_names" by code_simp
  have m: "mget (n_config sample_names) ''B'' = Some (''10.0.0.2'' @ '':'' @ ''5000'')" by code_simp
  have h: "\<not> has_byte (CHR '':'') ''10.0.0.2''" "''5000'' \<noteq> []" by code_simp+
  have s: "same_map (n_config sample_names) (n_config sample_names)"
    using n by (simp add: names_ok_def same_map_refl)
  show ?thesis using names_roundtrip [OF n m h s] by blast
qed

end
