(* ===== verification/Node_State.thy ===== *)
theory Node_State
  imports Alg_Flooding Alg_Dijkstra Alg_Lsr Cfg_Config
begin

text \<open>
  internal/node/node.go, first part: the mode, the node's state, its construction, and the
  view of the node the routing algorithm gets. The interface value that holds the algorithm
  is a datatype with one constructor per implementation, and \<open>alg_ops\<close> dispatches on it.
\<close>

section \<open>The algorithm behind the interface\<close>

datatype any_alg = IsDijkstra dijkstra_alg | IsFlooding flooding_alg | IsLsr lsr_alg

fun alg_proto :: "any_alg \<Rightarrow> string" where
  "alg_proto (IsDijkstra s) = op_proto dijkstra_ops s"
| "alg_proto (IsFlooding s) = op_proto flooding_ops s"
| "alg_proto (IsLsr s) = op_proto lsr_ops s"

fun alg_forward :: "fabric \<Rightarrow> packet \<Rightarrow> any_alg \<Rightarrow> string list \<times> event list" where
  "alg_forward fab p (IsDijkstra s) = op_forward dijkstra_ops fab p s"
| "alg_forward fab p (IsFlooding s) = op_forward flooding_ops fab p s"
| "alg_forward fab p (IsLsr s) = op_forward lsr_ops fab p s"

fun alg_handle_info :: "fabric \<Rightarrow> gotime \<Rightarrow> string \<Rightarrow> packet \<Rightarrow> any_alg \<Rightarrow> any_alg \<times> event list" where
  "alg_handle_info fab now rid p (IsDijkstra s) = map_prod IsDijkstra id (op_handle_info dijkstra_ops fab now rid p s)"
| "alg_handle_info fab now rid p (IsFlooding s) = map_prod IsFlooding id (op_handle_info flooding_ops fab now rid p s)"
| "alg_handle_info fab now rid p (IsLsr s) = map_prod IsLsr id (op_handle_info lsr_ops fab now rid p s)"

fun alg_link_up :: "fabric \<Rightarrow> gotime \<Rightarrow> string \<Rightarrow> string \<Rightarrow> float64 \<Rightarrow> any_alg \<Rightarrow> any_alg \<times> event list" where
  "alg_link_up fab now rid n c (IsDijkstra s) = map_prod IsDijkstra id (op_link_up dijkstra_ops fab now rid n c s)"
| "alg_link_up fab now rid n c (IsFlooding s) = map_prod IsFlooding id (op_link_up flooding_ops fab now rid n c s)"
| "alg_link_up fab now rid n c (IsLsr s) = map_prod IsLsr id (op_link_up lsr_ops fab now rid n c s)"

fun alg_link_down :: "fabric \<Rightarrow> gotime \<Rightarrow> string \<Rightarrow> string \<Rightarrow> any_alg \<Rightarrow> any_alg \<times> event list" where
  "alg_link_down fab now rid n (IsDijkstra s) = map_prod IsDijkstra id (op_link_down dijkstra_ops fab now rid n s)"
| "alg_link_down fab now rid n (IsFlooding s) = map_prod IsFlooding id (op_link_down flooding_ops fab now rid n s)"
| "alg_link_down fab now rid n (IsLsr s) = map_prod IsLsr id (op_link_down lsr_ops fab now rid n s)"

fun alg_table :: "any_alg \<Rightarrow> table" where
  "alg_table (IsDijkstra s) = op_table dijkstra_ops s"
| "alg_table (IsFlooding s) = op_table flooding_ops s"
| "alg_table (IsLsr s) = op_table lsr_ops s"

fun alg_topology :: "fabric \<Rightarrow> any_alg \<Rightarrow> link list" where
  "alg_topology fab (IsDijkstra s) = op_topology dijkstra_ops fab s"
| "alg_topology fab (IsFlooding s) = op_topology flooding_ops fab s"
| "alg_topology fab (IsLsr s) = op_topology lsr_ops fab s"

definition alg_ops :: "any_alg algorithm" where
  "alg_ops =
     \<lparr>op_proto = alg_proto, op_forward = alg_forward, op_handle_info = alg_handle_info,
      op_link_up = alg_link_up, op_link_down = alg_link_down, op_table = alg_table, op_topology = alg_topology\<rparr>"

fun alg_inv :: "string \<Rightarrow> any_alg \<Rightarrow> bool" where
  "alg_inv self (IsDijkstra s) = dj_inv self s"
| "alg_inv self (IsFlooding s) = flooding_inv self s"
| "alg_inv self (IsLsr s) = lsr_inv self s"

interpretation al: routing_algorithm alg_ops alg_inv
proof
  fix fab now rid p n c and s :: any_alg and self
  show "alg_inv (fb_id fab) s \<Longrightarrow> alg_inv (fb_id fab) (fst (op_handle_info alg_ops fab now rid p s))"
    using dj.info_inv fl.info_inv ls.info_inv by (cases s) (simp_all add: alg_ops_def)
  show "alg_inv (fb_id fab) s \<Longrightarrow> c \<noteq> fnan \<Longrightarrow> alg_inv (fb_id fab) (fst (op_link_up alg_ops fab now rid n c s))"
    using dj.up_inv fl.up_inv ls.up_inv by (cases s) (simp_all add: alg_ops_def)
  show "alg_inv (fb_id fab) s \<Longrightarrow> alg_inv (fb_id fab) (fst (op_link_down alg_ops fab now rid n s))"
    using dj.down_inv fl.down_inv ls.down_inv by (cases s) (simp_all add: alg_ops_def)
  show "alg_inv self s \<Longrightarrow> table_ok (op_table alg_ops s)"
    using dj.table_keyed fl.table_keyed ls.table_keyed by (cases s) (simp_all add: alg_ops_def)
  show "set (map fst (sends (snd (op_handle_info alg_ops fab now rid p s)))) \<subseteq> set (fb_neighbors fab)"
    using dj.info_sends fl.info_sends ls.info_sends by (cases s) (simp_all add: alg_ops_def)
  show "set (map fst (sends (snd (op_link_up alg_ops fab now rid n c s)))) \<subseteq> set (fb_neighbors fab)"
    using dj.up_sends fl.up_sends ls.up_sends by (cases s) (simp_all add: alg_ops_def)
  show "set (map fst (sends (snd (op_link_down alg_ops fab now rid n s)))) \<subseteq> set (fb_neighbors fab)"
    using dj.down_sends fl.down_sends ls.down_sends by (cases s) (simp_all add: alg_ops_def)
qed

section \<open>Addresses\<close>

text \<open>\<open>net.SplitHostPort\<close>, of which only the port is used: None for every error.\<close>

definition cut_last :: "char \<Rightarrow> string \<Rightarrow> (string \<times> string) option" where
  "cut_last c s = (case str_cut c (rev s) of (after, before, found) \<Rightarrow> if found then Some (rev before, rev after) else None)"

definition split_port :: "string \<Rightarrow> string option" where
  "split_port s =
     (case cut_last (CHR '':'') s of
        None \<Rightarrow> None
      | Some (host, port) \<Rightarrow>
          if take 1 s = ''['' then
            (case str_cut (CHR '']'') s of (inner, rest, shut) \<Rightarrow>
              if shut \<and> rest = CHR '':'' # port \<and> \<not> has_byte (CHR ''['') (tl s) \<and> \<not> has_byte (CHR '']'') rest
              then Some port else None)
          else if has_byte (CHR '':'') host \<or> has_byte (CHR ''['') s \<or> has_byte (CHR '']'') s then None
          else Some port)"

text \<open>\<open>strconv.Atoi\<close> with its error dropped: 0 for bad syntax, the nearest bound out of range.\<close>

definition atoi :: "string \<Rightarrow> goint" where
  "atoi s =
     (let digits = (case s of [] \<Rightarrow> [] | c # r \<Rightarrow> if c = CHR ''-'' \<or> c = CHR ''+'' then r else s);
          n = (if take 1 s = ''-'' then - dec_val 0 digits else dec_val 0 digits)
      in if digits = [] \<or> \<not> list_all is_digit digits then 0
         else word_of_int (max (- (2 ^ 63)) (min (2 ^ 63 - 1) n)))"

section \<open>The node\<close>

definition mode_dijkstra :: string where "mode_dijkstra = ''dijkstra''"
definition mode_flooding :: string where "mode_flooding = ''flooding''"
definition mode_lsr :: string where "mode_lsr = ''lsr''"
definition hello_interval :: duration where "hello_interval = 4 * second"
definition dead_after :: duration where "dead_after = 14 * second"
definition inbox_size :: nat where "inbox_size = 256"
definition message_seen_ttl :: duration where "message_seen_ttl = 60 * second"

datatype node_error = UnknownMode string | NoAddress string | UnsupportedMode string

definition parse_mode :: "string \<Rightarrow> node_error + string" where
  "parse_mode s = (if s \<in> {mode_dijkstra, mode_flooding, mode_lsr} then Inr s else Inl (UnknownMode s))"

record options =
  o_id :: string
  o_mode :: string
  o_topology :: topology
  o_names :: name_table
  o_listen :: string
  o_verbose :: bool

record neighbor_state =
  nb_alive :: bool
  nb_cost :: float64
  nb_last :: gotime

record node =
  nd_id :: string
  nd_mode :: string
  nd_names :: name_table
  nd_verbose :: bool
  nd_addr :: string
  nd_port :: string
  nd_alg :: any_alg
  nd_inbox :: "packet list"
  nd_seen :: seen_cache
  nd_neighbors :: "(string, neighbor_state) gomap"
  nd_warned :: "(string, bool) gomap"

text \<open>\<open>graphFrom\<close>: the configured links in map order, added one by one.\<close>

definition configured_links :: "topology \<Rightarrow> link list" where
  "configured_links t =
     concat (map (\<lambda>(u, links). map (\<lambda>(v, c). \<lparr>l_from = u, l_to = v, l_cost = c\<rparr>) links) (t_config t))"

definition graph_from :: "topology \<Rightarrow> graph" where
  "graph_from t = graph_of_links (configured_links t)"

definition alg_of_mode :: "string \<Rightarrow> topology \<Rightarrow> any_alg option" where
  "alg_of_mode m t =
     (if m = mode_dijkstra then Some (IsDijkstra (new_dijkstra (graph_from t)))
      else if m = mode_flooding then Some (IsFlooding new_flooding)
      else if m = mode_lsr then Some (IsLsr new_lsr)
      else None)"

definition listen_address :: "options \<Rightarrow> string option" where
  "listen_address opts = (if o_listen opts = [] then endpoint (o_names opts) (o_id opts) else Some (o_listen opts))"

definition new_node :: "options \<Rightarrow> node_error + node" where
  "new_node opts =
     (case listen_address opts of
        None \<Rightarrow> Inl (NoAddress (o_id opts))
      | Some listen \<Rightarrow>
          let addr = (case endpoint (o_names opts) (o_id opts) of Some a \<Rightarrow> a | None \<Rightarrow> listen);
              port = (case split_port addr of Some p \<Rightarrow> p | None \<Rightarrow> [])
          in case alg_of_mode (o_mode opts) (o_topology opts) of
               None \<Rightarrow> Inl (UnsupportedMode (o_mode opts))
             | Some alg \<Rightarrow> Inr
                 \<lparr>nd_id = o_id opts, nd_mode = o_mode opts, nd_names = o_names opts, nd_verbose = o_verbose opts,
                  nd_addr = addr, nd_port = port, nd_alg = alg, nd_inbox = [],
                  nd_seen = new_seen_cache message_seen_ttl,
                  nd_neighbors = map (\<lambda>(n, c). (n, \<lparr>nb_alive = False, nb_cost = c, nb_last = zero_time\<rparr>))
                    (topo_neighbors (o_topology opts) (o_id opts)),
                  nd_warned = []\<rparr>)"

text \<open>The warning \<open>New\<close> prints when the topology declares no neighbour.\<close>

definition new_node_log :: "options \<Rightarrow> event list" where
  "new_node_log opts = (if topo_neighbors (o_topology opts) (o_id opts) = [] then [Log (NoNeighbors (o_id opts))] else [])"

section \<open>What the algorithm sees\<close>

definition live_neighbors :: "node \<Rightarrow> string list" where
  "live_neighbors n = map fst (filter (\<lambda>(pid, st). nb_alive st) (nd_neighbors n))"

definition configured_neighbors :: "node \<Rightarrow> string list" where
  "configured_neighbors n = map fst (nd_neighbors n)"

definition node_address :: "node \<Rightarrow> string \<Rightarrow> string" where
  "node_address n pid =
     (if pid = ''*'' \<or> pid = nd_id n then nd_addr n
      else case endpoint (nd_names n) pid of Some a \<Rightarrow> a | None \<Rightarrow> pid)"

definition node_local_id :: "node \<Rightarrow> string \<Rightarrow> string" where
  "node_local_id n addr =
     (if addr = ''*'' \<or> addr = nd_addr n then nd_id n else id_for (nd_names n) addr (nd_port n))"

definition node_send_to :: "node \<Rightarrow> string \<Rightarrow> packet \<Rightarrow> (string \<times> packet) option" where
  "node_send_to n pid p = map_option (\<lambda>a. (a, p)) (endpoint (nd_names n) pid)"

definition fabric_of :: "node \<Rightarrow> fabric" where
  "fabric_of n =
     \<lparr>fb_id = nd_id n, fb_neighbors = live_neighbors n, fb_address = node_address n, fb_local_id = node_local_id n\<rparr>"

lemma fabric_of_simps [simp]:
  "fb_id (fabric_of n) = nd_id n" "fb_neighbors (fabric_of n) = live_neighbors n"
  "fb_address (fabric_of n) = node_address n" "fb_local_id (fabric_of n) = node_local_id n"
  by (simp_all add: fabric_of_def)

end
