(* ===== verification/Node_Discovery.thy ===== *)
theory Node_Discovery
  imports Node_State
begin

text \<open>
  internal/node/discovery.go: probing neighbours with hellos, measuring link costs from the
  echoes, and declaring silent neighbours down. Each function is one atomic step of the node;
  the instant is read once per step, and the random identifiers of new packets are arguments
  (one per neighbour where a loop creates a packet per neighbour). Floating-point expressions
  are evaluated operation by operation, as on amd64, where the compiler does not fuse them.
\<close>

section \<open>Constants and helpers\<close>

definition min_cost :: float64 where "min_cost = f64 (1 / 100)"
definition cost_smoothing :: float64 where "cost_smoothing = f64 (1 / 4)"
definition silent_grace :: duration where "silent_grace = 3 * hello_interval"

definition now_seconds :: "gotime \<Rightarrow> float64" where
  "now_seconds now = fdiv (f64 (of_int now)) (f64 1000000000)"

definition hello_payload :: "node \<Rightarrow> json" where
  "hello_payload n = hello_json (atoi (nd_port n))"

text \<open>A call into the algorithm, which sees the node as it is at the call.\<close>

definition on_alg :: "(fabric \<Rightarrow> any_alg \<Rightarrow> any_alg \<times> event list) \<Rightarrow> node \<Rightarrow> node \<times> event list" where
  "on_alg f n = (case f (fabric_of n) (nd_alg n) of (a, out) \<Rightarrow> (n\<lparr>nd_alg := a\<rparr>, out))"

definition and_then :: "node \<times> event list \<Rightarrow> (node \<Rightarrow> node \<times> event list) \<Rightarrow> node \<times> event list" where
  "and_then r f = (case r of (n, out) \<Rightarrow> (case f n of (n', out') \<Rightarrow> (n', out @ out')))"

section \<open>Liveness\<close>

definition mark_alive :: "gotime \<Rightarrow> string \<Rightarrow> string \<Rightarrow> node \<Rightarrow> node \<times> event list" where
  "mark_alive now rid nb n =
     (if nb = [] \<or> nb = nd_id n then (n, [])
      else
        let known = mget (nd_neighbors n) nb;
            st = (case known of Some st \<Rightarrow> st | None \<Rightarrow> \<lparr>nb_alive = False, nb_cost = f64 1, nb_last = zero_time\<rparr>);
            log = (if known = None then [Log (NewNeighbor nb)] else []);
            n = n\<lparr>nd_neighbors := mput nb (st\<lparr>nb_alive := True, nb_last := now\<rparr>) (nd_neighbors n)\<rparr>
        in if nb_alive st then (n, log)
           else and_then (n, log) (on_alg (\<lambda>fab. alg_link_up fab now rid nb (nb_cost st))))"

text \<open>The exponential moving average of a link that is up and has a cost.\<close>

definition smoothed :: "neighbor_state \<Rightarrow> float64 \<Rightarrow> float64" where
  "smoothed st cost =
     (if nb_alive st \<and> fless f0 (nb_cost st)
      then fadd (fmul (nb_cost st) (fsub (f64 1) cost_smoothing)) (fmul cost cost_smoothing)
      else cost)"

definition mark_alive_with_cost :: "gotime \<Rightarrow> string \<Rightarrow> string \<Rightarrow> float64 \<Rightarrow> node \<Rightarrow> node \<times> event list" where
  "mark_alive_with_cost now rid nb cost n =
     (if nb = [] \<or> nb = nd_id n then (n, [])
      else
        let known = mget (nd_neighbors n) nb;
            st = (case known of Some st \<Rightarrow> st | None \<Rightarrow> \<lparr>nb_alive = False, nb_cost = f0, nb_last = zero_time\<rparr>);
            log = (if known = None then [Log (NewNeighbor nb)] else []);
            cost = smoothed st cost;
            n = n\<lparr>nd_neighbors := mput nb \<lparr>nb_alive = True, nb_cost = cost, nb_last = now\<rparr> (nd_neighbors n)\<rparr>
        in and_then (n, log) (on_alg (\<lambda>fab. alg_link_up fab now rid nb cost)))"

section \<open>Hello and echo\<close>

definition handle_hello :: "gotime \<Rightarrow> string \<Rightarrow> string \<Rightarrow> packet \<Rightarrow> node \<Rightarrow> node \<times> event list" where
  "handle_hello now rid rid' p n =
     (let source = node_local_id n (p_from p)
      in and_then (mark_alive now rid source n) (\<lambda>n.
        case new_object rid' (alg_proto (nd_alg n)) type_echo (nd_addr n) (p_from p) (Some (hello_payload n)) of
          None \<Rightarrow> (n, [Log (CannotBuild type_echo (p_from p))])
        | Some reply \<Rightarrow>
            let reply = (case header_float p header_t0 of Some t0 \<Rightarrow> set_header header_t0 (GNum t0) reply | None \<Rightarrow> reply);
                reply = set_header header_via (GStr (nd_addr n)) reply
            in (n, [Send source reply])))"

definition measured_cost :: "gotime \<Rightarrow> packet \<Rightarrow> float64" where
  "measured_cost now p =
     (let cost = (case header_float p header_t0 of
                    None \<Rightarrow> min_cost
                  | Some t0 \<Rightarrow> fdiv (fmul (fsub (now_seconds now) t0) (f64 1000)) (f64 2))
      in if fless cost min_cost then min_cost else cost)"

definition handle_echo :: "gotime \<Rightarrow> string \<Rightarrow> packet \<Rightarrow> node \<Rightarrow> node \<times> event list" where
  "handle_echo now rid p n =
     mark_alive_with_cost now rid (node_local_id n (p_from p)) (measured_cost now p) n"

definition probe :: "gotime \<Rightarrow> (string \<Rightarrow> string) \<Rightarrow> node \<Rightarrow> string \<Rightarrow> event list" where
  "probe now ids n nb =
     (case new_object (ids nb) (alg_proto (nd_alg n)) type_hello (nd_addr n) (node_address n nb) (Some (hello_payload n)) of
        None \<Rightarrow> [Log (CannotBuild type_hello nb)]
      | Some p \<Rightarrow>
          [Send nb (set_header header_via (GStr (nd_addr n))
             (set_header header_t0 (GNum (now_seconds now)) p))])"

definition probe_all :: "gotime \<Rightarrow> (string \<Rightarrow> string) \<Rightarrow> node \<Rightarrow> node \<times> event list" where
  "probe_all now ids n = (n, concat (map (probe now ids n) (configured_neighbors n)))"

section \<open>Silence\<close>

definition overdue :: "gotime \<Rightarrow> neighbor_state \<Rightarrow> bool" where
  "overdue now st \<longleftrightarrow> nb_alive st \<and> dead_after < time_sub now (nb_last st)"

text \<open>The two halves of \<open>reapDead\<close>: under the lock, and the notifications after it.\<close>

definition reap_mark :: "gotime \<Rightarrow> node \<Rightarrow> string list \<times> node" where
  "reap_mark now n =
     (map fst (filter (\<lambda>(pid, st). overdue now st) (nd_neighbors n)),
      n\<lparr>nd_neighbors := map (\<lambda>(pid, st). (pid, if overdue now st then st\<lparr>nb_alive := False\<rparr> else st)) (nd_neighbors n)\<rparr>)"

fun reap_notify :: "gotime \<Rightarrow> (string \<Rightarrow> string) \<Rightarrow> string list \<Rightarrow> node \<Rightarrow> node \<times> event list" where
  "reap_notify now ids [] n = (n, [])"
| "reap_notify now ids (pid # dead) n =
     and_then (and_then (n, [Log (Stopped pid)]) (on_alg (\<lambda>fab. alg_link_down fab now (ids pid) pid)))
       (reap_notify now ids dead)"

definition reap_dead :: "gotime \<Rightarrow> (string \<Rightarrow> string) \<Rightarrow> node \<Rightarrow> node \<times> event list" where
  "reap_dead now ids n = (case reap_mark now n of (dead, n) \<Rightarrow> reap_notify now ids dead n)"

record neighbor_snapshot =
  ns_id :: string
  ns_alive :: bool
  ns_cost :: float64
  ns_last :: gotime

definition neighbor_states :: "node \<Rightarrow> neighbor_snapshot list" where
  "neighbor_states n =
     map (\<lambda>(pid, st). \<lparr>ns_id = pid, ns_alive = nb_alive st, ns_cost = nb_cost st, ns_last = nb_last st\<rparr>) (nd_neighbors n)"

definition silent_neighbors :: "node \<Rightarrow> string list" where
  "silent_neighbors n = sort (map ns_id (filter (\<lambda>s. ns_last s = zero_time) (neighbor_states n)))"

fun warn_each :: "string list \<Rightarrow> node \<Rightarrow> node \<times> event list" where
  "warn_each [] n = (n, [])"
| "warn_each (pid # silent) n =
     (let warned = mget_or False (nd_warned n) pid;
          n = n\<lparr>nd_warned := mput pid True (nd_warned n)\<rparr>;
          addr = (case endpoint (nd_names n) pid of Some a \<Rightarrow> a | None \<Rightarrow> [])
      in and_then (n, if warned then [] else [Log (NeverAnswered pid addr)]) (warn_each silent))"

definition warn_silent_neighbors :: "gotime \<Rightarrow> gotime \<Rightarrow> node \<Rightarrow> node \<times> event list" where
  "warn_silent_neighbors now started n =
     (if time_sub now started < silent_grace then (n, []) else warn_each (silent_neighbors n) n)"

section \<open>The loop\<close>

text \<open>What the loop does before its first tick, and on each tick.\<close>

definition discovery_start :: "gotime \<Rightarrow> (string \<Rightarrow> string) \<Rightarrow> node \<Rightarrow> node \<times> event list" where
  "discovery_start now ids n = probe_all now ids n"

definition discovery_tick :: "gotime \<Rightarrow> gotime \<Rightarrow> (string \<Rightarrow> string) \<Rightarrow> (string \<Rightarrow> string) \<Rightarrow> node \<Rightarrow> node \<times> event list" where
  "discovery_tick now started ids ids' n =
     and_then (and_then (reap_dead now ids n) (warn_silent_neighbors now started)) (probe_all now ids')"

end
