(* ===== verification/Node_Forward.thy ===== *)
theory Node_Forward
  imports Node_Discovery
begin

text \<open>
  internal/node/node.go, second part: the inbox, the dispatch of inbound packets, the delivery
  and forwarding of messages, and sending. The steps of a running node are collected in
  \<open>node_step\<close>.
\<close>

section \<open>The inbox\<close>

definition receive :: "packet \<Rightarrow> node \<Rightarrow> node \<times> event list" where
  "receive p n =
     (if length (nd_inbox n) < inbox_size then (n\<lparr>nd_inbox := nd_inbox n @ [p]\<rparr>, [])
      else (n, [Log (InboxFull (packet_line p))]))"

section \<open>Messages\<close>

definition send_copies :: "packet \<Rightarrow> string list \<Rightarrow> event list" where
  "send_copies p hops = map (\<lambda>t. Send t (clone p)) hops"

definition node_relay :: "packet \<Rightarrow> node \<Rightarrow> event list" where
  "node_relay p n =
     (case alg_forward (fabric_of n) p (nd_alg n) of
        (hops, lines) \<Rightarrow>
          if hops = [] then lines
          else (case decrement_ttl p of
                  (p, alive) \<Rightarrow>
                    if \<not> alive then lines @ [Log (TtlExpired (packet_line p))]
                    else lines @ send_copies
                      (set_header header_via (GStr (nd_addr n)) (append_trace (nd_addr n) p)) hops))"

definition handle_message :: "gotime \<Rightarrow> packet \<Rightarrow> node \<Rightarrow> node \<times> event list" where
  "handle_message now p n =
     (case seen now (header_string p header_msg_id) (nd_seen n) of
        (known, cache) \<Rightarrow>
          let n = n\<lparr>nd_seen := cache\<rparr>
          in if known then (n, if nd_verbose n then [Log (Duplicate (packet_line p))] else [])
             else if node_local_id n (p_to p) = nd_id n then
               (case payload_text p of
                  None \<Rightarrow> (n, [Log (UnreadableMessage (p_from p))])
                | Some text \<Rightarrow> (n, [Log (Message (p_from p) (trace p) text), Deliver p]))
             else (n, node_relay p n))"

section \<open>Dispatch\<close>

definition complaints :: "packet \<Rightarrow> node \<Rightarrow> event list" where
  "complaints p n =
     (if nd_verbose n then [Log (Received (packet_line p))] else []) @
     (if p_version p \<noteq> version then [Log (WrongVersion (p_from p) (p_version p))] else []) @
     (if checksum_valid p then [] else [Log (ChecksumMismatch (p_type p) (p_from p))])"

text \<open>\<open>previousHopID\<close> of node.go, which is the one of the algorithms seen through the fabric.\<close>

definition node_previous_hop :: "node \<Rightarrow> packet \<Rightarrow> string" where
  "node_previous_hop n p =
     (let via = header_string p header_via;
          via = (if via = [] then p_from p else via)
      in node_local_id n via)"

lemma node_previous_hop_eq [simp]: "node_previous_hop n p = previous_hop_id (fabric_of n) p"
  by (simp add: node_previous_hop_def previous_hop_id_def fabric_of_def)

definition handle :: "gotime \<Rightarrow> string \<Rightarrow> string \<Rightarrow> packet \<Rightarrow> node \<Rightarrow> node \<times> event list" where
  "handle now rid rid' p n =
     and_then (n, complaints p n) (\<lambda>n.
       if p_type p = type_hello then handle_hello now rid rid' p n
       else if p_type p = type_echo then handle_echo now rid p n
       else if p_type p = type_info then
         and_then (mark_alive now rid (node_previous_hop n p) n)
           (on_alg (\<lambda>fab. alg_handle_info fab now rid' p))
       else if p_type p = type_message then handle_message now p n
       else (n, [Log (UnknownType (p_type p) (p_from p))]))"

text \<open>One turn of the forwarding loop: None when the inbox is empty and the loop waits.\<close>

definition forwarding_turn :: "gotime \<Rightarrow> string \<Rightarrow> string \<Rightarrow> node \<Rightarrow> (node \<times> event list) option" where
  "forwarding_turn now rid rid' n =
     (case nd_inbox n of [] \<Rightarrow> None | p # ps \<Rightarrow> Some (handle now rid rid' p (n\<lparr>nd_inbox := ps\<rparr>)))"

section \<open>Sending\<close>

datatype send_error = IsThisNode string | NoRouteTo string

definition node_send :: "gotime \<Rightarrow> string \<Rightarrow> string \<Rightarrow> string \<Rightarrow> node \<Rightarrow> (send_error option \<times> node) \<times> event list" where
  "node_send now rid dest text n =
     (if dest = nd_id n then ((Some (IsThisNode dest), n), [])
      else
        let p = new_text rid (alg_proto (nd_alg n)) type_message (nd_addr n) (node_address n dest) text;
            p = set_header header_via (GStr (nd_addr n)) (append_trace (nd_addr n) p);
            n = n\<lparr>nd_seen := snd (seen now (header_string p header_msg_id) (nd_seen n))\<rparr>
        in case alg_forward (fabric_of n) p (nd_alg n) of
             (hops, lines) \<Rightarrow>
               if hops = [] then ((Some (NoRouteTo dest), n), lines)
               else ((None, n), lines @ send_copies p hops @ [Log (SentVia dest hops)]))"

definition node_table :: "node \<Rightarrow> table" where
  "node_table n = alg_table (nd_alg n)"

definition node_topology :: "node \<Rightarrow> link list" where
  "node_topology n = alg_topology (fabric_of n) (nd_alg n)"

section \<open>Starting, and the steps of a running node\<close>

text \<open>What \<open>Start\<close> makes the algorithm do at once: only the static mode computes its table.\<close>

fun alg_start :: "string \<Rightarrow> any_alg \<Rightarrow> any_alg" where
  "alg_start self (IsDijkstra s) = IsDijkstra (dj_start self s)"
| "alg_start self (IsFlooding s) = IsFlooding s"
| "alg_start self (IsLsr s) = IsLsr s"

definition node_start :: "node \<Rightarrow> node" where
  "node_start n = n\<lparr>nd_alg := alg_start (nd_id n) (nd_alg n)\<rparr>"

text \<open>The tickers of the algorithm; only the link-state one has any.\<close>

fun alg_refresh :: "fabric \<Rightarrow> gotime \<Rightarrow> string \<Rightarrow> any_alg \<Rightarrow> any_alg \<times> event list" where
  "alg_refresh fab now rid (IsLsr s) = map_prod IsLsr id (lsr_refresh fab now rid s)"
| "alg_refresh fab now rid s = (s, [])"

fun alg_sweep :: "fabric \<Rightarrow> gotime \<Rightarrow> any_alg \<Rightarrow> any_alg \<times> event list" where
  "alg_sweep fab now (IsLsr s) = map_prod IsLsr id (lsr_sweep fab now s)"
| "alg_sweep fab now s = (s, [])"

inductive node_step :: "node \<Rightarrow> event list \<Rightarrow> node \<Rightarrow> bool" where
  step_receive: "decode data = Some p \<Longrightarrow> receive p n = (n', out) \<Longrightarrow> node_step n out n'"
| step_forward: "forwarding_turn now rid rid' n = Some (n', out) \<Longrightarrow> node_step n out n'"
| step_tick: "discovery_tick now started ids ids' n = (n', out) \<Longrightarrow> node_step n out n'"
| step_send: "node_send now rid dest text n = ((e, n'), out) \<Longrightarrow> node_step n out n'"
| step_alg_refresh: "on_alg (\<lambda>fab. alg_refresh fab now rid) n = (n', out) \<Longrightarrow> node_step n out n'"
| step_alg_sweep: "on_alg (\<lambda>fab. alg_sweep fab now) n = (n', out) \<Longrightarrow> node_step n out n'"

text \<open>The nodes a loaded configuration can lead to.\<close>

inductive node_reaches :: "node \<Rightarrow> bool" where
  node_new: "topology_ok (o_topology opts) \<Longrightarrow> new_node opts = Inr n \<Longrightarrow> node_reaches (node_start n)"
| node_next: "node_reaches n \<Longrightarrow> node_step n out n' \<Longrightarrow> node_reaches n'"

end
