(* ===== verification/Node_Invariant.thy ===== *)
theory Node_Invariant
  imports Node_Forward
begin

text \<open>
  What stays true of a running node: the discovery plane and the routing algorithm agree on
  which links are up and what they cost, no cost is ever a NaN, the inbox is bounded, and
  the invariant of the algorithm holds. The proof goes through every step of \<open>node_step\<close>;
  the algorithm is only used through its contract and through what its link events do to
  the links it has on file.
\<close>

section \<open>What the algorithm has on file\<close>

text \<open>
  The costs reported up are the links on file, except in the static mode, which only
  remembers the neighbours reported down.
\<close>

fun on_file :: "(string \<Rightarrow> float64 option) \<Rightarrow> any_alg \<Rightarrow> bool" where
  "on_file live (IsDijkstra s) = (\<forall>pid. is_down (da_down s) pid \<longrightarrow> live pid = None)"
| "on_file live (IsFlooding s) = (\<forall>pid. mget (fl_costs s) pid = live pid)"
| "on_file live (IsLsr s) = (\<forall>pid. mget (ls_links s) pid = live pid)"

lemma on_file_up: "on_file live a \<Longrightarrow> on_file (live(pid := Some c)) (fst (alg_link_up fab now rid pid c a))"
proof (cases a)
  case (IsDijkstra s)
  assume "on_file live a"
  with IsDijkstra show ?thesis
    by (auto simp: dijkstra_ops_def dj_link_up_def dj_recompute_def Let_def)
next
  case (IsFlooding s)
  assume "on_file live a"
  with IsFlooding show ?thesis by (simp add: flooding_ops_def flooding_link_up_def)
next
  case (IsLsr s)
  assume "on_file live a"
  with IsLsr show ?thesis by (auto simp: lsr_ops_def fst_link_up Let_def)
qed

lemma on_file_down: "on_file live a \<Longrightarrow> on_file (live(pid := None)) (fst (alg_link_down fab now rid pid a))"
proof (cases a)
  case (IsDijkstra s)
  assume "on_file live a"
  with IsDijkstra show ?thesis
    by (auto simp: dijkstra_ops_def dj_link_down_def dj_recompute_def Let_def)
next
  case (IsFlooding s)
  assume "on_file live a"
  with IsFlooding show ?thesis by (simp add: flooding_ops_def flooding_link_down_def)
next
  case (IsLsr s)
  assume "on_file live a"
  with IsLsr show ?thesis by (auto simp: lsr_ops_def fst_link_down mhas_def)
qed

lemma learn_links: "ls_links (fst (lsr_learn fab now p l s)) = ls_links s"
proof -
  obtain s' out where r: "lsr_learn fab now p l s = (s', out)" by (cases "lsr_learn fab now p l s")
  show ?thesis by (auto simp: lsr_learn_def Let_def split: prod.split) (metis store_fields(1) snd_conv)+
qed

lemma info_links: "ls_links (fst (lsr_handle_info fab now rid p s)) = ls_links s"
  by (simp add: fst_handle_info Let_def learn_links split: option.split)

lemma sweep_links: "ls_links (fst (lsr_sweep fab now s)) = ls_links s"
  by (simp add: fst_sweep fst_report)

lemma on_file_other:
  "on_file live a \<Longrightarrow> on_file live (fst (alg_handle_info fab now rid p a))"
  "on_file live a \<Longrightarrow> on_file live (fst (alg_refresh fab now rid a))"
  "on_file live a \<Longrightarrow> on_file live (fst (alg_sweep fab now a))"
  by (cases a; simp add: dijkstra_ops_def dj_handle_info_def flooding_ops_def flooding_handle_info_def
      lsr_ops_def info_links lsr_refresh_def sweep_links)+

lemma alg_inv_other:
  "alg_inv (fb_id fab) a \<Longrightarrow> alg_inv (fb_id fab) (fst (alg_refresh fab now rid a))"
  "alg_inv (fb_id fab) a \<Longrightarrow> alg_inv (fb_id fab) (fst (alg_sweep fab now a))"
  by (cases a; simp add: lsr_refresh_def announce_inv lsr_sweep_inv)+

lemma alg_contract:
  "alg_inv (fb_id fab) a \<Longrightarrow> alg_inv (fb_id fab) (fst (alg_handle_info fab now rid p a))"
  "alg_inv (fb_id fab) a \<Longrightarrow> c \<noteq> fnan \<Longrightarrow> alg_inv (fb_id fab) (fst (alg_link_up fab now rid pid c a))"
  "alg_inv (fb_id fab) a \<Longrightarrow> alg_inv (fb_id fab) (fst (alg_link_down fab now rid pid a))"
  using al.info_inv al.up_inv al.down_inv by (simp_all add: alg_ops_def)

section \<open>The invariant\<close>

definition live_cost :: "node \<Rightarrow> string \<Rightarrow> float64 option" where
  "live_cost n pid =
     (case mget (nd_neighbors n) pid of None \<Rightarrow> None | Some st \<Rightarrow> if nb_alive st then Some (nb_cost st) else None)"

definition neighbors_ok :: "node \<Rightarrow> bool" where
  "neighbors_ok n \<longleftrightarrow> wf_map (nd_neighbors n) \<and>
     (\<forall>pid st. mget (nd_neighbors n) pid = Some st \<longrightarrow>
        nb_cost st \<noteq> fnan \<and> (nb_alive st \<longrightarrow> pid \<noteq> [] \<and> pid \<noteq> nd_id n))"

text \<open>A packet as the server hands it over.\<close>

definition inbound_ok :: "packet \<Rightarrow> bool" where
  "inbound_ok p \<longleftrightarrow>
     0 < sint (p_ttl p) \<and> header_string p header_msg_id \<noteq> [] \<and>
     (\<forall>k x. header_float p k = Some x \<longrightarrow> is_finite x)"

definition node_inv :: "node \<Rightarrow> bool" where
  "node_inv n \<longleftrightarrow>
     neighbors_ok n \<and> alg_inv (nd_id n) (nd_alg n) \<and> on_file (live_cost n) (nd_alg n) \<and>
     seen_ok (nd_seen n) \<and> sc_ttl (nd_seen n) = message_seen_ttl \<and>
     length (nd_inbox n) \<le> inbox_size \<and> list_all inbound_ok (nd_inbox n)"

lemma live_neighbors_iff: "wf_map (nd_neighbors n) \<Longrightarrow> pid \<in> set (live_neighbors n) \<longleftrightarrow> live_cost n pid \<noteq> None"
proof -
  assume wf: "wf_map (nd_neighbors n)"
  have "pid \<in> set (live_neighbors n) \<longleftrightarrow> (\<exists>st. (pid, st) \<in> set (nd_neighbors n) \<and> nb_alive st)"
    by (force simp: live_neighbors_def)
  also have "\<dots> \<longleftrightarrow> (\<exists>st. mget (nd_neighbors n) pid = Some st \<and> nb_alive st)"
    by (simp add: mget_iff [OF wf])
  finally show ?thesis by (auto simp: live_cost_def split: option.splits)
qed

lemma live_neighbors_distinct: "wf_map (nd_neighbors n) \<Longrightarrow> distinct (live_neighbors n)"
  by (simp add: live_neighbors_def wf_map_def distinct_map_filter)

text \<open>A call into the algorithm changes nothing else.\<close>

lemma on_alg_fields [simp]:
  "nd_id (fst (on_alg f n)) = nd_id n" "nd_neighbors (fst (on_alg f n)) = nd_neighbors n"
  "nd_seen (fst (on_alg f n)) = nd_seen n" "nd_inbox (fst (on_alg f n)) = nd_inbox n"
  "nd_names (fst (on_alg f n)) = nd_names n" "nd_addr (fst (on_alg f n)) = nd_addr n"
  "nd_port (fst (on_alg f n)) = nd_port n" "nd_warned (fst (on_alg f n)) = nd_warned n"
  "nd_verbose (fst (on_alg f n)) = nd_verbose n" "nd_mode (fst (on_alg f n)) = nd_mode n"
  "nd_alg (fst (on_alg f n)) = fst (f (fabric_of n) (nd_alg n))"
  by (simp_all add: on_alg_def split: prod.split)

lemma snd_on_alg: "snd (on_alg f n) = snd (f (fabric_of n) (nd_alg n))"
  by (simp add: on_alg_def split: prod.split)

lemma and_then_fst [simp]: "fst (and_then r f) = fst (f (fst r))"
  by (simp add: and_then_def split: prod.split)

lemma and_then_snd [simp]: "snd (and_then r f) = snd r @ snd (f (fst r))"
  by (simp add: and_then_def split: prod.split)

section \<open>Steps of the discovery plane keep it\<close>

lemma live_cost_mput:
  "live_cost (n\<lparr>nd_neighbors := mput pid st (nd_neighbors n)\<rparr>) =
     (live_cost n)(pid := if nb_alive st then Some (nb_cost st) else None)"
  by (rule ext) (simp add: live_cost_def)

lemma live_cost_on_alg [simp]: "live_cost (fst (on_alg f n)) = live_cost n"
  by (rule ext) (simp add: live_cost_def)

lemma neighbors_ok_on_alg [simp]: "neighbors_ok (fst (on_alg f n)) = neighbors_ok n"
  by (simp add: neighbors_ok_def)

lemma neighbors_ok_mput:
  "neighbors_ok n \<Longrightarrow> nb_cost st \<noteq> fnan \<Longrightarrow> (nb_alive st \<longrightarrow> pid \<noteq> [] \<and> pid \<noteq> nd_id n) \<Longrightarrow>
   neighbors_ok (n\<lparr>nd_neighbors := mput pid st (nd_neighbors n)\<rparr>)"
  by (simp add: neighbors_ok_def)

lemma report_up_inv:
  assumes "node_inv n" and "pid \<noteq> []" "pid \<noteq> nd_id n" "nb_alive st" "nb_cost st \<noteq> fnan"
  shows "node_inv (fst (on_alg (\<lambda>fab. alg_link_up fab now rid pid (nb_cost st))
    (n\<lparr>nd_neighbors := mput pid st (nd_neighbors n)\<rparr>)))"
proof -
  let ?n = "n\<lparr>nd_neighbors := mput pid st (nd_neighbors n)\<rparr>"
  have "alg_inv (fb_id (fabric_of ?n)) (fst (alg_link_up (fabric_of ?n) now rid pid (nb_cost st) (nd_alg n)))"
    using assms by (intro alg_contract(2)) (simp_all add: node_inv_def)
  moreover have "on_file (live_cost ?n) (fst (alg_link_up (fabric_of ?n) now rid pid (nb_cost st) (nd_alg n)))"
    using assms by (simp add: live_cost_mput node_inv_def on_file_up)
  ultimately show ?thesis
    using assms neighbors_ok_mput [of n st pid] by (simp add: node_inv_def)
qed

lemma alg_step_inv:
  assumes "node_inv n"
    and "\<And>fab a live. on_file live a \<Longrightarrow> on_file live (fst (f fab a))"
    and "\<And>fab a. alg_inv (fb_id fab) a \<Longrightarrow> alg_inv (fb_id fab) (fst (f fab a))"
  shows "node_inv (fst (on_alg f n))"
  using assms(1) assms(2) [of "live_cost n" "nd_alg n" "fabric_of n"] assms(3) [of "fabric_of n" "nd_alg n"]
  by (simp add: node_inv_def)

lemma f64_one_ok: "cost_ok (f64 1)"
  by code_simp

lemma mark_alive_inv: "node_inv n \<Longrightarrow> node_inv (fst (mark_alive now rid nb n))"
proof (cases "nb = [] \<or> nb = nd_id n")
  case False
  assume i: "node_inv n"
  define st where "st = (case mget (nd_neighbors n) nb of Some st \<Rightarrow> st | None \<Rightarrow> \<lparr>nb_alive = False, nb_cost = f64 1, nb_last = zero_time\<rparr>)"
  let ?st = "st\<lparr>nb_alive := True, nb_last := now\<rparr>"
  have c: "nb_cost ?st \<noteq> fnan"
    using i by (auto simp: st_def node_inv_def neighbors_ok_def split: option.split)
  have up: "node_inv (fst (on_alg (\<lambda>fab. alg_link_up fab now rid nb (nb_cost ?st)) (n\<lparr>nd_neighbors := mput nb ?st (nd_neighbors n)\<rparr>)))"
    using False c by (intro report_up_inv [OF i]) auto
  have "live_cost (n\<lparr>nd_neighbors := mput nb ?st (nd_neighbors n)\<rparr>) = live_cost n" if "nb_alive st"
  proof
    fix pid
    from that have "mget (nd_neighbors n) nb = Some st" by (auto simp: st_def split: option.splits)
    with that show "live_cost (n\<lparr>nd_neighbors := mput nb ?st (nd_neighbors n)\<rparr>) pid = live_cost n pid"
      by (simp add: live_cost_def)
  qed
  then have stay: "node_inv (n\<lparr>nd_neighbors := mput nb ?st (nd_neighbors n)\<rparr>)" if "nb_alive st"
    using i that False c neighbors_ok_mput [of n ?st nb] by (simp add: node_inv_def)
  have "fst (mark_alive now rid nb n) =
      (let n' = n\<lparr>nd_neighbors := mput nb ?st (nd_neighbors n)\<rparr>
       in if nb_alive st then n' else fst (on_alg (\<lambda>fab. alg_link_up fab now rid nb (nb_cost st)) n'))"
    using False by (simp add: mark_alive_def Let_def st_def)
  with up stay show ?thesis by (simp add: Let_def)
qed (simp add: mark_alive_def)

lemma scales: "scale_ok (fsub (f64 1) cost_smoothing)" "scale_ok cost_smoothing" "scale_ok (f64 1000)" "scale_ok (f64 2)"
  by code_simp+

lemma smoothed_not_nan: "cost_ok cost \<Longrightarrow> nb_cost st \<noteq> fnan \<Longrightarrow> smoothed st cost \<noteq> fnan"
proof -
  assume h: "cost_ok cost" "nb_cost st \<noteq> fnan"
  have "cost_ok (fadd (fmul (nb_cost st) (fsub (f64 1) cost_smoothing)) (fmul cost cost_smoothing))" if "fless f0 (nb_cost st)"
    using that h scales by (intro cost_ok_fadd cost_ok_fmul) (auto simp: cost_ok_def fless_def)
  with h show ?thesis by (auto simp: smoothed_def cost_ok_def)
qed

lemma mark_alive_with_cost_inv:
  "node_inv n \<Longrightarrow> cost_ok cost \<Longrightarrow> node_inv (fst (mark_alive_with_cost now rid nb cost n))"
proof (cases "nb = [] \<or> nb = nd_id n")
  case False
  assume i: "node_inv n" and c: "cost_ok cost"
  define st where "st = (case mget (nd_neighbors n) nb of Some st \<Rightarrow> st | None \<Rightarrow> \<lparr>nb_alive = False, nb_cost = f0, nb_last = zero_time\<rparr>)"
  let ?st = "\<lparr>nb_alive = True, nb_cost = smoothed st cost, nb_last = now\<rparr>"
  have "nb_cost st \<noteq> fnan"
    using i by (auto simp: st_def node_inv_def neighbors_ok_def split: option.split)
  then have "node_inv (fst (on_alg (\<lambda>fab. alg_link_up fab now rid nb (nb_cost ?st)) (n\<lparr>nd_neighbors := mput nb ?st (nd_neighbors n)\<rparr>)))"
    using False smoothed_not_nan [OF c] by (intro report_up_inv [OF i]) auto
  moreover have "fst (mark_alive_with_cost now rid nb cost n) =
      fst (on_alg (\<lambda>fab. alg_link_up fab now rid nb (smoothed st cost)) (n\<lparr>nd_neighbors := mput nb ?st (nd_neighbors n)\<rparr>))"
    using False by (simp add: mark_alive_with_cost_def Let_def st_def)
  ultimately show ?thesis by simp
qed (simp add: mark_alive_with_cost_def)

text \<open>Reaping: after the marks the algorithm still has to hear of the dead, one by one.\<close>

lemma mget_mark:
  "mget (nd_neighbors (snd (reap_mark now n))) pid =
     map_option (\<lambda>st. if overdue now st then st\<lparr>nb_alive := False\<rparr> else st) (mget (nd_neighbors n) pid)"
  by (simp add: reap_mark_def mget_map_value)

lemma live_cost_mark:
  assumes wf: "wf_map (nd_neighbors n)"
  shows "live_cost (snd (reap_mark now n)) pid =
    (if pid \<in> set (fst (reap_mark now n)) then None else live_cost n pid)"
proof -
  have "pid \<in> set (fst (reap_mark now n)) \<longleftrightarrow> (\<exists>st. mget (nd_neighbors n) pid = Some st \<and> overdue now st)"
    by (force simp: reap_mark_def mget_iff [OF wf])
  then show ?thesis by (auto simp: live_cost_def mget_mark split: option.split)
qed

lemma neighbors_ok_mark: "neighbors_ok n \<Longrightarrow> neighbors_ok (snd (reap_mark now n))"
proof -
  assume h: "neighbors_ok n"
  have "wf_map (nd_neighbors (snd (reap_mark now n)))"
    using h by (simp add: neighbors_ok_def wf_map_def reap_mark_def comp_def case_prod_unfold)
  with h show ?thesis by (auto simp: neighbors_ok_def mget_mark) (auto simp: reap_mark_def split: if_splits)
qed

lemma reap_notify_inv:
  assumes "neighbors_ok n" "alg_inv (nd_id n) (nd_alg n)" "on_file live (nd_alg n)"
    and "\<forall>pid. live_cost n pid = (if pid \<in> set dead then None else live pid)"
    and "seen_ok (nd_seen n)" "sc_ttl (nd_seen n) = message_seen_ttl" "length (nd_inbox n) \<le> inbox_size"
    and "list_all inbound_ok (nd_inbox n)"
  shows "node_inv (fst (reap_notify now ids dead n))"
  using assms
proof (induction dead arbitrary: n live)
  case Nil
  then have "live_cost n = live" by (intro ext) simp
  with Nil show ?case by (simp add: node_inv_def)
next
  case (Cons pid dead)
  let ?n = "fst (on_alg (\<lambda>fab. alg_link_down fab now (ids pid) pid) n)"
  have "node_inv (fst (reap_notify now ids dead ?n))"
  proof (rule Cons.IH [where live = "live(pid := None)"])
    show "alg_inv (nd_id ?n) (nd_alg ?n)"
      using Cons.prems(2) alg_contract(3) [of "fabric_of n" "nd_alg n"] by simp
    show "on_file (live(pid := None)) (nd_alg ?n)" using Cons.prems(3) by (simp add: on_file_down)
  qed (use Cons.prems in auto)
  then show ?case by simp
qed

lemma reap_dead_inv: "node_inv n \<Longrightarrow> node_inv (fst (reap_dead now ids n))"
proof -
  assume i: "node_inv n"
  obtain dead m where m: "reap_mark now n = (dead, m)" by fastforce
  have fields: "nd_id m = nd_id n" "nd_alg m = nd_alg n" "nd_seen m = nd_seen n" "nd_inbox m = nd_inbox n"
    using m by (auto simp: reap_mark_def)
  have "wf_map (nd_neighbors n)" using i by (simp add: node_inv_def neighbors_ok_def)
  from live_cost_mark [OF this, of now] m have "\<forall>pid. live_cost m pid = (if pid \<in> set dead then None else live_cost n pid)"
    by simp
  moreover have "neighbors_ok m" using i neighbors_ok_mark [of n now] m by (simp add: node_inv_def)
  ultimately have "node_inv (fst (reap_notify now ids dead m))"
    using i by (intro reap_notify_inv [where live = "live_cost n"]) (simp_all add: node_inv_def fields)
  then show ?thesis by (simp add: reap_dead_def m)
qed

lemma warn_each_fields [simp]:
  "nd_id (fst (warn_each ids n)) = nd_id n" "nd_alg (fst (warn_each ids n)) = nd_alg n"
  "nd_neighbors (fst (warn_each ids n)) = nd_neighbors n" "nd_seen (fst (warn_each ids n)) = nd_seen n"
  "nd_inbox (fst (warn_each ids n)) = nd_inbox n" "nd_names (fst (warn_each ids n)) = nd_names n"
  by (induction ids arbitrary: n) (simp_all add: Let_def)

lemma node_inv_cong:
  "nd_id m = nd_id n \<Longrightarrow> nd_alg m = nd_alg n \<Longrightarrow> nd_neighbors m = nd_neighbors n \<Longrightarrow> nd_seen m = nd_seen n \<Longrightarrow>
   nd_inbox m = nd_inbox n \<Longrightarrow> node_inv m = node_inv n"
  by (simp add: node_inv_def neighbors_ok_def live_cost_def [abs_def])

lemma warn_inv: "node_inv n \<Longrightarrow> node_inv (fst (warn_silent_neighbors now started n))"
  using node_inv_cong [of "fst (warn_each (silent_neighbors n) n)" n] by (simp add: warn_silent_neighbors_def)

lemma tick_inv: "node_inv n \<Longrightarrow> node_inv (fst (discovery_tick now started ids ids' n))"
  by (simp add: discovery_tick_def probe_all_def warn_inv reap_dead_inv)

section \<open>Packets keep it\<close>

lemma min_cost_ok: "cost_ok min_cost" "min_cost \<noteq> fnan"
  by code_simp+

lemma measured_cost_bounds:
  assumes "inbound_ok p"
  shows "min_cost \<le> measured_cost now p" and "cost_ok (measured_cost now p)"
proof -
  have n: "now_seconds now \<noteq> fnan" unfolding now_seconds_def by (rule fdiv_not_nan) (simp, code_simp)
  have "fdiv (fmul (fsub (now_seconds now) t0) (f64 1000)) (f64 2) \<noteq> fnan" if "header_float p header_t0 = Some t0" for t0
    using n that assms scales by (intro fdiv_not_nan fmul_not_nan fsub_not_nan) (auto simp: inbound_ok_def)
  then have "measured_cost now p \<noteq> fnan \<and> min_cost \<le> measured_cost now p"
    using min_cost_ok(2) by (auto simp: measured_cost_def fless_def Let_def split: option.split)
  then show "min_cost \<le> measured_cost now p" "cost_ok (measured_cost now p)"
    using min_cost_ok cost_ok_le by auto
qed

lemma hello_inv: "node_inv n \<Longrightarrow> node_inv (fst (handle_hello now rid rid' p n))"
  by (simp add: handle_hello_def Let_def mark_alive_inv split: option.split)

lemma echo_inv: "node_inv n \<Longrightarrow> inbound_ok p \<Longrightarrow> node_inv (fst (handle_echo now rid p n))"
  by (simp add: handle_echo_def mark_alive_with_cost_inv measured_cost_bounds)

lemma live_cost_cong: "nd_neighbors m = nd_neighbors n \<Longrightarrow> live_cost m = live_cost n"
  by (rule ext) (simp add: live_cost_def)

lemma seen_update_inv: "node_inv n \<Longrightarrow> node_inv (n\<lparr>nd_seen := snd (seen now pid (nd_seen n))\<rparr>)"
  using live_cost_cong [of "n\<lparr>nd_seen := snd (seen now pid (nd_seen n))\<rparr>" n]
  by (simp add: node_inv_def neighbors_ok_def seen_ok_seen)

lemma fst_handle_message:
  "fst (handle_message now p n) = n\<lparr>nd_seen := snd (seen now (header_string p header_msg_id) (nd_seen n))\<rparr>"
  by (simp add: handle_message_def Let_def split: prod.split option.split)

lemma message_inv: "node_inv n \<Longrightarrow> node_inv (fst (handle_message now p n))"
  by (simp add: fst_handle_message seen_update_inv)

lemma handle_inv: "node_inv n \<Longrightarrow> inbound_ok p \<Longrightarrow> node_inv (fst (handle now rid rid' p n))"
  by (simp add: handle_def hello_inv echo_inv message_inv mark_alive_inv alg_step_inv on_file_other alg_contract)

lemma turn_inv: "node_inv n \<Longrightarrow> forwarding_turn now rid rid' n = Some (n', out) \<Longrightarrow> node_inv n'"
proof -
  assume i: "node_inv n" and t: "forwarding_turn now rid rid' n = Some (n', out)"
  then obtain p ps where p: "nd_inbox n = p # ps" and r: "handle now rid rid' p (n\<lparr>nd_inbox := ps\<rparr>) = (n', out)"
    by (auto simp: forwarding_turn_def split: list.splits)
  have "node_inv (n\<lparr>nd_inbox := ps\<rparr>)"
    using i p live_cost_cong [of "n\<lparr>nd_inbox := ps\<rparr>" n] by (simp add: node_inv_def neighbors_ok_def)
  moreover have "inbound_ok p" using i p by (simp add: node_inv_def)
  ultimately show "node_inv n'" using handle_inv [of "n\<lparr>nd_inbox := ps\<rparr>" p now rid rid'] r by simp
qed

lemma receive_inv: "node_inv n \<Longrightarrow> inbound_ok p \<Longrightarrow> node_inv (fst (receive p n))"
  using live_cost_cong [of "n\<lparr>nd_inbox := nd_inbox n @ [p]\<rparr>" n]
  by (simp add: receive_def node_inv_def neighbors_ok_def)

lemma send_inv: "node_inv n \<Longrightarrow> node_inv (snd (fst (node_send now rid dest text n)))"
  by (simp add: node_send_def Let_def seen_update_inv split: prod.split)

section \<open>Running nodes\<close>

lemma decoded_inbound: "decode data = Some p \<Longrightarrow> inbound_ok p"
  using decode_defaults decoded_numbers by (auto simp: inbound_ok_def)

lemma topo_links_ok:
  assumes "topology_ok t"
  shows "wf_map (topo_neighbors t pid)" and "(v, c) \<in> set (topo_neighbors t pid) \<Longrightarrow> is_finite c"
proof -
  have "wf_map (topo_neighbors t pid) \<and> list_all (\<lambda>(v, c). is_finite c) (topo_neighbors t pid)"
  proof (cases "mget (t_config t) pid")
    case (Some links)
    then have "wf_map links \<and> list_all (\<lambda>(v, c). is_finite c) links"
      using assms mget_SomeD [OF Some] by (auto simp: topology_ok_def list_all_iff)
    then show ?thesis by (simp add: topo_neighbors_def Some put_all_fresh)
  qed (simp add: topo_neighbors_def)
  then show "wf_map (topo_neighbors t pid)" "(v, c) \<in> set (topo_neighbors t pid) \<Longrightarrow> is_finite c"
    by (auto simp: list_all_iff)
qed

lemma nan_free_graph_from: "topology_ok t \<Longrightarrow> nan_free (graph_from t)"
proof -
  assume "topology_ok t"
  then have "links_nan_free (configured_links t)"
    by (fastforce simp: topology_ok_def links_nan_free_def configured_links_def list_all_iff finite_not_nan)
  then show ?thesis by (simp add: graph_from_def nan_free_graph_of_links)
qed

lemma new_node_inv:
  assumes "topology_ok (o_topology opts)" and "new_node opts = Inr n"
  shows "node_inv (node_start n)"
proof -
  let ?nbs = "map (\<lambda>(p, c). (p, \<lparr>nb_alive = False, nb_cost = c, nb_last = zero_time\<rparr>)) (topo_neighbors (o_topology opts) (o_id opts))"
  from assms(2) obtain a where a: "alg_of_mode (o_mode opts) (o_topology opts) = Some a"
    and n: "nd_alg n = a" "nd_id n = o_id opts" "nd_neighbors n = ?nbs" "nd_inbox n = []"
      "nd_seen n = new_seen_cache message_seen_ttl"
    by (auto simp: new_node_def Let_def split: option.splits)
  have get: "mget ?nbs p = map_option (\<lambda>c. \<lparr>nb_alive = False, nb_cost = c, nb_last = zero_time\<rparr>) (mget (topo_neighbors (o_topology opts) (o_id opts)) p)" for p
    by (rule mget_map_value)
  have none: "live_cost (node_start n) = (\<lambda>pid. None)"
    by (rule ext) (simp add: live_cost_def node_start_def n get split: option.split)
  have "c \<noteq> fnan" if "mget (topo_neighbors (o_topology opts) (o_id opts)) p = Some c" for p c
    using topo_links_ok(2) [OF assms(1) mget_SomeD [OF that]] by (rule finite_not_nan)
  then have nb: "neighbors_ok (node_start n)"
    using topo_links_ok(1) [OF assms(1), of "o_id opts"]
    by (auto simp: neighbors_ok_def node_start_def n get) (simp add: wf_map_def comp_def case_prod_unfold)
  have "alg_inv (o_id opts) (alg_start (o_id opts) a) \<and> on_file (\<lambda>pid. None) (alg_start (o_id opts) a)"
    using a by (auto simp: alg_of_mode_def dj_start_def dj_inv_recompute flooding_inv_def new_flooding_def new_lsr_inv
        split: if_splits) (simp_all add: new_lsr_def)
  with nb none show ?thesis
    by (simp add: node_inv_def) (simp add: node_start_def n)
qed

lemma node_step_inv: "node_step n out n' \<Longrightarrow> node_inv n \<Longrightarrow> node_inv n'"
proof (induction rule: node_step.induct)
  case (step_receive data p n n' out)
  then show ?case using receive_inv [of n p] decoded_inbound by simp
next
  case (step_forward now rid rid' n n' out)
  then show ?case using turn_inv by blast
next
  case (step_tick now begun ids ids' n n' out)
  then show ?case using tick_inv [of n now begun ids ids'] by simp
next
  case (step_send now rid dest msg n e n' out)
  then show ?case using send_inv [of n now rid dest msg] by simp
next
  case (step_alg_refresh now rid n n' out)
  then show ?case using alg_step_inv [of n "\<lambda>fab. alg_refresh fab now rid"] by (simp add: on_file_other alg_inv_other)
next
  case (step_alg_sweep now n n' out)
  then show ?case using alg_step_inv [of n "\<lambda>fab. alg_sweep fab now"] by (simp add: on_file_other alg_inv_other)
qed

lemma node_reaches_inv: "node_reaches n \<Longrightarrow> node_inv n"
  by (induction rule: node_reaches.induct) (auto intro: new_node_inv node_step_inv)

end
