(* ===== verification/Proto_Own.thy ===== *)
theory Proto_Own
  imports Proto_Payload
begin

text \<open>
  The packets this program builds: every header entry holds one value, the payload is the
  print of an object or a string, and all text is UTF-8. Setting headers, copying and taking
  a hop keep that shape, and a packet of that shape with a hop left crosses the wire unchanged.
\<close>

section \<open>The shape\<close>

fun flat_value :: "goval \<Rightarrow> bool" where
  "flat_value (GNum x) = is_finite x"
| "flat_value (GStr s) = utf8_valid s"
| "flat_value (GStrs ss) = (\<forall>s \<in> set ss. utf8_valid s)"
| "flat_value (GArr vs) = (\<forall>v \<in> set vs. case v of GStr s \<Rightarrow> utf8_valid s | _ \<Rightarrow> False)"
| "flat_value _ = False"

lemma flat_array: "flat_value (GArr vs) \<Longrightarrow> \<exists>ss. vs = map GStr ss \<and> (\<forall>s \<in> set ss. utf8_valid s)"
proof (induction vs)
  case (Cons v vs)
  then obtain s ss where "v = GStr s" "utf8_valid s" "vs = map GStr ss" "\<forall>s \<in> set ss. utf8_valid s"
    by (cases v) auto
  then show ?case by (intro exI [of _ "s # ss"]) simp
qed simp

lemma flat_ok: "flat_value v \<Longrightarrow> any_ok v"
proof (cases v)
  case (GArr vs)
  assume "flat_value v"
  with GArr show ?thesis using flat_array [of vs] by (auto simp del: flat_value.simps)
qed auto

lemma flat_norm: "flat_value v \<Longrightarrow> flat_value (norm_any v)"
proof (cases v)
  case (GArr vs)
  assume "flat_value v"
  with GArr show ?thesis using flat_array [of vs] by (auto simp del: flat_value.simps(4)) (auto simp: comp_def)
qed auto

definition singles :: "(string \<times> goval) list \<Rightarrow> header list" where
  "singles kvs = map (\<lambda>kv. [kv]) kvs"

lemma find_singles [simp]: "find_header k (singles kvs) = mget kvs k"
  by (induction kvs) (auto simp: singles_def split: option.split)

lemma put_singles [simp]: "put_header k v (singles kvs) = singles (mput k v kvs)"
  by (induction kvs) (auto simp: singles_def)

text \<open>A payload as \<open>Marshal\<close> writes it, well inside the nesting limit.\<close>

definition plain_payload :: "string \<Rightarrow> bool" where
  "plain_payload s \<longleftrightarrow> (\<exists>q. s = json_print q \<and> wf_json q \<and> html_clean q \<and> json_depth q \<le> 9)"

definition own_packet :: "packet \<Rightarrow> bool" where
  "own_packet p \<longleftrightarrow>
     utf8_valid (p_proto p) \<and> utf8_valid (p_type p) \<and> utf8_valid (p_from p) \<and> utf8_valid (p_to p) \<and>
     plain_payload (p_payload p) \<and>
     (\<exists>kvs. p_headers p = singles kvs \<and> (\<forall>(k, v) \<in> set kvs. utf8_valid k \<and> flat_value v)) \<and>
     (\<exists>rid. header p header_msg_id = Some (GStr rid) \<and> rid \<noteq> [])"

section \<open>It crosses the wire\<close>

lemma flat_json:
  assumes "utf8_valid k" "flat_value v"
  shows "\<exists>j. of_any True (GObj [(k, v)]) = Some j \<and> json_depth j \<le> 2"
proof -
  have arr: "json_depth (JArr (map (quote_str True) ss)) \<le> 1" for ss
  proof -
    have "foldr max (map json_depth (map (quote_str True) ss)) 0 = 0"
      by (induction ss) (simp_all add: quote_str_def)
    then show ?thesis by simp
  qed
  show ?thesis
  proof (cases v)
    case (GArr vs)
    with assms(2) obtain ss where ss: "vs = map GStr ss" "\<forall>s \<in> set ss. utf8_valid s" using flat_array by blast
    have "those (map (of_any True) (map GStr ss)) = Some (map (quote_str True) ss)" by (simp add: those_iff)
    then show ?thesis using arr [of ss] by (simp add: GArr ss(1))
  qed (use assms(2) arr in \<open>auto simp: quote_str_def\<close>)
qed

lemma flat_headers_json:
  assumes "\<forall>(k, v) \<in> set kvs. utf8_valid k \<and> flat_value v"
  shows "\<exists>hs. those (map (\<lambda>h. of_any True (GObj h)) (singles kvs)) = Some hs \<and> json_depth (JArr hs) \<le> 3"
proof -
  have "\<exists>hs. those (map (\<lambda>h. of_any True (GObj h)) (singles kvs)) = Some hs \<and> (\<forall>h \<in> set hs. json_depth h \<le> 2)"
    using assms
  proof (induction kvs)
    case (Cons kv kvs)
    then obtain hs where hs: "those (map (\<lambda>h. of_any True (GObj h)) (singles kvs)) = Some hs" "\<forall>h \<in> set hs. json_depth h \<le> 2"
      by auto
    obtain k v where kv: "kv = (k, v)" by (cases kv)
    with Cons.prems obtain j where "of_any True (GObj [(k, v)]) = Some j" "json_depth j \<le> 2"
      using flat_json [of k v] by auto
    with hs show ?case by (simp add: kv singles_def del: of_any.simps)
  qed (simp add: singles_def)
  moreover have "json_depth (JArr hs) \<le> 3" if "\<forall>h \<in> set hs. json_depth h \<le> 2" for hs
    using foldr_max_const [of "map json_depth hs" 2] that by simp
  ultimately show ?thesis by blast
qed

lemma own_wire: "own_packet p \<Longrightarrow> \<not> int_le (p_ttl p) 0 \<Longrightarrow> wire_ok p"
proof -
  assume own: "own_packet p" and ttl: "\<not> int_le (p_ttl p) 0"
  from own obtain kvs q rid where kvs: "p_headers p = singles kvs" "\<forall>(k, v) \<in> set kvs. utf8_valid k \<and> flat_value v"
    and q: "p_payload p = json_print q" "wf_json q" "html_clean q" "json_depth q \<le> 9"
    and rid: "header p header_msg_id = Some (GStr rid)" "rid \<noteq> []"
    by (auto simp: own_packet_def plain_payload_def)
  have parse: "json_parse (json_print q) = Some q"
    using q by (intro json_parse_print) (simp_all add: max_depth_def)
  then have "json_print q \<noteq> []" by (auto simp: json_parse_def parse_fuel_def skip_ws_def numeral_2_eq_2)
  with parse q have pl: "payload_json (p_payload p) = Some q" by (simp add: payload_json_def compact_clean)
  obtain hs where hs: "those (map (\<lambda>h. of_any True (GObj h)) (singles kvs)) = Some hs" "json_depth (JArr hs) \<le> 3"
    using flat_headers_json [OF kvs(2)] by blast
  from packet_json_depth [OF hs(1) [folded kvs(1)] pl] hs(2) q(4)
  obtain j where "packet_json p = Some j" "json_depth j \<le> max_depth" by (auto simp: max_depth_def)
  moreover have "list_all (\<lambda>h. any_ok (GObj h)) (p_headers p)"
    using kvs flat_ok by (auto simp: list_all_iff singles_def)
  ultimately show "wire_ok p"
    using own ttl rid parse q by (simp add: wire_ok_def own_packet_def)
qed

text \<open>What arrives: the header entries as they are, values as the decoder types them.\<close>

lemma own_received:
  assumes "own_packet p" and "\<not> int_le (p_ttl p) 0"
  shows "\<exists>data. encode p = Some data \<and> decode data = Some (received p)"
  by (rule decode_encode [OF own_wire [OF assms]])

lemma own_headers_ok: "own_packet p \<Longrightarrow> headers_ok p"
  by (auto simp: own_packet_def headers_ok_def list_all_iff singles_def)

section \<open>The operations keep it\<close>

lemma own_set_header:
  "own_packet p \<Longrightarrow> utf8_valid k \<Longrightarrow> flat_value v \<Longrightarrow> k \<noteq> header_msg_id \<Longrightarrow> own_packet (set_header k v p)"
proof -
  assume own: "own_packet p" and k: "utf8_valid k" "flat_value v" "k \<noteq> header_msg_id"
  from own obtain kvs where kvs: "p_headers p = singles kvs" "\<forall>(k, v) \<in> set kvs. utf8_valid k \<and> flat_value v"
    by (auto simp: own_packet_def)
  have "(k', v') \<in> set (mput k v kvs) \<Longrightarrow> (k', v') = (k, v) \<or> (k', v') \<in> set kvs" for k' v'
    by (induction kvs) (auto split: if_splits)
  with kvs k have "\<forall>(k', v') \<in> set (mput k v kvs). utf8_valid k' \<and> flat_value v'" by auto
  moreover have "p_headers (set_header k v p) = singles (mput k v kvs)" by (simp add: set_header_def kvs)
  moreover have "header (set_header k v p) header_msg_id = header p header_msg_id" using k by (simp add: header_set_header)
  moreover have "p_proto (set_header k v p) = p_proto p" "p_type (set_header k v p) = p_type p"
    "p_from (set_header k v p) = p_from p" "p_to (set_header k v p) = p_to p"
    by (simp_all add: set_header_def)
  ultimately show ?thesis using own unfolding own_packet_def set_header_payload by metis
qed

lemma own_ttl: "own_packet p \<Longrightarrow> own_packet (p\<lparr>p_ttl := t\<rparr>)"
  by (simp add: own_packet_def header_def)

lemma own_clone: "own_packet p \<Longrightarrow> clone p = p"
  by (rule clone_same [OF own_headers_ok])

lemma header_names_utf8:
  "utf8_valid header_msg_id" "utf8_valid header_checksum" "utf8_valid header_via" "utf8_valid header_t0"
  "utf8_valid header_trace" "header_via \<noteq> header_msg_id" "header_t0 \<noteq> header_msg_id"
  "header_trace \<noteq> header_msg_id" "header_checksum \<noteq> header_msg_id"
  by code_simp+

text \<open>What arrives has the shape again, and its trace is text.\<close>

lemma own_again: "own_packet p \<Longrightarrow> own_packet (received p)"
proof -
  assume own: "own_packet p"
  from own obtain kvs where kvs: "p_headers p = singles kvs" "\<forall>(k, v) \<in> set kvs. utf8_valid k \<and> flat_value v"
    by (auto simp: own_packet_def)
  have "p_headers (received p) = singles (map (\<lambda>(k, v). (k, norm_any v)) kvs)"
    by (simp add: received_def kvs(1) singles_def norm_header_def comp_def case_prod_unfold)
  moreover have "\<forall>(k, v) \<in> set (map (\<lambda>(k, v). (k, norm_any v)) kvs). utf8_valid k \<and> flat_value v"
    using kvs(2) flat_norm by auto
  moreover obtain rid where "header p header_msg_id = Some (GStr rid)" "rid \<noteq> []" using own by (auto simp: own_packet_def)
  then have "\<exists>rid. header (received p) header_msg_id = Some (GStr rid) \<and> rid \<noteq> []"
    by (simp add: header_received [OF own_headers_ok [OF own]])
  moreover have "p_proto (received p) = p_proto p" "p_type (received p) = p_type p" "p_from (received p) = p_from p"
    "p_to (received p) = p_to p" by (simp_all add: received_def)
  ultimately show ?thesis using own unfolding own_packet_def received_payload by metis
qed

lemma own_trace: "own_packet p \<Longrightarrow> s \<in> set (trace p) \<Longrightarrow> utf8_valid s"
proof -
  assume own: "own_packet p" and s: "s \<in> set (trace p)"
  from own obtain kvs where kvs: "p_headers p = singles kvs" "\<forall>(k, v) \<in> set kvs. utf8_valid k \<and> flat_value v"
    by (auto simp: own_packet_def)
  obtain v where v: "header p header_trace = Some v" using s by (cases "header p header_trace") (auto simp: trace_def)
  then have "mget kvs header_trace = Some v" by (simp add: header_def kvs(1))
  then have f: "flat_value v" using kvs(2) by (auto dest: mget_SomeD)
  show ?thesis
  proof (cases v)
    case (GArr vs)
    with f obtain ss where ss: "vs = map GStr ss" "\<forall>s \<in> set ss. utf8_valid s" using flat_array by blast
    have "strings_of (map GStr ss) = ss" by (induction ss) simp_all
    then show ?thesis using s ss by (simp add: trace_def v GArr)
  qed (use s v f in \<open>auto simp: trace_def\<close>)
qed

lemma own_append_trace: "own_packet p \<Longrightarrow> utf8_valid addr \<Longrightarrow> own_packet (append_trace addr p)"
  unfolding append_trace_def using own_trace header_names_utf8 by (intro own_set_header) auto

lemma own_new:
  assumes "utf8_valid rid" "rid \<noteq> []" "utf8_valid proto" "utf8_valid typ" "utf8_valid source" "utf8_valid dest"
    and "plain_payload s"
  shows "own_packet ((new_packet rid proto typ source dest)\<lparr>p_payload := s\<rparr>)"
proof -
  have "p_headers ((new_packet rid proto typ source dest)\<lparr>p_payload := s\<rparr>) = singles [(header_msg_id, GStr rid)]"
    by (simp add: new_packet_def set_header_def singles_def)
  then show ?thesis
    using assms header_names_utf8(1) unfolding own_packet_def header_def
    by (auto simp: new_packet_def set_header_def)
qed

lemma own_new_object:
  assumes "utf8_valid rid" "rid \<noteq> []" "utf8_valid proto" "utf8_valid typ" "utf8_valid source" "utf8_valid dest"
    and "new_object rid proto typ source dest (Some (JObj ms)) = Some p"
    and "wf_json (JObj ms)" "html_clean (JObj ms)" "json_depth (JObj ms) \<le> 9"
  shows "own_packet p \<and> p_payload p = json_print (JObj ms) \<and> p_ttl p = default_ttl \<and> p_type p = typ \<and>
    p_from p = source \<and> p_to p = dest \<and> p_proto p = proto \<and> p_version p = version \<and> checksum_valid p \<and>
    header_string p header_msg_id = rid \<and> header p header_via = None \<and> header p header_t0 = None"
proof -
  let ?p = "(new_packet rid proto typ source dest)\<lparr>p_payload := json_print (JObj ms)\<rparr>"
  from assms(7) obtain c where p: "p = set_header header_checksum (GStr (checksum_hex c)) ?p"
    by (auto simp: new_object_def set_payload_object_def split: option.splits)
  have "plain_payload (json_print (JObj ms))" unfolding plain_payload_def using assms(8-10) by blast
  then have "own_packet ?p" using assms by (intro own_new)
  then have "own_packet p" using header_names_utf8 by (simp add: p own_set_header)
  moreover have "checksum_valid p" using assms(7) unfolding new_object_def by (rule checksum_object)
  ultimately show ?thesis
    by (simp add: p header_set_header header_string_def del: json_print.simps)
      (simp add: new_packet_def set_header_def header_def header_names)
qed

lemma own_new_text:
  assumes "utf8_valid rid" "rid \<noteq> []" "utf8_valid proto" "utf8_valid typ" "utf8_valid source" "utf8_valid dest"
    and "utf8_valid txt"
  defines "p \<equiv> new_text rid proto typ source dest txt"
  shows "own_packet p \<and> payload_text p = Some txt \<and> p_ttl p = default_ttl \<and> p_type p = typ \<and>
    p_from p = source \<and> p_to p = dest \<and> p_proto p = proto \<and> checksum_valid p \<and>
    header_string p header_msg_id = rid \<and> trace p = []"
proof -
  let ?p = "(new_packet rid proto typ source dest)\<lparr>p_payload := json_print (quote_str True txt)\<rparr>"
  have p: "p = set_header header_checksum (GStr (checksum_hex txt)) ?p"
    by (simp add: p_def new_text_def set_payload_text_def)
  have "plain_payload (json_print (quote_str True txt))"
    unfolding plain_payload_def by (rule exI [of _ "quote_str True txt"]) (simp add: quote_str_def)
  then have "own_packet ?p" using assms by (intro own_new)
  then have "own_packet p" using header_names_utf8 by (simp add: p own_set_header)
  moreover have "checksum_valid p" "payload_text p = Some txt"
    using assms(7) by (simp_all add: p_def new_text_def checksum_text payload_text_set)
  ultimately show ?thesis
    by (simp add: p header_set_header header_string_def trace_def del: json_print.simps)
      (simp add: new_packet_def set_header_def header_def header_names)
qed

lemma received_fields:
  "p_from (received p) = p_from p" "p_to (received p) = p_to p" "p_type (received p) = p_type p"
  "p_ttl (received p) = p_ttl p" "p_proto (received p) = p_proto p" "p_version (received p) = p_version p"
  by (simp_all add: received_def)

end
