(* ===== verification/Node_Behaviour.thy ===== *)
theory Node_Behaviour
  imports Node_Invariant Proto_Own
begin

text \<open>
  The address book of a node, the table it recomputes, the cost an echo leads to and its floor,
  and what an infinite cost does to an announcement; with the sample node and the absurd echo
  that the witnesses of this and later theories use.
\<close>

section \<open>The address book of a node\<close>

text \<open>
  An id the node can translate back and forth: its own, or a listed one whose address is not
  the node's own.
\<close>

definition translatable :: "node \<Rightarrow> string \<Rightarrow> bool" where
  "translatable n pid \<longleftrightarrow> pid = nd_id n \<or>
     (listed (nd_names n) pid \<and> pid \<noteq> ''*'' \<and> address_in (nd_names n) pid \<noteq> nd_addr n)"

lemma translatable_resolves: "translatable n pid \<Longrightarrow> node_local_id n (node_address n pid) = pid"
proof (cases "pid = nd_id n")
  case False
  assume "translatable n pid"
  with False have l: "listed (nd_names n) pid" "pid \<noteq> ''*''" "address_in (nd_names n) pid \<noteq> nd_addr n"
    by (simp_all add: translatable_def)
  have a: "node_address n pid = address_in (nd_names n) pid"
    using False l(2) by (simp add: node_address_def address_in_def)
  have "has_byte (CHR '':'') (address_in (nd_names n) pid)"
    using l(1) by (rule listed_address)
  then have "address_in (nd_names n) pid \<noteq> ''*''" by (auto simp: has_byte_def)
  with l show ?thesis unfolding a by (simp add: node_local_id_def book.resolves)
qed (simp add: node_address_def node_local_id_def)

interpretation node_book: address_book "translatable n" "node_address n" "node_local_id n" for n
  by unfold_locales (rule translatable_resolves)

lemma planes_agree_nan: "node_reaches n \<Longrightarrow> live_cost n pid = Some c \<Longrightarrow> c \<noteq> fnan \<and> pid \<noteq> [] \<and> pid \<noteq> nd_id n"
  using node_reaches_inv [of n]
  by (auto simp: live_cost_def node_inv_def neighbors_ok_def split: option.splits if_splits)

text \<open>In the modes that compute routes the table is the one \<open>dijkstra\<close> recomputes.\<close>

lemma table_recomputed:
  assumes "node_inv n" and "\<forall>s. nd_alg n \<noteq> IsFlooding s"
  shows "node_table n = dijkstra (graph_of_links (node_topology n)) (nd_id n)"
proof (cases "nd_alg n")
  case (IsDijkstra s)
  then have "dj_inv (nd_id n) s" using assms(1) by (simp add: node_inv_def)
  then show ?thesis
    using dj_table_eq [of "nd_id n" s]
    by (simp add: IsDijkstra node_table_def node_topology_def dijkstra_ops_def dj_topology_live)
next
  case (IsLsr s)
  then have "lsr_inv (nd_id n) s" using assms(1) by (simp add: node_inv_def)
  then show ?thesis
    by (simp add: IsLsr node_table_def node_topology_def lsr_ops_def lsr_table_eq lsr_topology_def)
qed (use assms(2) in simp)

section \<open>Properties\<close>

definition sample_topology :: topology where
  "sample_topology = \<lparr>t_type = ''topo'', t_config = [(''A'', [(''B'', f64 1)]), (''B'', [(''A'', f64 1)])]\<rparr>"

definition sample_options :: "string \<Rightarrow> options" where
  "sample_options m =
     \<lparr>o_id = ''A'', o_mode = m, o_topology = sample_topology, o_names = sample_names, o_listen = [], o_verbose = False\<rparr>"

definition sample_node :: "any_alg \<Rightarrow> string \<Rightarrow> node" where
  "sample_node a m =
     \<lparr>nd_id = ''A'', nd_mode = m, nd_names = sample_names, nd_verbose = False, nd_addr = ''10.0.0.1:5000'',
      nd_port = ''5000'', nd_alg = a, nd_inbox = [], nd_seen = new_seen_cache message_seen_ttl,
      nd_neighbors = [(''B'', \<lparr>nb_alive = False, nb_cost = f64 1, nb_last = zero_time\<rparr>)], nd_warned = []\<rparr>"

lemma sample_topology_ok: "topology_ok sample_topology"
  by code_simp

lemma sample_lsr_new: "new_node (sample_options ''lsr'') = Inr (sample_node (IsLsr new_lsr) ''lsr'')"
  by code_simp

lemma sample_lsr_reached: "node_reaches (sample_node (IsLsr new_lsr) ''lsr'')"
proof -
  have "topology_ok (o_topology (sample_options ''lsr''))" using sample_topology_ok by (simp add: sample_options_def)
  from node_new [OF this sample_lsr_new] show ?thesis by (simp add: node_start_def sample_node_def)
qed

section \<open>Measured costs\<close>

lemma echo_state:
  assumes "pid = node_local_id n (p_from p)" "pid \<noteq> []" "pid \<noteq> nd_id n"
  shows "mget (nd_neighbors (fst (handle_echo now rid p n))) pid = Some
    \<lparr>nb_alive = True,
     nb_cost = smoothed (case mget (nd_neighbors n) pid of Some st \<Rightarrow> st | None \<Rightarrow> \<lparr>nb_alive = False, nb_cost = f0, nb_last = zero_time\<rparr>)
       (measured_cost now p),
     nb_last = now\<rparr>"
  using assms by (simp add: handle_echo_def mark_alive_with_cost_def Let_def)

lemma smoothing_floor:
  assumes "min_cost \<le> a" "a \<noteq> fnan" "min_cost \<le> b" "b \<noteq> fnan"
  shows "min_cost \<le> fadd (fmul a (fsub (f64 1) cost_smoothing)) (fmul b cost_smoothing)"
proof -
  have "min_cost = fadd (fmul min_cost (fsub (f64 1) cost_smoothing)) (fmul min_cost cost_smoothing)" by code_simp
  also have "\<dots> \<le> fadd (fmul a (fsub (f64 1) cost_smoothing)) (fmul b cost_smoothing)"
  proof (rule fadd_mono_both)
    have "cost_ok a" "cost_ok b" using assms min_cost_ok cost_ok_le by blast+
    then show "cost_ok (fmul min_cost (fsub (f64 1) cost_smoothing))" "cost_ok (fmul a (fsub (f64 1) cost_smoothing))"
      "cost_ok (fmul min_cost cost_smoothing)" "cost_ok (fmul b cost_smoothing)"
      using min_cost_ok scales by (auto intro: cost_ok_fmul)
  qed (use assms min_cost_ok scales in \<open>auto intro: fmul_mono\<close>)
  finally show ?thesis .
qed

text \<open>
  An echo sets the cost of its sender's link. The fresh measurement is never below 0.01;
  a link that is up at a positive cost moves to the average of three quarters of the old cost
  and a quarter of the new one, any other takes the measurement; and no cost that was at
  least 0.01 falls below it, in double arithmetic.
\<close>

theorem echo_cost_floor:
  fixes now :: gotime and rid :: string
  assumes "node_reaches n" and "decode data = Some p"
    and "pid = node_local_id n (p_from p)" and "pid \<noteq> []" and "pid \<noteq> nd_id n"
  defines "n' \<equiv> fst (handle_echo now rid p n)" and "sample \<equiv> measured_cost now p"
  shows "min_cost \<le> sample \<and>
    (case live_cost n pid of
       Some old \<Rightarrow> if f0 < old
         then live_cost n' pid = Some (fadd (fmul old (f64 (3 / 4))) (fmul sample (f64 (1 / 4))))
         else live_cost n' pid = Some sample
     | None \<Rightarrow> live_cost n' pid = Some sample) \<and>
    ((\<forall>old. live_cost n pid = Some old \<longrightarrow> min_cost \<le> old) \<longrightarrow> (\<exists>c. live_cost n' pid = Some c \<and> min_cost \<le> c))"
proof -
  note m = measured_cost_bounds [OF decoded_inbound [OF assms(2)], of now, folded sample_def]
  define st where "st = (case mget (nd_neighbors n) pid of Some st \<Rightarrow> st | None \<Rightarrow> \<lparr>nb_alive = False, nb_cost = f0, nb_last = zero_time\<rparr>)"
  have new: "live_cost n' pid = Some (smoothed st sample)"
    using echo_state [OF assms(3-5), of now rid] by (simp add: live_cost_def n'_def sample_def st_def)
  have old: "live_cost n pid = (if nb_alive st then Some (nb_cost st) else None)"
    by (auto simp: live_cost_def st_def split: option.split)
  have nan: "nb_cost st \<noteq> fnan" if "nb_alive st"
    using planes_agree_nan [OF assms(1)] that old by auto
  have w: "fsub (f64 1) (f64 (1 / 4)) = f64 (3 / 4)" "cost_smoothing = f64 (1 / 4)" by code_simp+
  have pos: "fless f0 (nb_cost st) \<longleftrightarrow> f0 < nb_cost st" if "nb_alive st"
    using nan [OF that] by (simp add: fless_iff)
  have shape: "case live_cost n pid of
       Some old \<Rightarrow> if f0 < old
         then live_cost n' pid = Some (fadd (fmul old (f64 (3 / 4))) (fmul sample (f64 (1 / 4))))
         else live_cost n' pid = Some sample
     | None \<Rightarrow> live_cost n' pid = Some sample"
    using new pos by (auto simp: old smoothed_def w)
  have "min_cost \<le> smoothed st sample" if "\<forall>old. live_cost n pid = Some old \<longrightarrow> min_cost \<le> old"
    using that m nan smoothing_floor [of "nb_cost st" sample] by (auto simp: old smoothed_def cost_ok_def)
  with m(1) shape new show ?thesis by blast
qed

text \<open>An echo line of node B, with a member between its sender and its end.\<close>

definition echo_line :: "string \<Rightarrow> string" where
  "echo_line member =
     ''{'' @ quoted ''type'' @ '':'' @ quoted ''echo'' @ '','' @ quoted ''from'' @ '':'' @ quoted ''10.0.0.2:5000'' @ member @ ''}''"

lemma echo_line_decoded: "\<exists>p. decode (echo_line []) = Some p \<and> p_from p = ''10.0.0.2:5000'' \<and> p_type p = type_echo"
proof -
  have "map_option (\<lambda>p. (p_from p, p_type p)) (decode (echo_line [])) = Some (''10.0.0.2:5000'', type_echo)" by code_simp
  then show ?thesis by auto
qed

lemma sample_names_b: "node_local_id (sample_node a m) ''10.0.0.2:5000'' = ''B''"
proof -
  have "id_for sample_names ''10.0.0.2:5000'' ''5000'' = ''B''" by code_simp
  then show ?thesis by (simp add: node_local_id_def sample_node_def)
qed

theorem echo_cost_floor_witness:
  "\<exists>p c. decode (echo_line []) = Some p \<and>
     live_cost (fst (handle_echo second ''0f'' p (sample_node (IsLsr new_lsr) ''lsr''))) ''B'' = Some c \<and> min_cost \<le> c"
proof -
  let ?n = "sample_node (IsLsr new_lsr) ''lsr''"
  obtain p where p: "decode (echo_line []) = Some p" "p_from p = ''10.0.0.2:5000''" using echo_line_decoded by blast
  have b: "''B'' = node_local_id ?n (p_from p)" by (simp add: p(2) sample_names_b)
  have down: "live_cost ?n ''B'' = None" by (simp add: live_cost_def sample_node_def)
  have "''B'' \<noteq> []" "''B'' \<noteq> nd_id ?n" by (simp_all add: sample_node_def)
  from echo_cost_floor [OF sample_lsr_reached p(1) b this, of second "''0f''"] down p(1)
  show ?thesis by (auto simp: option.case_eq_if)
qed

lemma echo_alg:
  "nd_alg n = IsLsr s \<Longrightarrow> \<exists>s'. nd_alg (fst (handle_echo now rid p n)) = IsLsr s'"
  by (auto simp: handle_echo_def mark_alive_with_cost_def Let_def)

lemma infinite_link_json: "(pid, fposinf) \<in> set (ls_links s) \<Longrightarrow> lsp_json (own_lsp fab s) = None"
proof -
  assume m: "(pid, fposinf) \<in> set (ls_links s)"
  have "those (map f xs) = None" if "x \<in> set xs" "f x = None" for f :: "neighbor_entry \<Rightarrow> json option" and x xs
    using that by (induction xs) (auto split: option.splits)
  moreover have "\<lparr>ne_id = fb_address fab pid, ne_weight = fposinf\<rparr> \<in> set (lsp_neighbors (own_lsp fab s))"
    using m by (force simp: own_lsp_def)
  moreover have "entry_json \<lparr>ne_id = fb_address fab pid, ne_weight = fposinf\<rparr> = None"
    by (simp add: entry_json_def float_json_def is_finite_def)
  ultimately have "those (map entry_json (lsp_neighbors (own_lsp fab s))) = None" by blast
  then show ?thesis by (simp add: lsp_json_def both_def split: option.split)
qed

lemma announce_infinite: "(pid, fposinf) \<in> set (ls_links s) \<Longrightarrow> snd (announce fab now rid s) = [Log CannotEncode]"
  using infinite_link_json [of pid "s\<lparr>ls_seq := ls_seq s + 1, ls_last := now\<rparr>" fab]
  by (simp add: announce_def Let_def new_object_def set_payload_object_def)

text \<open>The absurd echo of node B, as it comes off the wire.\<close>

definition absurd_echo :: packet where
  "absurd_echo =
     set_header header_t0 (GNum f_low)
       ((new_packet ''0c'' proto_lsr type_echo ''10.0.0.2:5000'' ''10.0.0.1:5000'')\<lparr>p_payload := json_print (JObj [])\<rparr>)"

lemma absurd_arrives:
  "\<exists>data. decode data = Some (received absurd_echo) \<and> p_from (received absurd_echo) = ''10.0.0.2:5000'' \<and>
     p_type (received absurd_echo) = type_echo \<and> header_float (received absurd_echo) header_t0 = Some f_low"
proof -
  have u: "utf8_valid ''0c''" "utf8_valid proto_lsr" "utf8_valid type_echo" "utf8_valid ''10.0.0.2:5000''" "utf8_valid ''10.0.0.1:5000''"
    by code_simp+
  have pl: "plain_payload (json_print (JObj []))" unfolding plain_payload_def by (rule exI [of _ "JObj []"]) simp
  have "own_packet ((new_packet ''0c'' proto_lsr type_echo ''10.0.0.2:5000'' ''10.0.0.1:5000'')\<lparr>p_payload := json_print (JObj [])\<rparr>)"
    using u pl by (intro own_new) simp_all
  then have own: "own_packet absurd_echo"
    unfolding absurd_echo_def using header_names_utf8 f_low_finite by (intro own_set_header) simp_all
  have ttl: "\<not> int_le (p_ttl absurd_echo) 0"
    by (simp add: absurd_echo_def set_header_def new_packet_def default_ttl_def int_le_def)
  obtain data where "decode data = Some (received absurd_echo)" using own_received [OF own ttl] by blast
  moreover have "header (received absurd_echo) header_t0 = Some (GNum f_low)"
    using header_received [OF own_headers_ok [OF own]] by (simp add: absurd_echo_def header_set_header)
  moreover have "p_from (received absurd_echo) = ''10.0.0.2:5000''" "p_type (received absurd_echo) = type_echo"
    by (simp_all add: received_def absurd_echo_def set_header_def new_packet_def)
  ultimately show ?thesis by (auto simp: header_float_def)
qed

text \<open>The node after one absurd echo, received and handled at instant 0.\<close>

definition struck :: node where
  "struck = fst (handle_echo 0 ''0d'' (received absurd_echo) (sample_node (IsLsr new_lsr) ''lsr''))"

lemma local_id_cong:
  "nd_names m = nd_names n \<Longrightarrow> nd_addr m = nd_addr n \<Longrightarrow> nd_port m = nd_port n \<Longrightarrow> nd_id m = nd_id n \<Longrightarrow>
   node_local_id m = node_local_id n"
  by (intro ext) (simp add: node_local_id_def)

lemma struck_facts:
  "node_reaches struck" "\<exists>s. nd_alg struck = IsLsr s" "live_cost struck ''B'' = Some fposinf"
  "node_local_id struck ''10.0.0.2:5000'' = ''B''"
proof -
  let ?n = "sample_node (IsLsr new_lsr) ''lsr''" and ?p = "received absurd_echo"
  obtain data where d: "decode data = Some ?p" and src: "p_from ?p = ''10.0.0.2:5000''" and ty: "p_type ?p = type_echo"
    and t0: "header_float ?p header_t0 = Some f_low" using absurd_arrives by blast
  have "receive ?p ?n = (?n\<lparr>nd_inbox := [?p]\<rparr>, [])"
    by (simp add: receive_def inbox_size_def sample_node_def)
  then have r: "node_reaches (?n\<lparr>nd_inbox := [?p]\<rparr>)"
    using node_next [OF sample_lsr_reached step_receive [OF d]] by blast
  have ne: "type_echo \<noteq> type_hello" by code_simp
  have "?n\<lparr>nd_inbox := []\<rparr> = ?n" by (simp add: sample_node_def)
  then have "fst (handle 0 ''0d'' ''0e'' ?p (?n\<lparr>nd_inbox := []\<rparr>)) = struck"
    using ne by (simp add: handle_def ty struck_def)
  then have "forwarding_turn 0 ''0d'' ''0e'' (?n\<lparr>nd_inbox := [?p]\<rparr>) = Some (struck, snd (handle 0 ''0d'' ''0e'' ?p (?n\<lparr>nd_inbox := []\<rparr>)))"
    by (simp add: forwarding_turn_def prod_eq_iff)
  then show "node_reaches struck" by (rule node_next [OF r step_forward])
  show "\<exists>s. nd_alg struck = IsLsr s"
    unfolding struck_def by (rule echo_alg) (simp add: sample_node_def)
  have zero: "now_seconds 0 = f0" by code_simp
  have "\<not> fless fposinf min_cost" by code_simp
  then have m: "measured_cost 0 ?p = fposinf"
    by (simp add: measured_cost_def t0 zero f_low_overflow)
  have b: "''B'' = node_local_id ?n (p_from ?p)" "''B'' \<noteq> []" "''B'' \<noteq> nd_id ?n"
    by (simp_all add: src sample_names_b) (simp add: sample_node_def)
  have "smoothed (case mget (nd_neighbors ?n) ''B'' of Some st \<Rightarrow> st | None \<Rightarrow> \<lparr>nb_alive = False, nb_cost = f0, nb_last = zero_time\<rparr>)
      fposinf = fposinf" by (simp add: sample_node_def smoothed_def)
  then show "live_cost struck ''B'' = Some fposinf"
    using echo_state [OF b, of 0 "''0d''"] m by (simp add: struck_def live_cost_def)
  have "nd_names struck = nd_names ?n" "nd_addr struck = nd_addr ?n" "nd_port struck = nd_port ?n" "nd_id struck = nd_id ?n"
    unfolding struck_def handle_echo_def mark_alive_with_cost_def Let_def by simp_all
  then show "node_local_id struck ''10.0.0.2:5000'' = ''B''"
    using sample_names_b [of "IsLsr new_lsr" "''lsr''"] local_id_cong [of struck ?n] by simp
qed

end
