(* ===== verification/Node_Messages.thy ===== *)
theory Node_Messages
  imports Node_Behaviour
begin

text \<open>
  The forwarding plane: what becomes of a user message at each node. A message is delivered
  or forwarded by the first copy of it that arrives and by no other; what is forwarded is the
  packet with one hop less and this node's name in the trace; and what a node sends of its
  own is a well-formed packet that its receivers can read.
\<close>

section \<open>Handling a message\<close>

lemma handle_message_cases:
  "handle_message now p n =
     (n\<lparr>nd_seen := snd (seen now (header_string p header_msg_id) (nd_seen n))\<rparr>,
      if fst (seen now (header_string p header_msg_id) (nd_seen n))
      then (if nd_verbose n then [Log (Duplicate (packet_line p))] else [])
      else if node_local_id n (p_to p) = nd_id n
      then (case payload_text p of
              None \<Rightarrow> [Log (UnreadableMessage (p_from p))]
            | Some text \<Rightarrow> [Log (Message (p_from p) (trace p) text), Deliver p])
      else node_relay p (n\<lparr>nd_seen := snd (seen now (header_string p header_msg_id) (nd_seen n))\<rparr>))"
  using local_id_cong [of "n\<lparr>nd_seen := snd (seen now (header_string p header_msg_id) (nd_seen n))\<rparr>" n]
  by (auto simp: handle_message_def Let_def split: prod.split option.split)

lemma forward_events:
  "\<exists>lines. snd (alg_forward fab p a) = map Log lines"
proof (cases a)
  case (IsDijkstra s)
  have "snd (alg_forward fab p a) = [] \<or> (\<exists>l. snd (alg_forward fab p a) = [Log l])"
    by (auto simp: IsDijkstra dijkstra_ops_def dj_forward_def Let_def split: option.split)
  then show ?thesis by (metis list.map_disc_iff list.simps(9) list.map(1))
next
  case (IsFlooding s)
  then show ?thesis by (auto simp: flooding_ops_def flooding_forward_def)
next
  case (IsLsr s)
  have "snd (alg_forward fab p a) = [] \<or> (\<exists>l. snd (alg_forward fab p a) = [Log l])"
    by (auto simp: IsLsr lsr_ops_def lsr_forward_def Let_def split: option.split)
  then show ?thesis by (metis list.map_disc_iff list.simps(9) list.map(1))
qed

lemma sends_logs_only [simp]: "sends (map Log ls) = []"
  by (induction ls) simp_all

lemma relay_sends_node:
  "sends (node_relay p n) =
     (let hops = fst (alg_forward (fabric_of n) p (nd_alg n))
      in if snd (decrement_ttl p)
         then map (\<lambda>t. (t, clone (set_header header_via (GStr (nd_addr n)) (append_trace (nd_addr n) (fst (decrement_ttl p)))))) hops
         else [])"
proof -
  obtain hops es where f: "alg_forward (fabric_of n) p (nd_alg n) = (hops, es)" by fastforce
  with forward_events [of "fabric_of n" p "nd_alg n"] obtain ls where "es = map Log ls" by auto
  with f show ?thesis by (simp add: node_relay_def Let_def send_copies_def split: prod.split)
qed

lemma relay_delivers_nothing: "Deliver q \<notin> set (node_relay p n)"
proof -
  obtain hops es where f: "alg_forward (fabric_of n) p (nd_alg n) = (hops, es)" by fastforce
  with forward_events [of "fabric_of n" p "nd_alg n"] obtain ls where "es = map Log ls" by auto
  with f show ?thesis by (auto simp: node_relay_def Let_def send_copies_def split: prod.split)
qed

text \<open>A run of message handling: the packets with the instants they are handled at.\<close>

definition message_run :: "node \<Rightarrow> (gotime \<times> packet) list \<Rightarrow> node" where
  "message_run n calls = foldl (\<lambda>n (t, p). fst (handle_message t p n)) n calls"

lemma message_run_keeps:
  assumes "seen_ok (nd_seen n)" "sc_ttl (nd_seen n) = message_seen_ttl" "seen_at (nd_seen n) pid = Some t0"
    and "\<forall>(t, p) \<in> set calls. t \<le> t0 + 60 * second"
  shows "seen_ok (nd_seen (message_run n calls)) \<and> sc_ttl (nd_seen (message_run n calls)) = message_seen_ttl \<and>
    seen_at (nd_seen (message_run n calls)) pid = Some t0"
  using assms
proof (induction calls arbitrary: n)
  case (Cons call calls)
  obtain t p where call: "call = (t, p)" by (cases call)
  let ?c = "snd (seen t (header_string p header_msg_id) (nd_seen n))"
  have "t \<le> t0 + 60 * second" using Cons.prems(4) by (simp add: call)
  then have "\<not> sc_ttl (nd_seen n) < time_sub t t0"
    using Cons.prems(2) by (simp add: message_seen_ttl_def second_def time_sub_def)
  then have "seen_at ?c pid = Some t0"
    using seen.keeps [OF Cons.prems(1,3)] by blast
  moreover have "seen_ok ?c" "sc_ttl ?c = message_seen_ttl"
    using Cons.prems(1,2) by (simp_all add: seen_ok_seen)
  ultimately show ?case
    using Cons.IH [of "n\<lparr>nd_seen := ?c\<rparr>"] Cons.prems(4)
    by (simp add: message_run_def call fst_handle_message)
qed (simp add: message_run_def)

section \<open>Properties\<close>

text \<open>
  C18: the first copy counts. When a message was handled because its identifier was new, then
  for sixty seconds, whatever other messages are handled in between, any packet with the same
  identifier is neither delivered nor forwarded.
\<close>

theorem first_copy_counts:
  assumes "node_reaches n" and "header_string p header_msg_id = pid" and "pid \<noteq> []"
    and "\<not> fst (seen t0 pid (nd_seen n))"
    and "\<forall>(t, q) \<in> set calls. t \<le> t0 + 60 * second" and "t1 \<le> t0 + 60 * second"
    and "header_string p' header_msg_id = pid"
    and "handle_message t1 p' (message_run (fst (handle_message t0 p n)) calls) = (n', out)"
  shows "sends out = [] \<and> (\<forall>q. Deliver q \<notin> set out)"
proof -
  let ?n = "fst (handle_message t0 p n)"
  have i: "seen_ok (nd_seen n)" "sc_ttl (nd_seen n) = message_seen_ttl"
    using node_reaches_inv [OF assms(1)] by (simp_all add: node_inv_def)
  have at: "seen_at (nd_seen ?n) pid = Some t0"
    using seen.remembers [OF i(1) assms(3,4)] assms(2) by (simp add: fst_handle_message)
  have ok: "seen_ok (nd_seen ?n)" "sc_ttl (nd_seen ?n) = message_seen_ttl"
    using i by (simp_all add: fst_handle_message seen_ok_seen)
  let ?m = "message_run ?n calls"
  note k = message_run_keeps [OF ok at assms(5)]
  have "\<not> sc_ttl (nd_seen ?m) < time_sub t1 t0"
    using k assms(6) by (simp add: message_seen_ttl_def second_def time_sub_def)
  then have "fst (seen t1 pid (nd_seen ?m))" using k assms(3) by (simp add: fst_seen)
  then show ?thesis using assms(7,8) by (auto simp: handle_message_cases split: if_splits)
qed

definition hello_b :: packet where
  "hello_b = new_text ''0a'' proto_lsr type_message ''10.0.0.2:5000'' ''10.0.0.1:5000'' ''hi''"

lemma hello_b_id: "header_string hello_b header_msg_id = ''0a''"
  by (simp add: hello_b_def new_text_def set_payload_text_def header_string_def header_set_header)
    (simp add: new_packet_def header_set_header header_names)

theorem first_copy_counts_witness:
  "sends (snd (handle_message (30 * second) hello_b
     (message_run (fst (handle_message second hello_b (sample_node (IsLsr new_lsr) ''lsr''))) []))) = []"
proof -
  let ?n = "sample_node (IsLsr new_lsr) ''lsr''"
  let ?r = "handle_message (30 * second) hello_b (message_run (fst (handle_message second hello_b ?n)) [])"
  have new: "\<not> fst (seen second ''0a'' (nd_seen ?n))" by (simp add: sample_node_def fst_seen)
  have r: "?r = (fst ?r, snd ?r)" by simp
  show ?thesis
    using first_copy_counts [OF sample_lsr_reached hello_b_id _ new _ _ hello_b_id r] by (simp add: second_def)
qed

text \<open>
  C9: what becomes of a message. A new one for this node is delivered when its text can be
  read; any other new one goes to the hops the algorithm names, each copy with one hop less
  left and at least one, this node's address appended to the trace and set as previous hop,
  and the same identifier, destination and payload; and it is dropped when its hops are used up.
\<close>

theorem message_fate:
  assumes "decode data = Some p" and "\<not> fst (seen now (header_string p header_msg_id) (nd_seen n))"
    and "handle_message now p n = (n', out)"
  shows "(Deliver q \<in> set out \<longleftrightarrow> q = p \<and> node_local_id n (p_to p) = nd_id n \<and> payload_text p \<noteq> None) \<and>
    (node_local_id n (p_to p) = nd_id n \<longrightarrow> sends out = []) \<and>
    (node_local_id n (p_to p) \<noteq> nd_id n \<longrightarrow>
       map fst (sends out) = (if 1 < sint (p_ttl p) then fst (alg_forward (fabric_of n) p (nd_alg n)) else []) \<and>
       (\<forall>t c. (t, c) \<in> set (sends out) \<longrightarrow>
          sint (p_ttl c) = sint (p_ttl p) - 1 \<and> trace c = trace p @ [nd_addr n] \<and>
          header_string c header_via = nd_addr n \<and>
          header_string c header_msg_id = header_string p header_msg_id \<and>
          p_to c = p_to p \<and> p_payload c = p_payload p))"
proof -
  let ?n = "n\<lparr>nd_seen := snd (seen now (header_string p header_msg_id) (nd_seen n))\<rparr>"
  let ?c = "set_header header_via (GStr (nd_addr n)) (append_trace (nd_addr n) (fst (decrement_ttl p)))"
  have fab: "fabric_of ?n = fabric_of n"
    using local_id_cong [of ?n n]
    by (auto simp: fabric_of_def live_neighbors_def node_address_def [abs_def] fun_eq_iff)
  have out: "out = (if node_local_id n (p_to p) = nd_id n
      then (case payload_text p of None \<Rightarrow> [Log (UnreadableMessage (p_from p))]
            | Some text \<Rightarrow> [Log (Message (p_from p) (trace p) text), Deliver p])
      else node_relay p ?n)"
    using assms(2,3) by (simp add: handle_message_cases)
  have h: "headers_ok p" "0 < sint (p_ttl p)" using decoded_headers_ok [OF assms(1)] decode_defaults [OF assms(1)] by auto
  have hd: "header (fst (decrement_ttl p)) k = header p k" for k by (simp add: decrement_ttl_def Let_def header_def)
  have "headers_ok (fst (decrement_ttl p))" using h(1) by (simp add: decrement_ttl_def Let_def headers_ok_def)
  then have "headers_ok ?c" by (simp add: append_trace_def headers_ok_set_header)
  then have cl: "clone ?c = ?c" by (rule clone_same)
  have c: "trace ?c = trace p @ [nd_addr n]" "header_string ?c header_via = nd_addr n"
    "header_string ?c header_msg_id = header_string p header_msg_id"
    by (simp_all add: trace_def header_string_def header_set_header hd header_names append_trace_def)
  have f: "sint (p_ttl ?c) = sint (p_ttl p) - 1" "p_to ?c = p_to p" "p_payload ?c = p_payload p"
    using decrement_positive(1) [OF h(2)]
    by (simp_all add: set_header_def append_trace_def decrement_ttl_def Let_def)
  have s: "sends (node_relay p ?n) =
      (if 1 < sint (p_ttl p) then map (\<lambda>t. (t, ?c)) (fst (alg_forward (fabric_of n) p (nd_alg n))) else [])"
    using decrement_positive(2) [OF h(2)] by (simp add: relay_sends_node fab Let_def cl)
  show ?thesis
    using relay_delivers_nothing [of q p ?n] c f
    by (auto simp: out s comp_def split: option.splits)
qed

lemma hello_b_arrives:
  "\<exists>data. decode data = Some (received hello_b) \<and> payload_text (received hello_b) = Some ''hi'' \<and>
     p_to (received hello_b) = ''10.0.0.1:5000'' \<and> header_string (received hello_b) header_msg_id = ''0a''"
proof -
  have u: "utf8_valid ''0a''" "utf8_valid proto_lsr" "utf8_valid type_message" "utf8_valid ''10.0.0.2:5000''"
    "utf8_valid ''10.0.0.1:5000''" "utf8_valid ''hi''" by code_simp+
  have own: "own_packet hello_b" "p_ttl hello_b = default_ttl" "payload_text hello_b = Some ''hi''"
    "p_to hello_b = ''10.0.0.1:5000''"
    unfolding hello_b_def using own_new_text [OF u(1) _ u(2-6)] by simp_all
  have "\<not> int_le (p_ttl hello_b) 0" by (simp add: own default_ttl_def int_le_def)
  from own_received [OF own(1) this] show ?thesis
    using own hello_b_id header_string_received [OF own_headers_ok [OF own(1)]] by (auto simp: payload_text_def received_fields)
qed

theorem message_fate_witness:
  "Deliver (received hello_b) \<in> set (snd (handle_message second (received hello_b) (sample_node (IsLsr new_lsr) ''lsr'')))"
proof -
  let ?n = "sample_node (IsLsr new_lsr) ''lsr''"
  obtain data where d: "decode data = Some (received hello_b)" and t: "payload_text (received hello_b) = Some ''hi''"
    and to: "p_to (received hello_b) = ''10.0.0.1:5000''" and m: "header_string (received hello_b) header_msg_id = ''0a''"
    using hello_b_arrives by blast
  have new: "\<not> fst (seen second (header_string (received hello_b) header_msg_id) (nd_seen ?n))"
    by (simp add: sample_node_def fst_seen)
  have l: "node_local_id ?n (p_to (received hello_b)) = nd_id ?n" unfolding to by (simp add: node_local_id_def sample_node_def)
  from message_fate [OF d new prod.collapse [symmetric], of "received hello_b"] show ?thesis
    using l t by simp
qed

section \<open>Sending\<close>

lemma alg_proto_utf8: "utf8_valid (alg_proto a)"
proof -
  have "utf8_valid proto_dijkstra" "utf8_valid proto_flooding" "utf8_valid proto_lsr" by code_simp+
  then show ?thesis by (cases a) (simp_all add: dijkstra_ops_def flooding_ops_def lsr_ops_def)
qed

lemma message_utf8: "utf8_valid type_message" "utf8_valid type_hello" "utf8_valid type_echo"
  by code_simp+

lemma fabric_of_seen: "fabric_of (n\<lparr>nd_seen := c\<rparr>) = fabric_of n"
  using local_id_cong [of "n\<lparr>nd_seen := c\<rparr>" n]
  by (auto simp: fabric_of_def live_neighbors_def node_address_def [abs_def] fun_eq_iff)

text \<open>
  A user message. Sending to oneself is refused. Otherwise the packet carries the text, a
  valid checksum, sixteen hops, this node as origin and only entry of the trace; one copy goes
  to each hop the algorithm names, and without a hop the user is told so. Its identifier is
  remembered for sixty seconds, so copies that flood back are dropped.
\<close>

theorem send_outcome:
  assumes "node_reaches n" and "utf8_valid rid" and "rid \<noteq> []" and "utf8_valid txt"
    and "utf8_valid (nd_addr n)" and "utf8_valid (node_address n dest)"
    and "\<not> fst (seen now rid (nd_seen n))"
    and "node_send now rid dest txt n = ((e, n'), out)"
  shows "(e = Some (IsThisNode dest)) = (dest = nd_id n) \<and>
    (dest \<noteq> nd_id n \<longrightarrow> (\<exists>p hops.
       p_from p = nd_addr n \<and> p_to p = node_address n dest \<and> p_type p = type_message \<and> sint (p_ttl p) = 16 \<and>
       payload_text p = Some txt \<and> checksum_valid p \<and> trace p = [nd_addr n] \<and> wire_ok p \<and>
       hops = fst (alg_forward (fabric_of n) p (nd_alg n)) \<and> sends out = map (\<lambda>t. (t, p)) hops \<and>
       e = (if hops = [] then Some (NoRouteTo dest) else None) \<and>
       (\<forall>t. t \<le> now + 60 * second \<longrightarrow> fst (seen t (header_string p header_msg_id) (nd_seen n')))))"
proof (cases "dest = nd_id n")
  case True
  with assms(8) show ?thesis by (auto simp: node_send_def)
next
  case False
  let ?p0 = "new_text rid (alg_proto (nd_alg n)) type_message (nd_addr n) (node_address n dest) txt"
  define p where "p = set_header header_via (GStr (nd_addr n)) (append_trace (nd_addr n) ?p0)"
  note own0 = own_new_text [OF assms(2,3) alg_proto_utf8 message_utf8(1) assms(5,6,4)]
  have hd: "header p k = (if k = header_via then Some (GStr (nd_addr n))
      else if k = header_trace then Some (GStrs [nd_addr n]) else header ?p0 k)" for k
    using own0 by (simp add: p_def append_trace_def header_set_header)
  have own: "own_packet p"
    unfolding p_def append_trace_def using own0 header_names_utf8 assms(5) by (intro own_set_header) auto
  have fields: "p_from p = nd_addr n" "p_to p = node_address n dest" "p_type p = type_message" "p_ttl p = default_ttl"
    "p_payload p = p_payload ?p0"
    using own0 by (simp_all add: p_def append_trace_def set_header_def)
  have hs: "trace p = [nd_addr n]" "header_string p header_msg_id = rid" "header_string p header_checksum = header_string ?p0 header_checksum"
    using own0 by (simp_all add: trace_def header_string_def hd header_names)
  have cs: "checksum_valid p = checksum_valid ?p0" "payload_text p = payload_text ?p0"
    by (simp_all only: checksum_valid_def canonical_payload_def payload_text_def fields(5) hs(3))
  have wire: "wire_ok p" by (rule own_wire [OF own]) (simp add: fields default_ttl_def int_le_def)
  let ?c = "snd (seen now rid (nd_seen n))"
  let ?hops = "fst (alg_forward (fabric_of n) p (nd_alg n))"
  define es where "es = snd (alg_forward (fabric_of n) p (nd_alg n))"
  then have f: "alg_forward (fabric_of n) p (nd_alg n) = (?hops, es)" by simp
  obtain ls where ls: "es = map Log ls"
    using forward_events [of "fabric_of n" p "nd_alg n"] f by (metis snd_conv)
  have "node_send now rid dest txt n =
      ((if ?hops = [] then Some (NoRouteTo dest) else None, n\<lparr>nd_seen := ?c\<rparr>),
       es @ (if ?hops = [] then [] else send_copies p ?hops @ [Log (SentVia dest ?hops)]))"
    using False by (simp add: node_send_def p_def [symmetric] Let_def fabric_of_seen hs(2) es_def case_prod_beta)
  then have r: "e = (if ?hops = [] then Some (NoRouteTo dest) else None)" "n' = n\<lparr>nd_seen := ?c\<rparr>"
    "sends out = map (\<lambda>t. (t, p)) ?hops"
    using assms(8) own_clone [OF own] by (simp_all add: ls send_copies_def comp_def)
  have i: "seen_ok (nd_seen n)" "sc_ttl (nd_seen n) = message_seen_ttl"
    using node_reaches_inv [OF assms(1)] by (simp_all add: node_inv_def)
  have kept: "fst (seen t rid ?c)" if "t \<le> now + 60 * second" for t
    using seen.remembers [OF i(1) assms(3,7)] that assms(3) i
    by (simp add: fst_seen seen_ok_seen message_seen_ttl_def second_def time_sub_def)
  have "sint (p_ttl p) = 16" by (simp add: fields(4) default_ttl_def)
  then show ?thesis
    using False r kept fields(1-3) cs own0 [of "nd_alg n"] hs(1,2) wire by (intro conjI impI exI [of _ p] exI [of _ ?hops]) simp_all
qed

text \<open>The witness sends to a neighbour of the sample node, whose table is still empty.\<close>

theorem send_outcome_witness:
  "\<exists>n' out. node_send second ''0a'' ''B'' ''hi'' (sample_node (IsLsr new_lsr) ''lsr'') = ((Some (NoRouteTo ''B''), n'), out)"
proof -
  let ?n = "sample_node (IsLsr new_lsr) ''lsr''"
  have u: "utf8_valid ''0a''" "utf8_valid ''hi''" "utf8_valid (nd_addr ?n)" "utf8_valid (node_address ?n ''B'')"
    by code_simp+
  have new: "\<not> fst (seen second ''0a'' (nd_seen ?n))" by (simp add: sample_node_def fst_seen)
  obtain e n' out where s: "node_send second ''0a'' ''B'' ''hi'' ?n = ((e, n'), out)" by (metis prod.collapse)
  have "''B'' \<noteq> nd_id ?n" by (simp add: sample_node_def)
  moreover have "fst (alg_forward fab p (nd_alg ?n)) = []" for fab p
    by (simp add: sample_node_def lsr_ops_def lsr_forward_def new_lsr_def Let_def st_lookup_def new_safe_table_def)
  ultimately show ?thesis
    using send_outcome [OF sample_lsr_reached u(1) _ u(2-4) new s] s by auto
qed

end
