(* ===== verification/Float_Error.thy ===== *)
theory Float_Error
  imports Go_Float
begin

text \<open>
  How far the doubles are from the numbers they stand for: rounding a rational of size at most
  \<open>2 powi e\<close> moves it by at most \<open>2 powi (e - 53)\<close>, and every operation on finite operands
  is the rounding of the exact result.
\<close>

section \<open>One rounding\<close>

lemma round_even_error: "\<bar>of_int (round_even x) - x\<bar> \<le> 1 / 2"
proof -
  have "of_int \<lfloor>x\<rfloor> \<le> x" "x < of_int \<lfloor>x\<rfloor> + 1" by linarith+
  then show ?thesis by (auto simp: round_even_def Let_def abs_le_iff)
qed

lemma round_pos_error: "\<bar>round_pos q - q\<bar> \<le> 2 powi (spacing q - 1)"
proof -
  let ?E = "(2::rat) powi spacing q"
  have "round_pos q - q = (of_int (round_even (q / ?E)) - q / ?E) * ?E"
    by (simp add: round_pos_def algebra_simps)
  then have "\<bar>round_pos q - q\<bar> = \<bar>of_int (round_even (q / ?E)) - q / ?E\<bar> * ?E"
    by (simp add: abs_mult)
  also have "\<dots> \<le> 1 / 2 * ?E" by (intro mult_right_mono round_even_error) (simp add: less_imp_le)
  also have "\<dots> = 2 powi (spacing q - 1)" using powi_add_one [of "spacing q - 1"] by simp
  finally show ?thesis .
qed

lemma spacing_bound:
  assumes "0 < q" "q \<le> 2 powi e" "-1022 \<le> e"
  shows "spacing q \<le> e - 52"
proof -
  have "(2::rat) powi exponent q \<le> 2 powi e" using exponent_bounds(1) [OF assms(1)] assms(2) by linarith
  then have "exponent q \<le> e" using powi_less_iff [of e "exponent q"] by linarith
  with assms(3) show ?thesis by (simp add: spacing_def)
qed

lemma ieee_round_pos_error:
  assumes "0 \<le> q" "q \<le> 2 powi e" "-1022 \<le> e" "e \<le> 1023"
  shows "\<exists>r. ieee_round_pos q = Fin r \<and> \<bar>r - q\<bar> \<le> 2 powi (e - 53)"
proof (cases "q = 0")
  case False
  with assms(1) have q: "0 < q" by simp
  note sp = spacing_bound [OF q assms(2,3)]
  have "round_pos q \<le> 2 powi e" using sp by (intro round_pos_le_power assms(2)) simp
  have "exponent (round_pos q) \<le> 1023"
  proof (cases "round_pos q = 0")
    case False
    then have p: "0 < round_pos q" using round_pos_nonneg [OF q] by linarith
    have "(2::rat) powi exponent (round_pos q) \<le> 2 powi e"
      using exponent_bounds(1) [OF p] \<open>round_pos q \<le> 2 powi e\<close> by linarith
    then show ?thesis using powi_less_iff [of e "exponent (round_pos q)"] assms(4) by linarith
  qed simp
  moreover have "(2::rat) powi (spacing q - 1) \<le> 2 powi (e - 53)" using sp by (intro powi_mono) simp
  ultimately show ?thesis
    using q round_pos_error [of q] by (auto simp: ieee_round_pos_def Let_def)
qed (simp add: ieee_round_pos_def less_imp_le)

lemma ieee_round_error:
  assumes "\<bar>q\<bar> \<le> 2 powi e" "-1022 \<le> e" "e \<le> 1023"
  shows "\<exists>r. ieee_round q = Fin r \<and> \<bar>r - q\<bar> \<le> 2 powi (e - 53)"
proof (cases "q < 0")
  case True
  then obtain r where r: "ieee_round_pos (- q) = Fin r" "\<bar>r - (- q)\<bar> \<le> 2 powi (e - 53)"
    using ieee_round_pos_error [of "- q" e] assms by auto
  have "\<bar>- r - q\<bar> = \<bar>r - (- q)\<bar>" by linarith
  with r True show ?thesis by (simp add: ieee_round_def)
next
  case False
  then show ?thesis using ieee_round_pos_error [of q e] assms by (simp add: ieee_round_def)
qed

lemma f64_error:
  assumes "\<bar>q\<bar> \<le> 2 powi e" "-1022 \<le> e" "e \<le> 1023"
  shows "is_finite (f64 q)" and "\<bar>fval (f64 q) - q\<bar> \<le> 2 powi (e - 53)"
proof -
  obtain r where r: "ieee_round q = Fin r" "\<bar>r - q\<bar> \<le> 2 powi (e - 53)"
    using ieee_round_error [OF assms] by blast
  from r(1) show "is_finite (f64 q)" unfolding is_finite_def by transfer simp
  from r show "\<bar>fval (f64 q) - q\<bar> \<le> 2 powi (e - 53)" by transfer simp
qed

section \<open>The operations round the exact result\<close>

lemma finite_Fin: "ieee_ok x \<Longrightarrow> x \<noteq> NaN \<Longrightarrow> x \<noteq> PosInf \<Longrightarrow> x \<noteq> NegInf \<Longrightarrow> \<exists>q. x = Fin q"
  by (cases x) simp_all

lemma fsub_f64: "is_finite x \<Longrightarrow> is_finite y \<Longrightarrow> fsub x y = f64 (fval x - fval y)"
  unfolding is_finite_def fsub_def by transfer (auto dest!: finite_Fin)

lemma fmul_f64: "is_finite x \<Longrightarrow> is_finite y \<Longrightarrow> fmul x y = f64 (fval x * fval y)"
  unfolding is_finite_def by transfer (auto dest!: finite_Fin)

lemma fdiv_f64: "is_finite x \<Longrightarrow> is_finite y \<Longrightarrow> fval y \<noteq> 0 \<Longrightarrow> fdiv x y = f64 (fval x / fval y)"
  unfolding is_finite_def by transfer (auto dest!: finite_Fin)

lemma fless_fval: "is_finite x \<Longrightarrow> is_finite y \<Longrightarrow> fless x y \<longleftrightarrow> fval x < fval y"
  unfolding is_finite_def fless_def less_float64_def by transfer (auto dest!: finite_Fin)

lemma fval_small:
  assumes "\<bar>n\<bar> < 2 ^ 53"
  shows "is_finite (f64 (of_int n))" and "fval (f64 (of_int n)) = of_int n"
proof -
  have r: "ieee_round (of_int n) = Fin (of_int n)" using ieee_round_dyadic [OF assms, of 0] by simp
  then show "is_finite (f64 (of_int n))" unfolding is_finite_def by transfer simp
  from r show "fval (f64 (of_int n)) = of_int n" by transfer simp
qed

end
