(* ===== verification/Proto_Object.thy ===== *)
theory Proto_Object
  imports Proto_Own Float_Error
begin

text \<open>
  The objects this program sends, hellos and announcements, can always be built: what was
  decoded can be encoded again, so the checksum over the canonical form exists, and the packet
  around the object crosses the wire.
\<close>

section \<open>Canonical forms\<close>

lemma those_Some: "\<forall>x \<in> set xs. f x \<noteq> None \<Longrightarrow> \<exists>ys. those (map f xs) = Some ys"
  by (induction xs) auto

lemma decoded_encodable: "to_any j = Some v \<Longrightarrow> of_any html v \<noteq> None"
proof (induction j arbitrary: v)
  case (JNum tok)
  then show ?case by (auto simp: parse_float_def Let_def split: if_splits)
next
  case (JArr js)
  then obtain vs where vs: "those (map to_any js) = Some vs" "v = GArr vs" by auto
  then have "map to_any js = map Some vs" by (simp add: those_iff)
  then have "\<forall>w \<in> set vs. of_any html w \<noteq> None" using JArr.IH by (metis (no_types, lifting) imageE imageI set_map)
  then show ?case using those_Some [of vs "of_any html"] vs(2) by auto
next
  case (JObj ms)
  then obtain kvs where kvs: "those (map (\<lambda>(k, v). both (unquote k) (to_any v)) ms) = Some kvs" "v = GObj (put_all kvs [])"
    by auto
  then have e: "map (\<lambda>(k, v). both (unquote k) (to_any v)) ms = map Some kvs" by (simp add: those_iff)
  have "of_any html w \<noteq> None" if "(k, w) \<in> set kvs" for k w
  proof -
    from that e have "Some (k, w) \<in> (\<lambda>(k, v). both (unquote k) (to_any v)) ` set ms"
      unfolding set_map [symmetric] e by simp
    then obtain k' j where j: "(k', j) \<in> set ms" "to_any j = Some w" by (auto simp: both_def split: option.splits)
    show ?thesis by (rule JObj.IH [OF j(1) _ j(2)]) simp
  qed
  then have "\<forall>x \<in> set (put_all kvs []). (\<lambda>(k, v). map_option (Pair k) (of_any html v)) x \<noteq> None"
    using put_all_values [of _ _ kvs] by fastforce
  from those_Some [OF this] show ?case unfolding kvs(2) of_any.simps by auto
qed auto

lemma canonical_exists:
  assumes "wf_json j" "json_depth j \<le> max_depth" "to_any j = Some v"
  shows "canonical_json (json_print j) \<noteq> None"
  using json_parse_print [OF assms(1,2)] assms(3) decoded_encodable [OF assms(3), of False] by (simp add: canonical_json_def)

lemma int_text_float: "parse_float (int_text (sint (n :: goint))) \<noteq> None"
proof -
  have nat_text: "token_value (dec_digits k) = of_int k" if "0 \<le> k" for k
    using token_value_parts [of "dec_digits k" "[]" None] dec_digits_ok [OF that]
    by (simp add: frac_text_def expo_text_def)
  have "token_value (int_text (sint n)) = of_int (sint n)"
  proof (cases "sint n < 0")
    case True
    have "is_digit (hd (dec_digits (- sint n)))" "dec_digits (- sint n) \<noteq> []"
      using dec_digits_ok [of "- sint n"] True by (auto simp: list_all_iff)
    with True show ?thesis by (simp add: int_text_def token_value_neg nat_text)
  qed (simp add: int_text_def nat_text)
  moreover have "\<bar>of_int (sint n) :: rat\<bar> \<le> of_int (2 ^ 63)"
    unfolding of_int_abs [symmetric] of_int_le_iff using sint_greater_eq [of n] sint_less [of n] by (simp add: abs_le_iff)
  then have "\<bar>of_int (sint n) :: rat\<bar> \<le> 2 powi 63" by simp
  from f64_error(1) [OF this] have "is_finite (f64 (of_int (sint n)))" by simp
  ultimately show ?thesis by (simp add: parse_float_def Let_def)
qed

section \<open>Objects in packets\<close>

text \<open>An object a packet of ours can carry.\<close>

definition sendable :: "json \<Rightarrow> bool" where
  "sendable j \<longleftrightarrow> wf_json j \<and> html_clean j \<and> json_depth j \<le> 9 \<and> to_any j \<noteq> None \<and> (\<exists>ms. j = JObj ms)"

lemma object_built:
  assumes "sendable j" "utf8_valid rid" "rid \<noteq> []" "utf8_valid proto" "utf8_valid typ" "utf8_valid source" "utf8_valid dest"
  shows "\<exists>p. new_object rid proto typ source dest (Some j) = Some p \<and> own_packet p \<and> p_payload p = json_print j \<and>
    p_ttl p = default_ttl \<and> p_type p = typ \<and> p_from p = source \<and> p_to p = dest \<and> p_proto p = proto \<and> checksum_valid p \<and>
    header_string p header_msg_id = rid \<and> header p header_via = None \<and> header p header_t0 = None"
proof -
  from assms(1) obtain ms v where j: "j = JObj ms" "wf_json j" "html_clean j" "json_depth j \<le> 9" "to_any j = Some v"
    by (auto simp: sendable_def)
  then have "canonical_json (json_print j) \<noteq> None" by (intro canonical_exists) (simp_all add: max_depth_def)
  then obtain p where p: "new_object rid proto typ source dest (Some j) = Some p"
    by (auto simp: new_object_def set_payload_object_def simp del: json_print.simps)
  show ?thesis
    using own_new_object [OF assms(2-7) p [unfolded j(1)]] j p by (auto simp del: json_print.simps)
qed

lemma hello_sendable: "sendable (hello_json port)"
proof -
  have "body_ok ''listen_port''" "html_body ''listen_port'' = ''listen_port''" "unquote ''listen_port'' = Some ''listen_port''"
    by code_simp+
  moreover obtain x where "parse_float (int_text (sint port)) = Some x" using int_text_float by blast
  ultimately show ?thesis by (simp add: sendable_def hello_json_def int_json_def both_def)
qed

lemma lsp_sendable:
  assumes "lsp_ok l"
  shows "\<exists>j. lsp_json l = Some j \<and> sendable j"
proof -
  let ?links = "shape_list ''id'' ''weight'' (lsp_neighbors l)"
  let ?j = "shape_lsp ''neighbors'' ?links l"
  have es: "list_all entry_ok (lsp_neighbors l)" using assms by (simp add: lsp_ok_def)
  note w = shape_list_wf [OF es, of "''id''" "''weight''"]
  have clean: "html_body ''origin'' = ''origin''" "html_body ''seq'' = ''seq''" "html_body ''age_s'' = ''age_s''"
    "html_body ''neighbors'' = ''neighbors''" "html_body ''id'' = ''id''" "html_body ''weight'' = ''weight''" by code_simp+
  have "wf_json ?links" "json_depth ?links \<le> 2" using w by (simp_all add: key_facts)
  then have "wf_json ?j" "json_depth ?j \<le> 9"
    using assms by (auto simp: shape_lsp_def quote_str_def int_json_def key_facts lsp_ok_def)
  moreover have "html_clean ?j" by (auto simp: shape_lsp_def shape_list_def quote_str_def int_json_def clean)
  moreover have "to_any ?j \<noteq> None"
  proof -
    have "to_any x \<noteq> None" if "x \<in> set (map (\<lambda>e. JObj [(''id'', quote_str True (ne_id e)), (''weight'', JNum (json_float (ne_weight e)))]) (lsp_neighbors l))" for x
      using that es by (auto simp: list_all_iff entry_ok_def quote_str_def both_def key_facts quote_roundtrip json_float_roundtrip)
    then have "\<exists>ys. those (map to_any (map (\<lambda>e. JObj [(''id'', quote_str True (ne_id e)), (''weight'', JNum (json_float (ne_weight e)))]) (lsp_neighbors l))) = Some ys"
      by (intro those_Some) blast
    then obtain ys where "to_any ?links = Some (GArr ys)" unfolding shape_list_def by auto
    moreover obtain x where "parse_float (int_text (sint (lsp_seq l))) = Some x" using int_text_float by blast
    ultimately show ?thesis
      using assms by (simp add: shape_lsp_def both_def key_facts quote_str_def int_json_def lsp_ok_def quote_roundtrip json_float_roundtrip)
  qed
  ultimately have "sendable ?j" by (simp add: sendable_def shape_lsp_def)
  with lsp_json_shape [OF assms] show ?thesis by blast
qed

end
