(* ===== verification/Node_Links.thy ===== *)
theory Node_Links
  imports Node_Messages Proto_Object
begin

text \<open>
  The links of a node over time: how close a measured cost is to half the round trip, which
  neighbours a tick declares down, and which ones it names as silent.
\<close>

section \<open>The accuracy of a measurement\<close>

text \<open>An instant of the years 1970 to 2043, as seconds in a double, is off by less than a microsecond.\<close>

lemma clock_error:
  assumes "0 \<le> t" "t \<le> 2 ^ 61"
  shows "is_finite (now_seconds t)" and "\<bar>fval (now_seconds t) - of_int t / 1000000000\<bar> \<le> 3 / 4000000"
proof -
  let ?x = "f64 (of_int t)"
  have "\<bar>of_int t :: rat\<bar> \<le> 2 powi 61" using assms of_int_le_iff [of t "2 ^ 61", where ?'a = rat] by simp
  from f64_error [OF this] have x: "is_finite ?x" "\<bar>fval ?x - of_int t\<bar> \<le> 256" by simp_all
  have g: "is_finite (f64 1000000000)" "fval (f64 1000000000) = 1000000000" using fval_small [of 1000000000] by simp_all
  have q: "now_seconds t = f64 (fval ?x / 1000000000)"
    using fdiv_f64 [OF x(1) g(1)] by (simp add: now_seconds_def g(2))
  have "(of_int t :: rat) \<le> 2305843009213693952" "0 \<le> (of_int t :: rat)"
    using assms of_int_le_iff [of t "2305843009213693952", where ?'a = rat] by simp_all
  then have "\<bar>fval ?x / 1000000000\<bar> \<le> 4294967296" using x(2) by linarith
  then have "\<bar>fval ?x / 1000000000\<bar> \<le> 2 powi 32" by simp
  from f64_error [OF this] have r: "is_finite (now_seconds t)" "\<bar>fval (now_seconds t) - fval ?x / 1000000000\<bar> \<le> 1 / 2097152"
    unfolding q by (simp_all add: power_int_minus)
  show "is_finite (now_seconds t)" by (rule r(1))
  have "\<bar>fval ?x / 1000000000 - of_int t / 1000000000\<bar> \<le> 256 / 1000000000" using x(2) by linarith
  with r(2) show "\<bar>fval (now_seconds t) - of_int t / 1000000000\<bar> \<le> 3 / 4000000" by linarith
qed

text \<open>The roundings of the five operations behind a measurement, added up.\<close>

lemma trip_sum:
  fixes a b c d m s0 s1 :: rat
  assumes "c - m / 2 \<le> 1 / 2147483648" "m - d * 1000 \<le> 1 / 2147483648" "d - (s1 - s0) \<le> 1 / 2199023255552"
    and "- (s0 - a) \<le> 3 / 4000000" "s1 - b \<le> 3 / 4000000"
  shows "c - (b - a) * 500 \<le> 4 / 5000"
  using assms by (simp add: field_simps)

lemma trip_sum_low:
  fixes a b c d m s0 s1 :: rat
  assumes "- (c - m / 2) \<le> 1 / 2147483648" "- (m - d * 1000) \<le> 1 / 2147483648" "- (d - (s1 - s0)) \<le> 1 / 2199023255552"
    and "s0 - a \<le> 3 / 4000000" "- (s1 - b) \<le> 3 / 4000000"
  shows "- (c - (b - a) * 500) \<le> 4 / 5000"
  using assms by (simp add: field_simps)

lemma half_trip_error:
  assumes "is_finite s0" "is_finite s1" "\<bar>fval s0 - a\<bar> \<le> 3 / 4000000" "\<bar>fval s1 - b\<bar> \<le> 3 / 4000000"
    and "a \<le> b" "b \<le> a + 3600"
  defines "c \<equiv> fdiv (fmul (fsub s1 s0) (f64 1000)) (f64 2)"
  shows "is_finite c" and "\<bar>fval c - (b - a) * 500\<bar> \<le> 4 / 5000"
proof -
  have k: "is_finite (f64 1000)" "fval (f64 1000) = 1000" "is_finite (f64 2)" "fval (f64 2) = 2"
    using fval_small [of 1000] fval_small [of 2] by simp_all
  let ?d = "fsub s1 s0" and ?m = "fmul (fsub s1 s0) (f64 1000)"
  have "\<bar>fval s1 - fval s0\<bar> \<le> 4096" using assms(3-6) by linarith
  then have "\<bar>fval s1 - fval s0\<bar> \<le> 2 powi 12" by simp
  from f64_error [OF this] have d: "is_finite ?d" "\<bar>fval ?d - (fval s1 - fval s0)\<bar> \<le> 1 / 2199023255552"
    by (simp_all add: fsub_f64 assms(1,2) power_int_minus)
  then have "\<bar>fval ?d * 1000\<bar> \<le> 4194304" using assms(3-6) by linarith
  then have "\<bar>fval ?d * 1000\<bar> \<le> 2 powi 22" by simp
  from f64_error [OF this] have m: "is_finite ?m" "\<bar>fval ?m - fval ?d * 1000\<bar> \<le> 1 / 2147483648"
    by (simp_all add: fmul_f64 d(1) k power_int_minus)
  then have "\<bar>fval ?m / 2\<bar> \<le> 4194304" using d(2) assms(3-6) by linarith
  then have "\<bar>fval ?m / 2\<bar> \<le> 2 powi 22" by simp
  from f64_error [OF this] have c: "is_finite c" "\<bar>fval c - fval ?m / 2\<bar> \<le> 1 / 2147483648"
    by (simp_all add: c_def fdiv_f64 m(1) k power_int_minus)
  show "is_finite c" by (rule c(1))
  show "\<bar>fval c - (b - a) * 500\<bar> \<le> 4 / 5000"
    using trip_sum [OF abs_le_D1 [OF c(2)] abs_le_D1 [OF m(2)] abs_le_D1 [OF d(2)] abs_le_D2 [OF assms(3)] abs_le_D1 [OF assms(4)]]
      trip_sum_low [OF abs_le_D2 [OF c(2)] abs_le_D2 [OF m(2)] abs_le_D2 [OF d(2)] abs_le_D1 [OF assms(3)] abs_le_D2 [OF assms(4)]]
    by (rule abs_leI)
qed

lemma min_cost_error: "is_finite min_cost" "\<bar>fval min_cost - 1 / 100\<bar> \<le> 1 / 5000"
proof -
  have "\<bar>1 / 100 :: rat\<bar> \<le> 2 powi 0" by simp
  from f64_error [OF this] have "is_finite min_cost" "\<bar>fval min_cost - 1 / 100\<bar> \<le> 2 powi (- 53)"
    by (simp_all add: min_cost_def)
  moreover have "(2::rat) powi (- 53) \<le> 1 / 5000" by (simp add: power_int_minus)
  ultimately show "is_finite min_cost" "\<bar>fval min_cost - 1 / 100\<bar> \<le> 1 / 5000" by simp_all
qed

text \<open>Half the round trip in milliseconds, never under a hundredth.\<close>

definition half_trip_ms :: "gotime \<Rightarrow> gotime \<Rightarrow> rat" where
  "half_trip_ms t0 t1 = max (1 / 100) (of_int (t1 - t0) / 2000000)"

lemma measured_cost_error:
  assumes "0 \<le> t0" "t0 \<le> t1" "t1 \<le> t0 + 3600 * second" "t1 \<le> 2 ^ 61"
    and "header_float p header_t0 = Some (now_seconds t0)"
  shows "is_finite (measured_cost t1 p)" and "\<bar>fval (measured_cost t1 p) - half_trip_ms t0 t1\<bar> \<le> 1 / 1000"
proof -
  have t0: "t0 \<le> 2 ^ 61" and t1: "0 \<le> t1" using assms by linarith+
  let ?c = "fdiv (fmul (fsub (now_seconds t1) (now_seconds t0)) (f64 1000)) (f64 2)"
  let ?a = "of_int t0 / 1000000000 :: rat" and ?b = "of_int t1 / 1000000000 :: rat"
  have ab: "?a \<le> ?b" using assms(2) by (simp add: divide_right_mono)
  have "(of_int t1 :: rat) \<le> of_int (t0 + 3600 * second)" using assms(3) by (simp only: of_int_le_iff)
  then have "?b \<le> ?a + 3600" by (simp add: second_def)
  note c = half_trip_error [OF clock_error(1) [OF assms(1) t0] clock_error(1) [OF t1 assms(4)]
      clock_error(2) [OF assms(1) t0] clock_error(2) [OF t1 assms(4)] ab this]
  have m: "measured_cost t1 p = (if fval ?c < fval min_cost then min_cost else ?c)"
    using fless_fval [OF c(1) min_cost_error(1)] by (simp add: measured_cost_def assms(5))
  then show "is_finite (measured_cost t1 p)" using c(1) min_cost_error(1) by simp
  have h: "half_trip_ms t0 t1 = max (1 / 100) ((?b - ?a) * 500)" by (simp add: half_trip_ms_def diff_divide_distrib)
  show "\<bar>fval (measured_cost t1 p) - half_trip_ms t0 t1\<bar> \<le> 1 / 1000"
    using c(2) min_cost_error(2) unfolding m h max_def by (simp only: split: if_split) linarith
qed

section \<open>Probe, echo, measurement\<close>

lemma hello_built:
  assumes "utf8_valid rid" "rid \<noteq> []" "utf8_valid typ" "utf8_valid source" "utf8_valid dest"
  shows "\<exists>p. new_object rid (alg_proto a) typ source dest (Some (hello_payload n)) = Some p \<and> own_packet p \<and>
    p_ttl p = default_ttl \<and> p_type p = typ \<and> p_from p = source \<and> header p header_t0 = None"
  unfolding hello_payload_def
  using object_built [OF hello_sendable assms(1,2) alg_proto_utf8 assms(3-5)] by blast

text \<open>The entry that carries the timestamp arrives as it was sent.\<close>

lemma stamp_received:
  "own_packet p \<Longrightarrow> header p header_t0 = Some (GNum x) \<Longrightarrow> header_float (received p) header_t0 = Some x"
  using header_received [OF own_headers_ok, of p header_t0] by (simp add: header_float_def)

lemma probe_sends:
  assumes "utf8_valid (ids nb)" "ids nb \<noteq> []" "utf8_valid (nd_addr n)" "utf8_valid (node_address n nb)" "is_finite (now_seconds t)"
  shows "\<exists>q. probe t ids n nb = [Send nb q] \<and> own_packet q \<and> p_ttl q = default_ttl \<and> p_type q = type_hello \<and>
    p_from q = nd_addr n \<and> header q header_t0 = Some (GNum (now_seconds t))"
proof -
  from hello_built [OF assms(1,2) message_utf8(2) assms(3,4), of "nd_alg n" n] obtain p where
    p: "new_object (ids nb) (alg_proto (nd_alg n)) type_hello (nd_addr n) (node_address n nb) (Some (hello_payload n)) = Some p"
    "own_packet p" "p_ttl p = default_ttl" "p_type p = type_hello" "p_from p = nd_addr n" by blast
  let ?q = "set_header header_via (GStr (nd_addr n)) (set_header header_t0 (GNum (now_seconds t)) p)"
  have "probe t ids n nb = [Send nb ?q]" by (simp add: probe_def p(1))
  moreover have "own_packet ?q" using p(2) header_names_utf8 assms(3,5) by (simp add: own_set_header)
  moreover have "header ?q header_t0 = Some (GNum (now_seconds t))" by (simp add: header_set_header header_names)
  moreover have "p_ttl ?q = default_ttl" "p_type ?q = type_hello" "p_from ?q = nd_addr n"
    using p(3-5) by (simp_all add: set_header_def)
  ultimately show ?thesis by blast
qed

lemma hello_answered:
  assumes "utf8_valid rid'" "rid' \<noteq> []" "utf8_valid (nd_addr n)" "utf8_valid (p_from p)"
    and "header_float p header_t0 = Some x" "is_finite x"
  shows "\<exists>q. Send (node_local_id n (p_from p)) q \<in> set (snd (handle_hello now rid rid' p n)) \<and> own_packet q \<and>
    p_ttl q = default_ttl \<and> p_type q = type_echo \<and> p_from q = nd_addr n \<and> header q header_t0 = Some (GNum x)"
proof -
  let ?n = "fst (mark_alive now rid (node_local_id n (p_from p)) n)"
  have addr: "nd_addr ?n = nd_addr n" by (simp add: mark_alive_def Let_def)
  from hello_built [OF assms(1,2) message_utf8(3) assms(3,4), of "nd_alg ?n" ?n] obtain r where
    r: "new_object rid' (alg_proto (nd_alg ?n)) type_echo (nd_addr n) (p_from p) (Some (hello_payload ?n)) = Some r"
    "own_packet r" "p_ttl r = default_ttl" "p_type r = type_echo" "p_from r = nd_addr n" by blast
  let ?q = "set_header header_via (GStr (nd_addr n)) (set_header header_t0 (GNum x) r)"
  have "Send (node_local_id n (p_from p)) ?q \<in> set (snd (handle_hello now rid rid' p n))"
    by (simp add: handle_hello_def Let_def addr r(1) assms(5))
  moreover have "own_packet ?q" using r(2) header_names_utf8 assms(3,6) by (simp add: own_set_header)
  moreover have "header ?q header_t0 = Some (GNum x)" by (simp add: header_set_header header_names)
  moreover have "p_ttl ?q = default_ttl" "p_type ?q = type_echo" "p_from ?q = nd_addr n"
    using r(3-5) by (simp_all add: set_header_def)
  ultimately show ?thesis by blast
qed

text \<open>
  C10: the cost of a link is half its round trip. A probe of a neighbour at one instant is read
  by the neighbour as a hello, which answers with an echo; read back at a later instant, the
  echo gives, in milliseconds, half the time between, floored at a hundredth, to within a
  thousandth, for every instant of the years 1970 to 2043 and any round trip of up to an hour,
  whatever the neighbour's own clock shows.
\<close>

theorem echo_measures_round_trip:
  assumes "0 \<le> t0" and "t0 \<le> t1" and "t1 \<le> t0 + 3600 * second" and "t1 \<le> 2 ^ 61"
    and "utf8_valid (ids nb)" and "ids nb \<noteq> []" and "utf8_valid rid'" and "rid' \<noteq> []"
    and "utf8_valid (nd_addr n)" and "utf8_valid (node_address n nb)" and "utf8_valid (nd_addr k)"
  shows "\<exists>q data hello r data' echo.
    probe t0 ids n nb = [Send nb q] \<and> encode q = Some data \<and> decode data = Some hello \<and> p_type hello = type_hello \<and>
    Send (node_local_id k (p_from hello)) r \<in> set (snd (handle_hello tk rid rid' hello k)) \<and> p_from hello = nd_addr n \<and>
    encode r = Some data' \<and> decode data' = Some echo \<and> p_type echo = type_echo \<and> p_from echo = nd_addr k \<and>
    \<bar>fval (measured_cost t1 echo) - max (1 / 100) (of_int (t1 - t0) / 2000000)\<bar> \<le> 1 / 1000"
proof -
  have hop: "\<not> int_le default_ttl 0" by (simp add: default_ttl_def int_le_def)
  have "t0 \<le> 2 ^ 61" using assms(2,4) by linarith
  note fin = clock_error(1) [OF assms(1) this]
  obtain q where q: "probe t0 ids n nb = [Send nb q]" "own_packet q" "p_ttl q = default_ttl" "p_type q = type_hello"
    "p_from q = nd_addr n" "header q header_t0 = Some (GNum (now_seconds t0))"
    using probe_sends [where ids = ids and nb = nb and n = n and t = t0, OF assms(5,6,9,10) fin] by blast
  obtain data where d: "encode q = Some data" "decode data = Some (received q)"
    using own_received [OF q(2)] hop q(3) by auto
  have "utf8_valid (p_from (received q))" using q(5) assms(9) by (simp add: received_fields)
  note hello_answered [OF assms(7,8,11) this stamp_received [OF q(2,6)] fin]
  then obtain r where r: "Send (node_local_id k (p_from (received q))) r \<in> set (snd (handle_hello tk rid rid' (received q) k))"
    "own_packet r" "p_ttl r = default_ttl" "p_type r = type_echo" "p_from r = nd_addr k"
    "header r header_t0 = Some (GNum (now_seconds t0))" by blast
  obtain data' where d': "encode r = Some data'" "decode data' = Some (received r)"
    using own_received [OF r(2)] hop r(3) by auto
  have "\<bar>fval (measured_cost t1 (received r)) - half_trip_ms t0 t1\<bar> \<le> 1 / 1000"
    by (rule measured_cost_error(2) [OF assms(1-4) stamp_received [OF r(2,6)]])
  then show ?thesis
    using q(1,4,5) d r(1,4,5) d' unfolding half_trip_ms_def received_fields
    by (intro exI [of _ q] exI [of _ data] exI [of _ "received q"] exI [of _ r] exI [of _ data'] exI [of _ "received r"])
      (simp add: received_fields)
qed

text \<open>The witness: a probe sent at second one and answered is read back a tenth of a second later.\<close>

theorem echo_measures_round_trip_witness:
  "\<exists>data' echo. decode data' = Some echo \<and> p_type echo = type_echo \<and>
    \<bar>fval (measured_cost (11 * second div 10) echo) - 50\<bar> \<le> 1 / 1000"
proof -
  let ?n = "sample_node (IsLsr new_lsr) ''lsr''"
  have u: "utf8_valid ''0a''" "utf8_valid (nd_addr ?n)" "utf8_valid (node_address ?n ''B'')" by code_simp+
  note r = echo_measures_round_trip [where ids = "\<lambda>_. ''0a''" and nb = "''B''" and n = ?n and k = ?n and rid = "''0a''" and
      rid' = "''0a''" and tk = 0 and ?t0.0 = second and ?t1.0 = "11 * second div 10", OF _ _ _ _ u(1) _ u(1) _ u(2,3,2)]
  show ?thesis using r by (simp add: second_def) blast
qed

section \<open>What the discovery plane reports\<close>

text \<open>The two kinds of lines only the discovery plane writes.\<close>

fun plane_line :: "event \<Rightarrow> bool" where
  "plane_line (Log (Stopped pid)) = True"
| "plane_line (Log (NeverAnswered pid addr)) = True"
| "plane_line e = False"

lemma relay_quiet: "list_all (\<lambda>e. \<not> plane_line e) (relay_to fab p ns)"
  by (auto simp: relay_to_events list_all_iff)

lemma announce_quiet: "list_all (\<lambda>e. \<not> plane_line e) (snd (announce fab now rid s))"
  by (simp add: announce_def Let_def lsr_relay_def relay_quiet split: option.split)

lemma learn_quiet: "list_all (\<lambda>e. \<not> plane_line e) (snd (lsr_learn fab now p l s))"
  by (simp add: lsr_learn_def Let_def lsr_relay_def relay_quiet split: prod.split)

lemma sweep_quiet: "list_all (\<lambda>e. \<not> plane_line e) (snd (lsr_sweep fab now s))"
  by (auto simp: lsr_sweep_def expire_def report_asymmetries_def Let_def list_all_iff split: prod.splits)

lemma alg_quiet:
  "list_all (\<lambda>e. \<not> plane_line e) (snd (alg_link_up fab now rid nb c a))"
  "list_all (\<lambda>e. \<not> plane_line e) (snd (alg_link_down fab now rid nb a))"
  "list_all (\<lambda>e. \<not> plane_line e) (snd (alg_handle_info fab now rid p a))"
  "list_all (\<lambda>e. \<not> plane_line e) (snd (alg_refresh fab now rid a))"
  "list_all (\<lambda>e. \<not> plane_line e) (snd (alg_sweep fab now a))"
  "list_all (\<lambda>e. \<not> plane_line e) (snd (alg_forward fab p a))"
proof -
  have up: "list_all (\<lambda>e. \<not> plane_line e) (snd (lsr_link_up fab now rid nb c s))" for s
    using announce_quiet by (auto simp: lsr_link_up_def Let_def split: prod.splits) (metis snd_conv)+
  have down: "list_all (\<lambda>e. \<not> plane_line e) (snd (lsr_link_down fab now rid nb s))" for s
    using announce_quiet by (auto simp: lsr_link_down_def Let_def split: prod.splits) (metis snd_conv)+
  have info: "list_all (\<lambda>e. \<not> plane_line e) (snd (lsr_handle_info fab now rid p s))" for s
    using learn_quiet by (auto simp: lsr_handle_info_def Let_def split: prod.splits option.splits) (metis snd_conv)+
  show "list_all (\<lambda>e. \<not> plane_line e) (snd (alg_link_up fab now rid nb c a))"
    by (cases a) (simp_all add: dijkstra_ops_def flooding_ops_def lsr_ops_def dj_link_up_def flooding_link_up_def up Let_def)
  show "list_all (\<lambda>e. \<not> plane_line e) (snd (alg_link_down fab now rid nb a))"
    by (cases a) (simp_all add: dijkstra_ops_def flooding_ops_def lsr_ops_def dj_link_down_def flooding_link_down_def down Let_def)
  show "list_all (\<lambda>e. \<not> plane_line e) (snd (alg_handle_info fab now rid p a))"
    by (cases a) (simp_all add: dijkstra_ops_def flooding_ops_def lsr_ops_def dj_handle_info_def flooding_handle_info_def info)
  show "list_all (\<lambda>e. \<not> plane_line e) (snd (alg_refresh fab now rid a))"
    by (cases a) (simp_all add: lsr_refresh_def announce_quiet)
  show "list_all (\<lambda>e. \<not> plane_line e) (snd (alg_sweep fab now a))"
    by (cases a) (simp_all add: sweep_quiet)
  show "list_all (\<lambda>e. \<not> plane_line e) (snd (alg_forward fab p a))"
    by (cases a) (auto simp: dijkstra_ops_def flooding_ops_def lsr_ops_def dj_forward_def flooding_forward_def lsr_forward_def
        Let_def split: option.split)
qed

section \<open>Reaping\<close>

lemma reap_notify_facts:
  "nd_neighbors (fst (reap_notify now ids dead n)) = nd_neighbors n \<and>
   (Log (Stopped pid) \<in> set (snd (reap_notify now ids dead n)) \<longleftrightarrow> pid \<in> set dead)"
proof (induction dead arbitrary: n)
  case (Cons d dead)
  then show ?case using alg_quiet(2) by (fastforce simp: snd_on_alg list_all_iff)
qed simp



section \<open>Silent neighbours\<close>

text \<open>The number of times the console was told that a neighbour never answered.\<close>

fun warns :: "string \<Rightarrow> event \<Rightarrow> bool" where
  "warns pid (Log (NeverAnswered pid' addr)) = (pid' = pid)"
| "warns pid e = False"

definition warnings :: "string \<Rightarrow> event list \<Rightarrow> nat" where
  "warnings pid es = length (filter (warns pid) es)"

lemma warnings_simps [simp]:
  "warnings pid [] = 0" "warnings pid (es @ es') = warnings pid es + warnings pid es'"
  "warnings pid (e # es) = (if warns pid e then 1 else 0) + warnings pid es"
  by (simp_all add: warnings_def)

lemma quiet_warnings: "list_all (\<lambda>e. \<not> plane_line e) es \<Longrightarrow> warnings pid es = 0"
proof -
  have "warns pid e \<Longrightarrow> plane_line e" for e by (cases "(pid, e)" rule: warns.cases) simp_all
  then show "list_all (\<lambda>e. \<not> plane_line e) es \<Longrightarrow> warnings pid es = 0"
    by (auto simp: warnings_def list_all_iff filter_empty_conv)
qed

abbreviation warned :: "node \<Rightarrow> string \<Rightarrow> bool" where
  "warned n \<equiv> mget_or False (nd_warned n)"

text \<open>What a step may do: warn only of a neighbour not warned of before, and remember it.\<close>

definition warns_once :: "node \<Rightarrow> event list \<Rightarrow> node \<Rightarrow> bool" where
  "warns_once n out n' \<longleftrightarrow>
     (\<forall>pid. warnings pid out + (if warned n pid then 1 else 0) = (if warned n' pid then 1 else 0))"

lemma quiet_step: "list_all (\<lambda>e. \<not> plane_line e) out \<Longrightarrow> nd_warned n' = nd_warned n \<Longrightarrow> warns_once n out n'"
  by (simp add: warns_once_def quiet_warnings)

lemma warns_once_trans: "warns_once n out n' \<Longrightarrow> warns_once n' out' n'' \<Longrightarrow> warns_once n (out @ out') n''"
  unfolding warns_once_def
proof (intro allI)
  fix pid
  let ?w = "\<lambda>n. if warned n pid then 1 else (0 :: nat)"
  assume "\<forall>pid. warnings pid out + (if warned n pid then 1 else 0) = (if warned n' pid then 1 else 0)"
    and "\<forall>pid. warnings pid out' + (if warned n' pid then 1 else 0) = (if warned n'' pid then 1 else 0)"
  then have "warnings pid out + ?w n = ?w n'" "warnings pid out' + ?w n' = ?w n''" by blast+
  then show "warnings pid (out @ out') + ?w n = ?w n''" unfolding warnings_simps(2) by linarith
qed

lemma on_alg_warned [simp]: "nd_warned (fst (on_alg f n)) = nd_warned n"
  by simp

lemma mark_alive_warns: "warns_once n (snd (mark_alive now rid nb n)) (fst (mark_alive now rid nb n))"
  by (rule quiet_step) (auto simp: mark_alive_def Let_def snd_on_alg alg_quiet)

lemma mark_cost_warns:
  "warns_once n (snd (mark_alive_with_cost now rid nb c n)) (fst (mark_alive_with_cost now rid nb c n))"
  by (rule quiet_step) (auto simp: mark_alive_with_cost_def Let_def snd_on_alg alg_quiet)

lemma and_then_warns:
  "warns_once n (snd r) (fst r) \<Longrightarrow> warns_once (fst r) (snd (f (fst r))) (fst (f (fst r))) \<Longrightarrow>
   warns_once n (snd (and_then r f)) (fst (and_then r f))"
  using warns_once_trans by simp

lemma on_alg_warns:
  "(\<And>fab a. list_all (\<lambda>e. \<not> plane_line e) (snd (f fab a))) \<Longrightarrow> warns_once n (snd (on_alg f n)) (fst (on_alg f n))"
  by (rule quiet_step) (simp_all add: snd_on_alg)

lemma relay_node_quiet: "list_all (\<lambda>e. \<not> plane_line e) (node_relay p n)"
proof -
  obtain hops es where f: "alg_forward (fabric_of n) p (nd_alg n) = (hops, es)" by fastforce
  then have "list_all (\<lambda>e. \<not> plane_line e) es" using alg_quiet(6) by (metis snd_conv)
  with f show ?thesis
    by (auto simp: node_relay_def Let_def send_copies_def list_all_iff split: prod.split)
qed

lemma handle_message_warns: "warns_once n (snd (handle_message now p n)) (fst (handle_message now p n))"
  by (rule quiet_step) (auto simp: handle_message_cases relay_node_quiet split: option.split)

lemma handle_hello_warns: "warns_once n (snd (handle_hello now rid rid' p n)) (fst (handle_hello now rid rid' p n))"
  unfolding handle_hello_def Let_def
  by (intro and_then_warns mark_alive_warns quiet_step) (auto split: option.split)

lemma handle_warns: "warns_once n (snd (handle now rid rid' p n)) (fst (handle now rid rid' p n))"
proof -
  have info: "warns_once m (snd (and_then (mark_alive now rid nb m) (on_alg (\<lambda>fab. alg_handle_info fab now rid' p))))
      (fst (and_then (mark_alive now rid nb m) (on_alg (\<lambda>fab. alg_handle_info fab now rid' p))))" for nb m
    by (intro and_then_warns mark_alive_warns on_alg_warns alg_quiet)
  have quiet: "warns_once n (complaints p n) n" by (rule quiet_step) (auto simp: complaints_def)
  have echo: "warns_once n (snd (handle_echo now rid p n)) (fst (handle_echo now rid p n))"
    unfolding handle_echo_def by (rule mark_cost_warns)
  have other: "warns_once n [Log (UnknownType t u)] n" for t u by (rule quiet_step) simp_all
  show ?thesis
    unfolding handle_def
    by (rule and_then_warns) (simp_all add: quiet handle_hello_warns echo info handle_message_warns other del: and_then_fst and_then_snd)
qed

lemma turn_warns: "forwarding_turn now rid rid' n = Some (n', out) \<Longrightarrow> warns_once n out n'"
  using handle_warns [of "n\<lparr>nd_inbox := tl (nd_inbox n)\<rparr>" now rid rid' "hd (nd_inbox n)"]
  by (cases "nd_inbox n") (auto simp: forwarding_turn_def warns_once_def)

lemma forward_quiet: "alg_forward fab p a = (hops, es) \<Longrightarrow> e \<in> set es \<Longrightarrow> \<not> plane_line e"
  using alg_quiet(6) [of fab p a] by (simp add: list_all_iff)

lemma send_warns: "node_send now rid dest text n = ((e, n'), out) \<Longrightarrow> warns_once n out n'"
  by (intro quiet_step)
    (auto simp: node_send_def Let_def send_copies_def list_all_iff dest: forward_quiet split: if_splits prod.splits)

lemma reap_notify_warns: "warns_once n (snd (reap_notify now ids dead n)) (fst (reap_notify now ids dead n))"
proof (induction dead arbitrary: n)
  case (Cons d dead)
  have "warns_once n [Log (Stopped d)] n" by (simp add: warns_once_def)
  then show ?case
    unfolding reap_notify.simps
    by (intro and_then_warns on_alg_warns alg_quiet Cons.IH) simp
qed (simp add: warns_once_def)

lemma reap_warns: "warns_once n (snd (reap_dead now ids n)) (fst (reap_dead now ids n))"
  using reap_notify_warns [of "snd (reap_mark now n)"] by (simp add: reap_dead_def reap_mark_def warns_once_def)

lemma probe_quiet: "list_all (\<lambda>e. \<not> plane_line e) (snd (probe_all now ids n))"
  by (auto simp: probe_all_def probe_def list_all_iff split: option.splits)

lemma warn_each_warnings:
  "warnings pid (snd (warn_each silent n)) = (if pid \<in> set silent \<and> \<not> warned n pid then 1 else 0)"
  "warned (fst (warn_each silent n)) pid \<longleftrightarrow> warned n pid \<or> pid \<in> set silent"
  by (induction silent arbitrary: n) (auto simp: Let_def)

lemma warn_each_warns: "warns_once n (snd (warn_each silent n)) (fst (warn_each silent n))"
  unfolding warns_once_def by (simp add: warn_each_warnings)

lemma warn_silent_warns:
  "warns_once n (snd (warn_silent_neighbors now started n)) (fst (warn_silent_neighbors now started n))"
  using warn_each_warns by (simp add: warn_silent_neighbors_def warns_once_def)

lemma tick_warns: "warns_once n (snd (discovery_tick now started ids ids' n)) (fst (discovery_tick now started ids ids' n))"
  unfolding discovery_tick_def
  by (intro and_then_warns reap_warns warn_silent_warns quiet_step probe_quiet) (simp add: probe_all_def)

lemma node_step_warns: "node_step n out n' \<Longrightarrow> warns_once n out n'"
proof (induction rule: node_step.induct)
  case (step_receive data p n n' out)
  then show ?case by (intro quiet_step) (auto simp: receive_def split: if_splits)
next
  case (step_tick now started ids ids' n n' out)
  then show ?case using tick_warns [of n now started ids ids'] by simp
next
  case (step_alg_refresh now rid n n' out)
  then show ?case using on_alg_warns [where f = "\<lambda>fab. alg_refresh fab now rid" and n = n] alg_quiet(4) by simp
next
  case (step_alg_sweep now n n' out)
  then show ?case using on_alg_warns [where f = "\<lambda>fab. alg_sweep fab now" and n = n] alg_quiet(5) by simp
qed (auto dest: turn_warns send_warns)

text \<open>A run of a node, with everything it sends and reports.\<close>

inductive node_run :: "node \<Rightarrow> event list \<Rightarrow> node \<Rightarrow> bool" where
  run_stop: "node_run n [] n"
| run_step: "node_step n out n' \<Longrightarrow> node_run n' es n'' \<Longrightarrow> node_run n (out @ es) n''"

lemma node_run_warns: "node_run n es n' \<Longrightarrow> warns_once n es n'"
proof (induction rule: node_run.induct)
  case (run_step n out n' es n'')
  show ?case by (rule warns_once_trans [OF node_step_warns [OF run_step(1)] run_step.IH])
qed (simp add: warns_once_def)

lemma silent_iff: "pid \<in> set (silent_neighbors n) \<longleftrightarrow> (\<exists>st. (pid, st) \<in> set (nd_neighbors n) \<and> nb_last st = zero_time)"
  by (force simp: silent_neighbors_def neighbor_states_def)

text \<open>
  C39: a configured neighbour that never answers is named exactly once. In every run of a new
  node no neighbour is reported as silent twice, and once a tick comes twelve seconds or more
  after the start, every neighbour never heard of has been reported.
\<close>

theorem silent_warned_once:
  assumes "new_node opts = Inr n" and "node_run (node_start n) es n'"
    and "discovery_tick now started ids ids' n' = (n'', out)"
  shows "warnings pid (es @ out) \<le> 1 \<and>
    (12 * second \<le> now - started \<and> pid \<in> set (silent_neighbors n') \<longrightarrow> warnings pid (es @ out) = 1)"
proof -
  have new: "\<not> warned (node_start n) pid"
    using assms(1) by (auto simp: new_node_def node_start_def Let_def split: option.splits)
  have all: "warns_once (node_start n) (es @ out) n''"
    using warns_once_trans node_run_warns [OF assms(2)] tick_warns [of n' now started ids ids'] assms(3) by (metis fst_conv snd_conv)
  have "warned n'' pid" if "12 * second \<le> now - started" "pid \<in> set (silent_neighbors n')"
  proof -
    let ?m = "fst (reap_dead now ids n')"
    have "\<not> time_sub now started < silent_grace"
      using that(1) by (simp add: silent_grace_def hello_interval_def second_def time_sub_def)
    then have "nd_warned n'' = nd_warned (fst (warn_each (silent_neighbors ?m) ?m))"
      using assms(3) [symmetric] by (simp add: discovery_tick_def probe_all_def warn_silent_neighbors_def prod_eq_iff)
    moreover have "nd_neighbors ?m = nd_neighbors (snd (reap_mark now n'))"
      using reap_notify_facts by (simp add: reap_dead_def split: prod.split)
    then have "pid \<in> set (silent_neighbors ?m)"
      using that(2) by (force simp: silent_iff reap_mark_def)
    ultimately show ?thesis by (simp add: warn_each_warnings)
  qed
  then show ?thesis using all [unfolded warns_once_def, rule_format, of pid] new by (auto split: if_splits)
qed

theorem silent_warned_once_witness:
  "warnings ''B'' (snd (discovery_tick (12 * second) 0 (\<lambda>_. ''0a'') (\<lambda>_. ''0b'') (sample_node (IsLsr new_lsr) ''lsr''))) = 1"
proof -
  let ?n = "sample_node (IsLsr new_lsr) ''lsr''"
  have s: "node_start ?n = ?n" by (simp add: node_start_def sample_node_def)
  have r: "node_run (node_start ?n) [] ?n" unfolding s by (rule run_stop)
  have "''B'' \<in> set (silent_neighbors ?n)" by (simp add: silent_iff sample_node_def)
  then show ?thesis
    using silent_warned_once [OF sample_lsr_new r prod.collapse [symmetric], where now = "12 * second" and started = 0 and
        ids = "\<lambda>_. ''0a''" and ids' = "\<lambda>_. ''0b''" and pid = "''B''"] by simp
qed

end
