(* ===== verification/Lsr_Behaviour.thy ===== *)
theory Lsr_Behaviour
  imports Alg_Lsr
begin

text \<open>
  What the link-state algorithm promises: the table in every reachable state, the meaning of
  sequence numbers, what is relayed and what is not, when a node announces itself, expiry,
  and the report of one-sided links.
\<close>

section \<open>The topology of a reachable state\<close>

text \<open>Who declares what: our own links, and the latest announcement of every other node.\<close>

definition declared_cost :: "string \<Rightarrow> lsr_alg \<Rightarrow> string \<Rightarrow> string \<Rightarrow> float64 option" where
  "declared_cost self s u v =
     (if u = self then mget (ls_links s) v
      else case mget (ls_lsdb s) u of None \<Rightarrow> None | Some e \<Rightarrow> mget (an_neighbors (le_entry e)) v)"

lemma set_links_of: "x \<in> set (links_of u m) \<longleftrightarrow> l_from x = u \<and> (l_to x, l_cost x) \<in> set m"
  by (cases x) (force simp: links_of_def)

lemma set_lsr_links:
  "x \<in> set (lsr_links self s) \<longleftrightarrow>
     (l_from x = self \<and> (l_to x, l_cost x) \<in> set (ls_links s)) \<or>
     (\<exists>e. (l_from x, e) \<in> set (ls_lsdb s) \<and> (l_to x, l_cost x) \<in> set (an_neighbors (le_entry e)))"
  by (force simp: lsr_links_def set_links_of concat_pairs)

lemma link_costs_iff: "c \<in> link_costs es u v \<longleftrightarrow> \<lparr>l_from = u, l_to = v, l_cost = c\<rparr> \<in> set es"
proof
  assume "c \<in> link_costs es u v"
  then obtain x where x: "x \<in> set es" "l_from x = u" "l_to x = v" "l_cost x = c" by (auto simp: link_costs_def)
  from x(2-4) have "x = \<lparr>l_from = u, l_to = v, l_cost = c\<rparr>" by (intro link.equality) simp_all
  with x(1) show "\<lparr>l_from = u, l_to = v, l_cost = c\<rparr> \<in> set es" by simp
next
  let ?x = "\<lparr>l_from = u, l_to = v, l_cost = c\<rparr>"
  assume "?x \<in> set es"
  then have "l_cost ?x \<in> link_costs es u v" unfolding link_costs_def by (intro imageI) simp
  then show "c \<in> link_costs es u v" by simp
qed

lemma link_costs_lsr:
  assumes i: "lsr_inv self s"
  shows "link_costs (lsr_links self s) u v = (case declared_cost self s u v of None \<Rightarrow> {} | Some c \<Rightarrow> {c})"
proof -
  have L: "(v, c) \<in> set (ls_links s) \<longleftrightarrow> mget (ls_links s) v = Some c" for c
    using i by (simp add: lsr_inv_def links_ok_def mget_iff)
  have D: "(u, e) \<in> set (ls_lsdb s) \<longleftrightarrow> mget (ls_lsdb s) u = Some e" for e
    using i by (simp add: lsr_inv_def lsdb_ok_def mget_iff)
  have N: "(v, c) \<in> set (an_neighbors (le_entry e)) \<longleftrightarrow> mget (an_neighbors (le_entry e)) v = Some c" "u \<noteq> self"
    if "mget (ls_lsdb s) u = Some e" for e c
    using i lsdb_entry_sound [OF _ that, of self] by (simp_all add: lsr_inv_def entry_sound_def mget_iff)
  have "c \<in> link_costs (lsr_links self s) u v \<longleftrightarrow>
      (u = self \<and> (v, c) \<in> set (ls_links s)) \<or>
      (\<exists>e. (u, e) \<in> set (ls_lsdb s) \<and> (v, c) \<in> set (an_neighbors (le_entry e)))" for c
    by (simp add: link_costs_iff set_lsr_links)
  then have "c \<in> link_costs (lsr_links self s) u v \<longleftrightarrow> declared_cost self s u v = Some c" for c
    using N by (auto simp: declared_cost_def L D split: option.splits)
  then show ?thesis by (auto split: option.splits)
qed

lemma edge_lsr: "lsr_inv self s \<Longrightarrow> edge (graph_of_links (lsr_links self s)) u v = declared_cost self s u v"
  by (simp add: edge_graph_of_links inv_nan_free link_costs_lsr split: option.splits)

lemma nan_free_lsr: "lsr_inv self s \<Longrightarrow> nan_free (graph_of_links (lsr_links self s))"
  by (simp add: nan_free_graph_of_links inv_nan_free)

lemma database_eq: "lsr_inv self s \<Longrightarrow> lsr_database s = map (\<lambda>(origin, e). (origin, le_entry e)) (ls_lsdb s)"
proof -
  assume "lsr_inv self s"
  then have "wf_map (map (\<lambda>(origin, e). (origin, le_entry e)) (ls_lsdb s))"
    by (simp add: lsr_inv_def lsdb_ok_def wf_map_def comp_def case_prod_unfold)
  from foldl_mput_fresh [of "[]", simplified, OF this] show ?thesis
    by (simp add: lsr_database_def foldl_map case_prod_unfold)
qed

lemma mget_database: "lsr_inv self s \<Longrightarrow> mget (lsr_database s) u = map_option le_entry (mget (ls_lsdb s) u)"
  by (simp add: database_eq mget_map_value)

section \<open>Sequence numbers\<close>

lemma stale_small:
  assumes "mget (ls_lsdb s) origin = Some e" and "0 \<le> sint seq" and "0 \<le> sint (an_seq (le_entry e))"
  shows "stale s origin seq \<longleftrightarrow>
    sint seq \<le> sint (an_seq (le_entry e)) \<and> sint (an_seq (le_entry e)) - sint seq < 16"
proof -
  let ?d = "sint (an_seq (le_entry e)) - sint seq"
  have range: "sint (an_seq (le_entry e)) < 2 ^ 63" using sint_lt [of "an_seq (le_entry e)"] by simp
  have "sint (an_seq (le_entry e) - seq) = ?d" if "0 \<le> ?d"
    using that assms range by (simp add: sint_word_ariths signed_take_bit_int_eq_self)
  moreover have "sint (16 :: goint) = 16" by simp
  ultimately show ?thesis using assms(1)
    by (auto simp: stale_def int_le_def int_less_def seq_reset_gap_def)
qed

lemma same_neighbor_set_iff:
  assumes "wf_map a" and "wf_map b"
  shows "same_neighbor_set a b \<longleftrightarrow> fst ` set a = fst ` set b"
proof -
  have c: "card (fst ` set a) = length a" "card (fst ` set b) = length b"
    using assms distinct_card [of "map fst a"] distinct_card [of "map fst b"] by (simp_all add: wf_map_def)
  have "list_all (\<lambda>(pid, c). mhas b pid) a \<longleftrightarrow> fst ` set a \<subseteq> fst ` set b"
    by (force simp: list_all_iff mhas_iff_key)
  then show ?thesis
    using c card_subset_eq [of "fst ` set b" "fst ` set a"] by (auto simp: same_neighbor_set_def)
qed

section \<open>What a packet does\<close>

lemma learn_cases:
  assumes "lsr_learn fab now p l s = (s', out)"
  defines "origin \<equiv> fb_local_id fab (lsp_origin l)"
  shows "(out = [] \<and> same_view s s' \<and> ls_table s' = ls_table s \<and>
      (origin = [] \<or> origin = fb_id fab \<or> stale s origin (lsp_seq l))) \<or>
    (origin \<noteq> [] \<and> origin \<noteq> fb_id fab \<and> \<not> stale s origin (lsp_seq l) \<and> sends out = sends (lsr_relay fab p) \<and>
     ls_lsdb s' = mput origin \<lparr>le_entry = \<lparr>an_origin = origin, an_seq = lsp_seq l,
       an_neighbors = resolve_neighbors fab (lsp_neighbors l)\<rparr>, le_refreshed = now\<rparr> (ls_lsdb s))"
proof (cases "origin = [] \<or> origin = fb_id fab")
  case True
  with assms show ?thesis by (auto simp: lsr_learn_def Let_def)
next
  case False
  let ?nb = "resolve_neighbors fab (lsp_neighbors l)"
  have acc: "fst (fst (store now origin (lsp_seq l) ?nb s)) \<longleftrightarrow> \<not> stale s origin (lsp_seq l)"
    by (simp add: store_def Let_def)
  show ?thesis
  proof (cases "stale s origin (lsp_seq l)")
    case True
    with acc have "\<not> fst (fst (store now origin (lsp_seq l) ?nb s))" by simp
    from store_rejected [OF this] assms False True acc show ?thesis
      by (auto simp: lsr_learn_def Let_def split: prod.splits) (metis store_fields(3) snd_conv)+
  next
    case fresh: False
    then have "ls_lsdb (snd (store now origin (lsp_seq l) ?nb s)) =
        mput origin \<lparr>le_entry = \<lparr>an_origin = origin, an_seq = lsp_seq l, an_neighbors = ?nb\<rparr>, le_refreshed = now\<rparr> (ls_lsdb s)"
      by (simp add: store_def Let_def)
    with assms False fresh acc show ?thesis
      by (auto simp: lsr_learn_def Let_def split: prod.splits if_splits)
  qed
qed

lemma info_cases:
  assumes "lsr_handle_info fab now rid p s = (s', out)"
  shows "(sends out = [] \<and> same_view s s' \<and> ls_table s' = ls_table s) \<or>
    (\<exists>l origin. \<not> fst (seen now (header_string p header_msg_id) (ls_seen s)) \<and> decode_lsp (p_payload p) = Some l \<and>
      origin = fb_local_id fab (lsp_origin l) \<and> origin \<noteq> [] \<and> origin \<noteq> fb_id fab \<and>
      \<not> stale s origin (lsp_seq l) \<and> sends out = sends (lsr_relay fab p) \<and>
      ls_lsdb s' = mput origin \<lparr>le_entry = \<lparr>an_origin = origin, an_seq = lsp_seq l,
        an_neighbors = resolve_neighbors fab (lsp_neighbors l)\<rparr>, le_refreshed = now\<rparr> (ls_lsdb s))"
proof -
  obtain known cache where c: "seen now (header_string p header_msg_id) (ls_seen s) = (known, cache)"
    by (cases "seen now (header_string p header_msg_id) (ls_seen s)")
  let ?s = "s\<lparr>ls_seen := cache\<rparr>"
  have view: "same_view s ?s" by (simp add: same_view_def)
  have st: "stale ?s = stale s" by (intro ext) (simp add: stale_def)
  show ?thesis
  proof (cases "known \<or> decode_lsp (p_payload p) = None")
    case True
    with assms c view show ?thesis by (auto simp: lsr_handle_info_def Let_def split: if_splits)
  next
    case False
    then obtain l where l: "decode_lsp (p_payload p) = Some l" and k: "\<not> known" by auto
    obtain s2 out2 where learn: "lsr_learn fab now p l ?s = (s2, out2)" by (cases "lsr_learn fab now p l ?s")
    with assms c l k have s2: "s' = s2" "sends out = sends out2"
      by (auto simp: lsr_handle_info_def Let_def split: if_splits)
    show ?thesis
      using learn_cases [OF learn] view k l c unfolding s2 st by (auto simp: same_view_def)
  qed
qed

lemma relay_copy_facts:
  "fst (relay_copy fab p) =
     set_header header_via (GStr (fb_address fab (fb_id fab))) (clone p)\<lparr>p_ttl := p_ttl p - 1\<rparr>"
  "snd (relay_copy fab p) \<longleftrightarrow> 0 < sint (p_ttl p - 1)"
  "p_payload (clone p) = p_payload p"
  by (auto simp: relay_copy_def decrement_ttl_def Let_def clone_def set_header_def int_le_def)

section \<open>The sweep\<close>

lemma sweep_shape:
  assumes "lsr_sweep fab now s = (s', out)"
  shows "out = map (\<lambda>(origin, e). Log (Expired origin)) (filter (\<lambda>(origin, e). expired now e) (ls_lsdb s)) @
      map (\<lambda>a. Log (InconsistentTopology (a_declared a) (a_missing a) (a_cost a)))
        (fst (due now asymmetry_grace (lsr_asymmetries fab s') (ls_watch s)))"
    and "ls_watch s' = snd (due now asymmetry_grace (lsr_asymmetries fab s') (ls_watch s))"
    and "ls_lsdb s' = filter (\<lambda>(origin, e). \<not> expired now e) (ls_lsdb s)"
proof -
  let ?m = "if fst (fst (expire now s)) then lsr_recompute (fb_id fab) (snd (fst (expire now s))) else snd (fst (expire now s))"
  have m: "ls_watch ?m = ls_watch s" "ls_lsdb ?m = filter (\<lambda>(origin, e). \<not> expired now e) (ls_lsdb s)" by simp_all
  have s': "s' = fst (report_asymmetries fab now ?m)"
    and out: "out = snd (expire now s) @ snd (report_asymmetries fab now ?m)"
    using assms by (auto simp: lsr_sweep_def Let_def split: prod.splits)
  have a: "lsr_asymmetries fab s' = lsr_asymmetries fab ?m"
    by (simp add: s' fst_report lsr_asymmetries_def lsr_topology_def lsr_links_def)
  show "out = map (\<lambda>(origin, e). Log (Expired origin)) (filter (\<lambda>(origin, e). expired now e) (ls_lsdb s)) @
      map (\<lambda>a. Log (InconsistentTopology (a_declared a) (a_missing a) (a_cost a)))
        (fst (due now asymmetry_grace (lsr_asymmetries fab s') (ls_watch s)))"
    unfolding a m(1) [symmetric] by (simp add: out report_asymmetries_def expire_def Let_def split: prod.split)
  show "ls_watch s' = snd (due now asymmetry_grace (lsr_asymmetries fab s') (ls_watch s))"
    unfolding a m(1) [symmetric] by (simp add: s' fst_report)
  show "ls_lsdb s' = filter (\<lambda>(origin, e). \<not> expired now e) (ls_lsdb s)"
    using m(2) by (simp add: s' fst_report)
qed

section \<open>Properties\<close>

text \<open>
  C2: in every reachable state of a link-state node the forwarding table is the shortest-path
  table of the topology it shows, and that topology is exactly its own links and the latest
  announcement on file of every other node.
\<close>

theorem lsr_table_current:
  assumes "lsr_reaches (fb_id fab) s"
  shows "lsr_table s = dijkstra (graph_of_links (lsr_topology fab s)) (fb_id fab) \<and>
    edge (graph_of_links (lsr_topology fab s)) u v =
      (if u = fb_id fab then mget (ls_links s) v
       else case mget (lsr_database s) u of None \<Rightarrow> None | Some a \<Rightarrow> mget (an_neighbors a) v)"
  using reaches_inv [OF assms]
  by (simp add: lsr_table_eq lsr_topology_def edge_lsr declared_cost_def mget_database split: option.split)

definition lsr_fab :: fabric where
  "lsr_fab =
     \<lparr>fb_id = ''B'', fb_neighbors = [''A'', ''C''], fb_address = (\<lambda>x. x), fb_local_id = (\<lambda>x. x)\<rparr>"

definition two_links :: lsr_alg where
  "two_links =
     fst (lsr_link_up lsr_fab second ''02'' ''C'' (f64 3) (fst (lsr_link_up lsr_fab 0 ''01'' ''A'' (f64 1) new_lsr)))"

lemma two_links_reached: "lsr_reaches ''B'' two_links"
proof -
  have b: "fb_id lsr_fab = ''B''" by (simp add: lsr_fab_def)
  show ?thesis unfolding two_links_def
    by (rule reach_step [OF reach_step [OF reach_new step_up [OF b _ prod.collapse [symmetric]]]
          step_up [OF b _ prod.collapse [symmetric]]]) simp_all
qed

lemma two_links_view:
  "lsr_links ''B'' two_links =
     [\<lparr>l_from = ''B'', l_to = ''A'', l_cost = f64 1\<rparr>, \<lparr>l_from = ''B'', l_to = ''C'', l_cost = f64 3\<rparr>]"
  by (simp add: lsr_links_def links_of_def two_links_def fst_link_up Let_def lsr_fab_def new_lsr_def)

lemma two_links_route:
  "mget (dijkstra (graph_of_links
      [\<lparr>l_from = ''B'', l_to = ''A'', l_cost = f64 1\<rparr>, \<lparr>l_from = ''B'', l_to = ''C'', l_cost = f64 3\<rparr>]) ''B'') ''C'' =
   Some \<lparr>r_dest = ''C'', r_next = ''C'', r_cost = f64 3\<rparr>"
  by code_simp

theorem lsr_table_current_witness:
  "edge (graph_of_links (lsr_topology lsr_fab two_links)) ''B'' ''C'' = Some (f64 3)"
proof -
  have b: "fb_id lsr_fab = ''B''" by (simp add: lsr_fab_def)
  have l: "mget (ls_links two_links) ''C'' = Some (f64 3)"
    by (simp add: two_links_def fst_link_up Let_def lsr_fab_def new_lsr_def)
  show ?thesis using lsr_table_current [of lsr_fab two_links "''B''" "''C''"] two_links_reached l by (simp add: b)
qed

text \<open>
  C17: a link-state node hands a packet to a direct neighbour on a least-cost path through the
  topology it knows, and drops it only when no finite path leads to the destination.
\<close>

theorem lsr_forward_best:
  assumes "lsr_reaches (fb_id fab) s" and "lsr_forward fab p s = (hops, out)"
  defines "dest \<equiv> fb_local_id fab (p_to p)" and "g \<equiv> graph_of_links (lsr_topology fab s)"
  shows "(\<exists>r. hops = [r_next r] \<and> mhas (ls_links s) (r_next r) \<and> best_route g (fb_id fab) dest r) \<or>
    (hops = [] \<and> (dest = fb_id fab \<or> (\<forall>vs c. path_cost g (fb_id fab) vs = Some c \<and> last (fb_id fab # vs) = dest \<longrightarrow> c = fposinf)))"
proof -
  note i = reaches_inv [OF assms(1)]
  have g: "g = graph_of_links (lsr_links (fb_id fab) s)" by (simp add: g_def lsr_topology_def)
  have nan: "nan_free g" using nan_free_lsr [OF i] by (simp add: g)
  have look: "st_lookup (ls_table s) dest = mget (dijkstra g (fb_id fab)) dest"
    using i by (simp add: st_lookup_def lsr_inv_def table_current_def g)
  show ?thesis
  proof (cases "mget (dijkstra g (fb_id fab)) dest")
    case None
    then have "dest = fb_id fab \<or> c = fposinf"
      if "path_cost g (fb_id fab) vs = Some c" "last (fb_id fab # vs) = dest" for vs c
      using dijkstra_reaches [OF nan that] by auto
    with None assms(2) look show ?thesis by (auto simp: lsr_forward_def Let_def dest_def)
  next
    case (Some r)
    then have best: "best_route g (fb_id fab) dest r" by (rule dijkstra_best [OF nan])
    then obtain c where "edge g (fb_id fab) (r_next r) = Some c"
      by (auto simp: best_route_def path_cost_def usable_def split: option.splits if_splits)
    then have "mhas (ls_links s) (r_next r)"
      using edge_lsr [OF i] by (simp add: g declared_cost_def mhas_def)
    with best Some assms(2) look show ?thesis by (auto simp: lsr_forward_def Let_def dest_def)
  qed
qed

theorem lsr_forward_best_witness:
  "\<exists>r. r_next r = ''C'' \<and> best_route (graph_of_links (lsr_topology lsr_fab two_links)) ''B'' ''C'' r"
proof -
  have b: "fb_id lsr_fab = ''B''" "fb_local_id lsr_fab a = a" for a by (simp_all add: lsr_fab_def)
  let ?p = "new_packet ''7f'' proto_lsr type_message ''A'' ''C''"
  have d: "p_to ?p = ''C''" by code_simp
  have "st_lookup (ls_table two_links) ''C'' = Some \<lparr>r_dest = ''C'', r_next = ''C'', r_cost = f64 3\<rparr>"
    using reaches_inv [OF two_links_reached] two_links_view two_links_route
    by (simp add: lsr_inv_def table_current_def st_lookup_def)
  then have h: "lsr_forward lsr_fab ?p two_links = ([''C''], [])"
    by (simp add: lsr_forward_def d b)
  show ?thesis using lsr_forward_best [OF _ h] two_links_reached by (auto simp: b d)
qed

text \<open>
  C16: sequence numbers decide. Of a known origin an announcement is accepted exactly when its
  number is newer, or at least sixteen below the one on file (a restart); then it replaces
  the entry, otherwise it only refreshes the entry, and only when the number is the same. The
  change counts as structural exactly when the set of neighbours differs.
\<close>

theorem store_sequence:
  assumes "mget (ls_lsdb s) origin = Some e" and "0 \<le> sint seq" and "0 \<le> sint (an_seq (le_entry e))"
    and "wf_map neighbors" and "wf_map (an_neighbors (le_entry e))"
    and "store now origin seq neighbors s = ((accepted, structural), s')"
  shows "accepted = (sint (an_seq (le_entry e)) < sint seq \<or> sint seq + 16 \<le> sint (an_seq (le_entry e))) \<and>
    structural = (accepted \<and> fst ` set (an_neighbors (le_entry e)) \<noteq> fst ` set neighbors) \<and>
    mget (ls_lsdb s') origin = Some
      (if accepted
       then \<lparr>le_entry = \<lparr>an_origin = origin, an_seq = seq, an_neighbors = neighbors\<rparr>, le_refreshed = now\<rparr>
       else if seq = an_seq (le_entry e) then e\<lparr>le_refreshed := now\<rparr> else e) \<and>
    (\<forall>other. other \<noteq> origin \<longrightarrow> mget (ls_lsdb s') other = mget (ls_lsdb s) other)"
proof (cases "stale s origin seq")
  case True
  with assms(6) show ?thesis
    using assms(1) stale_small [OF assms(1-3)] by (auto simp: store_def)
next
  case False
  with assms(6) show ?thesis
    using stale_small [OF assms(1-3)]
    by (auto simp: store_def assms(1) same_neighbor_set_iff [OF assms(5,4)])
qed

definition entry_of :: "string \<Rightarrow> goint \<Rightarrow> lsdb_entry" where
  "entry_of origin seq =
     \<lparr>le_entry = \<lparr>an_origin = origin, an_seq = seq, an_neighbors = [(''B'', f64 1)]\<rparr>, le_refreshed = 0\<rparr>"

theorem store_sequence_witness:
  "fst (store second ''A'' 1 [(''C'', f64 2)] (new_lsr\<lparr>ls_lsdb := [(''A'', entry_of ''A'' 17)]\<rparr>)) = (True, True)"
proof -
  let ?s = "new_lsr\<lparr>ls_lsdb := [(''A'', entry_of ''A'' 17)]\<rparr>"
  have e: "mget (ls_lsdb ?s) ''A'' = Some (entry_of ''A'' 17)" by simp
  have n: "0 \<le> sint (1 :: goint)" "0 \<le> sint (an_seq (le_entry (entry_of ''A'' 17)))" by (simp_all add: entry_of_def)
  have w: "wf_map [(''C'', f64 2)]" "wf_map (an_neighbors (le_entry (entry_of ''A'' 17)))" by (simp_all add: entry_of_def)
  show ?thesis
    using store_sequence [OF e n w, of second "fst (fst (store second ''A'' 1 [(''C'', f64 2)] ?s))"
        "snd (fst (store second ''A'' 1 [(''C'', f64 2)] ?s))" "snd (store second ''A'' 1 [(''C'', f64 2)] ?s)"]
    by (simp add: prod_eq_iff) (simp add: entry_of_def)
qed

text \<open>
  C24: what a node floods on. A copy is sent only of a packet whose identifier was new and whose
  announcement was accepted from another origin, never to the neighbour it came from, always
  to a live one, with one hop less left, our address as the previous hop, and the payload
  untouched; the database then holds what the packet announces.
\<close>

theorem relay_discipline:
  assumes "lsr_handle_info fab now rid p s = (s', out)" and "(n, q) \<in> set (sends out)"
  shows "n \<in> set (fb_neighbors fab) \<and> n \<noteq> previous_hop_id fab p \<and>
    p_ttl q = p_ttl p - 1 \<and> 0 < sint (p_ttl q) \<and> p_payload q = p_payload p \<and>
    header_string q header_via = fb_address fab (fb_id fab) \<and>
    \<not> fst (seen now (header_string p header_msg_id) (ls_seen s)) \<and>
    (\<exists>l origin e. decode_lsp (p_payload p) = Some l \<and> origin = fb_local_id fab (lsp_origin l) \<and>
      origin \<noteq> fb_id fab \<and> \<not> stale s origin (lsp_seq l) \<and> mget (ls_lsdb s') origin = Some e \<and>
      le_entry e = \<lparr>an_origin = origin, an_seq = lsp_seq l,
        an_neighbors = resolve_neighbors fab (lsp_neighbors l)\<rparr>)"
proof -
  from assms(2) have "sends out \<noteq> []" by auto
  with info_cases [OF assms(1)] obtain l origin where l: "decode_lsp (p_payload p) = Some l"
    "origin = fb_local_id fab (lsp_origin l)" "origin \<noteq> fb_id fab" "\<not> stale s origin (lsp_seq l)"
    "\<not> fst (seen now (header_string p header_msg_id) (ls_seen s))"
    and out: "sends out = sends (lsr_relay fab p)"
    and db: "ls_lsdb s' = mput origin \<lparr>le_entry = \<lparr>an_origin = origin, an_seq = lsp_seq l,
        an_neighbors = resolve_neighbors fab (lsp_neighbors l)\<rparr>, le_refreshed = now\<rparr> (ls_lsdb s)"
    by auto
  have "n \<in> set (fb_neighbors fab) \<and> n \<noteq> previous_hop_id fab p \<and> q = fst (relay_copy fab p) \<and> snd (relay_copy fab p)"
    using assms(2) by (auto simp: out relay_sends split: if_splits)
  then show ?thesis
    using l by (auto simp: relay_copy_facts db header_string_def header_def set_header_def)
      (simp add: header_set_header [unfolded header_def set_header_def, simplified])
qed

definition lsp_from_a :: lsp where
  "lsp_from_a =
     \<lparr>lsp_origin = ''A'', lsp_seq = 1, lsp_age = f0, lsp_neighbors = [\<lparr>ne_id = ''B'', ne_weight = f64 2\<rparr>]\<rparr>"

definition info_from_a :: packet where
  "info_from_a =
     new_packet ''0a'' proto_lsr type_info ''A'' ''*''
       \<lparr>p_payload := json_print (shape_lsp ''neighbors'' (shape_list ''id'' ''weight'' (lsp_neighbors lsp_from_a)) lsp_from_a)\<rparr>"

lemma sample_facts:
  "decode_lsp (p_payload info_from_a) = Some lsp_from_a"
  "header_string info_from_a header_msg_id = ''0a''"
  "checksum_valid info_from_a"
  "previous_hop_id lsr_fab info_from_a = ''A''"
  "snd (relay_copy lsr_fab info_from_a)"
proof -
  have ok: "lsp_ok lsp_from_a" by code_simp
  have p: "p_payload info_from_a =
      json_print (shape_lsp ''neighbors'' (shape_list ''id'' ''weight'' (lsp_neighbors lsp_from_a)) lsp_from_a)"
    by (simp add: info_from_a_def)
  show "decode_lsp (p_payload info_from_a) = Some lsp_from_a"
    unfolding p by (rule decode_lsp_own [OF ok lsp_json_shape [OF ok]])
  show "header_string info_from_a header_msg_id = ''0a''" "checksum_valid info_from_a"
    "previous_hop_id lsr_fab info_from_a = ''A''" "snd (relay_copy lsr_fab info_from_a)"
    by code_simp+
qed

lemma info_from_a_run:
  "fst (lsr_handle_info lsr_fab second ''0b'' info_from_a new_lsr) =
     lsr_recompute ''B'' (new_lsr\<lparr>ls_seen := snd (seen second ''0a'' (new_seen_cache lsp_seen_ttl)),
       ls_lsdb := [(''A'', \<lparr>le_entry = \<lparr>an_origin = ''A'', an_seq = 1, an_neighbors = [(''B'', f64 2)]\<rparr>,
                            le_refreshed = second\<rparr>)]\<rparr>)"
  "sends (snd (lsr_handle_info lsr_fab second ''0b'' info_from_a new_lsr)) =
     [(''C'', fst (relay_copy lsr_fab info_from_a))]"
proof -
  have new: "\<not> fst (seen second ''0a'' (ls_seen new_lsr))" by (simp add: new_lsr_def fst_seen)
  have nb: "fb_neighbors lsr_fab = [''A'', ''C'']" "fb_id lsr_fab = ''B''" "fb_local_id lsr_fab x = x" for x
    by (simp_all add: lsr_fab_def)
  have st: "stale (s\<lparr>ls_seen := c\<rparr>) = stale s" for s c by (intro ext) (simp add: stale_def)
  have old: "\<not> stale new_lsr ''A'' 1" by (simp add: stale_def new_lsr_def)
  show "fst (lsr_handle_info lsr_fab second ''0b'' info_from_a new_lsr) =
     lsr_recompute ''B'' (new_lsr\<lparr>ls_seen := snd (seen second ''0a'' (new_seen_cache lsp_seen_ttl)),
       ls_lsdb := [(''A'', \<lparr>le_entry = \<lparr>an_origin = ''A'', an_seq = 1, an_neighbors = [(''B'', f64 2)]\<rparr>,
                            le_refreshed = second\<rparr>)]\<rparr>)"
    using new old unfolding fst_handle_info
    by (simp add: sample_facts lsr_learn_def lsp_from_a_def nb resolve_neighbors_def store_def st Let_def)
      (simp add: new_lsr_def)
  show "sends (snd (lsr_handle_info lsr_fab second ''0b'' info_from_a new_lsr)) =
     [(''C'', fst (relay_copy lsr_fab info_from_a))]"
    using new old sample_facts(5)
    by (simp add: lsr_handle_info_def Let_def sample_facts lsr_learn_def lsp_from_a_def nb resolve_neighbors_def
        store_def st relay_sends split: prod.splits) (metis fst_conv)
qed

theorem relay_discipline_witness:
  "0 < sint (p_ttl (fst (relay_copy lsr_fab info_from_a))) \<and>
   header_string (fst (relay_copy lsr_fab info_from_a)) header_via = ''B''"
proof -
  have m: "(''C'', fst (relay_copy lsr_fab info_from_a)) \<in>
      set (sends (snd (lsr_handle_info lsr_fab second ''0b'' info_from_a new_lsr)))"
    by (simp add: info_from_a_run)
  have b: "fb_address lsr_fab (fb_id lsr_fab) = ''B''" by (simp add: lsr_fab_def)
  have r: "lsr_handle_info lsr_fab second ''0b'' info_from_a new_lsr =
      (fst (lsr_handle_info lsr_fab second ''0b'' info_from_a new_lsr),
       snd (lsr_handle_info lsr_fab second ''0b'' info_from_a new_lsr))" by simp
  from relay_discipline [OF r m] show ?thesis unfolding b by blast
qed

lemma same_view_shown:
  "same_view s s' \<Longrightarrow> ls_table s' = ls_table s \<Longrightarrow>
   lsr_table s' = lsr_table s \<and> lsr_topology fab s' = lsr_topology fab s"
  by (simp add: lsr_table_def lsr_topology_def same_view_links)

text \<open>
  A node ignores its own announcements coming back, packets it has seen, packets it cannot
  read and stale ones. It passes none of them on, and neither its table nor the topology it
  shows changes.
\<close>

theorem ignored_info:
  assumes "lsr_handle_info fab now rid p s = (s', out)"
    and "fst (seen now (header_string p header_msg_id) (ls_seen s)) \<or>
      (case decode_lsp (p_payload p) of
         None \<Rightarrow> True
       | Some l \<Rightarrow> fb_local_id fab (lsp_origin l) \<in> {[], fb_id fab} \<or>
           stale s (fb_local_id fab (lsp_origin l)) (lsp_seq l))"
  shows "sends out = [] \<and> lsr_table s' = lsr_table s \<and> lsr_topology fab s' = lsr_topology fab s"
proof -
  have "sends out = [] \<and> same_view s s' \<and> ls_table s' = ls_table s"
    using info_cases [OF assms(1)] assms(2) by (auto split: option.splits)
  then show ?thesis using same_view_shown by blast
qed

theorem ignored_info_witness:
  "sends (snd (lsr_handle_info (lsr_fab\<lparr>fb_id := ''A''\<rparr>) second ''0b'' info_from_a new_lsr)) = []"
proof -
  let ?r = "lsr_handle_info (lsr_fab\<lparr>fb_id := ''A''\<rparr>) second ''0b'' info_from_a new_lsr"
  have r: "?r = (fst ?r, snd ?r)" by simp
  have o: "fb_local_id lsr_fab (lsp_origin lsp_from_a) = ''A''"
    by (simp add: lsr_fab_def lsp_from_a_def)
  have "sends (snd ?r) = [] \<and> lsr_table (fst ?r) = lsr_table new_lsr \<and>
      lsr_topology (lsr_fab\<lparr>fb_id := ''A''\<rparr>) (fst ?r) = lsr_topology (lsr_fab\<lparr>fb_id := ''A''\<rparr>) new_lsr"
    by (rule ignored_info [OF r]) (simp add: sample_facts o)
  then show ?thesis by blast
qed

text \<open>
  C34: the sweep removes exactly the announcements not refreshed for more than thirty seconds,
  names each of them on the console, keeps every other entry as it is, sends nothing, and
  leaves the table current.
\<close>

theorem expiry_exact:
  assumes "lsr_reaches (fb_id fab) s" and "lsr_sweep fab now s = (s', out)"
  shows "mget (ls_lsdb s') origin =
      (case mget (ls_lsdb s) origin of
         None \<Rightarrow> None
       | Some e \<Rightarrow> if 30 * second < now - le_refreshed e then None else Some e) \<and>
    (Log (Expired origin) \<in> set out \<longleftrightarrow> mget (ls_lsdb s) origin \<noteq> None \<and> mget (ls_lsdb s') origin = None) \<and>
    sends out = [] \<and>
    lsr_table s' = dijkstra (graph_of_links (lsr_topology fab s')) (fb_id fab)"
proof -
  note i = reaches_inv [OF assms(1)]
  have i': "lsr_inv (fb_id fab) s'" using lsr_sweep_inv [OF i, of now] assms(2) by simp
  have wf: "wf_map (ls_lsdb s)" using i by (simp add: lsr_inv_def lsdb_ok_def)
  note out = sweep_shape(1) [OF assms(2)] and db = sweep_shape(3) [OF assms(2)]
  have ex: "expired now e \<longleftrightarrow> 30 * second < now - le_refreshed e" for e
    by (simp add: expired_def lsp_max_age_def second_def time_sub_gt)
  have get: "mget (ls_lsdb s') origin =
      (case mget (ls_lsdb s) origin of None \<Rightarrow> None | Some e \<Rightarrow> if expired now e then None else Some e)"
    unfolding db mget_filter [OF wf] by (simp split: option.split)
  have "Log (Expired origin) \<in> set out \<longleftrightarrow> (\<exists>e. (origin, e) \<in> set (ls_lsdb s) \<and> expired now e)"
    unfolding out by force
  also have "\<dots> \<longleftrightarrow> mget (ls_lsdb s) origin \<noteq> None \<and> mget (ls_lsdb s') origin = None"
    unfolding get mget_iff [OF wf, symmetric] by (auto split: option.splits)
  finally have log: "Log (Expired origin) \<in> set out \<longleftrightarrow> mget (ls_lsdb s) origin \<noteq> None \<and> mget (ls_lsdb s') origin = None" .
  have "sends out = []" unfolding out by (simp add: case_prod_unfold)
  with get [unfolded ex] log show ?thesis
    using lsr_table_eq [OF i'] by (simp add: lsr_topology_def)
qed

theorem expiry_exact_witness:
  "Log (Expired ''A'') \<in> set (snd (lsr_sweep lsr_fab (40 * second)
     (fst (lsr_handle_info lsr_fab second ''0b'' info_from_a new_lsr))))"
proof -
  let ?s = "fst (lsr_handle_info lsr_fab second ''0b'' info_from_a new_lsr)"
  let ?r = "lsr_sweep lsr_fab (40 * second) ?s"
  have b: "fb_id lsr_fab = ''B''" by (simp add: lsr_fab_def)
  have reach: "lsr_reaches (fb_id lsr_fab) ?s"
    unfolding b by (rule reach_step [OF reach_new step_info [OF b prod.collapse [symmetric]]])
  have e: "mget (ls_lsdb ?s) ''A'' = Some \<lparr>le_entry = \<lparr>an_origin = ''A'', an_seq = 1, an_neighbors = [(''B'', f64 2)]\<rparr>,
      le_refreshed = second\<rparr>"
    by (simp add: info_from_a_run)
  have r: "?r = (fst ?r, snd ?r)" by simp
  have "mget (ls_lsdb (fst ?r)) ''A'' = None"
    using conjunct1 [OF expiry_exact [OF reach r, of "''A''"]] e by (simp add: second_def)
  with conjunct1 [OF conjunct2 [OF expiry_exact [OF reach r, of "''A''"]]] e show ?thesis by simp
qed

text \<open>
  C38: when a node announces itself because of a measured cost. A neighbour that was unknown
  is announced at once; a known one only when its cost moved by more than half and the last
  announcement is more than five seconds old. Otherwise nothing is sent and the announcement
  counter stands still. The measured cost is on file in every case.
\<close>

theorem announcement_rate:
  assumes "lsr_link_up fab now rid n c s = (s', out)"
  shows "mget (ls_links s') n = Some c \<and>
    (let announces = (case mget (ls_links s) n of
           None \<Rightarrow> True
         | Some old \<Rightarrow> fless (f64 (1 / 2)) (relative_change old c) \<and> 5 * second < now - ls_last s)
     in ls_seq s' = (if announces then ls_seq s + 1 else ls_seq s) \<and>
        ls_last s' = (if announces then now else ls_last s) \<and> (announces \<or> sends out = []))"
proof -
  let ?s = "s\<lparr>ls_links := mput n c (ls_links s)\<rparr>"
  have moved: "cost_moved now (Some old) c ?s \<longleftrightarrow>
      fless (f64 (1 / 2)) (relative_change old c) \<and> 5 * second < now - ls_last s" for old
    by (simp add: cost_moved_def cost_change_threshold_def min_announce_interval_def second_def time_sub_gt)
  have s': "s' = fst (lsr_link_up fab now rid n c s)" and out: "out = snd (lsr_link_up fab now rid n c s)"
    using assms by simp_all
  have "sends out = []" if "mget (ls_links s) n = Some old" "\<not> cost_moved now (Some old) c ?s" for old
    using that by (simp add: out lsr_link_up_def Let_def)
  then show ?thesis
    by (cases "mget (ls_links s) n") (auto simp: s' fst_link_up Let_def mhas_def moved)
qed

theorem announcement_rate_witness:
  "sends (snd (lsr_link_up lsr_fab (2 * second) ''0e'' ''C'' (f64 30) two_links)) = []"
proof -
  let ?r = "lsr_link_up lsr_fab (2 * second) ''0e'' ''C'' (f64 30) two_links"
  have r: "?r = (fst ?r, snd ?r)" by simp
  have l: "mget (ls_links two_links) ''C'' = Some (f64 3)" "ls_last two_links = second"
    by (simp_all add: two_links_def fst_link_up Let_def lsr_fab_def new_lsr_def)
  show ?thesis using announcement_rate [OF r] by (simp add: l Let_def second_def)
qed

text \<open>
  The sweep reports one-sided links through one alarm per link: a finding is printed
  exactly when it has been pending for more than thirty seconds, and every alarm moves as its
  automaton says, over the topology the table was computed from.
\<close>

theorem sweep_reports:
  assumes "lsr_reaches (fb_id fab) s" and "lsr_sweep fab now s = (s', out)"
    and "\<forall>e \<in> set (lsr_topology fab s'). CHR ''-'' \<notin> set (l_from e)"
  shows "(Log (InconsistentTopology (a_declared a) (a_missing a) (a_cost a)) \<in> set out \<longleftrightarrow>
      a \<in> set (asymmetries (lsr_topology fab s')) \<and>
      (\<exists>t. alarm_of (ls_watch s) (watch_key a) = Pending t \<and> 30 * second < now - t)) \<and>
    alarm_of (ls_watch s') key =
      alarm_step now (30 * second) (key \<in> watch_key ` set (asymmetries (lsr_topology fab s'))) (alarm_of (ls_watch s) key)"
proof -
  let ?found = "asymmetries (lsr_topology fab s')"
  have w: "watch_ok (ls_watch s)" using reaches_inv [OF assms(1)] by (simp add: lsr_inv_def cache_ok_def)
  have d: "distinct (map watch_key ?found)" by (rule distinct_watch_keys [OF assms(3)])
  have grace: "asymmetry_grace = 30 * second" by (simp add: asymmetry_grace_def lsp_interval_def)
  note shape = sweep_shape [OF assms(2), unfolded lsr_asymmetries_def grace]
  have same: "x = a" if "a_declared a = a_declared x" "a_missing a = a_missing x" "a_cost a = a_cost x" for x
    using that by (intro asymmetry.equality) simp_all
  have "Log (InconsistentTopology (a_declared a) (a_missing a) (a_cost a)) \<in> set out \<longleftrightarrow>
      a \<in> set (fst (due now (30 * second) ?found (ls_watch s)))"
    unfolding shape(1) by (auto dest: same)
  also have "\<dots> \<longleftrightarrow> a \<in> set ?found \<and>
      (\<exists>t. alarm_of (ls_watch s) (watch_key a) = Pending t \<and> 30 * second < now - t)"
    by (simp add: due_report [OF w d] alarm_rings_pending second_def time_sub_gt)
  finally show ?thesis using due_alarm [OF w d] by (simp add: shape(2))
qed

theorem sweep_reports_witness:
  "alarm_of (ls_watch (fst (lsr_sweep lsr_fab (4 * second)
     (fst (lsr_handle_info lsr_fab second ''0b'' info_from_a new_lsr))))) ''A->B'' = Idle"
proof -
  let ?s = "fst (lsr_handle_info lsr_fab second ''0b'' info_from_a new_lsr)"
  let ?r = "lsr_sweep lsr_fab (4 * second) ?s"
  have b: "fb_id lsr_fab = ''B''" by (simp add: lsr_fab_def)
  have reach: "lsr_reaches (fb_id lsr_fab) ?s"
    unfolding b by (rule reach_step [OF reach_new step_info [OF b prod.collapse [symmetric]]])
  have r: "?r = (fst ?r, snd ?r)" by simp
  have links: "lsr_topology lsr_fab (fst ?r) = [\<lparr>l_from = ''A'', l_to = ''B'', l_cost = f64 2\<rparr>]"
  proof -
    have "ls_lsdb (fst ?r) = filter (\<lambda>(origin, e). \<not> expired (4 * second) e) (ls_lsdb ?s)"
      by (rule sweep_shape(3) [OF r])
    also have "\<dots> = ls_lsdb ?s"
      unfolding info_from_a_run(1) by (simp add: expired_def lsp_max_age_def second_def time_sub_def)
    finally have "ls_lsdb (fst ?r) = ls_lsdb ?s" .
    moreover have "ls_links (fst ?r) = ls_links ?s" by (simp add: fst_sweep fst_report)
    moreover have "ls_links ?s = []" unfolding info_from_a_run(1) by (simp add: new_lsr_def)
    ultimately show ?thesis
      by (simp add: lsr_topology_def lsr_links_def links_of_def info_from_a_run)
  qed
  have none: "asymmetries [\<lparr>l_from = ''A'', l_to = ''B'', l_cost = f64 2\<rparr>] = []" by code_simp
  show ?thesis
    using sweep_reports [OF reach r, where key = "''A->B''"] by (simp add: links none alarm_step_def)
qed

end
