(* ===== verification/Net_Announce.thy ===== *)
theory Net_Announce
  imports Node_Links Lsr_Behaviour
begin

text \<open>
  An announcement from one node to another: what a link-state node floods about its own links,
  over the wire, into the database of a neighbour that uses the same name table.
\<close>

section \<open>What is announced\<close>

lemma announce_sends:
  fixes s :: lsr_alg
  assumes "utf8_valid rid" "rid \<noteq> []" "utf8_valid (fb_address fab (fb_id fab))"
    and "fb_local_id fab (fb_address fab (fb_id fab)) = fb_id fab" and "fb_id fab \<notin> set (fb_neighbors fab)"
    and "lsp_ok (own_lsp fab (s\<lparr>ls_seq := ls_seq s + 1, ls_last := now\<rparr>))"
  shows "\<exists>q j. snd (announce fab now rid s) = map (\<lambda>nb. Send nb q) (fb_neighbors fab) \<and> own_packet q \<and>
    lsp_json (own_lsp fab (s\<lparr>ls_seq := ls_seq s + 1, ls_last := now\<rparr>)) = Some j \<and> p_payload q = json_print j \<and>
    p_type q = type_info \<and> sint (p_ttl q) = 15 \<and> header_string q header_msg_id = rid \<and> checksum_valid q \<and>
    header_string q header_via = fb_address fab (fb_id fab)"
proof -
  let ?s = "s\<lparr>ls_seq := ls_seq s + 1, ls_last := now\<rparr>" and ?self = "fb_address fab (fb_id fab)"
  obtain j where j: "lsp_json (own_lsp fab ?s) = Some j" "sendable j" using lsp_sendable [OF assms(6)] by blast
  have u: "utf8_valid proto_lsr" "utf8_valid type_info" "utf8_valid ''*''" by code_simp+
  from object_built [OF j(2) assms(1,2) u(1,2) assms(3) u(3)] obtain p where
    p: "new_object rid proto_lsr type_info ?self ''*'' (Some j) = Some p" "own_packet p" "p_payload p = json_print j"
      "p_ttl p = default_ttl" "p_type p = type_info" "p_from p = ?self" "checksum_valid p"
      "header_string p header_msg_id = rid" "header p header_via = None" by blast
  let ?v = "set_header header_via (GStr ?self) p"
  let ?q = "fst (relay_copy fab p)"
  have c: "relay_copy fab p = decrement_ttl ?v" by (simp add: relay_copy_def own_clone [OF p(2)])
  have t: "p_ttl ?v = default_ttl" using p(4) by (simp add: set_header_def)
  have alive: "snd (relay_copy fab p)" and ttl: "sint (p_ttl ?q) = 15"
    using decrement_positive [of ?v] t by (simp_all add: c default_ttl_def)
  have own: "own_packet ?v" using own_set_header [OF p(2) header_names_utf8(3)] assms(3) header_names_utf8 by simp
  have q: "own_packet ?q" "p_payload ?q = json_print j" "p_type ?q = type_info"
    using own_ttl [OF own] p(3,5) by (simp_all add: c decrement_ttl_def Let_def set_header_def)
  have h: "header ?q k = header ?v k" for k by (simp add: c decrement_ttl_def Let_def header_def)
  have hs: "header_string ?q header_msg_id = rid" "header_string ?q header_via = ?self"
      "header_string ?q header_checksum = header_string p header_checksum"
    using p(8) by (simp_all add: header_string_def h header_set_header header_names)
  have "p_payload ?q = p_payload p" by (simp only: q(2) p(3))
  then have cs: "checksum_valid ?q" using p(7) by (simp only: checksum_valid_def canonical_payload_def hs(3))
  have prev: "previous_hop_id fab p = fb_id fab"
    using p(6,9) assms(4) by (simp add: previous_hop_id_def header_string_def)
  have "flood (fb_neighbors fab) (fb_id fab) = fb_neighbors fab"
    using assms(5) by (auto simp: flood_filter intro!: filter_True)
  then have "lsr_relay fab p = map (\<lambda>nb. Send nb ?q) (fb_neighbors fab)"
    using alive by (simp add: lsr_relay_def prev relay_to_events)
  then have "snd (announce fab now rid s) = map (\<lambda>nb. Send nb ?q) (fb_neighbors fab)"
    using j(1) p(1) by (simp add: announce_def Let_def)
  then show ?thesis using q hs cs ttl j(1) by blast
qed

section \<open>What is learned\<close>

lemma new_object_id: "new_object rid proto typ source dest obj = Some p \<Longrightarrow> header_string p header_msg_id = rid"
  by (auto simp: new_object_def set_payload_object_def header_string_def header_set_header header_names new_packet_def
      split: option.splits)

lemma announce_unseen:
  assumes "seen_ok (ls_seen s)" "rid' \<noteq> rid" "seen_at (ls_seen s) rid' = None"
  shows "seen_at (ls_seen (fst (announce fab now rid s))) rid' = None"
proof (cases "new_object rid proto_lsr type_info (fb_address fab (fb_id fab)) ''*''
    (lsp_json (own_lsp fab (s\<lparr>ls_seq := ls_seq s + 1, ls_last := now\<rparr>)))")
  case (Some p)
  then show ?thesis
    using seen.invents_nothing [OF assms] new_object_id [OF Some] by (simp add: announce_def Let_def)
qed (use assms in \<open>simp add: announce_def Let_def\<close>)

text \<open>Marking the sender alive forgets nothing and makes nothing up in the database.\<close>

lemma mark_alive_lsr:
  assumes "node_inv k" "nd_alg k = IsLsr t" "rid' \<noteq> rid" "seen_at (ls_seen t) rid' = None"
  shows "\<exists>t1. nd_alg (fst (mark_alive now rid nb k)) = IsLsr t1 \<and> ls_lsdb t1 = ls_lsdb t \<and> seen_at (ls_seen t1) rid' = None"
proof -
  have ok: "seen_ok (ls_seen t)" using assms(1,2) by (simp add: node_inv_def lsr_inv_def cache_ok_def)
  have seen: "seen_at (ls_seen (fst (announce fab now rid (t\<lparr>ls_links := m\<rparr>)))) rid' = None" for fab m
    using announce_unseen [of "t\<lparr>ls_links := m\<rparr>" rid' rid] ok assms(3,4) by simp
  have up: "\<exists>t1. fst (alg_link_up fab now rid nb c (IsLsr t)) = IsLsr t1 \<and> ls_lsdb t1 = ls_lsdb t \<and> seen_at (ls_seen t1) rid' = None"
    for fab c using assms(4) seen by (auto simp: lsr_ops_def fst_link_up Let_def lsr_recompute_def)
  then show ?thesis using assms(2,4) by (auto simp: mark_alive_def Let_def)
qed

lemma resolve_own:
  assumes "wf_map links" and "\<forall>(v, c) \<in> set links. fb_local_id fab (g v) = v"
  shows "resolve_neighbors fab (map (\<lambda>(v, c). \<lparr>ne_id = g v, ne_weight = c\<rparr>) links) = links"
proof -
  have "foldl (\<lambda>m e. mput (fb_local_id fab (ne_id e)) (ne_weight e) m) out (map (\<lambda>(v, c). \<lparr>ne_id = g v, ne_weight = c\<rparr>) links) =
      foldl (\<lambda>m (v, c). mput v c m) out links" for out
    using assms(2) by (induction links arbitrary: out) auto
  then show ?thesis using foldl_mput_fresh [of "[]" links] assms(1) by (simp add: resolve_neighbors_def)
qed

text \<open>A fresh, readable, newer announcement of another node goes into the database as it stands.\<close>

lemma info_stored:
  assumes "lsr_inv (fb_id fab) t" "seen_at (ls_seen t) (header_string p header_msg_id) = None"
    and "decode_lsp (p_payload p) = Some l" "fb_local_id fab (lsp_origin l) = u" "u \<noteq> []" "u \<noteq> fb_id fab" "\<not> stale t u (lsp_seq l)"
  shows "mget (lsr_database (fst (lsr_handle_info fab now rid p t))) u =
    Some \<lparr>an_origin = u, an_seq = lsp_seq l, an_neighbors = resolve_neighbors fab (lsp_neighbors l)\<rparr>"
proof -
  let ?t = "t\<lparr>ls_seen := snd (seen now (header_string p header_msg_id) (ls_seen t))\<rparr>"
  have new: "\<not> fst (seen now (header_string p header_msg_id) (ls_seen t))"
    using assms(1,2) by (simp add: fst_seen lsr_inv_def cache_ok_def)
  have st: "\<not> stale ?t u (lsp_seq l)" using assms(7) by (simp add: stale_def)
  have "mget (ls_lsdb (fst (lsr_handle_info fab now rid p t))) u =
      Some \<lparr>le_entry = \<lparr>an_origin = u, an_seq = lsp_seq l, an_neighbors = resolve_neighbors fab (lsp_neighbors l)\<rparr>, le_refreshed = now\<rparr>"
    unfolding fst_handle_info using new st assms(3-6)
    by (simp add: Let_def lsr_learn_def store_def lsr_recompute_def)
  moreover have "lsr_inv (fb_id fab) (fst (lsr_handle_info fab now rid p t))" by (rule lsr_info_inv [OF assms(1)])
  ultimately show ?thesis by (simp add: mget_database)
qed

lemma info_handled:
  assumes "node_inv k" "nd_alg k = IsLsr t" "p_type p = type_info" "r1 \<noteq> rid" "header_string p header_msg_id = rid"
    and "seen_at (ls_seen t) rid = None" "decode_lsp (p_payload p) = Some l" "node_local_id k (lsp_origin l) = u"
    and "u \<noteq> []" "u \<noteq> nd_id k" "\<not> stale t u (lsp_seq l)"
    and "resolve_neighbors (fabric_of k) (lsp_neighbors l) = links"
  shows "\<exists>t'. nd_alg (fst (handle now r1 r2 p k)) = IsLsr t' \<and> lsr_inv (nd_id k) t' \<and>
    mget (lsr_database t') u = Some \<lparr>an_origin = u, an_seq = lsp_seq l, an_neighbors = links\<rparr>"
proof -
  let ?k = "fst (mark_alive now r1 (previous_hop_id (fabric_of k) p) k)"
  have kinds: "type_info \<noteq> type_hello" "type_info \<noteq> type_echo" by code_simp+
  obtain t1 where t1: "nd_alg ?k = IsLsr t1" "ls_lsdb t1 = ls_lsdb t" "seen_at (ls_seen t1) rid = None"
    using mark_alive_lsr [OF assms(1,2) _ assms(6), of r1] assms(4) by blast
  have same: "nd_id ?k = nd_id k" "nd_names ?k = nd_names k" "nd_addr ?k = nd_addr k" "nd_port ?k = nd_port k"
    by (simp_all add: mark_alive_def Let_def)
  then have loc: "node_local_id ?k = node_local_id k" by (intro local_id_cong) simp_all
  have inv: "lsr_inv (fb_id (fabric_of ?k)) t1"
    using mark_alive_inv [OF assms(1), of now r1 "previous_hop_id (fabric_of k) p"] t1(1) by (simp add: node_inv_def)
  have res: "resolve_neighbors (fabric_of ?k) (lsp_neighbors l) = links"
    using assms(12) by (simp add: resolve_neighbors_def loc)
  have st: "\<not> stale t1 u (lsp_seq l)" using assms(11) t1(2) by (simp add: stale_def)
  let ?t = "fst (lsr_handle_info (fabric_of ?k) now r2 p t1)"
  have "nd_alg (fst (handle now r1 r2 p k)) = IsLsr ?t"
    using kinds by (simp add: handle_def assms(3) t1(1) lsr_ops_def)
  moreover have "mget (lsr_database ?t) u = Some \<lparr>an_origin = u, an_seq = lsp_seq l, an_neighbors = links\<rparr>"
    using info_stored [OF inv _ assms(7), of u] t1(3) assms(5,8-10) st by (simp add: loc same res)
  moreover have "lsr_inv (nd_id k) ?t" using lsr_info_inv [OF inv] same by simp
  ultimately show ?thesis by blast
qed

lemma announcement_learned:
  assumes "node_reaches n" and "nd_alg n = IsLsr s" and "node_reaches k" and "nd_alg k = IsLsr t"
    and "nb \<in> set (live_neighbors n)" and "on_alg (\<lambda>fab. alg_refresh fab now rid) n = (n', out)"
    and "utf8_valid rid" and "rid \<noteq> []" and "utf8_valid (nd_addr n)"
    and "\<forall>(v, c) \<in> set (ls_links s). is_finite c \<and> utf8_valid (node_address n v) \<and> node_address n v \<noteq> [] \<and>
      node_local_id k (node_address n v) = v"
    and "node_local_id k (nd_addr n) = nd_id n" and "nd_id n \<noteq> []" and "nd_id n \<noteq> nd_id k"
    and "seen_at (ls_seen t) rid = None" and "r1 \<noteq> rid" and "\<not> stale t (nd_id n) (ls_seq s + 1)"
  shows "\<exists>q data p t'. Send nb q \<in> set out \<and> encode q = Some data \<and> decode data = Some p \<and>
    nd_alg (fst (handle now' r1 r2 p k)) = IsLsr t' \<and>
    mget (lsr_database t') (nd_id n) = Some \<lparr>an_origin = nd_id n, an_seq = ls_seq s + 1, an_neighbors = ls_links s\<rparr> \<and>
    lsr_table t' = dijkstra (graph_of_links (lsr_topology (fabric_of k) t')) (nd_id k)"
proof -
  let ?fab = "fabric_of n" and ?l = "own_lsp (fabric_of n) (s\<lparr>ls_seq := ls_seq s + 1, ls_last := now\<rparr>)"
  have i: "node_inv n" by (rule node_reaches_inv [OF assms(1)])
  have self: "node_address n (nd_id n) = nd_addr n" "node_local_id n (nd_addr n) = nd_id n"
    by (simp_all add: node_address_def node_local_id_def)
  have wf: "wf_map (nd_neighbors n)" using i by (simp add: node_inv_def neighbors_ok_def)
  then have notself: "nd_id n \<notin> set (live_neighbors n)"
    using planes_agree_nan [OF assms(1), of "nd_id n"] by (cases "live_cost n (nd_id n)") (auto simp: live_neighbors_iff)
  have ok: "lsp_ok ?l"
    using assms(9,10) fval_small(1) [of 0] by (auto simp: lsp_ok_def own_lsp_def self list_all_iff entry_ok_def)
  obtain q j where q: "snd (announce ?fab now rid s) = map (\<lambda>nb. Send nb q) (fb_neighbors ?fab)" "own_packet q"
    "lsp_json ?l = Some j" "p_payload q = json_print j" "p_type q = type_info" "sint (p_ttl q) = 15"
    "header_string q header_msg_id = rid"
    using announce_sends [where fab = ?fab and s = s and now = now, OF assms(7,8)] assms(9) self notself ok by auto
  have "out = snd (announce ?fab now rid s)"
    using assms(2) arg_cong [OF assms(6), of snd] by (simp add: snd_on_alg lsr_refresh_def)
  then have sent: "Send nb q \<in> set out" using q(1) assms(5) by simp
  obtain data where d: "encode q = Some data" "decode data = Some (received q)"
    using own_received [OF q(2)] q(6) by (auto simp: int_le_def)
  have dec: "decode_lsp (p_payload (received q)) = Some ?l" using decode_lsp_own [OF ok q(3)] q(4) by simp
  have "lsr_inv (nd_id n) s" using i assms(2) by (simp add: node_inv_def)
  then have "wf_map (ls_links s)" by (simp add: lsr_inv_def links_ok_def)
  then have res: "resolve_neighbors (fabric_of k) (lsp_neighbors ?l) = ls_links s"
    using resolve_own [of "ls_links s" "fabric_of k" "node_address n"] assms(10) by (simp add: own_lsp_def split_beta)
  have org: "node_local_id k (lsp_origin ?l) = nd_id n" "lsp_seq ?l = ls_seq s + 1"
    by (simp_all add: own_lsp_def self assms(11))
  have mid: "header_string (received q) header_msg_id = rid"
    using header_string_received [OF own_headers_ok [OF q(2)]] q(7) by simp
  have ty: "p_type (received q) = type_info" using q(5) by (simp add: received_fields)
  obtain t' where t': "nd_alg (fst (handle now' r1 r2 (received q) k)) = IsLsr t'" "lsr_inv (nd_id k) t'"
    "mget (lsr_database t') (nd_id n) = Some \<lparr>an_origin = nd_id n, an_seq = ls_seq s + 1, an_neighbors = ls_links s\<rparr>"
    using info_handled [OF node_reaches_inv [OF assms(3)] assms(4) ty assms(15) mid assms(14) dec org(1) assms(12,13) _ res] assms(16)
    unfolding org(2) by blast
  have "lsr_table t' = dijkstra (graph_of_links (lsr_topology (fabric_of k) t')) (nd_id k)"
    using lsr_table_eq [OF t'(2)] by (simp add: lsr_topology_def)
  then show ?thesis using sent d t' by blast
qed

section \<open>Properties\<close>

text \<open>
  An announcement arrives. When a link-state node refreshes its announcement, a copy goes to
  every live neighbour; the bytes of the copy are read back by a link-state node with the same
  name table, which, unless it holds a newer announcement, then has on file for the sender
  exactly the sender's links at their costs, under the next sequence number, and routes by a
  table that takes them into account.
\<close>

theorem announcement_arrives:
  assumes "node_reaches n" and "nd_alg n = IsLsr s" and "node_reaches k" and "nd_alg k = IsLsr t"
    and "nb \<in> set (live_neighbors n)" and "on_alg (\<lambda>fab. alg_refresh fab now rid) n = (n', out)"
    and "utf8_valid rid" and "rid \<noteq> []" and "utf8_valid (nd_addr n)"
    and "\<forall>(v, c) \<in> set (ls_links s). is_finite c \<and> utf8_valid (node_address n v) \<and> node_address n v \<noteq> [] \<and>
      node_local_id k (node_address n v) = v"
    and "node_local_id k (nd_addr n) = nd_id n" and "nd_id n \<noteq> []" and "nd_id n \<noteq> nd_id k"
    and "seen_at (ls_seen t) rid = None" and "r1 \<noteq> rid" and "\<not> stale t (nd_id n) (ls_seq s + 1)"
  shows "\<exists>q data p t'. Send nb q \<in> set out \<and> encode q = Some data \<and> decode data = Some p \<and>
    nd_alg (fst (handle now' r1 r2 p k)) = IsLsr t' \<and>
    mget (lsr_database t') (nd_id n) = Some \<lparr>an_origin = nd_id n, an_seq = ls_seq s + 1, an_neighbors = ls_links s\<rparr> \<and>
    lsr_table t' = dijkstra (graph_of_links (lsr_topology (fabric_of k) t')) (nd_id k)"
  by (rule announcement_learned [OF assms])

text \<open>The witness: node A has heard an echo of node B, whose node has just started.\<close>

definition sample_b :: node where
  "sample_b = (sample_node (IsLsr new_lsr) ''lsr'')
     \<lparr>nd_id := ''B'', nd_addr := ''10.0.0.2:5000'',
      nd_neighbors := [(''A'', \<lparr>nb_alive = False, nb_cost = f64 1, nb_last = zero_time\<rparr>)]\<rparr>"

lemma sample_b_reached: "node_reaches sample_b"
proof -
  have new: "new_node ((sample_options ''lsr'')\<lparr>o_id := ''B''\<rparr>) = Inr sample_b" by code_simp
  have "topology_ok (o_topology ((sample_options ''lsr'')\<lparr>o_id := ''B''\<rparr>))"
    using sample_topology_ok by (simp add: sample_options_def)
  from node_new [OF this new] show ?thesis by (simp add: node_start_def sample_b_def sample_node_def)
qed

lemma echo_line_cost: "\<exists>p. decode (echo_line []) = Some p \<and> p_from p = ''10.0.0.2:5000'' \<and> p_type p = type_echo \<and> measured_cost now p = min_cost"
proof -
  have "map_option (\<lambda>p. (p_from p, p_type p, header_float p header_t0)) (decode (echo_line [])) =
      Some (''10.0.0.2:5000'', type_echo, None)" by code_simp
  then obtain p where "decode (echo_line []) = Some p" "p_from p = ''10.0.0.2:5000''" "p_type p = type_echo"
      "header_float p header_t0 = None" by auto
  then show ?thesis by (auto simp: measured_cost_def)
qed

lemma heard_b:
  "\<exists>n s. node_reaches n \<and> nd_alg n = IsLsr s \<and> nd_id n = ''A'' \<and> nd_addr n = ''10.0.0.1:5000'' \<and> nd_names n = sample_names \<and>
     live_neighbors n = [''B''] \<and> (\<forall>pid. mget (ls_links s) pid = (if pid = ''B'' then Some min_cost else None))"
proof -
  let ?n = "sample_node (IsLsr new_lsr) ''lsr''"
  obtain p where p: "decode (echo_line []) = Some p" "p_from p = ''10.0.0.2:5000''" "p_type p = type_echo"
    "measured_cost second p = min_cost" using echo_line_cost by blast
  let ?m = "fst (handle_echo second ''0d'' p ?n)"
  have "receive p ?n = (?n\<lparr>nd_inbox := [p]\<rparr>, [])" by (simp add: receive_def inbox_size_def sample_node_def)
  then have r: "node_reaches (?n\<lparr>nd_inbox := [p]\<rparr>)" using node_next [OF sample_lsr_reached step_receive [OF p(1)]] by blast
  have ne: "type_echo \<noteq> type_hello" by code_simp
  have e: "?n\<lparr>nd_inbox := []\<rparr> = ?n" by (simp add: sample_node_def)
  then have "fst (handle second ''0d'' ''0e'' p (?n\<lparr>nd_inbox := []\<rparr>)) = ?m"
    using ne by (simp add: handle_def p(3))
  then have "forwarding_turn second ''0d'' ''0e'' (?n\<lparr>nd_inbox := [p]\<rparr>) = Some (?m, snd (handle second ''0d'' ''0e'' p (?n\<lparr>nd_inbox := []\<rparr>)))"
    by (simp add: forwarding_turn_def prod_eq_iff)
  then have reach: "node_reaches ?m" by (rule node_next [OF r step_forward])
  obtain s where s: "nd_alg ?m = IsLsr s" using echo_alg [of ?n new_lsr second "''0d''" p] by (auto simp: sample_node_def)
  have b: "node_local_id ?n (p_from p) = ''B''" by (simp add: p(2) sample_names_b)
  have nbs: "nd_neighbors ?m = [(''B'', \<lparr>nb_alive = True, nb_cost = min_cost, nb_last = second\<rparr>)]"
    by (simp add: handle_echo_def mark_alive_with_cost_def b p(4) Let_def) (simp add: sample_node_def smoothed_def)
  have rest: "nd_id ?m = ''A''" "nd_addr ?m = ''10.0.0.1:5000''" "nd_names ?m = sample_names"
    by (simp_all add: handle_echo_def mark_alive_with_cost_def Let_def) (simp_all add: sample_node_def)
  have "on_file (live_cost ?m) (IsLsr s)" using node_reaches_inv [OF reach] s by (simp add: node_inv_def)
  then have "\<forall>pid. mget (ls_links s) pid = (if pid = ''B'' then Some min_cost else None)"
    by (simp add: live_cost_def nbs)
  moreover have "live_neighbors ?m = [''B'']" by (simp add: live_neighbors_def nbs)
  ultimately show ?thesis using reach s rest by blast
qed

theorem announcement_arrives_witness:
  "\<exists>p t'. nd_alg (fst (handle (2 * second) ''0b'' ''0c'' p sample_b)) = IsLsr t' \<and>
     map_option (\<lambda>a. mget (an_neighbors a) ''B'') (mget (lsr_database t') ''A'') = Some (Some min_cost)"
proof -
  obtain n s where n: "node_reaches n" "nd_alg n = IsLsr s" "nd_id n = ''A''" "nd_addr n = ''10.0.0.1:5000''"
    "nd_names n = sample_names" "live_neighbors n = [''B'']"
    and links: "\<forall>pid. mget (ls_links s) pid = (if pid = ''B'' then Some min_cost else None)"
    using heard_b by blast
  have k: "nd_alg sample_b = IsLsr new_lsr" "nd_id sample_b = ''B''" by (simp_all add: sample_b_def sample_node_def)
  have u: "utf8_valid ''0a''" "utf8_valid ''10.0.0.1:5000''" "utf8_valid ''10.0.0.2:5000''"
    "node_local_id sample_b ''10.0.0.1:5000'' = ''A''" "node_local_id sample_b ''10.0.0.2:5000'' = ''B''"
    "endpoint sample_names ''B'' = Some ''10.0.0.2:5000''" by code_simp+
  have b: "node_address n ''B'' = ''10.0.0.2:5000''" by (simp add: node_address_def n(3,5) u(6))
  have "pid = ''B'' \<and> c = min_cost" if "(pid, c) \<in> set (ls_links s)" for pid c
  proof -
    have "lsr_inv (nd_id n) s" using node_reaches_inv [OF n(1)] n(2) by (simp add: node_inv_def)
    then have "mget (ls_links s) pid = Some c" using that by (simp add: mget_iff lsr_inv_def links_ok_def)
    with links show ?thesis by (simp split: if_splits)
  qed
  then have l: "\<forall>(v, c) \<in> set (ls_links s). is_finite c \<and> utf8_valid (node_address n v) \<and> node_address n v \<noteq> [] \<and>
      node_local_id sample_b (node_address n v) = v"
    using b u min_cost_error(1) by fastforce
  have nb: "''B'' \<in> set (live_neighbors n)" by (simp add: n(6))
  have new: "seen_at (ls_seen new_lsr) ''0a'' = None" "\<not> stale new_lsr ''A'' x" for x
    by (simp_all add: new_lsr_def stale_def new_seen_cache_def seen_at_def)
  from announcement_arrives [OF n(1,2) sample_b_reached k(1) nb prod.collapse [symmetric] u(1) _ _ l, of "''0b''" second "2 * second" "''0c''"]
  obtain q p t' where "nd_alg (fst (handle (2 * second) ''0b'' ''0c'' p sample_b)) = IsLsr t'"
      "mget (lsr_database t') ''A'' = Some \<lparr>an_origin = ''A'', an_seq = ls_seq s + 1, an_neighbors = ls_links s\<rparr>"
    using new u(2,4) k(2) by (auto simp: n(3,4))
  then show ?thesis using links by (intro exI [of _ p] exI [of _ t']) simp
qed

end
