(* ===== verification/Net_Traffic.thy ===== *)
theory Net_Traffic
  imports Net_Announce
begin

text \<open>
  What the nodes of one network send to each other. A packet is sound when it has the shape
  this program gives its packets, hops left, a valid checksum, the protocol's version, origin
  and previous hop among the network's addresses, and a content its receiver can read; a sound
  announcement was spoken by one of the network's nodes. Every operation of a node that has
  received only sound packets sends only sound packets.
\<close>

section \<open>Sound packets\<close>

text \<open>An announcement a node can make: each entry is a link that is live at it, at its cost.\<close>

definition speaks :: "node \<Rightarrow> lsp \<Rightarrow> bool" where
  "speaks m l \<longleftrightarrow> lsp_origin l = nd_addr m \<and>
     (\<forall>e \<in> set (lsp_neighbors l). \<exists>v. live_cost m v = Some (ne_weight e) \<and> ne_id e = node_address m v)"

definition readable :: "node set \<Rightarrow> packet \<Rightarrow> bool" where
  "readable P p \<longleftrightarrow> p_type p = type_hello \<or> p_type p = type_echo \<or>
     (p_type p = type_info \<and> (\<exists>m \<in> P. \<exists>l. speaks m l \<and> lsp_ok l \<and> decode_lsp (p_payload p) = Some l)) \<or>
     (p_type p = type_message \<and> payload_text p \<noteq> None)"

definition base_sound :: "string set \<Rightarrow> node set \<Rightarrow> packet \<Rightarrow> bool" where
  "base_sound A P p \<longleftrightarrow> own_packet p \<and> 0 < sint (p_ttl p) \<and> sint (p_ttl p) \<le> 16 \<and> p_version p = version \<and>
     checksum_valid p \<and> p_from p \<in> A \<and> readable P p"

definition sound :: "string set \<Rightarrow> node set \<Rightarrow> packet \<Rightarrow> bool" where
  "sound A P p \<longleftrightarrow> base_sound A P p \<and> header_string p header_via \<in> A"

lemma readable_cong: "p_type q = p_type p \<Longrightarrow> p_payload q = p_payload p \<Longrightarrow> readable P q = readable P p"
  by (simp add: readable_def payload_text_def)

lemma readable_mono: "P \<subseteq> Q \<Longrightarrow> readable P p \<Longrightarrow> readable Q p"
  by (auto simp: readable_def)

lemma sound_mono: "P \<subseteq> Q \<Longrightarrow> sound A P p \<Longrightarrow> sound A Q p"
  using readable_mono by (auto simp: sound_def base_sound_def)

lemma checksum_cong:
  "p_payload q = p_payload p \<Longrightarrow> header_string q header_checksum = header_string p header_checksum \<Longrightarrow>
   checksum_valid q = checksum_valid p"
  by (simp only: checksum_valid_def canonical_payload_def)

lemma header_string_put:
  "header_string (set_header k v p) k' =
     (if k' = k then (case v of GStr s \<Rightarrow> s | _ \<Rightarrow> fmt_any v) else header_string p k')"
  by (simp add: header_string_def header_set_header)

lemma set_header_fields:
  "p_type (set_header k v p) = p_type p" "p_payload (set_header k v p) = p_payload p" "p_ttl (set_header k v p) = p_ttl p"
  "p_version (set_header k v p) = p_version p" "p_from (set_header k v p) = p_from p" "p_to (set_header k v p) = p_to p"
  by (simp_all add: set_header_def)

lemma base_set_header:
  assumes "base_sound A P p" "utf8_valid k" "flat_value v" "k \<noteq> header_msg_id" "k \<noteq> header_checksum"
  shows "base_sound A P (set_header k v p)"
proof -
  have "checksum_valid (set_header k v p) = checksum_valid p"
    using assms(5) by (intro checksum_cong) (simp_all add: set_header_fields header_string_put)
  moreover have "readable P (set_header k v p) = readable P p" by (rule readable_cong) (simp_all add: set_header_fields)
  ultimately show ?thesis using assms own_set_header by (simp add: base_sound_def set_header_fields)
qed

lemma hop_fields:
  "p_type (fst (decrement_ttl p)) = p_type p" "p_payload (fst (decrement_ttl p)) = p_payload p"
  "p_version (fst (decrement_ttl p)) = p_version p" "p_from (fst (decrement_ttl p)) = p_from p"
  "p_to (fst (decrement_ttl p)) = p_to p" "header_string (fst (decrement_ttl p)) k = header_string p k"
  "header (fst (decrement_ttl p)) k = header p k" "trace (fst (decrement_ttl p)) = trace p"
  by (simp_all add: decrement_ttl_def Let_def header_string_def header_def trace_def)

lemma base_hop:
  assumes "base_sound A P p" "snd (decrement_ttl p)"
  shows "base_sound A P (fst (decrement_ttl p))"
proof -
  have "0 < sint (p_ttl p)" using assms(1) by (simp add: base_sound_def)
  note d = decrement_positive [OF this]
  have "checksum_valid (fst (decrement_ttl p)) = checksum_valid p" by (rule checksum_cong) (simp_all add: hop_fields)
  moreover have "readable P (fst (decrement_ttl p)) = readable P p" by (rule readable_cong) (simp_all add: hop_fields)
  moreover have "own_packet (fst (decrement_ttl p))"
    using assms(1) own_ttl by (simp add: base_sound_def decrement_ttl_def Let_def)
  ultimately show ?thesis using assms d by (auto simp: base_sound_def hop_fields)
qed

lemma sound_via: "base_sound A P p \<Longrightarrow> a \<in> A \<Longrightarrow> utf8_valid a \<Longrightarrow> sound A P (set_header header_via (GStr a) p)"
  using base_set_header [of A P p header_via "GStr a"] header_names_utf8
  by (simp add: sound_def header_string_put header_names)

lemma sound_hop: "sound A P p \<Longrightarrow> snd (decrement_ttl p) \<Longrightarrow> sound A P (fst (decrement_ttl p))"
  using base_hop by (simp add: sound_def hop_fields)

lemma sound_received: "sound A P p \<Longrightarrow> sound A P (received p)"
proof -
  assume s: "sound A P p"
  then have own: "own_packet p" by (simp add: sound_def base_sound_def)
  have "readable P (received p) = readable P p" by (rule readable_cong) (simp_all add: received_fields)
  then show ?thesis
    using s own_again [OF own] checksum_received [OF own_headers_ok [OF own]] header_string_received [OF own_headers_ok [OF own]]
    by (simp add: sound_def base_sound_def received_fields)
qed

text \<open>A sound packet is read back by whoever receives its line, as a sound packet.\<close>

lemma sound_wire: "sound A P p \<Longrightarrow> \<exists>data. encode p = Some data \<and> decode data = Some (received p)"
  by (rule own_received) (simp_all add: sound_def base_sound_def int_le_def)

section \<open>New packets\<close>

definition fresh_id :: "string \<Rightarrow> bool" where
  "fresh_id rid \<longleftrightarrow> utf8_valid rid \<and> rid \<noteq> []"

lemma new_object_version: "new_object rid proto typ source dest obj = Some p \<Longrightarrow> p_version p = version"
  by (auto simp: new_object_def set_payload_object_def new_packet_def set_header_def split: option.splits)

lemma object_sound:
  assumes "sendable j" "fresh_id rid" "utf8_valid proto" "utf8_valid dest" "a \<in> A" "utf8_valid a"
    and "typ = type_hello \<or> typ = type_echo \<or>
      typ = type_info \<and> (\<exists>m \<in> P. \<exists>l. speaks m l \<and> lsp_ok l \<and> decode_lsp (json_print j) = Some l)"
  shows "\<exists>p. new_object rid proto typ a dest (Some j) = Some p \<and> base_sound A P p \<and> header_string p header_msg_id = rid \<and>
    p_ttl p = default_ttl \<and> header p header_via = None"
proof -
  have "utf8_valid type_hello" "utf8_valid type_echo" "utf8_valid type_info" by code_simp+
  then have t: "utf8_valid typ" using assms(7) by auto
  from object_built [OF assms(1) _ _ assms(3) t assms(6,4), of rid] assms(2) obtain p where
    p: "new_object rid proto typ a dest (Some j) = Some p" "own_packet p" "p_payload p = json_print j" "p_ttl p = default_ttl"
      "p_type p = typ" "p_from p = a" "checksum_valid p" "header_string p header_msg_id = rid" "header p header_via = None"
    unfolding fresh_id_def by blast
  have "base_sound A P p"
    unfolding base_sound_def readable_def using p assms(5,7) new_object_version [OF p(1)] by (auto simp: default_ttl_def)
  with p show ?thesis by blast
qed

section \<open>Announcements\<close>

definition emits :: "string set \<Rightarrow> node set \<Rightarrow> event list \<Rightarrow> bool" where
  "emits A P out \<longleftrightarrow> (\<forall>(nb, q) \<in> set (sends out). sound A P q)"

lemma emits_simps [simp]:
  "emits A P []" "emits A P (Log l # out) = emits A P out" "emits A P (Deliver p # out) = emits A P out"
  "emits A P (Send nb q # out) \<longleftrightarrow> sound A P q \<and> emits A P out" "emits A P (xs @ ys) \<longleftrightarrow> emits A P xs \<and> emits A P ys"
  "emits A P (map (\<lambda>x. Log (f x)) ls)"
  by (auto simp: emits_def)

lemma emits_mono: "P \<subseteq> Q \<Longrightarrow> emits A P out \<Longrightarrow> emits A Q out"
  using sound_mono by (auto simp: emits_def)

lemma relay_copy_sound:
  assumes "base_sound A P p" "fb_address fab (fb_id fab) \<in> A" "utf8_valid (fb_address fab (fb_id fab))" "snd (relay_copy fab p)"
  shows "sound A P (fst (relay_copy fab p))"
proof -
  have c: "clone p = p" using assms(1) by (intro own_clone) (simp add: base_sound_def)
  from assms(4) show ?thesis
    unfolding relay_copy_def c by (intro sound_hop sound_via assms) 
qed

lemma relay_emits:
  assumes "base_sound A P p" "fb_address fab (fb_id fab) \<in> A" "utf8_valid (fb_address fab (fb_id fab))"
  shows "emits A P (lsr_relay fab p)"
  using relay_copy_sound [OF assms] by (auto simp: emits_def relay_sends)

lemma lsp_json_finite: "lsp_json l = Some j \<Longrightarrow> e \<in> set (lsp_neighbors l) \<Longrightarrow> is_finite (ne_weight e)"
proof -
  assume j: "lsp_json l = Some j" and e: "e \<in> set (lsp_neighbors l)"
  then obtain es where "those (map entry_json (lsp_neighbors l)) = Some es"
    by (auto simp: lsp_json_def both_def split: option.splits)
  then have "map entry_json (lsp_neighbors l) = map Some es" by (simp add: those_iff)
  with e have "entry_json e \<noteq> None" by (metis (no_types, lifting) imageE imageI list.set_map option.discI)
  then show ?thesis by (auto simp: entry_json_def float_json_def split: if_splits)
qed

text \<open>
  What is announced is what is live: \<open>m\<close> is a state of the node in which every link the
  algorithm has on file is live.
\<close>

lemma announce_emits:
  assumes "fresh_id rid" and "fb_address fab (fb_id fab) = a" "a \<in> A" "utf8_valid a"
    and "m \<in> P" "nd_addr m = a" "node_address m = fb_address fab"
    and "\<forall>(v, c) \<in> set (ls_links s). live_cost m v = Some c \<and> utf8_valid (node_address m v) \<and> node_address m v \<noteq> []"
  shows "emits A P (snd (announce fab now rid s))"
proof (cases "lsp_json (own_lsp fab (s\<lparr>ls_seq := ls_seq s + 1, ls_last := now\<rparr>))")
  case None
  then show ?thesis by (simp add: announce_def Let_def new_object_def set_payload_object_def)
next
  case (Some j)
  let ?l = "own_lsp fab (s\<lparr>ls_seq := ls_seq s + 1, ls_last := now\<rparr>)"
  have fin: "\<forall>e \<in> set (lsp_neighbors ?l). is_finite (ne_weight e)" using lsp_json_finite [OF Some] by blast
  then have ok: "lsp_ok ?l"
    using assms fval_small(1) [of 0] by (auto simp: lsp_ok_def own_lsp_def list_all_iff entry_ok_def)
  have sp: "speaks m ?l" using assms(2,6,7,8) unfolding speaks_def own_lsp_def by fastforce
  obtain j' where j': "lsp_json ?l = Some j'" "sendable j'" using lsp_sendable [OF ok] by blast
  have dec: "decode_lsp (json_print j) = Some ?l" by (rule decode_lsp_own [OF ok Some])
  have u: "utf8_valid proto_lsr" "utf8_valid ''*''" by code_simp+
  from object_sound [OF _ assms(1) u assms(3,4), of j type_info P] j' Some dec ok sp assms(5) obtain p where
    p: "new_object rid proto_lsr type_info a ''*'' (Some j) = Some p" "base_sound A P p" by auto
  from relay_emits [OF p(2), of fab] assms(2-4) have "emits A P (lsr_relay fab p)" by simp
  then show ?thesis by (simp add: announce_def Let_def Some assms(2) p(1))
qed

section \<open>Nodes among their own kind\<close>

text \<open>
  \<open>A\<close> are the addresses of the network and \<open>U\<close> its identifiers: the node resolves each address
  to one of them, and the links it believes alive lead to them.
\<close>

definition tame :: "string set \<Rightarrow> string set \<Rightarrow> node \<Rightarrow> bool" where
  "tame A U n \<longleftrightarrow> nd_addr n \<in> A \<and> (\<forall>a \<in> A. utf8_valid a \<and> node_local_id n a \<in> U) \<and>
     (\<forall>v \<in> U. utf8_valid (node_address n v) \<and> node_address n v \<noteq> []) \<and>
     (\<forall>(v, st) \<in> set (nd_neighbors n). utf8_valid (node_address n v) \<and> (nb_alive st \<longrightarrow> v \<in> U))"

definition same_place :: "node \<Rightarrow> node \<Rightarrow> bool" where
  "same_place n n' \<longleftrightarrow> nd_id n' = nd_id n \<and> nd_names n' = nd_names n \<and> nd_addr n' = nd_addr n \<and> nd_port n' = nd_port n"

lemma same_place_refl [simp]: "same_place n n"
  by (simp add: same_place_def)

lemma same_place_trans: "same_place n m \<Longrightarrow> same_place m k \<Longrightarrow> same_place n k"
  by (simp add: same_place_def)

lemma same_place_names: "same_place n n' \<Longrightarrow> node_address n' = node_address n \<and> node_local_id n' = node_local_id n"
  using local_id_cong [of n' n] by (auto simp: same_place_def node_address_def [abs_def])

lemma tame_place:
  "tame A U n \<Longrightarrow> same_place n n' \<Longrightarrow>
   \<forall>(v, st) \<in> set (nd_neighbors n'). (v, st) \<in> set (nd_neighbors n) \<or> (v \<in> U) \<or> \<not> nb_alive st \<and> v \<in> fst ` set (nd_neighbors n) \<Longrightarrow>
   tame A U n'"
  using same_place_names [of n n'] unfolding tame_def same_place_def by fastforce

lemma tame_live: "tame A U n \<Longrightarrow> live_cost n v = Some c \<Longrightarrow> v \<in> U"
  by (auto simp: tame_def live_cost_def split: option.splits if_splits dest!: mget_SomeD)

text \<open>Every link the algorithm has on file is live at \<open>m\<close>.\<close>

fun links_live :: "node \<Rightarrow> any_alg \<Rightarrow> bool" where
  "links_live m (IsLsr s) = (\<forall>(v, c) \<in> set (ls_links s). live_cost m v = Some c)"
| "links_live m a = True"

lemma links_live_inv: "node_inv n \<Longrightarrow> links_live n (nd_alg n)"
proof (cases "nd_alg n")
  case (IsLsr s)
  assume "node_inv n"
  with IsLsr have "wf_map (ls_links s)" "\<forall>pid. mget (ls_links s) pid = live_cost n pid"
    by (simp_all add: node_inv_def lsr_inv_def links_ok_def)
  then show ?thesis using IsLsr by (auto simp: mget_iff [symmetric])
qed simp_all

lemma links_live_down: "links_live m a \<Longrightarrow> links_live m (fst (alg_link_down fab now rid pid a))"
  by (cases a) (auto simp: lsr_ops_def fst_link_down AList.delete_eq)

text \<open>What an algorithm at \<open>n\<close> announces is vouched for by the state \<open>m\<close> of the same node.\<close>

definition speaking :: "string set \<Rightarrow> string set \<Rightarrow> node set \<Rightarrow> node \<Rightarrow> node \<Rightarrow> string \<Rightarrow> bool" where
  "speaking A U P n m rid \<longleftrightarrow> tame A U n \<and> tame A U m \<and> same_place n m \<and> m \<in> P \<and> fresh_id rid"

lemma links_emit:
  assumes "speaking A U P n m rid" and l: "links_live m (IsLsr s)"
  shows "emits A P (snd (announce (fabric_of n) now rid s))"
proof (rule announce_emits [where m = m])
  have n_tame: "tame A U n" and m_tame: "tame A U m" and place: "same_place n m" and "m \<in> P" and "fresh_id rid"
    using assms(1) by (simp_all add: speaking_def)
  then show "m \<in> P" "fresh_id rid" by simp_all
  have i: "node_address n (nd_id n) = nd_addr n" by (simp add: node_address_def)
  then show "fb_address (fabric_of n) (fb_id (fabric_of n)) = nd_addr n" by simp
  show "nd_addr n \<in> A" "utf8_valid (nd_addr n)" "nd_addr m = nd_addr n" "node_address m = fb_address (fabric_of n)"
    using n_tame place same_place_names [OF place] by (auto simp: tame_def same_place_def)
  show "\<forall>(v, c) \<in> set (ls_links s). live_cost m v = Some c \<and> utf8_valid (node_address m v) \<and> node_address m v \<noteq> []"
  proof (clarify, intro conjI)
    fix v c assume "(v, c) \<in> set (ls_links s)"
    with l show c: "live_cost m v = Some c" by auto
    from tame_live [OF m_tame c] m_tame show "utf8_valid (node_address m v)" "node_address m v \<noteq> []" by (auto simp: tame_def)
  qed
qed

lemma up_emits:
  assumes "speaking A U P n m rid" and "links_live m (fst (alg_link_up (fabric_of n) now rid nb c a))"
  shows "emits A P (snd (alg_link_up (fabric_of n) now rid nb c a))"
proof (cases a)
  case (IsLsr s)
  let ?s = "s\<lparr>ls_links := mput nb c (ls_links s)\<rparr>"
  have "ls_links (fst (lsr_link_up (fabric_of n) now rid nb c s)) = ls_links ?s" by (simp add: fst_link_up Let_def)
  then have "links_live m (IsLsr ?s)" using assms(2) IsLsr by (simp add: lsr_ops_def)
  from links_emit [OF assms(1) this, of now] show ?thesis
    by (simp add: IsLsr lsr_ops_def lsr_link_up_def Let_def case_prod_beta)
qed (simp_all add: dijkstra_ops_def flooding_ops_def dj_link_up_def flooding_link_up_def Let_def)

lemma down_emits:
  assumes "speaking A U P n m rid" and "links_live m a"
  shows "emits A P (snd (alg_link_down (fabric_of n) now rid nb a))"
proof (cases a)
  case (IsLsr s)
  let ?s = "s\<lparr>ls_links := mdel nb (ls_links s)\<rparr>"
  have "links_live m (IsLsr ?s)" using assms(2) IsLsr by (auto simp: AList.delete_eq)
  from links_emit [OF assms(1) this, of now] show ?thesis
    by (simp add: IsLsr lsr_ops_def lsr_link_down_def Let_def case_prod_beta)
qed (simp_all add: dijkstra_ops_def flooding_ops_def dj_link_down_def flooding_link_down_def Let_def)

lemma refresh_emits:
  "speaking A U P n m rid \<Longrightarrow> links_live m a \<Longrightarrow> emits A P (snd (alg_refresh (fabric_of n) now rid a))"
  using links_emit by (cases a) (simp_all add: lsr_refresh_def)

end
