(* ===== verification/Net_Closed.thy ===== *)
theory Net_Closed
  imports Net_Traffic
begin

text \<open>
  Every operation of a node keeps its place in a network of its own kind and sends only sound
  packets, as long as what it was handed was sound. The states \<open>P\<close> that vouch for its
  announcements must hold the state it ends in, and, where it reaps, the state it starts from.
\<close>

definition behaves :: "string set \<Rightarrow> string set \<Rightarrow> node set \<Rightarrow> node \<Rightarrow> node \<times> event list \<Rightarrow> bool" where
  "behaves A U P n r \<longleftrightarrow>
     same_place n (fst r) \<and> tame A U (fst r) \<and> nd_inbox (fst r) = nd_inbox n \<and> emits A P (snd r)"

lemma behaves_log [simp]: "behaves A U P n (n', map Log ls) \<longleftrightarrow> same_place n n' \<and> tame A U n' \<and> nd_inbox n' = nd_inbox n"
  using emits_simps(6) [of A P "\<lambda>x. x" ls] by (simp add: behaves_def)

lemma behaves_then:
  "behaves A U P n r \<Longrightarrow> behaves A U P (fst r) (f (fst r)) \<Longrightarrow> behaves A U P n (and_then r f)"
  by (auto simp: behaves_def intro: same_place_trans)

lemma same_place_on_alg [simp]: "same_place n (fst (on_alg f n))"
  by (simp add: same_place_def)

lemma tame_on_alg [simp]: "tame A U (fst (on_alg f n)) = tame A U n"
  using same_place_names [OF same_place_on_alg, of f n] by (simp add: tame_def)

lemma tame_cong: "same_place n m \<Longrightarrow> nd_neighbors m = nd_neighbors n \<Longrightarrow> tame A U m = tame A U n"
  using same_place_names [of n m] by (simp add: tame_def same_place_def)

lemma tame_mput:
  assumes "tame A U n" "nb \<in> U"
  shows "tame A U (n\<lparr>nd_neighbors := mput nb st (nd_neighbors n)\<rparr>)"
proof (rule tame_place [OF assms(1)])
  show "same_place n (n\<lparr>nd_neighbors := mput nb st (nd_neighbors n)\<rparr>)" by (simp add: same_place_def)
  have "(v, x) \<in> set (mput k y m) \<Longrightarrow> (v, x) \<in> set m \<or> v = k" for v x k and y :: neighbor_state and m
    by (induction m) (auto split: if_splits)
  then show "\<forall>(v, x) \<in> set (nd_neighbors (n\<lparr>nd_neighbors := mput nb st (nd_neighbors n)\<rparr>)).
      (v, x) \<in> set (nd_neighbors n) \<or> v \<in> U \<or> \<not> nb_alive x \<and> v \<in> fst ` set (nd_neighbors n)"
    using assms(2) by fastforce
qed

section \<open>The discovery plane\<close>

text \<open>A link reported up: the state \<open>m\<close> has the neighbours the report is made with.\<close>

lemma report_up_behaves:
  assumes "tame A U n" "fresh_id rid" "m \<in> P" "same_place n m" "nd_neighbors m = nd_neighbors n"
    and "node_inv (fst (on_alg (\<lambda>fab. alg_link_up fab now rid nb c) n))"
  shows "behaves A U P n (on_alg (\<lambda>fab. alg_link_up fab now rid nb c) n)"
proof -
  let ?r = "on_alg (\<lambda>fab. alg_link_up fab now rid nb c) n"
  have "links_live (fst ?r) (nd_alg (fst ?r))" by (rule links_live_inv [OF assms(6)])
  moreover have "live_cost (fst ?r) = live_cost m" by (rule live_cost_cong) (simp add: assms(5))
  ultimately have "links_live m (nd_alg (fst ?r))" by (cases "nd_alg (fst ?r)") simp_all
  moreover have "speaking A U P n m rid"
    using assms tame_cong [OF assms(4,5)] by (simp add: speaking_def)
  ultimately show ?thesis using up_emits assms(1) by (simp add: behaves_def snd_on_alg)
qed

lemma mark_alive_behaves:
  assumes "node_inv n" "tame A U n" "fresh_id rid" "nb \<in> U" "m \<in> P" "same_place n m"
    and "nd_neighbors m = nd_neighbors (fst (mark_alive now rid nb n))"
  shows "behaves A U P n (mark_alive now rid nb n)"
proof (cases "nb = [] \<or> nb = nd_id n")
  case True
  then show ?thesis using assms(2) behaves_log [of A U P n n "[]"] by (simp add: mark_alive_def)
next
  case False
  define st where "st = (case mget (nd_neighbors n) nb of Some st \<Rightarrow> st | None \<Rightarrow> \<lparr>nb_alive = False, nb_cost = f64 1, nb_last = zero_time\<rparr>)"
  define n1 where "n1 = n\<lparr>nd_neighbors := mput nb (st\<lparr>nb_alive := True, nb_last := now\<rparr>) (nd_neighbors n)\<rparr>"
  define ls where "ls = (if mget (nd_neighbors n) nb = None then [NewNeighbor nb] else [])"
  have r: "mark_alive now rid nb n = (if nb_alive st then (n1, map Log ls)
      else and_then (n1, map Log ls) (on_alg (\<lambda>fab. alg_link_up fab now rid nb (nb_cost st))))"
    using False by (simp add: mark_alive_def Let_def st_def n1_def ls_def)
  have p1: "same_place n n1" "tame A U n1" using tame_mput [OF assms(2,4)] by (simp_all add: n1_def same_place_def)
  then have b: "behaves A U P n (n1, map Log ls)" by (simp add: n1_def)
  show ?thesis
  proof (cases "nb_alive st")
    case False
    have up: "behaves A U P n1 (on_alg (\<lambda>fab. alg_link_up fab now rid nb (nb_cost st)) n1)"
    proof (rule report_up_behaves [OF p1(2) assms(3,5)])
      show "same_place n1 m" using p1(1) assms(6) by (simp add: same_place_def)
      show "nd_neighbors m = nd_neighbors n1" using assms(7) False by (simp add: r)
      show "node_inv (fst (on_alg (\<lambda>fab. alg_link_up fab now rid nb (nb_cost st)) n1))"
        using mark_alive_inv [OF assms(1), of now rid nb] False by (simp add: r)
    qed
    show ?thesis unfolding r using False behaves_then [OF b] up by simp
  qed (use b in \<open>simp add: r\<close>)
qed

lemma mark_alive_with_cost_behaves:
  assumes "node_inv n" "tame A U n" "fresh_id rid" "nb \<in> U" "m \<in> P" "same_place n m" "cost_ok c"
    and "nd_neighbors m = nd_neighbors (fst (mark_alive_with_cost now rid nb c n))"
  shows "behaves A U P n (mark_alive_with_cost now rid nb c n)"
proof (cases "nb = [] \<or> nb = nd_id n")
  case True
  then show ?thesis using assms(2) behaves_log [of A U P n n "[]"] by (simp add: mark_alive_with_cost_def)
next
  case False
  define st where "st = (case mget (nd_neighbors n) nb of Some st \<Rightarrow> st | None \<Rightarrow> \<lparr>nb_alive = False, nb_cost = f0, nb_last = zero_time\<rparr>)"
  define d where "d = smoothed st c"
  define n1 where "n1 = n\<lparr>nd_neighbors := mput nb \<lparr>nb_alive = True, nb_cost = d, nb_last = now\<rparr> (nd_neighbors n)\<rparr>"
  define ls where "ls = (if mget (nd_neighbors n) nb = None then [NewNeighbor nb] else [])"
  have r: "mark_alive_with_cost now rid nb c n =
      and_then (n1, map Log ls) (on_alg (\<lambda>fab. alg_link_up fab now rid nb d))"
    using False by (simp add: mark_alive_with_cost_def Let_def st_def n1_def ls_def d_def)
  have p1: "same_place n n1" "tame A U n1" using tame_mput [OF assms(2,4)] by (simp_all add: n1_def same_place_def)
  have "behaves A U P n1 (on_alg (\<lambda>fab. alg_link_up fab now rid nb d) n1)"
  proof (rule report_up_behaves [OF p1(2) assms(3,5)])
    show "same_place n1 m" using p1(1) assms(6) by (simp add: same_place_def)
    show "nd_neighbors m = nd_neighbors n1" using assms(8) by (simp add: r)
    show "node_inv (fst (on_alg (\<lambda>fab. alg_link_up fab now rid nb d) n1))"
      using mark_alive_with_cost_inv [OF assms(1,7), of now rid nb] by (simp add: r)
  qed
  then show ?thesis unfolding r using p1 by (intro behaves_then) (simp_all add: n1_def)
qed

lemma hello_parts: "utf8_valid type_hello" "utf8_valid type_echo" "flat_value (GNum x) = is_finite x"
  using message_utf8 by simp_all

lemma own_stamp: "own_packet p \<Longrightarrow> header_float p header_t0 = Some x \<Longrightarrow> is_finite x"
proof -
  assume own: "own_packet p" and x: "header_float p header_t0 = Some x"
  from own obtain kvs where kvs: "p_headers p = singles kvs" "\<forall>(k, v) \<in> set kvs. utf8_valid k \<and> flat_value v"
    by (auto simp: own_packet_def)
  have "mget kvs header_t0 = Some (GNum x)"
    using x by (auto simp: header_float_def header_def kvs(1) split: option.splits goval.splits)
  then show ?thesis using kvs(2) by (auto dest!: mget_SomeD)
qed

lemma handle_hello_behaves:
  assumes "node_inv n" "tame A U n" "fresh_id rid" "fresh_id rid'" "sound A P p"
    and "fst (handle_hello now rid rid' p n) \<in> P"
  shows "behaves A U P n (handle_hello now rid rid' p n)"
proof -
  let ?src = "node_local_id n (p_from p)"
  let ?r = "mark_alive now rid ?src n"
  let ?n = "fst ?r"
  have from_ok: "p_from p \<in> A" "own_packet p" using assms(5) by (simp_all add: sound_def base_sound_def)
  have final: "fst (handle_hello now rid rid' p n) = ?n"
    by (simp add: handle_hello_def Let_def split: option.split)
  have "same_place n ?n" by (simp add: mark_alive_def Let_def same_place_def)
  then have m: "behaves A U P n ?r"
    using assms from_ok(1) unfolding final
    by (intro mark_alive_behaves [where m = ?n]) (auto simp: tame_def)
  then have t: "tame A U ?n" by (simp add: behaves_def)
  then have a: "nd_addr ?n \<in> A" "utf8_valid (nd_addr ?n)" "utf8_valid (p_from p)" using from_ok(1) by (auto simp: tame_def)
  have s: "sendable (hello_payload ?n)" by (simp add: hello_payload_def hello_sendable)
  from object_sound [OF s assms(4) alg_proto_utf8 a(3,1,2), of type_echo P "nd_alg ?n"] obtain q where
    q: "new_object rid' (alg_proto (nd_alg ?n)) type_echo (nd_addr ?n) (p_from p) (Some (hello_payload ?n)) = Some q" "base_sound A P q"
    by auto
  define q' where "q' = (case header_float p header_t0 of Some t0 \<Rightarrow> set_header header_t0 (GNum t0) q | None \<Rightarrow> q)"
  have ne: "header_t0 \<noteq> header_checksum" "header_t0 \<noteq> header_msg_id" by code_simp+
  have "base_sound A P q'"
    using q(2) own_stamp [OF from_ok(2)] base_set_header [OF q(2) header_names_utf8(4) _ ne(2,1)]
    by (auto simp: q'_def split: option.split)
  from sound_via [OF this a(1,2)] have e: "sound A P (set_header header_via (GStr (nd_addr ?n)) q')" .
  have "handle_hello now rid rid' p n =
      and_then ?r (\<lambda>n. (n, [Send ?src (set_header header_via (GStr (nd_addr ?n)) q')]))"
    by (simp add: handle_hello_def Let_def and_then_def q(1) q'_def case_prod_beta)
  moreover have "behaves A U P ?n (?n, [Send ?src (set_header header_via (GStr (nd_addr ?n)) q')])"
    using t e by (simp add: behaves_def)
  ultimately show ?thesis using behaves_then [OF m] by simp
qed

lemma handle_echo_behaves:
  assumes "node_inv n" "tame A U n" "fresh_id rid" "sound A P p" "inbound_ok p" "fst (handle_echo now rid p n) \<in> P"
  shows "behaves A U P n (handle_echo now rid p n)"
proof -
  have "p_from p \<in> A" using assms(4) by (simp add: sound_def base_sound_def)
  then have u: "node_local_id n (p_from p) \<in> U" using assms(2) by (auto simp: tame_def)
  have "same_place n (fst (handle_echo now rid p n))"
    by (simp add: handle_echo_def mark_alive_with_cost_def Let_def same_place_def)
  then show ?thesis
    using mark_alive_with_cost_behaves [OF assms(1-3) u assms(6)] measured_cost_bounds [OF assms(5)]
    by (simp add: handle_echo_def)
qed

lemma same_place_sym: "same_place n m \<Longrightarrow> same_place m n"
  by (simp add: same_place_def)

text \<open>A clock the program can read: from the epoch to the year 2043.\<close>

definition clock_ok :: "gotime \<Rightarrow> bool" where
  "clock_ok now \<longleftrightarrow> 0 \<le> now \<and> now \<le> 2 ^ 61"

lemma probe_emits:
  assumes "tame A U n" "fresh_id (ids nb)" "clock_ok now" "nb \<in> fst ` set (nd_neighbors n)"
  shows "emits A P (probe now ids n nb)"
proof -
  have a: "nd_addr n \<in> A" "utf8_valid (nd_addr n)" "utf8_valid (node_address n nb)" using assms(1,4) by (auto simp: tame_def)
  have s: "sendable (hello_payload n)" by (simp add: hello_payload_def hello_sendable)
  from object_sound [OF s assms(2) alg_proto_utf8 a(3,1,2), of type_hello P "nd_alg n"] obtain q where
    q: "new_object (ids nb) (alg_proto (nd_alg n)) type_hello (nd_addr n) (node_address n nb) (Some (hello_payload n)) = Some q" "base_sound A P q"
    by auto
  have ne: "header_t0 \<noteq> header_checksum" "header_t0 \<noteq> header_msg_id" by code_simp+
  have "is_finite (now_seconds now)" using assms(3) clock_error(1) by (simp add: clock_ok_def)
  then have "base_sound A P (set_header header_t0 (GNum (now_seconds now)) q)"
    using base_set_header [OF q(2) header_names_utf8(4) _ ne(2,1)] by simp
  from sound_via [OF this a(1,2)] show ?thesis by (simp add: probe_def q(1))
qed

lemma probe_all_behaves:
  assumes "tame A U n" "\<And>nb. fresh_id (ids nb)" "clock_ok now"
  shows "behaves A U P n (probe_all now ids n)"
proof -
  have "emits A P (concat (map (probe now ids n) vs))" if "set vs \<subseteq> fst ` set (nd_neighbors n)" for vs
    using that probe_emits [where ids = ids, OF assms(1,2,3)] by (induction vs) auto
  from this [of "configured_neighbors n"] show ?thesis
    using assms(1) by (simp add: probe_all_def behaves_def) (simp add: configured_neighbors_def)
qed

lemma reap_notify_behaves:
  assumes "tame A U k" "tame A U n" "n \<in> P" "same_place k n" "\<And>nb. fresh_id (ids nb)" "links_live n (nd_alg k)"
  shows "behaves A U P k (reap_notify now ids dead k)"
  using assms(1,4,6)
proof (induction dead arbitrary: k)
  case Nil
  then show ?case by (simp add: behaves_def)
next
  case (Cons pid dead)
  let ?r = "on_alg (\<lambda>fab. alg_link_down fab now (ids pid) pid) k"
  have "speaking A U P k n (ids pid)" using Cons.prems assms(2,3,5) by (simp add: speaking_def)
  then have r: "behaves A U P k ?r"
    using down_emits Cons.prems by (simp add: behaves_def snd_on_alg)
  have "behaves A U P k (k, [Log (Stopped pid)])" using Cons.prems by (simp add: behaves_def)
  from behaves_then [OF this, of "on_alg (\<lambda>fab. alg_link_down fab now (ids pid) pid)"] r
  have s: "behaves A U P k (and_then (k, [Log (Stopped pid)]) (on_alg (\<lambda>fab. alg_link_down fab now (ids pid) pid)))" by simp
  have "behaves A U P (fst ?r) (reap_notify now ids dead (fst ?r))"
  proof (rule Cons.IH)
    show "tame A U (fst ?r)" "same_place (fst ?r) n" using Cons.prems r
      by (simp_all add: same_place_def)
    show "links_live n (nd_alg (fst ?r))" using links_live_down [OF Cons.prems(3)] by simp
  qed
  then show ?case using behaves_then [OF s] by simp
qed

lemma reap_dead_behaves:
  assumes "node_inv n" "tame A U n" "n \<in> P" "\<And>nb. fresh_id (ids nb)"
  shows "behaves A U P n (reap_dead now ids n)"
proof -
  obtain dead k where k: "reap_mark now n = (dead, k)" by fastforce
  then have nbs: "nd_neighbors k = map (\<lambda>(pid, st). (pid, if overdue now st then st\<lparr>nb_alive := False\<rparr> else st)) (nd_neighbors n)"
    and f: "same_place n k" "nd_alg k = nd_alg n" "nd_inbox k = nd_inbox n"
    by (auto simp: reap_mark_def same_place_def)
  have "tame A U k"
  proof (rule tame_place [OF assms(2) f(1)])
    show "\<forall>(v, st) \<in> set (nd_neighbors k). (v, st) \<in> set (nd_neighbors n) \<or> v \<in> U \<or> \<not> nb_alive st \<and> v \<in> fst ` set (nd_neighbors n)"
      unfolding nbs by (force split: if_splits)
  qed
  then have "behaves A U P k (reap_notify now ids dead k)"
    using assms links_live_inv [OF assms(1)] f
    by (intro reap_notify_behaves [where n = n]) (auto intro: same_place_sym)
  then show ?thesis using f by (auto simp: reap_dead_def k behaves_def intro: same_place_trans)
qed

lemma warn_each_behaves: "tame A U n \<Longrightarrow> behaves A U P n (warn_each ids n)"
proof (induction ids arbitrary: n)
  case (Cons pid silent)
  let ?n = "n\<lparr>nd_warned := mput pid True (nd_warned n)\<rparr>"
  let ?out = "if mget_or False (nd_warned n) pid then []
    else [Log (NeverAnswered pid (case endpoint (nd_names ?n) pid of Some a \<Rightarrow> a | None \<Rightarrow> []))]"
  have "same_place n ?n" by (simp add: same_place_def)
  with Cons.prems have t: "tame A U ?n" using tame_cong [of n ?n] by simp
  have "behaves A U P n (?n, ?out)" using t by (simp add: behaves_def same_place_def)
  then show ?case unfolding warn_each.simps Let_def by (rule behaves_then) (use Cons.IH [OF t] in simp)
qed (simp add: behaves_def)

lemma tick_behaves:
  assumes "node_inv n" "tame A U n" "n \<in> P" "\<And>nb. fresh_id (ids nb)" "\<And>nb. fresh_id (ids' nb)" "clock_ok now"
  shows "behaves A U P n (discovery_tick now started ids ids' n)"
proof -
  have warn: "behaves A U P k (warn_silent_neighbors now started k)" if "tame A U k" for k
    using that warn_each_behaves by (simp add: warn_silent_neighbors_def behaves_def)
  have r: "behaves A U P n (reap_dead now ids n)" by (rule reap_dead_behaves [OF assms(1-4)])
  then have s: "behaves A U P n (and_then (reap_dead now ids n) (warn_silent_neighbors now started))"
    by (intro behaves_then warn) (simp_all add: behaves_def)
  then have "tame A U (fst (and_then (reap_dead now ids n) (warn_silent_neighbors now started)))" by (simp add: behaves_def)
  from probe_all_behaves [OF this assms(5,6)] show ?thesis
    unfolding discovery_tick_def by (rule behaves_then [OF s])
qed

section \<open>The forwarding plane\<close>

lemma previous_hop_member: "tame A U n \<Longrightarrow> sound A P p \<Longrightarrow> previous_hop_id (fabric_of n) p \<in> U"
  by (auto simp: tame_def sound_def base_sound_def previous_hop_id_def Let_def)

lemma info_emits:
  assumes "base_sound A P p" "tame A U n"
  shows "emits A P (snd (alg_handle_info (fabric_of n) now rid p a))"
proof (cases a)
  case (IsLsr s)
  have "node_address n (nd_id n) = nd_addr n" by (simp add: node_address_def)
  then have "emits A P (lsr_relay (fabric_of n) p)" using assms by (intro relay_emits) (auto simp: tame_def)
  then have "emits A P (snd (lsr_learn (fabric_of n) now p l s'))" for l s'
    by (simp add: lsr_learn_def Let_def split: prod.split)
  then show ?thesis
    by (auto simp: IsLsr lsr_ops_def lsr_handle_info_def Let_def case_prod_beta split: option.split)
qed (simp_all add: dijkstra_ops_def flooding_ops_def dj_handle_info_def flooding_handle_info_def)

lemma handle_info_behaves:
  assumes "node_inv n" "tame A U n" "fresh_id rid" "sound A P p"
    and "fst (and_then (mark_alive now rid (previous_hop_id (fabric_of n) p) n) (on_alg (\<lambda>fab. alg_handle_info fab now rid' p))) \<in> P"
  shows "behaves A U P n (and_then (mark_alive now rid (previous_hop_id (fabric_of n) p) n) (on_alg (\<lambda>fab. alg_handle_info fab now rid' p)))"
proof -
  let ?r = "mark_alive now rid (previous_hop_id (fabric_of n) p) n"
  let ?m = "fst (on_alg (\<lambda>fab. alg_handle_info fab now rid' p) (fst ?r))"
  have "same_place n (fst ?r)" by (simp add: mark_alive_def Let_def same_place_def)
  then have place: "same_place n ?m" by (rule same_place_trans) simp
  have r: "behaves A U P n ?r"
    using assms(5) place by (intro mark_alive_behaves [OF assms(1-3) previous_hop_member [OF assms(2,4)], where m = ?m]) simp_all
  then have "tame A U (fst ?r)" by (simp add: behaves_def)
  moreover have "base_sound A P p" using assms(4) by (simp add: sound_def)
  ultimately have "behaves A U P (fst ?r) (on_alg (\<lambda>fab. alg_handle_info fab now rid' p) (fst ?r))"
    using info_emits by (simp add: behaves_def snd_on_alg)
  then show ?thesis by (rule behaves_then [OF r])
qed

lemma append_trace_sound: "base_sound A P p \<Longrightarrow> utf8_valid a \<Longrightarrow> base_sound A P (append_trace a p)"
proof -
  assume p: "base_sound A P p" and a: "utf8_valid a"
  have ne: "header_trace \<noteq> header_checksum" by code_simp
  have "own_packet p" using p by (simp add: base_sound_def)
  then have "flat_value (GStrs (trace p @ [a]))" using own_trace a by auto
  then show ?thesis unfolding append_trace_def by (rule base_set_header [OF p header_names_utf8(5) _ header_names_utf8(8) ne])
qed

lemma relay_message_emits:
  assumes "sound A P p" "tame A U n"
  shows "emits A P (node_relay p n)"
proof -
  let ?c = "set_header header_via (GStr (nd_addr n)) (append_trace (nd_addr n) (fst (decrement_ttl p)))"
  have a: "nd_addr n \<in> A" "utf8_valid (nd_addr n)" using assms(2) by (auto simp: tame_def)
  have "sound A P ?c" if "snd (decrement_ttl p)"
    using assms(1) that a by (intro sound_via append_trace_sound base_hop) (simp_all add: sound_def)
  moreover from this have "clone ?c = ?c" if "snd (decrement_ttl p)"
    using that by (intro own_clone) (simp add: sound_def base_sound_def)
  ultimately show ?thesis by (auto simp: emits_def relay_sends_node Let_def)
qed

lemma handle_message_behaves:
  assumes "tame A U n" "sound A P p"
  shows "behaves A U P n (handle_message now p n)"
proof -
  let ?n = "n\<lparr>nd_seen := snd (seen now (header_string p header_msg_id) (nd_seen n))\<rparr>"
  have n: "same_place n ?n" "nd_neighbors ?n = nd_neighbors n" "nd_inbox ?n = nd_inbox n" by (simp_all add: same_place_def)
  then have t: "tame A U ?n" using assms(1) tame_cong by blast
  have "emits A P (snd (handle_message now p n))"
    using relay_message_emits [OF assms(2) t] by (simp add: handle_message_cases split: option.split)
  then show ?thesis using n t by (simp add: behaves_def fst_handle_message)
qed

lemma complaints_behave: "tame A U n \<Longrightarrow> behaves A U P n (n, complaints p n)"
  by (simp add: behaves_def complaints_def)

lemma handle_behaves:
  assumes "node_inv n" "tame A U n" "fresh_id rid" "fresh_id rid'" "sound A P p" "inbound_ok p"
    and "fst (handle now rid rid' p n) \<in> P"
  shows "behaves A U P n (handle now rid rid' p n)"
proof -
  define f where "f n = (if p_type p = type_hello then handle_hello now rid rid' p n
       else if p_type p = type_echo then handle_echo now rid p n
       else if p_type p = type_info then
         and_then (mark_alive now rid (previous_hop_id (fabric_of n) p) n)
           (on_alg (\<lambda>fab. alg_handle_info fab now rid' p))
       else if p_type p = type_message then handle_message now p n
       else (n, [Log (UnknownType (p_type p) (p_from p))]))" for n
  have h: "handle now rid rid' p n = and_then (n, complaints p n) f" unfolding handle_def node_previous_hop_eq f_def [abs_def] ..
  then have "fst (f n) \<in> P" using assms(7) by simp
  then have "behaves A U P n (f n)"
    using handle_hello_behaves [OF assms(1-5)] handle_echo_behaves [OF assms(1-3,5,6)] handle_info_behaves [OF assms(1-3,5)]
      handle_message_behaves [OF assms(2,5)] behaves_log [of A U P n n "[UnknownType (p_type p) (p_from p)]"] assms(2)
    unfolding f_def by (auto split: if_splits)
  then show ?thesis
    unfolding h by (intro behaves_then complaints_behave [OF assms(2)]) simp
qed

lemma send_emits:
  assumes "tame A U n" "fresh_id rid" "utf8_valid txt" "utf8_valid (node_address n dest)"
  shows "emits A P (snd (node_send now rid dest txt n))"
proof -
  let ?p0 = "new_text rid (alg_proto (nd_alg n)) type_message (nd_addr n) (node_address n dest) txt"
  define p where "p = set_header header_via (GStr (nd_addr n)) (append_trace (nd_addr n) ?p0)"
  have a: "nd_addr n \<in> A" "utf8_valid (nd_addr n)" using assms(1) by (auto simp: tame_def)
  note own = own_new_text [OF _ _ alg_proto_utf8 message_utf8(1) a(2) assms(4,3), of rid "nd_alg n"]
  have "p_version ?p0 = version" by (simp add: new_text_def set_payload_text_def set_header_def new_packet_def)
  then have "base_sound A P ?p0"
    using own assms(2) a(1) by (simp add: base_sound_def fresh_id_def readable_def default_ttl_def)
  then have s: "sound A P p" unfolding p_def by (intro sound_via append_trace_sound a)
  then have c: "clone p = p" by (intro own_clone) (simp add: sound_def base_sound_def)
  obtain hops es where f: "alg_forward (fabric_of n) p (nd_alg n) = (hops, es)" by fastforce
  obtain ls where ls: "es = map Log ls" using forward_events [of "fabric_of n" p "nd_alg n"] f by auto
  have "emits A P (send_copies p hops)" using s c by (induction hops) (simp_all add: send_copies_def)
  then show ?thesis
    using emits_simps(6) [of A P "\<lambda>x. x" ls]
    by (simp add: node_send_def p_def [symmetric] Let_def fabric_of_seen f ls)
qed

lemma send_behaves:
  assumes "tame A U n" "fresh_id rid" "utf8_valid txt" "utf8_valid (node_address n dest)"
    and "node_send now rid dest txt n = ((e, n'), out)"
  shows "behaves A U P n (n', out)"
proof -
  have "same_place n n' \<and> nd_neighbors n' = nd_neighbors n \<and> nd_inbox n' = nd_inbox n"
    using assms(5) by (auto simp: node_send_def Let_def same_place_def split: if_splits prod.splits)
  then show ?thesis
    using send_emits [OF assms(1-4), of P now] assms(1,5) tame_cong [of n n'] by (simp add: behaves_def)
qed

lemma ticker_behaves:
  assumes "node_inv n" "tame A U n" "n \<in> P" "fresh_id rid"
  shows "behaves A U P n (on_alg (\<lambda>fab. alg_refresh fab now rid) n)"
    and "behaves A U P n (on_alg (\<lambda>fab. alg_sweep fab now) n)"
proof -
  have "speaking A U P n n rid" using assms by (simp add: speaking_def)
  then show "behaves A U P n (on_alg (\<lambda>fab. alg_refresh fab now rid) n)"
    using refresh_emits links_live_inv [OF assms(1)] assms(2) by (simp add: behaves_def snd_on_alg)
  have "emits A P (snd (lsr_sweep fab now s))" for fab s
    by (auto simp: lsr_sweep_def expire_def report_asymmetries_def Let_def emits_def case_prod_unfold)
  then have "emits A P (snd (alg_sweep fab now a))" for fab a by (cases a) simp_all
  then show "behaves A U P n (on_alg (\<lambda>fab. alg_sweep fab now) n)" using assms(2) by (simp add: behaves_def snd_on_alg)
qed

end
