(* ===== verification/Net_World.thy ===== *)
theory Net_World
  imports Net_Closed
begin

text \<open>
  A network of nodes. The state is the nodes by identifier and the lines ever written to a
  connection; a step is one operation of one node, or one line read by the node that listens at
  the address it was sent to. A line may be read never, once or again, and lines may overtake
  each other, so what is shown holds however the connections lose, repeat or delay them.
  The nodes have been configured with one plan of names and addresses.
\<close>

section \<open>The network and its steps\<close>

text \<open>\<open>w_past\<close> collects the states the nodes have been in; no step reads it.\<close>

record world =
  w_nodes :: "(string, node) gomap"
  w_wire :: "(string \<times> string) list"
  w_past :: "node list"

text \<open>
  What \<open>SendTo\<close> and the client make of the sends of a step: a line for the address of the
  neighbour, if it has one and the packet can be encoded.
\<close>

definition wire_out :: "node \<Rightarrow> event list \<Rightarrow> (string \<times> string) list" where
  "wire_out n out = concat (map (\<lambda>(nb, q).
     case node_send_to n nb q of None \<Rightarrow> []
     | Some (a, q) \<Rightarrow> (case encode q of None \<Rightarrow> [] | Some data \<Rightarrow> [(a, data)])) (sends out))"

text \<open>
  The steps a node takes of its own: the identifiers it draws are fresh text, its clock is
  within range, and what its user types is text.
\<close>

inductive node_works :: "node \<Rightarrow> event list \<Rightarrow> node \<Rightarrow> bool" where
  works_probe: "clock_ok now \<Longrightarrow> \<forall>nb. fresh_id (ids nb) \<Longrightarrow> discovery_start now ids n = (n', out) \<Longrightarrow> node_works n out n'"
| works_forward: "fresh_id rid \<Longrightarrow> fresh_id rid' \<Longrightarrow> forwarding_turn now rid rid' n = Some (n', out) \<Longrightarrow> node_works n out n'"
| works_tick: "clock_ok now \<Longrightarrow> \<forall>nb. fresh_id (ids nb) \<Longrightarrow> \<forall>nb. fresh_id (ids' nb) \<Longrightarrow>
    discovery_tick now started ids ids' n = (n', out) \<Longrightarrow> node_works n out n'"
| works_send: "fresh_id rid \<Longrightarrow> utf8_valid txt \<Longrightarrow> utf8_valid (node_address n dest) \<Longrightarrow>
    node_send now rid dest txt n = ((e, n'), out) \<Longrightarrow> node_works n out n'"
| works_refresh: "fresh_id rid \<Longrightarrow> on_alg (\<lambda>fab. alg_refresh fab now rid) n = (n', out) \<Longrightarrow> node_works n out n'"
| works_sweep: "on_alg (\<lambda>fab. alg_sweep fab now) n = (n', out) \<Longrightarrow> node_works n out n'"

definition settle :: "string \<Rightarrow> node \<Rightarrow> event list \<Rightarrow> world \<Rightarrow> world" where
  "settle u n out w =
     w\<lparr>w_nodes := mput u n (w_nodes w), w_wire := wire_out n out @ w_wire w, w_past := n # w_past w\<rparr>"

inductive world_step :: "world \<Rightarrow> world \<Rightarrow> bool" where
  line_read: "(nd_addr n, data) \<in> set (w_wire w) \<Longrightarrow> mget (w_nodes w) u = Some n \<Longrightarrow> decode data = Some p \<Longrightarrow>
    receive p n = (n', out) \<Longrightarrow> world_step w (settle u n' out w)"
| node_works: "mget (w_nodes w) u = Some n \<Longrightarrow> node_works n out n' \<Longrightarrow> world_step w (settle u n' out w)"

text \<open>One plan: every node translates every node's address into its identifier and back.\<close>

definition agreed :: "(string, node) gomap \<Rightarrow> bool" where
  "agreed ns \<longleftrightarrow> list_all (\<lambda>(u, n).
     u \<noteq> [] \<and> utf8_valid (nd_addr n) \<and> nd_addr n \<noteq> [] \<and>
     list_all (\<lambda>(v, m). node_local_id n (nd_addr m) = v \<and> node_address n v = nd_addr m) ns \<and>
     list_all (\<lambda>(v, st). utf8_valid (node_address n v)) (nd_neighbors n)) ns"

definition boot_node :: "options \<Rightarrow> (string \<times> node) option" where
  "boot_node opts = (case new_node opts of Inl e \<Rightarrow> None | Inr n \<Rightarrow> Some (o_id opts, node_start n))"

inductive world_reaches :: "(string, node) gomap \<Rightarrow> world \<Rightarrow> bool" where
  world_new: "\<forall>opts \<in> set os. topology_ok (o_topology opts) \<Longrightarrow> map boot_node os = map Some ns \<Longrightarrow>
    wf_map ns \<Longrightarrow> agreed ns \<Longrightarrow> world_reaches ns \<lparr>w_nodes = ns, w_wire = [], w_past = map snd ns\<rparr>"
| world_next: "world_reaches ns w \<Longrightarrow> world_step w w' \<Longrightarrow> world_reaches ns w'"

section \<open>What the databases hold\<close>

text \<open>Every link of an announcement of \<open>v\<close> was live at \<open>v\<close>, at that cost, all at one moment.\<close>

definition vouched :: "node set \<Rightarrow> string \<Rightarrow> (string, float64) gomap \<Rightarrow> bool" where
  "vouched P v nbrs \<longleftrightarrow> (\<exists>m \<in> P. nd_id m = v \<and> (\<forall>x c. mget nbrs x = Some c \<longrightarrow> live_cost m x = Some c))"

fun db_true :: "node set \<Rightarrow> any_alg \<Rightarrow> bool" where
  "db_true P (IsLsr s) = (\<forall>(v, e) \<in> set (ls_lsdb s). vouched P v (an_neighbors (le_entry e)))"
| "db_true P a = True"

definition translates :: "node set \<Rightarrow> (string \<Rightarrow> string) \<Rightarrow> bool" where
  "translates P loc \<longleftrightarrow>
     (\<forall>m \<in> P. loc (nd_addr m) = nd_id m \<and> (\<forall>v. live_cost m v \<noteq> None \<longrightarrow> loc (node_address m v) = v))"

lemma db_true_mono: "P \<subseteq> Q \<Longrightarrow> db_true P a \<Longrightarrow> db_true Q a"
  by (cases a) (fastforce simp: vouched_def)+

lemma sound_insert: "sound A P p \<Longrightarrow> sound A (insert m P) p"
  by (rule sound_mono [OF subset_insertI])

lemma db_true_insert: "db_true P a \<Longrightarrow> db_true (insert m P) a"
  by (rule db_true_mono [OF subset_insertI])

lemma resolve_origin:
  "mget (resolve_neighbors fab es) x = Some c \<Longrightarrow> \<exists>e \<in> set es. fb_local_id fab (ne_id e) = x \<and> ne_weight e = c"
proof -
  have "mget (foldl (\<lambda>m e. mput (fb_local_id fab (ne_id e)) (ne_weight e) m) out es) x = Some c \<Longrightarrow>
      mget out x = Some c \<or> (\<exists>e \<in> set es. fb_local_id fab (ne_id e) = x \<and> ne_weight e = c)" for out
  proof (induction es arbitrary: out)
    case (Cons e es)
    from Cons.IH [of "mput (fb_local_id fab (ne_id e)) (ne_weight e) out"] Cons.prems
    have "mget (mput (fb_local_id fab (ne_id e)) (ne_weight e) out) x = Some c \<or>
        (\<exists>e \<in> set es. fb_local_id fab (ne_id e) = x \<and> ne_weight e = c)" by simp
    then show ?case by (cases "x = fb_local_id fab (ne_id e)") auto
  qed simp
  from this [of "[]"] show "mget (resolve_neighbors fab es) x = Some c \<Longrightarrow> ?thesis" by (simp add: resolve_neighbors_def)
qed

lemma db_true_entries:
  "db_true P (IsLsr s) \<Longrightarrow> set (map (\<lambda>(o', e). (o', le_entry e)) (ls_lsdb s')) \<subseteq> set (map (\<lambda>(o', e). (o', le_entry e)) (ls_lsdb s)) \<Longrightarrow>
   db_true P (IsLsr s')"
  by (force simp: subset_iff)

text \<open>Each operation keeps the databases true; only a received announcement adds to one.\<close>

lemma learned_true:
  assumes "db_true P (IsLsr s)" "readable P p" "p_type p = type_info" "translates P (fb_local_id fab)"
    and "decode_lsp (p_payload p) = Some l" "ls_lsdb s' = ls_lsdb s"
  shows "db_true P (IsLsr (fst (lsr_learn fab now p l s')))"
proof -
  have kinds: "type_info \<noteq> type_hello" "type_info \<noteq> type_echo" "type_info \<noteq> type_message" by code_simp+
  obtain m where m: "m \<in> P" "speaks m l" using assms(2,3,5) kinds by (auto simp: readable_def)
  let ?u = "fb_local_id fab (lsp_origin l)" and ?nbrs = "resolve_neighbors fab (lsp_neighbors l)"
  have u: "?u = nd_id m" using m assms(4) by (auto simp: speaks_def translates_def)
  have live: "live_cost m x = Some c" if x: "mget ?nbrs x = Some c" for x c
  proof -
    obtain e where e: "e \<in> set (lsp_neighbors l)" "fb_local_id fab (ne_id e) = x" "ne_weight e = c"
      using resolve_origin [OF x] by blast
    then obtain v where "live_cost m v = Some c" "ne_id e = node_address m v" using m(2) by (auto simp: speaks_def)
    moreover from this have "fb_local_id fab (node_address m v) = v" using m(1) assms(4) by (auto simp: translates_def)
    ultimately show ?thesis using e(2) by simp
  qed
  then have v: "vouched P ?u ?nbrs" unfolding vouched_def using m(1) u live by (intro bexI [of _ m]) auto
  have old: "db_true P (IsLsr s')" using assms(1,6) by simp
  have "(x, e) \<in> set (mput k y mm) \<Longrightarrow> (x, e) \<in> set mm \<or> (x, e) = (k, y)" for x e k and y :: lsdb_entry and mm
    by (induction mm) (auto split: if_splits)
  then have "db_true P (IsLsr (snd (store now ?u (lsp_seq l) ?nbrs s')))"
    using old v by (fastforce simp: store_def Let_def dest: mget_SomeD split: option.splits)
  then have "db_true P (IsLsr (lsr_recompute self (snd (store now ?u (lsp_seq l) ?nbrs s'))))" for self by simp
  then show ?thesis
    using old \<open>db_true P (IsLsr (snd (store now ?u (lsp_seq l) ?nbrs s')))\<close>
    by (simp add: lsr_learn_def Let_def case_prod_beta)
qed

lemma info_true:
  assumes "db_true P a" "readable P p" "p_type p = type_info" "translates P (fb_local_id fab)"
  shows "db_true P (fst (alg_handle_info fab now rid p a))"
proof (cases a)
  case (IsLsr s)
  have "db_true P (IsLsr (fst (lsr_handle_info fab now rid p s)))"
    using assms(1) learned_true [OF assms(1) [unfolded IsLsr] assms(2-4)]
    unfolding fst_handle_info by (auto simp: IsLsr Let_def simp del: db_true.simps split: option.split) simp_all
  then show ?thesis by (simp add: IsLsr lsr_ops_def)
qed (simp_all add: dijkstra_ops_def flooding_ops_def dj_handle_info_def flooding_handle_info_def)

lemma link_events_true:
  "db_true P (fst (alg_link_up fab now rid nb c a)) = db_true P a"
  "db_true P (fst (alg_link_down fab now rid nb a)) = db_true P a"
  "db_true P (fst (alg_refresh fab now rid a)) = db_true P a"
  by (cases a; simp add: dijkstra_ops_def flooding_ops_def lsr_ops_def fst_link_up fst_link_down Let_def lsr_refresh_def)+

lemma sweep_true: "db_true P a \<Longrightarrow> db_true P (fst (alg_sweep fab now a))"
  by (cases a) (auto simp: fst_sweep fst_report expire_def Let_def)

lemma marks_true:
  "db_true P (nd_alg n) \<Longrightarrow> db_true P (nd_alg (fst (mark_alive now rid nb n)))"
  "db_true P (nd_alg n) \<Longrightarrow> db_true P (nd_alg (fst (mark_alive_with_cost now rid nb c n)))"
  by (simp_all add: mark_alive_def mark_alive_with_cost_def Let_def link_events_true)

lemma handle_true:
  assumes "db_true P (nd_alg n)" "sound A P p" "translates P (node_local_id n)"
  shows "db_true P (nd_alg (fst (handle now rid rid' p n)))"
proof -
  let ?n = "fst (mark_alive now rid (previous_hop_id (fabric_of n) p) n)"
  have "same_place n ?n" by (simp add: mark_alive_def Let_def same_place_def)
  then have "translates P (fb_local_id (fabric_of ?n))" using assms(3) same_place_names by simp
  moreover have "readable P p" using assms(2) by (simp add: sound_def base_sound_def)
  ultimately have "db_true P (fst (alg_handle_info (fabric_of ?n) now rid' p (nd_alg ?n)))" if "p_type p = type_info"
    using info_true [OF marks_true(1) [OF assms(1)]] that by blast
  moreover have "db_true P (nd_alg (fst (handle_hello now rid rid' p n)))"
    using marks_true(1) [OF assms(1)] by (simp add: handle_hello_def Let_def split: option.split)
  ultimately show ?thesis
    using assms(1) marks_true(2) [OF assms(1)] by (simp add: handle_def handle_echo_def fst_handle_message)
qed

lemma reap_true: "db_true P (nd_alg n) \<Longrightarrow> db_true P (nd_alg (fst (reap_dead now ids n)))"
proof -
  have "db_true P (nd_alg k) \<Longrightarrow> db_true P (nd_alg (fst (reap_notify now ids dead k)))" for k dead
    by (induction dead arbitrary: k) (simp_all add: link_events_true)
  then show "db_true P (nd_alg n) \<Longrightarrow> ?thesis" by (simp add: reap_dead_def reap_mark_def)
qed

lemma tick_true: "db_true P (nd_alg n) \<Longrightarrow> db_true P (nd_alg (fst (discovery_tick now started ids ids' n)))"
  using reap_true by (simp add: discovery_tick_def probe_all_def warn_silent_neighbors_def)

section \<open>The invariant of the network\<close>

abbreviation addresses :: "(string, node) gomap \<Rightarrow> string set" where
  "addresses ns \<equiv> nd_addr ` snd ` set ns"

abbreviation members :: "(string, node) gomap \<Rightarrow> string set" where
  "members ns \<equiv> fst ` set ns"

definition placed :: "(string, node) gomap \<Rightarrow> node \<Rightarrow> bool" where
  "placed ns n \<longleftrightarrow> (\<exists>n0. mget ns (nd_id n) = Some n0 \<and> same_place n0 n) \<and> tame (addresses ns) (members ns) n"

definition settled :: "(string, node) gomap \<Rightarrow> node set \<Rightarrow> node \<Rightarrow> bool" where
  "settled ns P n \<longleftrightarrow> placed ns n \<and> node_inv n \<and> list_all (sound (addresses ns) P) (nd_inbox n) \<and> db_true P (nd_alg n)"

definition world_inv :: "(string, node) gomap \<Rightarrow> world \<Rightarrow> bool" where
  "world_inv ns w \<longleftrightarrow>
     (\<forall>u n. mget (w_nodes w) u = Some n \<longrightarrow>
        nd_id n = u \<and> n \<in> set (w_past w) \<and> settled ns (set (w_past w)) n) \<and>
     (\<forall>(a, data) \<in> set (w_wire w). \<exists>q. sound (addresses ns) (set (w_past w)) q \<and> encode q = Some data) \<and>
     (\<forall>m \<in> set (w_past w). placed ns m)"

lemma agreedD:
  assumes "agreed ns" "(u, n) \<in> set ns"
  shows "u \<noteq> []" "utf8_valid (nd_addr n)" "nd_addr n \<noteq> []"
    and "(v, m) \<in> set ns \<Longrightarrow> node_local_id n (nd_addr m) = v \<and> node_address n v = nd_addr m"
    and "(v, st) \<in> set (nd_neighbors n) \<Longrightarrow> utf8_valid (node_address n v)"
  using assms unfolding agreed_def list_all_iff by auto

lemma settled_mono: "P \<subseteq> Q \<Longrightarrow> settled ns P n \<Longrightarrow> settled ns Q n"
  using db_true_mono sound_mono by (auto simp: settled_def list_all_iff)

lemma agreed_names:
  assumes "agreed ns" "placed ns n" "placed ns m"
  shows "node_local_id n (nd_addr m) = nd_id m"
proof -
  obtain n0 m0 where p: "mget ns (nd_id n) = Some n0" "same_place n0 n" "mget ns (nd_id m) = Some m0" "same_place m0 m"
    using assms(2,3) by (auto simp: placed_def)
  then have "(nd_id n, n0) \<in> set ns" "(nd_id m, m0) \<in> set ns" by (auto dest: mget_SomeD)
  with assms(1) have "node_local_id n0 (nd_addr m0) = nd_id m" by (auto simp: agreed_def list_all_iff)
  then show ?thesis using same_place_names [OF p(2)] p(4) by (simp add: same_place_def)
qed

lemma agreed_addresses:
  assumes "agreed ns" "placed ns n" "v \<in> members ns"
  shows "\<exists>m0. (v, m0) \<in> set ns \<and> node_address n v = nd_addr m0"
proof -
  obtain n0 m0 where p: "mget ns (nd_id n) = Some n0" "same_place n0 n" "(v, m0) \<in> set ns"
    using assms(2,3) by (auto simp: placed_def)
  then have "(nd_id n, n0) \<in> set ns" by (auto dest: mget_SomeD)
  with assms(1) p(3) have "node_address n0 v = nd_addr m0" by (auto simp: agreed_def list_all_iff)
  then show ?thesis using same_place_names [OF p(2)] p(3) by auto
qed

lemma placed_translates:
  assumes "agreed ns" "placed ns n" "\<forall>m \<in> P. placed ns m"
  shows "translates P (node_local_id n)"
  unfolding translates_def
proof (intro ballI conjI allI impI)
  fix m v assume m: "m \<in> P"
  show "node_local_id n (nd_addr m) = nd_id m" using agreed_names [OF assms(1,2)] assms(3) m by blast
  assume "live_cost m v \<noteq> None"
  then have "v \<in> members ns" using m assms(3) tame_live by (auto simp: placed_def)
  with m assms(1,3) obtain m0 where m0: "(v, m0) \<in> set ns" "node_address m v = nd_addr m0" using agreed_addresses by blast
  obtain n0 where n0: "mget ns (nd_id n) = Some n0" "same_place n0 n" using assms(2) by (auto simp: placed_def)
  then have "(nd_id n, n0) \<in> set ns" by (auto dest: mget_SomeD)
  with assms(1) m0(1) have "node_local_id n0 (nd_addr m0) = v" by (auto simp: agreed_def list_all_iff)
  then show "node_local_id n (node_address m v) = v" using same_place_names [OF n0(2)] m0(2) by simp
qed

lemma wire_out_sound: "emits A P out \<Longrightarrow> (a, data) \<in> set (wire_out n out) \<Longrightarrow> \<exists>q. sound A P q \<and> encode q = Some data"
  by (fastforce simp: wire_out_def emits_def node_send_to_def split: option.splits)

lemma settle_inv:
  assumes "world_inv ns w" and "mget (w_nodes w) u = Some n" and "same_place n n'" "tame (addresses ns) (members ns) n'"
    and "node_inv n'" and "P' = insert n' (set (w_past w))" and "emits (addresses ns) P' out"
    and "list_all (sound (addresses ns) P') (nd_inbox n')" "db_true P' (nd_alg n')"
  shows "world_inv ns (settle u n' out w)"
proof -
  have past: "set (w_past (settle u n' out w)) = P'" by (simp add: settle_def assms(6))
  have n: "nd_id n = u" "placed ns n" using assms(1,2) by (auto simp: world_inv_def settled_def)
  then have p: "placed ns n'" "nd_id n' = u" using assms(3,4) same_place_trans by (auto simp: placed_def same_place_def)
  have s: "settled ns P' n'" using p assms(5,8,9) by (simp add: settled_def)
  have old: "nd_id k = v \<and> k \<in> P' \<and> settled ns P' k" if "mget (w_nodes w) v = Some k" for v k
    using assms(1) that settled_mono [of "set (w_past w)" P' ns k] by (auto simp: world_inv_def assms(6))
  have "\<exists>q. sound (addresses ns) P' q \<and> encode q = Some data" if "(a, data) \<in> set (w_wire (settle u n' out w))" for a data
  proof (cases "(a, data) \<in> set (wire_out n' out)")
    case True
    then show ?thesis by (rule wire_out_sound [OF assms(7)])
  next
    case False
    then have "(a, data) \<in> set (w_wire w)" using that by (simp add: settle_def)
    then obtain q where "sound (addresses ns) (set (w_past w)) q" "encode q = Some data"
      using assms(1) unfolding world_inv_def by fast
    then show ?thesis using sound_mono [of "set (w_past w)" P'] by (auto simp: assms(6))
  qed
  moreover have "nd_id k = v \<and> k \<in> P' \<and> settled ns P' k" if "mget (w_nodes (settle u n' out w)) v = Some k" for v k
    using that s p(2) old by (auto simp: settle_def assms(6) split: if_splits)
  moreover have "\<forall>m \<in> P'. placed ns m" using assms(1) p(1) by (auto simp: assms(6) world_inv_def)
  ultimately show ?thesis unfolding world_inv_def past by fast
qed

lemma boot_node_facts:
  assumes "boot_node opts = Some (u, n)" "topology_ok (o_topology opts)"
  shows "nd_id n = u \<and> node_reaches n \<and> nd_inbox n = [] \<and> (\<forall>(v, st) \<in> set (nd_neighbors n). \<not> nb_alive st) \<and> db_true P (nd_alg n)"
proof -
  obtain k where k: "new_node opts = Inr k" "u = o_id opts" "n = node_start k"
    using assms(1) by (auto simp: boot_node_def split: sum.splits)
  have "node_reaches n" unfolding k(3) by (rule node_new [OF assms(2) k(1)])
  moreover from k(1) obtain x where a: "alg_of_mode (o_mode opts) (o_topology opts) = Some x"
    and f: "nd_alg k = x" "nd_id k = o_id opts" "nd_inbox k = []"
      "nd_neighbors k = map (\<lambda>(v, c). (v, \<lparr>nb_alive = False, nb_cost = c, nb_last = zero_time\<rparr>)) (topo_neighbors (o_topology opts) (o_id opts))"
    by (auto simp: new_node_def Let_def split: option.splits)
  then have "\<forall>(v, st) \<in> set (nd_neighbors k). \<not> nb_alive st" by auto
  moreover have "alg_of_mode md t = Some x \<Longrightarrow> db_true P (alg_start i x)" for md t x i
    by (auto simp: alg_of_mode_def new_lsr_def split: if_splits)
  from this [OF a] have "db_true P (alg_start i (nd_alg k))" for i by (simp add: f(1))
  ultimately show ?thesis using f(2,3) by (simp add: k(2,3) node_start_def)
qed

lemma world_new_inv:
  assumes "\<forall>opts \<in> set os. topology_ok (o_topology opts)" "map boot_node os = map Some ns" "wf_map ns" "agreed ns"
  shows "world_inv ns \<lparr>w_nodes = ns, w_wire = [], w_past = map snd ns\<rparr>"
proof -
  have facts: "nd_id n = u \<and> node_inv n \<and> nd_inbox n = [] \<and> (\<forall>(v, st) \<in> set (nd_neighbors n). \<not> nb_alive st) \<and>
      db_true P (nd_alg n) \<and> placed ns n" if m: "(u, n) \<in> set ns" for u n P
  proof -
    have "Some (u, n) \<in> boot_node ` set os" using m assms(2) by (metis imageI set_map)
    then obtain opts where "opts \<in> set os" "boot_node opts = Some (u, n)" by auto
    then have f: "nd_id n = u" "node_reaches n" "nd_inbox n = []" "\<forall>(v, st) \<in> set (nd_neighbors n). \<not> nb_alive st" "db_true P (nd_alg n)"
      using boot_node_facts [of opts u n P] assms(1) by auto
    have "tame (addresses ns) (members ns) n"
    proof -
      have a: "utf8_valid a \<and> node_local_id n a \<in> members ns" if aa: "a \<in> addresses ns" for a
      proof -
        obtain v k where k: "(v, k) \<in> set ns" "a = nd_addr k" using aa by auto
        have "v \<in> members ns" using k(1) by force
        then show ?thesis using agreedD(2) [OF assms(4) k(1)] agreedD(4) [OF assms(4) m k(1)] k(2) by simp
      qed
      have b: "utf8_valid (node_address n v) \<and> node_address n v \<noteq> []" if v: "v \<in> members ns" for v
      proof -
        obtain k where "(v, k) \<in> set ns" using v by auto
        then show ?thesis using agreedD(2,3) [OF assms(4)] agreedD(4) [OF assms(4) m] by auto
      qed
      have c: "utf8_valid (node_address n v) \<and> (nb_alive st \<longrightarrow> v \<in> members ns)" if "(v, st) \<in> set (nd_neighbors n)" for v st
        using agreedD(5) [OF assms(4) m that] f(4) that by auto
      have "nd_addr n \<in> addresses ns" using m by force
      then show ?thesis using a b c unfolding tame_def by blast
    qed
    moreover have "mget ns u = Some n" using m by (simp add: mget_iff [OF assms(3)])
    ultimately have "placed ns n" using f(1) by (auto simp: placed_def)
    then show ?thesis using f node_reaches_inv [OF f(2)] by blast
  qed
  then have "settled ns P n \<and> nd_id n = u \<and> placed ns n" if "(u, n) \<in> set ns" for u n P
    using facts [OF that, of P] by (simp add: settled_def)
  then show ?thesis
    unfolding world_inv_def by (simp add: image_iff) (metis mget_SomeD prod.collapse snd_conv)
qed

lemma world_step_inv:
  assumes "world_step w w'" "world_inv ns w" "agreed ns"
  shows "world_inv ns w'"
  using assms(1)
proof cases
  case (line_read n data u p n' out)
  let ?P = "set (w_past w)" and ?P' = "insert n' (set (w_past w))"
  have n: "settled ns ?P n" using assms(2) line_read(3) by (auto simp: world_inv_def)
  have "\<exists>q. sound (addresses ns) ?P q \<and> encode q = Some data"
    using assms(2) line_read(2) unfolding world_inv_def by fast
  then obtain q where q: "sound (addresses ns) ?P q" "encode q = Some data" by blast
  then have p: "p = received q" using sound_wire [OF q(1)] line_read(4) by auto
  have sp: "sound (addresses ns) ?P' p" unfolding p by (rule sound_insert [OF sound_received [OF q(1)]])
  have n': "n' = n \<or> n' = n\<lparr>nd_inbox := nd_inbox n @ [p]\<rparr>" and out: "emits (addresses ns) ?P' out"
    using line_read(5) by (auto simp: receive_def split: if_splits)
  have place: "same_place n n'" "nd_neighbors n' = nd_neighbors n" "nd_alg n' = nd_alg n" using n' by (auto simp: same_place_def)
  have "node_inv n'" using receive_inv [of n p] n decoded_inbound [OF line_read(4)] line_read(5) by (simp add: settled_def)
  moreover have "list_all (sound (addresses ns) ?P') (nd_inbox n')"
    using n n' sp sound_insert by (auto simp: settled_def list_all_iff)
  moreover have "db_true ?P' (nd_alg n')" using n db_true_insert unfolding place(3) settled_def by blast
  moreover have "tame (addresses ns) (members ns) n'" using n tame_cong [OF place(1,2)] by (simp add: settled_def placed_def)
  ultimately show ?thesis unfolding line_read(1)
    using settle_inv [OF assms(2) line_read(3) place(1)] out by blast
next
  case (node_works u n out n')
  let ?P = "set (w_past w)" and ?P' = "insert n' (set (w_past w))"
  have n: "settled ns ?P n" "n \<in> ?P" using assms(2) node_works(2) by (auto simp: world_inv_def)
  then have i: "node_inv n" and t: "tame (addresses ns) (members ns) n" and inb: "list_all (sound (addresses ns) ?P') (nd_inbox n)"
    and d: "db_true ?P' (nd_alg n)" and nP: "n \<in> ?P'" and pl: "placed ns n"
    using sound_insert db_true_insert unfolding settled_def placed_def list_all_iff by blast+
  have "behaves (addresses ns) (members ns) ?P' n (n', out) \<and> node_inv n' \<and> db_true ?P' (nd_alg n') \<or>
      (\<exists>p ps. nd_inbox n = p # ps \<and> behaves (addresses ns) (members ns) ?P' (n\<lparr>nd_inbox := ps\<rparr>) (n', out) \<and>
        node_inv n' \<and> db_true ?P' (nd_alg n'))"
    using node_works(3)
  proof cases
    case (works_probe now ids)
    then show ?thesis using probe_all_behaves [OF t, of ids now ?P'] i d
      by (auto simp: discovery_start_def probe_all_def)
  next
    case (works_tick now ids ids' started)
    have "behaves (addresses ns) (members ns) ?P' n (discovery_tick now started ids ids' n)"
      using tick_behaves [OF i t nP] works_tick(1-3) by blast
    then show ?thesis
      using tick_inv [OF i, of now started ids "ids'"] tick_true [OF d, of now started ids "ids'"] unfolding works_tick(4) by simp
  next
    case (works_send rid msg dest now e)
    have "node_inv n'" using send_inv [OF i, of now rid dest msg] works_send(4) by simp
    moreover have "nd_alg n' = nd_alg n"
      using works_send(4) by (auto simp: node_send_def Let_def split: if_splits prod.splits)
    ultimately show ?thesis using send_behaves [OF t works_send] d by simp
  next
    case (works_refresh rid now)
    then have r: "n' = fst (on_alg (\<lambda>fab. alg_refresh fab now rid) n)" "out = snd (on_alg (\<lambda>fab. alg_refresh fab now rid) n)" by simp_all
    have "node_inv n'" unfolding r by (rule alg_step_inv [OF i on_file_other(2) alg_inv_other(1)])
    then show ?thesis using ticker_behaves(1) [OF i t nP works_refresh(1)] d by (simp add: r link_events_true)
  next
    case (works_sweep now)
    then have r: "n' = fst (on_alg (\<lambda>fab. alg_sweep fab now) n)" "out = snd (on_alg (\<lambda>fab. alg_sweep fab now) n)" by simp_all
    have "fresh_id ''0''" by code_simp
    moreover have "node_inv n'" unfolding r by (rule alg_step_inv [OF i on_file_other(3) alg_inv_other(2)])
    ultimately show ?thesis using ticker_behaves(2) [OF i t nP] sweep_true [OF d] by (simp add: r)
  next
    case (works_forward rid rid' now)
    then obtain p ps where p: "nd_inbox n = p # ps" and h: "handle now rid rid' p (n\<lparr>nd_inbox := ps\<rparr>) = (n', out)"
      by (auto simp: forwarding_turn_def split: list.splits)
    let ?n = "n\<lparr>nd_inbox := ps\<rparr>"
    have "node_inv ?n" using i p live_cost_cong [of ?n n] by (simp add: node_inv_def neighbors_ok_def)
    moreover have pn: "same_place n ?n" "nd_neighbors ?n = nd_neighbors n" by (simp_all add: same_place_def)
    then have "tame (addresses ns) (members ns) ?n" using t tame_cong by blast
    moreover have sp: "sound (addresses ns) ?P' p" using inb p by simp
    moreover have "inbound_ok p" using i p by (simp add: node_inv_def)
    ultimately have "behaves (addresses ns) (members ns) ?P' ?n (n', out)"
      using handle_behaves [of ?n _ _ rid rid' ?P' p now] works_forward(1,2) h by simp
    moreover have "\<forall>m \<in> ?P'. placed ns m"
    proof -
      have "placed ns n'" using \<open>behaves (addresses ns) (members ns) ?P' ?n (n', out)\<close> pl same_place_trans [of _ n n']
        by (auto simp: placed_def behaves_def same_place_def)
      then show ?thesis using assms(2) by (auto simp: world_inv_def)
    qed
    then have "translates ?P' (node_local_id n)" by (rule placed_translates [OF assms(3) pl])
    then have "translates ?P' (node_local_id ?n)" using same_place_names [OF pn(1)] by simp
    with d sp have "db_true ?P' (nd_alg n')" using handle_true [of ?P' ?n _ p now rid rid'] h by simp
    moreover have "node_inv n'" by (rule turn_inv [OF i works_forward(3)])
    ultimately show ?thesis using p by blast
  qed
  then have "same_place n n' \<and> tame (addresses ns) (members ns) n' \<and> emits (addresses ns) ?P' out \<and> node_inv n' \<and>
      list_all (sound (addresses ns) ?P') (nd_inbox n') \<and> db_true ?P' (nd_alg n')"
    using inb by (auto simp: behaves_def same_place_def)
  then show ?thesis unfolding node_works(1) using settle_inv [OF assms(2) node_works(2)] by blast
qed

lemma world_reaches_inv: "world_reaches ns w \<Longrightarrow> agreed ns \<and> world_inv ns w"
  by (induction rule: world_reaches.induct) (use world_new_inv world_step_inv in blast)+

section \<open>Properties\<close>

text \<open>
  C14: the network never complains about itself. Every line a node has written is read back by
  any of them as a packet of the protocol's version with a valid checksum, one to sixteen hops,
  an origin in the network, a known type and a readable payload, so none of the complaints
  about a bad packet is ever logged, however lines are lost, repeated or reordered.
\<close>

theorem own_traffic_accepted:
  assumes "world_reaches ns w" and "(a, data) \<in> set (w_wire w)"
  shows "\<exists>p. decode data = Some p \<and> p_version p = version \<and> checksum_valid p \<and> 0 < sint (p_ttl p) \<and> sint (p_ttl p) \<le> 16 \<and>
    p_from p \<in> addresses ns \<and> p_type p \<in> {type_hello, type_echo, type_info, type_message} \<and>
    (p_type p = type_info \<longrightarrow> decode_lsp (p_payload p) \<noteq> None) \<and>
    (p_type p = type_message \<longrightarrow> payload_text p \<noteq> None) \<and>
    (\<not> nd_verbose n \<longrightarrow> complaints p n = [])"
proof -
  let ?A = "addresses ns" and ?P = "set (w_past w)"
  obtain q where q: "sound ?A ?P q" "encode q = Some data"
    using world_reaches_inv [OF assms(1)] assms(2) unfolding world_inv_def by fast
  then have d: "decode data = Some (received q)" using sound_wire by fastforce
  have kinds: "type_info \<noteq> type_hello" "type_info \<noteq> type_echo" "type_info \<noteq> type_message"
    "type_message \<noteq> type_hello" "type_message \<noteq> type_echo" by code_simp+
  have s: "sound ?A ?P (received q)" by (rule sound_received [OF q(1)])
  then have "readable ?P (received q)" by (simp add: sound_def base_sound_def)
  with kinds have "p_type (received q) \<in> {type_hello, type_echo, type_info, type_message} \<and>
      (p_type (received q) = type_info \<longrightarrow> decode_lsp (p_payload (received q)) \<noteq> None) \<and>
      (p_type (received q) = type_message \<longrightarrow> payload_text (received q) \<noteq> None)"
    unfolding readable_def by auto
  with d s show ?thesis by (intro exI [of _ "received q"]) (simp add: sound_def base_sound_def complaints_def)
qed

text \<open>
  C8: the databases are truthful. Whatever a link-state node has on file as the announcement of
  another, that other is a node of the network, and at one moment of its past every link of the
  announcement was live at it at exactly that cost: nobody routes by a link its owner never had.
\<close>

theorem database_truthful:
  assumes "world_reaches ns w" and "mget (w_nodes w) u = Some n" and "nd_alg n = IsLsr s"
    and "mget (lsr_database s) v = Some a"
  shows "\<exists>m \<in> set (w_past w). nd_id m = v \<and> v \<in> members ns \<and>
    (\<forall>x c. mget (an_neighbors a) x = Some c \<longrightarrow> live_cost m x = Some c \<and> x \<in> members ns)"
proof -
  let ?P = "set (w_past w)"
  have inv: "world_inv ns w" using world_reaches_inv [OF assms(1)] by blast
  then have n: "settled ns ?P n" using assms(2) by (auto simp: world_inv_def)
  then have "lsr_inv (nd_id n) s" using assms(3) by (simp add: settled_def node_inv_def)
  then have "mget (lsr_database s) v = map_option le_entry (mget (ls_lsdb s) v)" by (rule mget_database)
  then obtain e where e: "mget (ls_lsdb s) v = Some e" "a = le_entry e" using assms(4) by (cases "mget (ls_lsdb s) v") auto
  then have "vouched ?P v (an_neighbors a)" using n assms(3) by (auto simp: settled_def dest!: mget_SomeD)
  then obtain m where m: "m \<in> ?P" "nd_id m = v" "\<forall>x c. mget (an_neighbors a) x = Some c \<longrightarrow> live_cost m x = Some c"
    unfolding vouched_def by blast
  then have p: "placed ns m" using inv by (auto simp: world_inv_def)
  then have "v \<in> members ns" using m(2) by (force simp: placed_def dest: mget_SomeD)
  moreover have "x \<in> members ns" if "live_cost m x = Some c" for x c using p tame_live that by (auto simp: placed_def)
  ultimately show ?thesis using m by blast
qed

text \<open>
  The witnesses: two nodes start, A probes B, B takes A for alive and announces its link, and A
  reads the announcement.
\<close>

definition pair_start :: "(string, node) gomap" where
  "pair_start = [(''A'', sample_node (IsLsr new_lsr) ''lsr''), (''B'', sample_b)]"

definition pair_world :: world where
  "pair_world = \<lparr>w_nodes = pair_start, w_wire = [], w_past = map snd pair_start\<rparr>"

lemma settle_simps [simp]:
  "mget (w_nodes (settle u n out w)) v = (if v = u then Some n else mget (w_nodes w) v)"
  "set (w_wire (settle u n out w)) = set (wire_out n out) \<union> set (w_wire w)"
  by (simp_all add: settle_def)

lemma wire_outI:
  "Send nb q \<in> set out \<Longrightarrow> endpoint (nd_names n) nb = Some a \<Longrightarrow> encode q = Some data \<Longrightarrow> (a, data) \<in> set (wire_out n out)"
proof -
  assume h: "Send nb q \<in> set out" "endpoint (nd_names n) nb = Some a" "encode q = Some data"
  have "(nb, q) \<in> set (sends out)" using h(1) by (induction out rule: sends.induct) auto
  with h(2,3) show ?thesis by (force simp: wire_out_def node_send_to_def)
qed

lemma pair_reached: "world_reaches pair_start pair_world"
proof -
  have "map boot_node [sample_options ''lsr'', (sample_options ''lsr'')\<lparr>o_id := ''B''\<rparr>] = map Some pair_start" by code_simp
  moreover have "\<forall>opts \<in> set [sample_options ''lsr'', (sample_options ''lsr'')\<lparr>o_id := ''B''\<rparr>]. topology_ok (o_topology opts)"
    using sample_topology_ok by (simp add: sample_options_def)
  moreover have "wf_map pair_start" "agreed pair_start" by code_simp+
  ultimately show ?thesis unfolding pair_world_def using world_new by blast
qed

text \<open>The hello reaches B.\<close>

lemma pair_hello:
  "\<exists>w data p. world_reaches pair_start w \<and> (''10.0.0.2:5000'', data) \<in> set (w_wire w) \<and> w_nodes w = w_nodes pair_world \<and>
     decode data = Some p \<and> p_type p = type_hello \<and> p_from p = ''10.0.0.1:5000''"
proof -
  let ?n = "sample_node (IsLsr new_lsr) ''lsr''" and ?ids = "\<lambda>nb :: string. ''0a''"
  have f: "fresh_id ''0a''" "clock_ok 0" "endpoint sample_names ''B'' = Some ''10.0.0.2:5000''" by code_simp+
  have t: "utf8_valid (nd_addr ?n)" "utf8_valid (node_address ?n ''B'')" "nd_addr ?n = ''10.0.0.1:5000''" by code_simp+
  have "is_finite (now_seconds 0)" using clock_error(1) [of 0] by simp
  with probe_sends [where ids = ?ids and nb = "''B''" and n = ?n and t = 0] f(1) t obtain q where
    q: "probe 0 ?ids ?n ''B'' = [Send ''B'' q]" "own_packet q" "p_ttl q = default_ttl" "p_type q = type_hello" "p_from q = ''10.0.0.1:5000''"
    unfolding fresh_id_def by auto
  have "\<not> int_le (p_ttl q) 0" by (simp add: q(3) default_ttl_def int_le_def)
  from own_received [OF q(2) this] obtain data where d: "encode q = Some data" "decode data = Some (received q)" by blast
  have start: "discovery_start 0 ?ids ?n = (?n, [Send ''B'' q])"
    by (simp add: discovery_start_def probe_all_def configured_neighbors_def q(1)) (simp add: sample_node_def q(1) [unfolded sample_node_def])
  have "mget (w_nodes pair_world) ''A'' = Some ?n" by (simp add: pair_world_def pair_start_def)
  from node_works [OF this works_probe [OF f(2) _ start]] f(1)
  have "world_step pair_world (settle ''A'' ?n [Send ''B'' q] pair_world)" by simp
  then have r: "world_reaches pair_start (settle ''A'' ?n [Send ''B'' q] pair_world)" by (rule world_next [OF pair_reached])
  have "endpoint (nd_names ?n) ''B'' = Some ''10.0.0.2:5000''" using f(3) by (simp add: sample_node_def)
  then have "(''10.0.0.2:5000'', data) \<in> set (wire_out ?n [Send ''B'' q])" using d(1) by (intro wire_outI) simp_all
  moreover have "w_nodes (settle ''A'' ?n [Send ''B'' q] pair_world) = w_nodes pair_world"
    by (simp add: settle_def pair_world_def pair_start_def)
  ultimately show ?thesis
    using r d(2) q(4,5) by (intro exI [of _ "settle ''A'' ?n [Send ''B'' q] pair_world"] exI [of _ data] exI [of _ "received q"])
      (simp add: received_fields)
qed

theorem own_traffic_accepted_witness:
  "\<exists>w data p. world_reaches pair_start w \<and> (''10.0.0.2:5000'', data) \<in> set (w_wire w) \<and> decode data = Some p \<and> checksum_valid p"
proof -
  obtain w data where w: "world_reaches pair_start w" "(''10.0.0.2:5000'', data) \<in> set (w_wire w)" using pair_hello by blast
  from own_traffic_accepted [OF w] obtain p where "decode data = Some p" "checksum_valid p" by blast
  with w show ?thesis by (intro exI [of _ w] exI [of _ data] exI [of _ p]) simp
qed

text \<open>B hears the hello, takes A for alive, and announces its link.\<close>

lemma handle_is_hello:
  "p_type p = type_hello \<Longrightarrow> fst (handle now rid rid' p n) = fst (mark_alive now rid (node_local_id n (p_from p)) n)"
  by (simp add: handle_def handle_hello_def Let_def split: option.split)

lemma pair_announced:
  "\<exists>w data p t. world_reaches pair_start w \<and> mget (w_nodes w) ''A'' = Some (sample_node (IsLsr new_lsr) ''lsr'') \<and>
     (''10.0.0.1:5000'', data) \<in> set (w_wire w) \<and> decode data = Some p \<and>
     nd_alg (fst (handle (2 * second) ''0e'' ''0f'' p (sample_node (IsLsr new_lsr) ''lsr''))) = IsLsr t \<and>
     map_option (\<lambda>a. mget (an_neighbors a) ''A'') (mget (lsr_database t) ''B'') = Some (Some (f64 1))"
proof -
  let ?A = "sample_node (IsLsr new_lsr) ''lsr''"
  obtain w0 d0 p0 where w0: "world_reaches pair_start w0" "(''10.0.0.2:5000'', d0) \<in> set (w_wire w0)" "w_nodes w0 = w_nodes pair_world"
    and p0: "decode d0 = Some p0" "p_type p0 = type_hello" "p_from p0 = ''10.0.0.1:5000''" using pair_hello by blast
  have nodes0: "mget (w_nodes w0) ''B'' = Some sample_b" "mget (w_nodes w0) ''A'' = Some ?A"
    by (simp_all add: w0(3) pair_world_def pair_start_def)
  have addr: "nd_addr sample_b = ''10.0.0.2:5000''" "nd_inbox sample_b = []" by (simp_all add: sample_b_def sample_node_def)
  define b1 where "b1 = sample_b\<lparr>nd_inbox := [p0]\<rparr>"
  have rc: "receive p0 sample_b = (b1, [])" by (simp add: receive_def addr(2) inbox_size_def b1_def)
  define w1 where "w1 = settle ''B'' b1 [] w0"
  have w1: "world_reaches pair_start w1"
    unfolding w1_def using world_next [OF w0(1) line_read [OF _ nodes0(1) p0(1) rc]] w0(2) addr(1) by simp
  have f: "fresh_id ''0b''" "fresh_id ''0c''" "fresh_id ''0d''" "fresh_id ''0e''" "fresh_id ''0f''" by code_simp+
  define b2 where "b2 = fst (handle second ''0b'' ''0c'' p0 sample_b)"
  have "b1\<lparr>nd_inbox := []\<rparr> = sample_b" by (simp add: b1_def) (simp add: sample_b_def sample_node_def)
  then have turn: "forwarding_turn second ''0b'' ''0c'' b1 = Some (b2, snd (handle second ''0b'' ''0c'' p0 sample_b))"
    by (simp add: forwarding_turn_def b1_def b2_def)
  define w2 where "w2 = settle ''B'' b2 (snd (handle second ''0b'' ''0c'' p0 sample_b)) w1"
  have "mget (w_nodes w1) ''B'' = Some b1" by (simp add: w1_def)
  from world_next [OF w1 node_works [OF this works_forward [OF f(1,2) turn]]] have w2: "world_reaches pair_start w2"
    by (simp add: w2_def)
  have src: "node_local_id sample_b (p_from p0) = ''A''" unfolding p0(3) by code_simp
  have nd: "nd_id sample_b = ''B''" "nd_names sample_b = sample_names"
    "nd_neighbors sample_b = [(''A'', \<lparr>nb_alive = False, nb_cost = f64 1, nb_last = zero_time\<rparr>)]"
    by (simp_all add: sample_b_def sample_node_def)
  have b2: "b2 = fst (mark_alive second ''0b'' ''A'' sample_b)" unfolding b2_def using handle_is_hello [OF p0(2)] src by simp
  have nbs: "nd_neighbors b2 = [(''A'', \<lparr>nb_alive = True, nb_cost = f64 1, nb_last = second\<rparr>)]"
    unfolding b2 by (simp add: mark_alive_def nd Let_def)
  have same: "nd_id b2 = ''B''" "nd_names b2 = sample_names" "nd_addr b2 = ''10.0.0.2:5000''"
    unfolding b2 by (simp_all add: mark_alive_def nd addr Let_def)
  have "nd_alg sample_b = IsLsr new_lsr" by (simp add: sample_b_def sample_node_def)
  then obtain s where s: "nd_alg b2 = IsLsr s" unfolding b2 by (auto simp: mark_alive_def nd Let_def lsr_ops_def)
  have rB: "node_reaches b2"
  proof -
    from node_next [OF sample_b_reached step_receive [OF p0(1) rc]] have "node_reaches b1" .
    from node_next [OF this step_forward [OF turn]] show ?thesis .
  qed
  then have "on_file (live_cost b2) (IsLsr s)" using node_reaches_inv [OF rB] s by (simp add: node_inv_def)
  then have links: "\<forall>pid. mget (ls_links s) pid = (if pid = ''A'' then Some (f64 1) else None)"
    by (simp add: live_cost_def nbs)
  have wf: "wf_map (ls_links s)" using node_reaches_inv [OF rB] s by (simp add: node_inv_def lsr_inv_def links_ok_def)
  have live: "live_neighbors b2 = [''A'']" by (simp add: live_neighbors_def nbs)
  define r where "r = on_alg (\<lambda>fab. alg_refresh fab second ''0d'') b2"
  define w3 where "w3 = settle ''B'' (fst r) (snd r) w2"
  have "mget (w_nodes w2) ''B'' = Some b2" by (simp add: w2_def)
  from world_next [OF w2 node_works [OF this works_refresh [OF f(3)]], of second "fst r" "snd r"]
  have w3: "world_reaches pair_start w3" by (simp add: w3_def r_def)
  have u: "utf8_valid ''10.0.0.2:5000''" "utf8_valid ''10.0.0.1:5000''" "node_local_id ?A ''10.0.0.2:5000'' = ''B''"
    "node_local_id ?A ''10.0.0.1:5000'' = ''A''" "endpoint sample_names ''A'' = Some ''10.0.0.1:5000''" "is_finite (f64 1)" by code_simp+
  have ad: "node_address b2 ''A'' = ''10.0.0.1:5000''" by (simp add: node_address_def same u(5))
  have l: "\<forall>(v, c) \<in> set (ls_links s). is_finite c \<and> utf8_valid (node_address b2 v) \<and> node_address b2 v \<noteq> [] \<and>
      node_local_id ?A (node_address b2 v) = v"
  proof (clarify)
    fix v c assume "(v, c) \<in> set (ls_links s)"
    then have "mget (ls_links s) v = Some c" by (simp add: mget_iff [OF wf])
    with links have "v = ''A'' \<and> c = f64 1" by (simp split: if_splits)
    then show "is_finite c \<and> utf8_valid (node_address b2 v) \<and> node_address b2 v \<noteq> [] \<and> node_local_id ?A (node_address b2 v) = v"
      using ad u by simp
  qed
  have k: "nd_alg ?A = IsLsr new_lsr" "nd_id ?A = ''A''" by (simp_all add: sample_node_def)
  have nb: "''A'' \<in> set (live_neighbors b2)" by (simp add: live)
  have new: "seen_at (ls_seen new_lsr) ''0d'' = None" "\<not> stale new_lsr ''B'' x" for x
    by (simp_all add: new_lsr_def stale_def new_seen_cache_def seen_at_def)
  have rd: "utf8_valid ''0d''" using f(3) by (simp add: fresh_id_def)
  from announcement_learned [OF rB s sample_lsr_reached k(1) nb prod.collapse [symmetric] rd _ _ l, of "''0e''" second "2 * second" "''0f''"]
  obtain q data p t where q: "Send ''A'' q \<in> set (snd r)" "encode q = Some data" "decode data = Some p"
      "nd_alg (fst (handle (2 * second) ''0e'' ''0f'' p ?A)) = IsLsr t"
      "mget (lsr_database t) ''B'' = Some \<lparr>an_origin = ''B'', an_seq = ls_seq s + 1, an_neighbors = ls_links s\<rparr>"
    using new u k(2) by (auto simp: same r_def)
  have "endpoint (nd_names (fst r)) ''A'' = Some ''10.0.0.1:5000''" by (simp add: r_def same u(5))
  from wire_outI [OF q(1) this q(2)] have "(''10.0.0.1:5000'', data) \<in> set (w_wire w3)" by (simp add: w3_def)
  moreover have "mget (w_nodes w3) ''A'' = Some ?A" by (simp add: w3_def w2_def w1_def nodes0(2))
  moreover have "map_option (\<lambda>a. mget (an_neighbors a) ''A'') (mget (lsr_database t) ''B'') = Some (Some (f64 1))"
    using links by (simp add: q(5))
  ultimately show ?thesis using w3 q(3,4) by blast
qed

theorem database_truthful_witness:
  "\<exists>w m. world_reaches pair_start w \<and> m \<in> set (w_past w) \<and> nd_id m = ''B'' \<and> live_cost m ''A'' = Some (f64 1)"
proof -
  let ?A = "sample_node (IsLsr new_lsr) ''lsr''"
  obtain w data p t where w: "world_reaches pair_start w" "mget (w_nodes w) ''A'' = Some ?A" "(''10.0.0.1:5000'', data) \<in> set (w_wire w)"
    "decode data = Some p" and t: "nd_alg (fst (handle (2 * second) ''0e'' ''0f'' p ?A)) = IsLsr t"
    "map_option (\<lambda>a. mget (an_neighbors a) ''A'') (mget (lsr_database t) ''B'') = Some (Some (f64 1))" using pair_announced by blast
  have f: "fresh_id ''0e''" "fresh_id ''0f''" by code_simp+
  let ?A1 = "?A\<lparr>nd_inbox := [p]\<rparr>" and ?r = "handle (2 * second) ''0e'' ''0f'' p ?A"
  have a: "nd_addr ?A = ''10.0.0.1:5000''" "nd_inbox ?A = []" by (simp_all add: sample_node_def)
  have rc: "receive p ?A = (?A1, [])" by (simp add: receive_def a(2) inbox_size_def)
  from world_next [OF w(1) line_read [OF _ w(2,4) rc]] w(3) a(1) have w1: "world_reaches pair_start (settle ''A'' ?A1 [] w)" by simp
  have "?A1\<lparr>nd_inbox := []\<rparr> = ?A" by (simp add: sample_node_def)
  then have turn: "forwarding_turn (2 * second) ''0e'' ''0f'' ?A1 = Some (fst ?r, snd ?r)" by (simp add: forwarding_turn_def)
  have "mget (w_nodes (settle ''A'' ?A1 [] w)) ''A'' = Some ?A1" by simp
  from world_next [OF w1 node_works [OF this works_forward [OF f turn]]]
  have w2: "world_reaches pair_start (settle ''A'' (fst ?r) (snd ?r) (settle ''A'' ?A1 [] w))" .
  obtain a where a: "mget (lsr_database t) ''B'' = Some a" "mget (an_neighbors a) ''A'' = Some (f64 1)" using t(2) by auto
  have n: "mget (w_nodes (settle ''A'' (fst ?r) (snd ?r) (settle ''A'' ?A1 [] w))) ''A'' = Some (fst ?r)" by simp
  from database_truthful [OF w2 n t(1) a(1)] a(2) w2 show ?thesis by blast
qed

end
