(* ===== verification/Rt_Hops.thy ===== *)
theory Rt_Hops
  imports Rt_Links Float_Error
begin

text \<open>
  What hop-by-hop forwarding does with tables computed separately at each node from the same
  graph. In the rounded arithmetic of the program the distance never grows along the hops; with
  whole-number costs, whose sums are exact below \<open>2 ^ 53\<close>, it shrinks by the cost of the link at
  every hop, so a packet handed from next hop to next hop arrives, without visiting a node twice,
  over a path of exactly the cost its origin's table states.
\<close>

section \<open>The next hop has a route\<close>

context extension_order
begin

lemma walk_mono:
  "\<forall>u v c. E u v = Some c \<longrightarrow> ok c \<Longrightarrow> ok x \<Longrightarrow> ok y \<Longrightarrow> x \<le> y \<Longrightarrow> walk_cost ext E u y vs = Some d \<Longrightarrow>
   \<exists>d'. walk_cost ext E u x vs = Some d' \<and> d' \<le> d"
proof (induction vs arbitrary: u x y)
  case (Cons v vs)
  then obtain c where c: "E u v = Some c" "walk_cost ext E v (ext y c) vs = Some d" by (auto split: option.splits)
  then have "ok c" using Cons.prems(1) by blast
  with Cons.IH [OF Cons.prems(1) _ _ _ c(2), of "ext x c"] Cons.prems(2-4) c(1) show ?case
    by (simp add: ok_ext ext_mono)
qed simp

end

lemma first_link:
  assumes "nan_free g" "mget (dijkstra g s) v = Some r"
  obtains c vs where "usable g s (r_next r) = Some c" "cost_ok c" "last (r_next r # vs) = v"
    "walk_cost fadd (usable g) (r_next r) (fadd f0 c) vs = Some (r_cost r)"
proof -
  obtain vs where vs: "last (r_next r # vs) = v" "path_cost g s (r_next r # vs) = Some (r_cost r)"
    using dijkstra_entry(5) [OF assms] by blast
  then obtain c where c: "usable g s (r_next r) = Some c" "walk_cost fadd (usable g) (r_next r) (fadd f0 c) vs = Some (r_cost r)"
    by (auto simp: path_cost_def split: option.splits)
  with vs(1) usable_ok [OF assms(1) c(1)] that show ?thesis by blast
qed

lemma hop_distance:
  assumes "nan_free g" "mget (dijkstra g s) v = Some r" "r_next r \<noteq> v"
  shows "\<exists>r'. mget (dijkstra g (r_next r)) v = Some r' \<and> r_cost r' \<le> r_cost r"
proof -
  obtain c vs where c: "usable g s (r_next r) = Some c" "cost_ok c" "last (r_next r # vs) = v"
    "walk_cost fadd (usable g) (r_next r) (fadd f0 c) vs = Some (r_cost r)" using first_link [OF assms(1,2)] by blast
  have E: "\<forall>u v c. usable g u v = Some c \<longrightarrow> cost_ok c" using usable_ok [OF assms(1)] by blast
  have "f0 \<le> fadd f0 c" "cost_ok (fadd f0 c)" using c(2) by (auto intro: fadd_increase cost_ok_fadd)
  from f64.walk_mono [OF E cost_ok_f0 this(2,1) c(4)] obtain d where
    d: "path_cost g (r_next r) vs = Some d" "d \<le> r_cost r" unfolding path_cost_def by blast
  have ok: "cost_ok (r_cost r)" using f64.walk_ok [OF E _ c(4)] \<open>cost_ok (fadd f0 c)\<close> by blast
  have "r_cost r \<noteq> fposinf" by (rule dijkstra_entry(3) [OF assms(1,2)])
  moreover have "r_cost r \<le> fposinf" using ok by (simp add: cost_ok_def le_posinf)
  ultimately have "d \<noteq> fposinf" using d(2) by auto
  from dijkstra_reaches [OF assms(1) d(1) c(3) assms(3) [symmetric] this] d(2) show ?thesis by force
qed

section \<open>Whole costs add up exactly\<close>

text \<open>Costs as a topology file usually gives them: whole, at least one.\<close>

definition whole :: "int \<Rightarrow> float64" where
  "whole k = f64 (of_int k)"

definition whole_costs :: "graph \<Rightarrow> bool" where
  "whole_costs g \<longleftrightarrow> (\<forall>u v c. usable g u v = Some c \<longrightarrow> (\<exists>k :: int. 1 \<le> k \<and> k < 2 ^ 53 \<and> c = whole k))"

definition exact_cost :: float64 where "exact_cost = f64 (2 ^ 53)"

lemma whole_zero: "f0 = whole 0"
  by (simp add: whole_def)

lemma whole_add:
  assumes "0 \<le> a" "a < 2 ^ 53" "0 \<le> k" "k < 2 ^ 53"
  shows "fadd (whole a) (whole k) = whole (a + k)"
proof -
  have "is_finite (whole a)" "fval (whole a) = of_int a" "is_finite (whole k)" "fval (whole k) = of_int k"
    using assms fval_small [of a] fval_small [of k] by (simp_all add: whole_def)
  moreover have "is_finite x \<Longrightarrow> is_finite y \<Longrightarrow> fadd x y = f64 (fval x + fval y)" for x y
    unfolding is_finite_def by transfer (auto dest!: finite_Fin)
  ultimately show ?thesis by (simp add: whole_def)
qed

lemma whole_mono: "a \<le> b \<Longrightarrow> whole a \<le> whole b"
  unfolding whole_def by (rule f64_mono) simp

lemma whole_ok: "0 \<le> a \<Longrightarrow> a < 2 ^ 53 \<Longrightarrow> cost_ok (whole a)"
  using fval_small(1) [of a] f64_mono [of 0 "of_int a"] by (simp add: cost_ok_def finite_not_nan whole_def)

lemma whole_less: "0 \<le> a \<Longrightarrow> whole a < exact_cost \<Longrightarrow> a < 2 ^ 53"
proof (rule ccontr)
  assume "whole a < exact_cost" "\<not> a < 2 ^ 53"
  then have "(2 ^ 53 :: rat) \<le> of_int a" using of_int_le_iff [of "2 ^ 53" a, where ?'a = rat] by simp
  then have "exact_cost \<le> whole a" unfolding exact_cost_def whole_def by (rule f64_mono)
  with \<open>whole a < exact_cost\<close> show False by simp
qed

lemma whole_inj: "0 \<le> a \<Longrightarrow> a < 2 ^ 53 \<Longrightarrow> 0 \<le> b \<Longrightarrow> b < 2 ^ 53 \<Longrightarrow> whole a \<le> whole b \<Longrightarrow> a \<le> b"
proof (rule ccontr)
  assume h: "0 \<le> a" "a < 2 ^ 53" "0 \<le> b" "b < 2 ^ 53" "whole a \<le> whole b" "\<not> a \<le> b"
  then have "whole b \<le> whole a" by (intro whole_mono) simp
  with h(5) have "whole a = whole b" by simp
  then have "(of_int a :: rat) = of_int b" using fval_small(2) [of a] fval_small(2) [of b] h by (simp add: whole_def)
  with h(6) show False by simp
qed

lemma walk_whole:
  assumes "whole_costs g"
  shows "0 \<le> a \<Longrightarrow> walk_cost fadd (usable g) u (whole a) vs = Some d \<Longrightarrow> d < exact_cost \<Longrightarrow>
    a < 2 ^ 53 \<Longrightarrow> nan_free g \<Longrightarrow>
    \<exists>k. 0 \<le> k \<and> a + k < 2 ^ 53 \<and> d = whole (a + k) \<and>
      (\<forall>b. 0 \<le> b \<longrightarrow> b + k < 2 ^ 53 \<longrightarrow> walk_cost fadd (usable g) u (whole b) vs = Some (whole (b + k)))"
proof (induction vs arbitrary: u a)
  case Nil
  then show ?case by (intro exI [of _ 0]) auto
next
  case (Cons v vs)
  then obtain c where c: "usable g u v = Some c" "walk_cost fadd (usable g) v (fadd (whole a) c) vs = Some d"
    by (auto split: option.splits)
  obtain j where j: "1 \<le> j" "j < 2 ^ 53" "c = whole j" using assms c(1) unfolding whole_costs_def by blast
  have add: "fadd (whole b) c = whole (b + j)" if "0 \<le> b" "b < 2 ^ 53" for b
    using whole_add [OF that, of j] j by simp
  have E: "\<forall>u v c. usable g u v = Some c \<longrightarrow> cost_ok c" using usable_ok [OF Cons.prems(5)] by blast
  have "cost_ok (whole a)" by (rule whole_ok [OF Cons.prems(1,4)])
  then have "fadd (whole a) c \<le> d" "cost_ok (fadd (whole a) c)"
    using f64.walk_ok [OF E _ c(2)] E c(1) by (auto intro: cost_ok_fadd)
  then have lt: "whole (a + j) < exact_cost" using Cons.prems(3) add [OF Cons.prems(1,4)] by simp
  then have "a + j < 2 ^ 53" using whole_less [of "a + j"] Cons.prems(1) j(1) by simp
  with Cons.IH [of "a + j" v] c(2) add [OF Cons.prems(1,4)] Cons.prems j(1) obtain k where
    k: "0 \<le> k" "a + j + k < 2 ^ 53" "d = whole (a + j + k)"
      "\<forall>b. 0 \<le> b \<longrightarrow> b + k < 2 ^ 53 \<longrightarrow> walk_cost fadd (usable g) v (whole b) vs = Some (whole (b + k))"
    by auto
  have "walk_cost fadd (usable g) u (whole b) (v # vs) = Some (whole (b + (j + k)))"
    if b: "0 \<le> b" "b + (j + k) < 2 ^ 53" for b
  proof -
    have "b < 2 ^ 53" using b j(1) k(1) by simp
    moreover have "0 \<le> b + j" "b + j + k < 2 ^ 53" using b j(1) by simp_all
    ultimately show ?thesis using k(4) add [OF b(1)] c(1) by (simp add: add.assoc)
  qed
  then show ?case using k(1-3) j(1) by (intro exI [of _ "j + k"]) (simp add: add.assoc)
qed

text \<open>The next hop's own route is shorter by exactly the link that leads there.\<close>

lemma hop_exact:
  assumes "nan_free g" "whole_costs g" "mget (dijkstra g s) v = Some r" "r_cost r < exact_cost"
  shows "\<exists>c k. usable g s (r_next r) = Some (whole c) \<and> 1 \<le> c \<and> 0 \<le> k \<and> c + k < 2 ^ 53 \<and>
    r_cost r = whole (c + k) \<and>
    (r_next r = v \<and> k = 0 \<or> r_next r \<noteq> v \<and> (\<exists>r'. mget (dijkstra g (r_next r)) v = Some r' \<and> r_cost r' = whole k))"
proof -
  obtain x vs where x: "usable g s (r_next r) = Some x" "last (r_next r # vs) = v"
    "walk_cost fadd (usable g) (r_next r) (fadd f0 x) vs = Some (r_cost r)" using first_link [OF assms(1,3)] by blast
  obtain c where c: "1 \<le> c" "c < 2 ^ 53" "x = whole c" using assms(2) x(1) unfolding whole_costs_def by blast
  have "fadd f0 x = whole c" using whole_add [of 0 c] c by (simp add: whole_zero)
  with walk_whole [OF assms(2) _ _ assms(4) c(2) assms(1), of "r_next r" vs] x(3) c(1) obtain k where
    k: "0 \<le> k" "c + k < 2 ^ 53" "r_cost r = whole (c + k)"
      "\<forall>b. 0 \<le> b \<longrightarrow> b + k < 2 ^ 53 \<longrightarrow> walk_cost fadd (usable g) (r_next r) (whole b) vs = Some (whole (b + k))"
    by auto
  have direct: "path_cost g s [r_next r] = Some (whole c)" using x(1) whole_add [of 0 c] c by (simp add: path_cost_def whole_zero)
  note best = dijkstra_best [OF assms(1,3)]
  show ?thesis
  proof (cases "r_next r = v")
    case True
    with best direct have "r_cost r \<le> whole c" by (fastforce simp: best_route_def)
    then have "c + k \<le> c" using k(1-3) c(1,2) by (intro whole_inj [of "c + k" c]) simp_all
    then show ?thesis using True x(1) c k by (intro exI [of _ c] exI [of _ 0]) simp
  next
    case False
    have p: "path_cost g (r_next r) vs = Some (whole k)" using k(4) [rule_format, of 0] k(1,2) c(1) by (simp add: path_cost_def whole_zero)
    have "whole k \<noteq> fposinf" using fval_small(1) [of k] k(1,2) c(1) by (auto simp: is_finite_def whole_def)
    from dijkstra_reaches [OF assms(1) p x(2) False [symmetric] this] obtain r' where
      r': "mget (dijkstra g (r_next r)) v = Some r'" "r_cost r' \<le> whole k" by blast
    obtain ws where ws: "last (r_next r' # ws) = v" "path_cost g (r_next r) (r_next r' # ws) = Some (r_cost r')"
      using dijkstra_entry(5) [OF assms(1) r'(1)] by blast
    have kl: "k < 2 ^ 53" using k(2) c(1) by simp
    have "whole k < exact_cost"
    proof -
      have "\<not> exact_cost \<le> whole k"
      proof
        assume "exact_cost \<le> whole k"
        also have "whole k \<le> whole (c + k)" using c(1) by (intro whole_mono) simp
        finally show False using assms(4) k(3) by simp
      qed
      then show ?thesis by simp
    qed
    then have lt: "r_cost r' < exact_cost" using r'(2) by simp
    from ws(2) have "walk_cost fadd (usable g) (r_next r) (whole 0) (r_next r' # ws) = Some (r_cost r')" by (simp add: path_cost_def whole_zero)
    from walk_whole [OF assms(2) _ this lt _ assms(1)] obtain k' where
      k': "0 \<le> k'" "k' < 2 ^ 53" "r_cost r' = whole k'"
        "\<forall>b. 0 \<le> b \<longrightarrow> b + k' < 2 ^ 53 \<longrightarrow>
          walk_cost fadd (usable g) (r_next r) (whole b) (r_next r' # ws) = Some (whole (b + k'))"
      by auto
    have "k' \<le> k" using r'(2) k'(1-3) k(1) kl by (intro whole_inj [of k' k]) simp_all
    moreover have "k \<le> k'"
    proof -
      have "walk_cost fadd (usable g) (r_next r) (whole c) (r_next r' # ws) = Some (whole (c + k'))"
        using k'(4) [rule_format, of c] c(1) k(2) \<open>k' \<le> k\<close> by simp
      then have "path_cost g s (r_next r # r_next r' # ws) = Some (whole (c + k'))"
        using x(1) c(3) \<open>fadd f0 x = whole c\<close> by (simp add: path_cost_def)
      moreover have "last (s # r_next r # r_next r' # ws) = v" using ws(1) by simp
      ultimately have "r_cost r \<le> whole (c + k')" using best unfolding best_route_def by blast
      then have "c + k \<le> c + k'" using k(1-3) k'(1) c(1) \<open>k' \<le> k\<close> by (intro whole_inj [of "c + k" "c + k'"]) simp_all
      then show ?thesis by simp
    qed
    ultimately show ?thesis using False x(1) c k r'(1) k'(3) by (intro exI [of _ c] exI [of _ k]) auto
  qed
qed

lemma whole_links:
  assumes "links_nan_free es" "\<forall>e \<in> set es. l_cost e \<in> whole ` K" "\<forall>k \<in> K. 1 \<le> k \<and> k < 2 ^ 53"
  shows "whole_costs (graph_of_links es)"
  unfolding whole_costs_def
proof (intro allI impI)
  fix u v c assume "usable (graph_of_links es) u v = Some c"
  then have e: "edge (graph_of_links es) u v = Some c" by (auto simp: usable_def split: option.splits if_splits)
  from edge_graph_of_links [OF assms(1)] e have "link_costs es u v \<noteq> {}" "c = Min (link_costs es u v)"
    by (auto split: if_splits)
  then have "c \<in> link_costs es u v" by simp
  then have "c \<in> whole ` K" using assms(2) by (auto simp: link_costs_def)
  then show "\<exists>k \<ge> 1. k < 2 ^ 53 \<and> c = whole k" using assms(3) by auto
qed

section \<open>Hop by hop\<close>

text \<open>The nodes a packet for \<open>v\<close> visits after \<open>u\<close> when every node hands it to its next hop.\<close>

inductive hops :: "(string \<Rightarrow> table) \<Rightarrow> string \<Rightarrow> string \<Rightarrow> string list \<Rightarrow> bool" for tab where
  hops_last: "mget (tab u) v = Some r \<Longrightarrow> r_next r = v \<Longrightarrow> hops tab u v [v]"
| hops_more: "mget (tab u) v = Some r \<Longrightarrow> r_next r \<noteq> v \<Longrightarrow> hops tab (r_next r) v vs \<Longrightarrow> hops tab u v (r_next r # vs)"

text \<open>The same as a function, up to a number of hops.\<close>

fun follow :: "(string \<Rightarrow> table) \<Rightarrow> nat \<Rightarrow> string \<Rightarrow> string \<Rightarrow> string list" where
  "follow tab 0 u v = []"
| "follow tab (Suc k) u v =
     (case mget (tab u) v of None \<Rightarrow> [] | Some r \<Rightarrow> if r_next r = v then [v] else r_next r # follow tab k (r_next r) v)"

lemma follow_hops: "hops tab u v vs \<Longrightarrow> length vs \<le> k \<Longrightarrow> follow tab k u v = vs"
proof (induction arbitrary: k rule: hops.induct)
  case (hops_last u v r)
  then show ?case by (cases k) simp_all
next
  case (hops_more u v r vs)
  then show ?case by (cases k) simp_all
qed

lemma hops_ends: "hops tab u v vs \<Longrightarrow> vs \<noteq> [] \<and> last vs = v"
  by (induction rule: hops.induct) auto

lemma usable_nodes: "usable g u v = Some c \<Longrightarrow> u \<in> set (nodes g)"
  by (auto simp: usable_def edge_def mget_or_def dest: mget_SomeD split: option.splits intro: rev_image_eqI)

text \<open>Tables of one graph with whole costs lead there, at the promised cost, without a detour.\<close>

lemma hops_whole:
  assumes "nan_free g" "whole_costs g" "\<forall>u. tab u = dijkstra g u"
  shows "mget (tab s) v = Some r \<Longrightarrow> r_cost r = whole k \<Longrightarrow> 0 \<le> k \<Longrightarrow> k < 2 ^ 53 \<Longrightarrow> r_cost r < exact_cost \<Longrightarrow>
    \<exists>vs. hops tab s v vs \<and> distinct (s # vs) \<and> set (butlast vs) \<subseteq> set (nodes g) \<and>
      (\<forall>b. 0 \<le> b \<longrightarrow> b + k < 2 ^ 53 \<longrightarrow> walk_cost fadd (usable g) s (whole b) vs = Some (whole (b + k))) \<and>
      (\<forall>x \<in> set vs. x = v \<or> (\<exists>j r'. 0 \<le> j \<and> j < k \<and> mget (tab x) v = Some r' \<and> r_cost r' = whole j))"
proof (induction "nat k" arbitrary: s r k rule: less_induct)
  case less
  have d: "mget (dijkstra g s) v = Some r" using less.prems(1) assms(3) by simp
  obtain c j where e: "usable g s (r_next r) = Some (whole c)" "1 \<le> c" "0 \<le> j" "c + j < 2 ^ 53" "r_cost r = whole (c + j)"
    and f: "r_next r = v \<and> j = 0 \<or> r_next r \<noteq> v \<and> (\<exists>r'. mget (dijkstra g (r_next r)) v = Some r' \<and> r_cost r' = whole j)"
    using hop_exact [OF assms(1,2) d less.prems(5)] by blast
  have kc: "k = c + j" using whole_inj [of k "c + j"] whole_inj [of "c + j" k] less.prems(2-4) e(2-5) by simp
  have vs: "v \<noteq> s" by (rule dijkstra_entry(2) [OF assms(1) d])
  have add: "fadd (whole b) (whole c) = whole (b + c)" if "0 \<le> b" "b < 2 ^ 53" for b
    using whole_add [OF that, of c] e(2-4) by simp
  show ?case
  proof (cases "r_next r = v")
    case True
    then have "hops tab s v [v]" using less.prems(1) hops_last by blast
    moreover have "walk_cost fadd (usable g) s (whole b) [v] = Some (whole (b + k))" if "0 \<le> b" "b + k < 2 ^ 53" for b
      using e(1,2) f True add [of b] kc that by simp
    ultimately show ?thesis using vs by (intro exI [of _ "[v]"]) auto
  next
    case False
    then obtain r' where r': "mget (tab (r_next r)) v = Some r'" "r_cost r' = whole j" using f assms(3) by auto
    have "whole j \<le> whole k" using kc e(2) by (intro whole_mono) simp
    then have lt: "r_cost r' < exact_cost" using less.prems(2,5) r'(2) by simp
    have m: "nat j < nat k" "j < 2 ^ 53" using kc e(2,3,4) by simp_all
    from less.hyps [OF m(1) r'(1,2) e(3) m(2) lt] obtain ws where
      h: "hops tab (r_next r) v ws" "distinct (r_next r # ws)" "set (butlast ws) \<subseteq> set (nodes g)"
        "\<forall>b. 0 \<le> b \<longrightarrow> b + j < 2 ^ 53 \<longrightarrow> walk_cost fadd (usable g) (r_next r) (whole b) ws = Some (whole (b + j))"
        "\<forall>x \<in> set ws. x = v \<or> (\<exists>i r''. 0 \<le> i \<and> i < j \<and> mget (tab x) v = Some r'' \<and> r_cost r'' = whole i)"
      by blast
    have later: "x = v \<or> (\<exists>i r''. 0 \<le> i \<and> i < k \<and> mget (tab x) v = Some r'' \<and> r_cost r'' = whole i)"
      if "x \<in> set (r_next r # ws)" for x
    proof (cases "x = r_next r")
      case True
      then show ?thesis using r' e(2,3) kc by (intro disjI2 exI [of _ j] exI [of _ r']) simp
    next
      case False
      then have "x \<in> set ws" using that by simp
      with h(5) consider "x = v" | i r'' where "0 \<le> i" "i < j" "mget (tab x) v = Some r''" "r_cost r'' = whole i" by blast
      then show ?thesis
      proof cases
        case (2 i r'')
        then show ?thesis using kc e(2) by (intro disjI2 exI [of _ i] exI [of _ r'']) simp
      qed simp
    qed
    have "s \<notin> set (r_next r # ws)"
    proof
      assume "s \<in> set (r_next r # ws)"
      from later [OF this] vs obtain i r'' where i: "0 \<le> i" "i < k" "mget (tab s) v = Some r''" "r_cost r'' = whole i" by blast
      with less.prems(1,2) have "whole i = whole k" by simp
      then have "k \<le> i" using whole_inj [of k i] less.prems(3,4) i(1,2) by simp
      with i(2) show False by simp
    qed
    moreover have "walk_cost fadd (usable g) s (whole b) (r_next r # ws) = Some (whole (b + k))" if "0 \<le> b" "b + k < 2 ^ 53" for b
      using e(1,2) add [of b] h(4) [rule_format, of "b + c"] that kc e(3) by (simp add: add.assoc)
    moreover have "hops tab s v (r_next r # ws)" by (rule hops_more [OF less.prems(1) False h(1)])
    moreover have "r_next r \<in> set (nodes g)"
    proof -
      obtain x where "usable g (r_next r) (r_next r') = Some x"
        using first_link [OF assms(1), of "r_next r" v r'] r'(1) assms(3) by metis
      then show ?thesis by (rule usable_nodes)
    qed
    then have "set (butlast (r_next r # ws)) \<subseteq> set (nodes g)" using h(3) by simp
    ultimately show ?thesis using h(2) later by (intro exI [of _ "r_next r # ws"]) auto
  qed
qed

lemma hops_exact:
  assumes "nan_free g" "whole_costs g" "\<forall>u. tab u = dijkstra g u" "mget (tab s) v = Some r" "r_cost r < exact_cost"
  shows "\<exists>vs. hops tab s v vs \<and> distinct (s # vs) \<and> path_cost g s vs = Some (r_cost r) \<and>
    length vs \<le> card (set (nodes g)) \<and> set (butlast vs) \<subseteq> set (nodes g)"
proof -
  obtain c j where "r_cost r = whole (c + j)" "1 \<le> c" "0 \<le> j" "c + j < 2 ^ 53"
    using hop_exact [OF assms(1,2), of s v r] assms(3-5) by auto
  then have k: "r_cost r = whole (c + j)" "0 \<le> c + j" "c + j < 2 ^ 53" by simp_all
  from hops_whole [OF assms(1-4) k assms(5)] obtain vs where
    h: "hops tab s v vs" "distinct (s # vs)" "set (butlast vs) \<subseteq> set (nodes g)"
      "\<forall>b. 0 \<le> b \<longrightarrow> b + (c + j) < 2 ^ 53 \<longrightarrow> walk_cost fadd (usable g) s (whole b) vs = Some (whole (b + (c + j)))" by blast
  have "path_cost g s vs = Some (r_cost r)"
    using h(4) [rule_format, of 0] k by (simp add: path_cost_def whole_zero)
  moreover have "length vs \<le> card (set (nodes g))"
  proof -
    have "s \<in> set (nodes g)"
      using first_link [OF assms(1), of s v r] assms(3,4) usable_nodes by metis
    moreover have "s \<notin> set (butlast vs)" using h(2) by (auto dest: in_set_butlastD)
    moreover have "distinct (butlast vs)" using h(2) distinct_butlast by auto
    ultimately have "card (set (s # butlast vs)) = Suc (length (butlast vs))" "set (s # butlast vs) \<subseteq> set (nodes g)"
      using h(3) by (simp_all only: distinct_card distinct.simps list.size set_simps insert_subset) (auto simp: distinct_card)
    then have "Suc (length (butlast vs)) \<le> card (set (nodes g))" by (metis List.finite_set card_mono)
    then show ?thesis using hops_ends [OF h(1)] by simp
  qed
  ultimately show ?thesis using h(1-3) by blast
qed

section \<open>Properties\<close>

text \<open>
  The distance never grows along the hops. The next hop of a route either is the
  destination or, in its own table of the same graph, has a route there that costs no more,
  in whatever way the sums are rounded.
\<close>

theorem hops_never_climb:
  assumes "nan_free g" and "mget (dijkstra g s) v = Some r"
  shows "r_next r = v \<or> (\<exists>r'. mget (dijkstra g (r_next r)) v = Some r' \<and> r_cost r' \<le> r_cost r)"
  using hop_distance [OF assms] by blast

theorem hops_never_climb_witness:
  "\<exists>r'. mget (dijkstra (graph_of_links square) ''B'') ''D'' = Some r' \<and> r_cost r' \<le> f64 3"
proof -
  have n: "nan_free (graph_of_links square)" by code_simp
  have t: "mget (dijkstra (graph_of_links square) ''A'') ''D'' =
      Some \<lparr>r_dest = ''D'', r_next = ''B'', r_cost = f64 3\<rparr>" by code_simp
  from hops_never_climb [OF n t] show ?thesis by simp
qed

text \<open>
  C15: hop-by-hop forwarding arrives. When the costs are whole numbers and every node routes by
  its own table of the same graph, a packet handed from next hop to next hop reaches its
  destination without visiting a node twice, in at most as many hops as there are nodes, over
  a path of exactly the cost the origin's table states.
\<close>

theorem next_hops_arrive:
  assumes "nan_free g" and "whole_costs g" and "mget (dijkstra g s) v = Some r" and "r_cost r < exact_cost"
    and "follow (dijkstra g) (card (set (nodes g))) s v = vs"
  shows "vs \<noteq> [] \<and> last vs = v \<and> distinct (s # vs) \<and> path_cost g s vs = Some (r_cost r) \<and> length vs \<le> card (set (nodes g))"
proof -
  obtain ws where ws: "hops (dijkstra g) s v ws" "distinct (s # ws)" "path_cost g s ws = Some (r_cost r)"
    "length ws \<le> card (set (nodes g))" using hops_exact [where tab = "dijkstra g", OF assms(1,2) _ assms(3,4)] by blast
  then have "vs = ws" using follow_hops [OF ws(1,4)] assms(5) by simp
  then show ?thesis using ws hops_ends [OF ws(1)] by simp
qed

lemma square_whole: "whole_costs (graph_of_links square)"
proof (rule whole_links)
  show "links_nan_free square" by code_simp
  show "\<forall>e \<in> set square. l_cost e \<in> whole ` {1, 4, 8}" by (simp add: square_def whole_def)
qed auto

theorem next_hops_arrive_witness:
  "path_cost (graph_of_links square) ''A'' [''B'', ''C'', ''D''] = Some (f64 3) \<and> distinct [''A'', ''B'', ''C'', ''D'']"
proof -
  have n: "nan_free (graph_of_links square)" by code_simp
  have t: "mget (dijkstra (graph_of_links square) ''A'') ''D'' =
      Some \<lparr>r_dest = ''D'', r_next = ''B'', r_cost = f64 3\<rparr>" by code_simp
  have l: "r_cost \<lparr>r_dest = ''D'', r_next = ''B'', r_cost = f64 3\<rparr> < exact_cost"
    using whole_less [of 3] by (simp add: exact_cost_def) code_simp
  have f: "follow (dijkstra (graph_of_links square)) (card (set (nodes (graph_of_links square)))) ''A'' ''D'' = [''B'', ''C'', ''D'']"
    by code_simp
  show ?thesis using next_hops_arrive [OF n square_whole t l f] by simp
qed

end
