(* ===== verification/Net_Journey.thy ===== *)
theory Net_Journey
  imports Net_World Rt_Hops
begin

text \<open>
  A message on its way through several nodes: sent by one, carried as bytes from each node to the
  next hop its table names, and delivered at its destination. The nodes route by tables of one
  graph, in the static or the link-state mode, and have not seen the message before.
\<close>

section \<open>The journey\<close>

text \<open>
  What becomes of a line read at \<open>u\<close>, where each node on the way handles what it reads at the next
  instant of the list: the node that delivers, and the packet it delivers; None when the line is
  unreadable, the message is dropped, does not go to exactly one node, or is still on its way.
\<close>

fun journey :: "(string \<Rightarrow> node) \<Rightarrow> gotime list \<Rightarrow> string \<Rightarrow> string \<Rightarrow> (string \<times> packet) option" where
  "journey ns [] u line = None"
| "journey ns (now # ts) u line =
     (case decode line of None \<Rightarrow> None
      | Some p \<Rightarrow>
          let out = snd (handle_message now p (ns u))
          in if Deliver p \<in> set out then Some (u, p)
             else (case sends out of
                 [(nb, q)] \<Rightarrow>
                   (case node_send_to (ns u) nb q of None \<Rightarrow> None
                    | Some (a, q) \<Rightarrow>
                        (case encode q of None \<Rightarrow> None
                         | Some line' \<Rightarrow> if a = nd_addr (ns nb) then journey ns ts nb line' else None))
               | _ \<Rightarrow> None))"

text \<open>A node that routes by the graph, knows the others by the same plan, and has not seen the message.\<close>

definition routes_by :: "graph \<Rightarrow> string set \<Rightarrow> (string \<Rightarrow> node) \<Rightarrow> string \<Rightarrow> string \<Rightarrow> bool" where
  "routes_by g N ns mid u \<longleftrightarrow>
     node_inv (ns u) \<and> nd_id (ns u) = u \<and> utf8_valid (nd_addr (ns u)) \<and> (\<forall>s. nd_alg (ns u) \<noteq> IsFlooding s) \<and>
     node_table (ns u) = dijkstra g u \<and> seen_at (nd_seen (ns u)) mid = None \<and>
     (\<forall>v \<in> N. node_local_id (ns u) (nd_addr (ns v)) = v \<and> endpoint (nd_names (ns u)) v = Some (nd_addr (ns v)))"

lemma forward_route:
  assumes "node_inv n" "\<forall>s. nd_alg n \<noteq> IsFlooding s" "mget (node_table n) (node_local_id n (p_to p)) = Some r"
  shows "fst (alg_forward (fabric_of n) p (nd_alg n)) = [r_next r]"
proof (cases "nd_alg n")
  case (IsDijkstra s)
  then have "dj_inv (nd_id n) s" using assms(1) by (simp add: node_inv_def)
  then have "st_lookup (da_table s) d = mget (node_table n) d" for d
    using dj_table_eq [of "nd_id n" s]
    by (simp add: node_table_def IsDijkstra dijkstra_ops_def st_lookup_def dj_inv_def)
  then show ?thesis using assms(3) by (simp add: IsDijkstra dijkstra_ops_def dj_forward_def Let_def)
next
  case (IsLsr s)
  then have "lsr_inv (nd_id n) s" using assms(1) by (simp add: node_inv_def)
  then have "st_lookup (ls_table s) d = mget (node_table n) d" for d
    using lsr_table_eq [of "nd_id n" s]
    by (simp add: node_table_def IsLsr lsr_ops_def st_lookup_def lsr_inv_def table_current_def)
  then show ?thesis using assms(3) by (simp add: IsLsr lsr_ops_def lsr_forward_def Let_def)
qed (use assms(2) in simp)

text \<open>The copy a node hands on: one hop older, with this node as the previous hop and last in the trace.\<close>

definition handed_on :: "string \<Rightarrow> packet \<Rightarrow> packet" where
  "handed_on addr p = set_header header_via (GStr addr) (append_trace addr (fst (decrement_ttl p)))"

lemma handed_on_facts:
  assumes "own_packet p" "1 < sint (p_ttl p)" "utf8_valid addr"
  shows "own_packet (handed_on addr p)" "sint (p_ttl (handed_on addr p)) = sint (p_ttl p) - 1"
    "trace (handed_on addr p) = trace p @ [addr]" "p_to (handed_on addr p) = p_to p" "p_payload (handed_on addr p) = p_payload p"
    "header_string (handed_on addr p) header_msg_id = header_string p header_msg_id"
    "header_string (handed_on addr p) header_via = addr" "snd (decrement_ttl p)"
proof -
  have ttl: "0 < sint (p_ttl p)" using assms(2) by simp
  note d = decrement_positive [OF ttl]
  show "snd (decrement_ttl p)" using d(2) assms(2) by simp
  have own: "own_packet (fst (decrement_ttl p))" using own_ttl [OF assms(1)] by (simp add: decrement_ttl_def Let_def)
  show "own_packet (handed_on addr p)"
    unfolding handed_on_def using own_append_trace [OF own assms(3)] header_names_utf8 assms(3) by (intro own_set_header) simp_all
  have ne: "header_trace \<noteq> header_via" "header_msg_id \<noteq> header_via" "header_msg_id \<noteq> header_trace" by code_simp+
  show "trace (handed_on addr p) = trace p @ [addr]"
    using ne hop_fields(8) [of p] by (simp add: handed_on_def trace_def append_trace_def header_set_header)
  show "p_to (handed_on addr p) = p_to p" "p_payload (handed_on addr p) = p_payload p"
    "sint (p_ttl (handed_on addr p)) = sint (p_ttl p) - 1"
    using d(1) by (simp_all add: handed_on_def append_trace_def set_header_fields hop_fields)
  show "header_string (handed_on addr p) header_msg_id = header_string p header_msg_id"
    "header_string (handed_on addr p) header_via = addr"
    using ne by (simp_all add: handed_on_def append_trace_def header_string_put hop_fields)
qed

text \<open>One node on the way: a new message for another node goes to the hops the algorithm names.\<close>

lemma relayed_to:
  assumes "node_local_id n (p_to p) \<noteq> nd_id n" and "own_packet p" "1 < sint (p_ttl p)" "utf8_valid (nd_addr n)"
    and "\<not> fst (seen now (header_string p header_msg_id) (nd_seen n))"
  shows "sends (snd (handle_message now p n)) =
      map (\<lambda>t. (t, handed_on (nd_addr n) p)) (fst (alg_forward (fabric_of n) p (nd_alg n)))"
    and "Deliver d \<notin> set (snd (handle_message now p n))"
proof -
  let ?n = "n\<lparr>nd_seen := snd (seen now (header_string p header_msg_id) (nd_seen n))\<rparr>"
  have out: "snd (handle_message now p n) = node_relay p ?n" using assms(1,5) by (simp add: handle_message_cases)
  note f = handed_on_facts [OF assms(2-4)]
  show "sends (snd (handle_message now p n)) =
      map (\<lambda>t. (t, handed_on (nd_addr n) p)) (fst (alg_forward (fabric_of n) p (nd_alg n)))"
    using f(8) own_clone [OF f(1)] by (simp add: out relay_sends_node fabric_of_seen handed_on_def)
  show "Deliver d \<notin> set (snd (handle_message now p n))" using relay_delivers_nothing [of d p ?n] by (simp add: out)
qed

lemma delivered_here:
  assumes "node_local_id n (p_to p) = nd_id n" "payload_text p \<noteq> None" "\<not> fst (seen now (header_string p header_msg_id) (nd_seen n))"
  shows "Deliver p \<in> set (snd (handle_message now p n))"
  using assms by (auto simp: handle_message_cases split: option.splits)

lemma unseen: "node_inv n \<Longrightarrow> seen_at (nd_seen n) mid = None \<Longrightarrow> \<not> fst (seen now mid (nd_seen n))"
  by (simp add: node_inv_def fst_seen)

text \<open>A message in transit, as a line: what the next node has to know of it.\<close>

definition in_transit :: "(string \<Rightarrow> node) \<Rightarrow> string \<Rightarrow> string \<Rightarrow> string \<Rightarrow> packet \<Rightarrow> string \<Rightarrow> bool" where
  "in_transit ns v mid msg q line \<longleftrightarrow> own_packet q \<and> 0 < sint (p_ttl q) \<and> encode q = Some line \<and> p_to q = nd_addr (ns v) \<and>
     payload_text q = Some msg \<and> header_string q header_msg_id = mid"

lemma transit_read:
  assumes "in_transit ns v mid msg q line"
  shows "decode line = Some (received q)" "own_packet (received q)" "p_to (received q) = nd_addr (ns v)"
    "payload_text (received q) = Some msg" "header_string (received q) header_msg_id = mid"
    "trace (received q) = trace q" "p_ttl (received q) = p_ttl q"
proof -
  have own: "own_packet q" and "\<not> int_le (p_ttl q) 0" using assms by (simp_all add: in_transit_def int_le_def)
  from own_received [OF this] assms show "decode line = Some (received q)" by (auto simp: in_transit_def)
  note h = own_headers_ok [OF own]
  show "own_packet (received q)" by (rule own_again [OF own])
  show "p_to (received q) = nd_addr (ns v)" "payload_text (received q) = Some msg" "p_ttl (received q) = p_ttl q"
    "header_string (received q) header_msg_id = mid" "trace (received q) = trace q"
    using assms header_string_received [OF h] trace_received [OF h]
    by (simp_all add: in_transit_def received_fields payload_text_def)
qed

lemma journey_ends:
  assumes "in_transit ns v mid msg q line" "routes_by g N ns mid v" "v \<in> N"
  shows "journey ns (now # ts) v line = Some (v, received q)"
proof -
  note t = transit_read [OF assms(1)]
  have "Deliver (received q) \<in> set (snd (handle_message now (received q) (ns v)))"
    using assms(2,3) t unseen [of "ns v" mid] by (intro delivered_here) (auto simp: routes_by_def)
  then show ?thesis by (simp add: t(1))
qed

lemma journey_goes_on:
  assumes "in_transit ns v mid msg q line" "routes_by g N ns mid u" "u \<noteq> v" "v \<in> N" "r_next r \<in> N"
    and "mget (dijkstra g u) v = Some r" "1 < sint (p_ttl q)"
  shows "\<exists>c line'. in_transit ns v mid msg c line' \<and> sint (p_ttl c) = sint (p_ttl q) - 1 \<and> trace c = trace q @ [nd_addr (ns u)] \<and>
    journey ns (now # ts) u line = journey ns ts (r_next r) line'"
proof -
  note t = transit_read [OF assms(1)]
  have u: "node_inv (ns u)" "\<forall>s. nd_alg (ns u) \<noteq> IsFlooding s" "node_local_id (ns u) (nd_addr (ns v)) = v" "nd_id (ns u) = u"
    "utf8_valid (nd_addr (ns u))" "node_table (ns u) = dijkstra g u" "endpoint (nd_names (ns u)) (r_next r) = Some (nd_addr (ns (r_next r)))"
    "seen_at (nd_seen (ns u)) mid = None"
    using assms(2,4,5) by (simp_all add: routes_by_def)
  have "node_local_id (ns u) (p_to (received q)) \<noteq> nd_id (ns u)" using u(3,4) t(3) assms(3) by simp
  moreover have "mget (node_table (ns u)) (node_local_id (ns u) (p_to (received q))) = Some r" using u(3,6) t(3) assms(6) by simp
  moreover have "\<not> fst (seen now (header_string (received q) header_msg_id) (nd_seen (ns u)))" using unseen [OF u(1,8)] t(5) by simp
  moreover have ttl: "1 < sint (p_ttl (received q))" using assms(7) t(7) by simp
  ultimately have r: "sends (snd (handle_message now (received q) (ns u))) = [(r_next r, handed_on (nd_addr (ns u)) (received q))]"
    "Deliver (received q) \<notin> set (snd (handle_message now (received q) (ns u)))"
    using relayed_to [OF _ t(2) _ u(5)] forward_route [OF u(1,2)] by simp_all
  define c where "c = handed_on (nd_addr (ns u)) (received q)"
  note f = handed_on_facts [OF t(2) ttl u(5), folded c_def]
  have c: "sends (snd (handle_message now (received q) (ns u))) = [(r_next r, c)]"
    "Deliver (received q) \<notin> set (snd (handle_message now (received q) (ns u)))" "own_packet c"
    "sint (p_ttl c) = sint (p_ttl q) - 1" "trace c = trace q @ [nd_addr (ns u)]" "p_to c = nd_addr (ns v)"
    "p_payload c = p_payload (received q)" "header_string c header_msg_id = mid"
    using r f t by (simp_all add: c_def)
  have "\<not> int_le (p_ttl c) 0" using c(4) assms(7) by (simp add: int_le_def)
  from own_received [OF c(3) this] obtain line' where line': "encode c = Some line'" by blast
  have "payload_text c = Some msg" using c(7) t(4) by (simp add: payload_text_def)
  then have "in_transit ns v mid msg c line'" using c line' assms(7) by (simp add: in_transit_def)
  moreover have "journey ns (now # ts) u line = journey ns ts (r_next r) line'"
    using c(1,2) line' u(7) by (simp add: t(1) node_send_to_def)
  ultimately show ?thesis using c(4,5) by blast
qed

lemma journey_along:
  assumes "nan_free g"
  shows "hops (dijkstra g) u v vs \<Longrightarrow> in_transit ns v mid msg q line \<Longrightarrow> \<forall>x \<in> insert u (set vs). x \<in> N \<and> routes_by g N ns mid x \<Longrightarrow>
    int (length vs) < sint (p_ttl q) \<Longrightarrow> length vs < length ts \<Longrightarrow>
    \<exists>p. journey ns ts u line = Some (v, p) \<and> payload_text p = Some msg \<and>
      trace p = trace q @ map (\<lambda>x. nd_addr (ns x)) (u # butlast vs)"
proof (induction arbitrary: q line ts rule: hops.induct)
  case (hops_last u v r)
  obtain now ts' where ts: "ts = now # ts'" "ts' \<noteq> []" using hops_last.prems(4) by (cases ts) auto
  obtain now' ts'' where ts': "ts' = now' # ts''" using ts(2) by (cases ts') auto
  have v: "v \<in> N" "routes_by g N ns mid v" and u: "routes_by g N ns mid u" using hops_last.prems(2) by simp_all
  have "u \<noteq> v" using dijkstra_entry(2) [OF assms hops_last.hyps(1)] by simp
  with journey_goes_on [OF hops_last.prems(1) u _ v(1) _ hops_last.hyps(1), of now ts'] v hops_last.hyps(2) hops_last.prems(3) obtain c line' where
    c: "in_transit ns v mid msg c line'" "trace c = trace q @ [nd_addr (ns u)]" "journey ns ts u line = journey ns ts' v line'"
    unfolding ts(1) by auto
  then show ?case
    using journey_ends [OF c(1) v(2,1), of now' ts''] transit_read(4,6) [OF c(1)] by (simp add: ts')
next
  case (hops_more u v r vs)
  obtain now ts' where ts: "ts = now # ts'" using hops_more.prems(4) by (cases ts) auto
  have vs: "vs \<noteq> []" "last vs = v" using hops_ends [OF hops_more.hyps(3)] by simp_all
  have v: "v \<in> N" using hops_more.prems(2) vs by (metis insertCI last_in_set list.set_intros(2))
  have x: "r_next r \<in> N" and u: "routes_by g N ns mid u" using hops_more.prems(2) by simp_all
  have "u \<noteq> v" using dijkstra_entry(2) [OF assms hops_more.hyps(1)] by simp
  moreover have "1 < sint (p_ttl q)" using hops_more.prems(3) by simp
  ultimately obtain c line' where c: "in_transit ns v mid msg c line'" "sint (p_ttl c) = sint (p_ttl q) - 1"
    "trace c = trace q @ [nd_addr (ns u)]" "journey ns ts u line = journey ns ts' (r_next r) line'"
    using journey_goes_on [OF hops_more.prems(1) u _ v x hops_more.hyps(1), of now ts'] unfolding ts by blast
  have "\<forall>y \<in> insert (r_next r) (set vs). y \<in> N \<and> routes_by g N ns mid y" using hops_more.prems(2) by simp
  from hops_more.IH [OF c(1) this, of ts'] c(2) hops_more.prems(3,4) obtain p where
    "journey ns ts' (r_next r) line' = Some (v, p)" "payload_text p = Some msg"
    "trace p = trace c @ map (\<lambda>x. nd_addr (ns x)) (r_next r # butlast vs)"
    by (auto simp: ts)
  then show ?case using c(3,4) vs(1) by simp
qed

text \<open>The packet \<open>Send\<close> builds, and what it hands to the network.\<close>

definition launched :: "string \<Rightarrow> string \<Rightarrow> string \<Rightarrow> string \<Rightarrow> string \<Rightarrow> packet" where
  "launched mid proto addr dest msg =
     set_header header_via (GStr addr) (append_trace addr (new_text mid proto type_message addr dest msg))"

lemma launched_facts:
  fixes a :: any_alg
  assumes "utf8_valid mid" "mid \<noteq> []" "utf8_valid addr" "utf8_valid dest" "utf8_valid msg"
  defines "q \<equiv> launched mid (alg_proto a) addr dest msg"
  shows "own_packet q" "p_ttl q = default_ttl" "p_to q = dest" "payload_text q = Some msg" "header_string q header_msg_id = mid"
    "header_string q header_via = addr" "trace q = [addr]"
proof -
  note own0 = own_new_text [OF assms(1,2) alg_proto_utf8 message_utf8(1) assms(3,4,5), of a]
  have ne: "header_trace \<noteq> header_via" "header_msg_id \<noteq> header_via" "header_msg_id \<noteq> header_trace" by code_simp+
  show "own_packet q"
    unfolding q_def launched_def using own0 own_append_trace header_names_utf8 assms(3) by (intro own_set_header) auto
  show "p_ttl q = default_ttl" "p_to q = dest" "payload_text q = Some msg" "header_string q header_msg_id = mid"
    "header_string q header_via = addr"
    using own0 ne by (simp_all add: q_def launched_def append_trace_def set_header_fields header_string_put payload_text_def)
  show "trace q = [addr]"
    using own0 ne by (simp add: q_def launched_def trace_def [of "set_header _ _ _"] append_trace_def header_set_header)
qed

lemma launched_in_transit:
  assumes "utf8_valid mid" "mid \<noteq> []" "utf8_valid addr" "utf8_valid (nd_addr (ns v))" "utf8_valid msg"
  shows "\<exists>line. in_transit ns v mid msg (launched mid (alg_proto a) addr (nd_addr (ns v)) msg) line"
proof -
  note f = launched_facts [OF assms, of a]
  have "\<not> int_le default_ttl 0" by (simp add: default_ttl_def int_le_def)
  then show ?thesis using own_received [OF f(1)] f by (auto simp: in_transit_def default_ttl_def)
qed

lemma sent_to:
  assumes "dest \<noteq> nd_id n" and "node_send now mid dest msg n = ((e, n'), out)"
  defines "q \<equiv> launched mid (alg_proto (nd_alg n)) (nd_addr n) (node_address n dest) msg"
  assumes "own_packet q" "header_string q header_msg_id = mid"
  shows "e = (if fst (alg_forward (fabric_of n) q (nd_alg n)) = [] then Some (NoRouteTo dest) else None)"
    and "n' = n\<lparr>nd_seen := snd (seen now mid (nd_seen n))\<rparr>"
    and "sends out = map (\<lambda>t. (t, q)) (fst (alg_forward (fabric_of n) q (nd_alg n)))"
proof -
  obtain hops es where es: "alg_forward (fabric_of n) q (nd_alg n) = (hops, es)" by fastforce
  obtain ls where ls: "es = map Log ls" using forward_events [of "fabric_of n" q "nd_alg n"] es by auto
  have "((e, n'), out) =
      (let n = n\<lparr>nd_seen := snd (seen now mid (nd_seen n))\<rparr>
       in if hops = [] then ((Some (NoRouteTo dest), n), es) else ((None, n), es @ send_copies q hops @ [Log (SentVia dest hops)]))"
    using assms(1,2)
    by (cases "hops = []")
      (simp_all add: node_send_def Let_def fabric_of_seen q_def [unfolded launched_def, symmetric] assms(5) es)
  then show "e = (if fst (alg_forward (fabric_of n) q (nd_alg n)) = [] then Some (NoRouteTo dest) else None)"
    "n' = n\<lparr>nd_seen := snd (seen now mid (nd_seen n))\<rparr>"
    "sends out = map (\<lambda>t. (t, q)) (fst (alg_forward (fabric_of n) q (nd_alg n)))"
    by (auto simp: es ls send_copies_def own_clone [OF assms(4)] Let_def split: if_splits)
qed

lemma message_sent:
  assumes "routes_by g N ns mid u" "mid \<noteq> []" "utf8_valid mid" "utf8_valid msg" "u \<noteq> v" "v \<noteq> ''*''" "v \<in> N" "utf8_valid (nd_addr (ns v))"
    and "mget (dijkstra g u) v = Some r" "r_next r \<in> N" "node_send now mid v msg (ns u) = ((e, n'), out)"
  shows "e = None \<and> (\<exists>q line. wire_out (ns u) out = [(nd_addr (ns (r_next r)), line)] \<and> in_transit ns v mid msg q line \<and>
    sint (p_ttl q) = 16 \<and> trace q = [nd_addr (ns u)])"
proof -
  have u: "node_inv (ns u)" "\<forall>s. nd_alg (ns u) \<noteq> IsFlooding s" "node_local_id (ns u) (nd_addr (ns v)) = v" "nd_id (ns u) = u"
    "utf8_valid (nd_addr (ns u))" "node_table (ns u) = dijkstra g u" "endpoint (nd_names (ns u)) (r_next r) = Some (nd_addr (ns (r_next r)))"
    "endpoint (nd_names (ns u)) v = Some (nd_addr (ns v))"
    using assms(1,7,10) by (simp_all add: routes_by_def)
  have dest: "node_address (ns u) v = nd_addr (ns v)" using assms(5,6) u(4,8) by (simp add: node_address_def)
  define q where "q = launched mid (alg_proto (nd_alg (ns u))) (nd_addr (ns u)) (nd_addr (ns v)) msg"
  note f = launched_facts [OF assms(3,2) u(5) assms(8,4), of "nd_alg (ns u)", folded q_def]
  obtain line where line: "in_transit ns v mid msg q line"
    using launched_in_transit [of mid "nd_addr (ns u)" ns v msg] assms(2,3,4,8) u(5) unfolding q_def by blast
  have "fst (alg_forward (fabric_of (ns u)) q (nd_alg (ns u))) = [r_next r]"
    using u(3,6) f(3) assms(9) by (intro forward_route [OF u(1,2)]) simp
  then have r: "e = None" "sends out = [(r_next r, q)]"
    using sent_to [OF _ assms(11)] assms(5) u(4) f(1,5) by (simp_all add: dest q_def)
  have "wire_out (ns u) out = [(nd_addr (ns (r_next r)), line)]"
    using line u(7) by (simp add: r(2) in_transit_def wire_out_def node_send_to_def)
  then show ?thesis using r(1) line f(2,7) by (auto simp: default_ttl_def)
qed

text \<open>From the sender to the destination.\<close>

lemma journey_arrives:
  assumes "nan_free g" and "whole_costs g" and "card (set (nodes g)) \<le> 16"
    and "\<forall>x \<in> insert v (set (nodes g)). routes_by g (insert v (set (nodes g))) ns mid x"
    and "utf8_valid mid" and "mid \<noteq> []" and "utf8_valid msg" and "v \<noteq> ''*''"
    and "mget (node_table (ns u)) v = Some r" and "u \<in> set (nodes g)" and "r_cost r < exact_cost"
    and "node_send now mid v msg (ns u) = ((e, n'), out)" and "16 \<le> length ts"
  shows "e = None \<and> (\<exists>line p path. wire_out (ns u) out = [(nd_addr (ns (r_next r)), line)] \<and>
    journey ns ts (r_next r) line = Some (v, p) \<and> payload_text p = Some msg \<and>
    last path = v \<and> distinct (u # path) \<and> path_cost g u path = Some (r_cost r) \<and>
    trace p = map (\<lambda>x. nd_addr (ns x)) (u # butlast path))"
proof -
  let ?N = "insert v (set (nodes g))"
  have ru: "routes_by g ?N ns mid u" and rv: "routes_by g ?N ns mid v" using assms(4,10) by auto
  then have d: "mget (dijkstra g u) v = Some r" using assms(9) by (simp add: routes_by_def)
  obtain path where path: "hops (dijkstra g) u v path" "distinct (u # path)" "path_cost g u path = Some (r_cost r)"
    "length path \<le> card (set (nodes g))" and inside: "set (butlast path) \<subseteq> set (nodes g)"
    using hops_exact [where tab = "dijkstra g", OF assms(1,2) _ d assms(11)] by blast
  have uv: "u \<noteq> v" using dijkstra_entry(2) [OF assms(1) d] by simp
  have av: "utf8_valid (nd_addr (ns v))" using rv by (simp add: routes_by_def)
  have ends: "path \<noteq> []" "last path = v" using hops_ends [OF path(1)] by simp_all
  then have sub: "set path \<subseteq> ?N" using inside by (metis append_butlast_last_id insert_mono list.set(1) list.set(2) set_append sup_commute Un_insert_right sup_bot.right_neutral)
  have hd: "hd path = r_next r" using path(1) by (cases rule: hops.cases) (use d in auto)
  have x: "r_next r \<in> ?N" using sub ends(1) hd by (metis hd_in_set subsetD)
  obtain q line where q: "e = None" "wire_out (ns u) out = [(nd_addr (ns (r_next r)), line)]" "in_transit ns v mid msg q line"
    "sint (p_ttl q) = 16" "trace q = [nd_addr (ns u)]"
    using message_sent [OF ru assms(6,5,7) uv assms(8) _ av d x assms(12)] by auto
  have "\<exists>p. journey ns ts (r_next r) line = Some (v, p) \<and> payload_text p = Some msg \<and>
      trace p = trace q @ map (\<lambda>x. nd_addr (ns x)) (butlast path)"
    using path(1)
  proof cases
    case (hops_last r')
    then have "r_next r = v" using d by simp
    moreover obtain now' ts' where "ts = now' # ts'" using assms(13) by (cases ts) auto
    ultimately show ?thesis using journey_ends [OF q(3) rv, of now' ts'] transit_read(4,6) [OF q(3)] hops_last by simp
  next
    case (hops_more r' vs)
    then have rr: "r' = r" using d by simp
    have "\<forall>y \<in> insert (r_next r) (set vs). y \<in> ?N \<and> routes_by g ?N ns mid y"
      using sub assms(4) hops_more rr by auto
    moreover have "length vs < 16" using path(4) assms(3) hops_more by simp
    moreover have "vs \<noteq> []" using hops_ends [OF hops_more(4)] by simp
    ultimately show ?thesis
      using journey_along [OF assms(1) hops_more(4) [unfolded rr] q(3), of ?N ts] q(4) assms(13) hops_more rr by simp
  qed
  then show ?thesis using q(1,2,5) path ends by (intro conjI) auto
qed

section \<open>Properties\<close>

text \<open>
  C7: a message arrives. In a network of at most sixteen nodes that route by tables of one graph
  with whole costs, a message one node sends to another that its table reaches is put on the
  wire to the next hop, goes from node to node as bytes, and is delivered, with its text, by the
  destination: over a path without repetition, of exactly the cost the sender's table states,
  whose nodes are the trace of the delivered packet.
\<close>

theorem message_reaches_destination:
  assumes "nan_free g" and "whole_costs g" and "card (set (nodes g)) \<le> 16"
    and "\<forall>x \<in> insert v (set (nodes g)). routes_by g (insert v (set (nodes g))) ns mid x"
    and "utf8_valid mid" and "mid \<noteq> []" and "utf8_valid msg" and "v \<noteq> ''*''"
    and "mget (node_table (ns u)) v = Some r" and "u \<in> set (nodes g)" and "r_cost r < exact_cost"
    and "node_send now mid v msg (ns u) = ((e, n'), out)" and "16 \<le> length ts"
  shows "e = None \<and> (\<exists>line p path. wire_out (ns u) out = [(nd_addr (ns (r_next r)), line)] \<and>
    journey ns ts (r_next r) line = Some (v, p) \<and> payload_text p = Some msg \<and>
    last path = v \<and> distinct (u # path) \<and> path_cost g u path = Some (r_cost r) \<and>
    trace p = map (\<lambda>x. nd_addr (ns x)) (u # butlast path))"
  using journey_arrives [OF assms] .

text \<open>The witness: three nodes in a row, in the static mode, just started.\<close>

definition row_topology :: topology where
  "row_topology = \<lparr>t_type = ''topo'', t_config =
     [(''A'', [(''B'', f64 1)]), (''B'', [(''A'', f64 1), (''C'', f64 2)]), (''C'', [(''B'', f64 2)])]\<rparr>"

definition row_names :: name_table where
  "row_names = \<lparr>n_type = ''names'', n_config = [(''A'', ''10.0.0.1:5000''), (''B'', ''10.0.0.2:5000''), (''C'', ''10.0.0.3:5000'')]\<rparr>"

definition row_options :: "string \<Rightarrow> options" where
  "row_options u =
     \<lparr>o_id = u, o_mode = ''dijkstra'', o_topology = row_topology, o_names = row_names, o_listen = [], o_verbose = False\<rparr>"

definition row_node :: "string \<Rightarrow> node" where
  "row_node u = (case new_node (row_options u) of Inr n \<Rightarrow> node_start n | Inl e \<Rightarrow> sample_b)"

definition row_graph :: graph where
  "row_graph = graph_of_links (live_links (graph_from row_topology) [])"

lemma row_facts:
  "list_all (\<lambda>x. (case new_node (row_options x) of Inr n \<Rightarrow> True | Inl e \<Rightarrow> False) \<and>
     (case nd_alg (row_node x) of IsFlooding s \<Rightarrow> False | _ \<Rightarrow> True) \<and> nd_id (row_node x) = x \<and> utf8_valid (nd_addr (row_node x)) \<and>
     seen_at (nd_seen (row_node x)) ''0a'' = None \<and> node_table (row_node x) = dijkstra row_graph x \<and>
     list_all (\<lambda>v. node_local_id (row_node x) (nd_addr (row_node v)) = v \<and>
       endpoint (nd_names (row_node x)) v = Some (nd_addr (row_node v))) [''A'', ''B'', ''C'']) [''A'', ''B'', ''C'']"
  by code_simp

lemma row_routes: "x \<in> {''A'', ''B'', ''C''} \<Longrightarrow> routes_by row_graph {''A'', ''B'', ''C''} row_node ''0a'' x"
proof -
  assume "x \<in> {''A'', ''B'', ''C''}"
  then have "x \<in> set [''A'', ''B'', ''C'']" by simp
  note f = row_facts [unfolded list_all_iff, rule_format, OF this]
  then obtain n where n: "new_node (row_options x) = Inr n" by (auto split: sum.splits)
  have "topology_ok (o_topology (row_options x))" by (simp add: row_options_def) code_simp
  from new_node_inv [OF this n] have "node_inv (row_node x)" by (simp add: row_node_def n)
  moreover have "\<forall>s. nd_alg (row_node x) \<noteq> IsFlooding s" using f by (auto split: any_alg.splits)
  ultimately show ?thesis using f by (simp add: routes_by_def)
qed

theorem message_reaches_destination_witness:
  "\<exists>line p. wire_out (row_node ''A'') (snd (node_send second ''0a'' ''C'' ''hi'' (row_node ''A''))) = [(''10.0.0.2:5000'', line)] \<and>
     journey row_node (replicate 16 (2 * second)) ''B'' line = Some (''C'', p) \<and> payload_text p = Some ''hi''"
proof -
  have nan: "nan_free row_graph" by code_simp
  have nodes: "set (nodes row_graph) = {''A'', ''B'', ''C''}"
  proof -
    have "sort (nodes row_graph) = [''A'', ''B'', ''C'']" by code_simp
    then show ?thesis by (metis list.set(1) list.set(2) set_sort)
  qed
  have "links_nan_free (live_links (graph_from row_topology) [])" by code_simp
  moreover have "\<forall>e \<in> set (live_links (graph_from row_topology) []). l_cost e \<in> whole ` {1, 2}"
  proof -
    have "list_all (\<lambda>e. l_cost e = f64 1 \<or> l_cost e = f64 2) (live_links (graph_from row_topology) [])" by code_simp
    then show ?thesis by (auto simp: list_all_iff whole_def)
  qed
  ultimately have whole: "whole_costs row_graph" unfolding row_graph_def by (rule whole_links) auto
  have t: "mget (node_table (row_node ''A'')) ''C'' = Some \<lparr>r_dest = ''C'', r_next = ''B'', r_cost = f64 3\<rparr>" by code_simp
  have l: "r_cost \<lparr>r_dest = ''C'', r_next = ''B'', r_cost = f64 3\<rparr> < exact_cost" by (simp add: exact_cost_def) code_simp
  have u: "utf8_valid ''0a''" "utf8_valid ''hi''" "nd_addr (row_node ''B'') = ''10.0.0.2:5000''" by code_simp+
  have r: "\<forall>x \<in> insert ''C'' (set (nodes row_graph)). routes_by row_graph (insert ''C'' (set (nodes row_graph))) row_node ''0a'' x"
    unfolding nodes using row_routes by (simp add: insert_absorb)
  have card: "card (set (nodes row_graph)) \<le> 16" and mem: "''A'' \<in> set (nodes row_graph)" unfolding nodes by simp_all
  obtain e n' out where s: "node_send second ''0a'' ''C'' ''hi'' (row_node ''A'') = ((e, n'), out)" by (metis prod.collapse)
  have len: "16 \<le> length (replicate 16 (2 * second))" by simp
  from message_reaches_destination [OF nan whole card r u(1) _ u(2) _ t mem l s len] obtain line p where
    "wire_out (row_node ''A'') out = [(nd_addr (row_node ''B''), line)]"
    "journey row_node (replicate 16 (2 * second)) ''B'' line = Some (''C'', p)" "payload_text p = Some ''hi''" by auto
  then show ?thesis using u(3) s by (intro exI [of _ line] exI [of _ p]) simp
qed

end
