(* ===== verification/Net_Wave.thy ===== *)
theory Net_Wave
  imports Main
begin

text \<open>
  Flooding in the abstract. Copies of one packet are under way, each to an address; some node
  that listens at the address reads one, at some instant, and may send further copies. The
  locale states what a node has to do for the flood to end and to reach everything it can: pass
  the packet on when it meets it first, to all its neighbours but those that have met it, and
  ignore it afterwards. The flooding of messages and of announcements are instances.
\<close>

section \<open>Waves\<close>

text \<open>The nodes, the copies under way with the address each was sent to, and what nodes put out.\<close>

record ('i, 's, 'a, 'm, 'o) wave =
  wv_nodes :: "'i \<Rightarrow> 's"
  wv_lines :: "('a \<times> 'm) list"
  wv_got :: "('i \<times> 'o) list"

text \<open>
  What a node does with a copy at an instant: its next state, what it sends where, and what it
  puts out.
\<close>

type_synonym ('t, 's, 'a, 'm, 'o) reader = "'t \<Rightarrow> 'm \<Rightarrow> 's \<Rightarrow> 's \<times> ('a \<times> 'm) list \<times> 'o list"

definition wave_turn :: "('t, 's, 'a, 'm, 'o) reader \<Rightarrow> 't \<Rightarrow> 'i \<Rightarrow> 'a \<times> 'm \<Rightarrow> ('i, 's, 'a, 'm, 'o) wave \<Rightarrow> ('i, 's, 'a, 'm, 'o) wave" where
  "wave_turn turn t x l w =
     (case turn t (snd l) (wv_nodes w x) of
        (s, out, got) \<Rightarrow> \<lparr>wv_nodes = (wv_nodes w)(x := s), wv_lines = remove1 l (wv_lines w) @ out, wv_got = wv_got w @ map (Pair x) got\<rparr>)"

inductive wave_step ::
    "('t, 's, 'a, 'm, 'o) reader \<Rightarrow> ('t \<Rightarrow> bool) \<Rightarrow> ('i \<Rightarrow> 'a) \<Rightarrow> 'i set \<Rightarrow>
     ('i, 's, 'a, 'm, 'o) wave \<Rightarrow> ('i, 's, 'a, 'm, 'o) wave \<Rightarrow> bool"
  for turn when_ok addr N where
  wave_read: "l \<in> set (wv_lines w) \<Longrightarrow> x \<in> N \<Longrightarrow> fst l = addr x \<Longrightarrow> when_ok t \<Longrightarrow>
    wave_step turn when_ok addr N w (wave_turn turn t x l w)"

definition outputs :: "('i, 's, 'a, 'm, 'o) wave \<Rightarrow> 'i \<Rightarrow> 'o list" where
  "outputs w x = map snd (filter (\<lambda>(y, g). y = x) (wv_got w))"

lemma outputs_turn:
  fixes turn :: "('t, 's, 'a, 'm, 'e) reader"
  shows
  "outputs (wave_turn turn t x l w) y =
     outputs w y @ (if y = x then snd (snd (turn t (snd l) (wv_nodes w x))) else [])"
proof -
  have "map (snd \<circ> Pair x) gs = gs" for gs :: "'e list" by (simp add: comp_def)
  moreover have "filter (\<lambda>(z, g). z = y) (map (Pair x) gs) = (if y = x then map (Pair x) gs else [])" for gs :: "'e list"
    by (induction gs) simp_all
  ultimately show ?thesis by (simp add: outputs_def wave_turn_def case_prod_beta)
qed

text \<open>The copies that may still be sent.\<close>

definition load :: "('i \<Rightarrow> nat) \<Rightarrow> 'i set \<Rightarrow> nat" where
  "load deg A = (\<Sum>x \<in> A. deg x)"

section \<open>What makes a wave end and arrive\<close>

text \<open>The addresses copies of a kind are on their way to, and their number.\<close>

definition heads :: "('m \<Rightarrow> bool) \<Rightarrow> ('a \<times> 'm) list \<Rightarrow> 'a set" where
  "heads mine ls = fst ` {l \<in> set ls. mine (snd l)}"

definition left :: "('m \<Rightarrow> bool) \<Rightarrow> ('a \<times> 'm) list \<Rightarrow> nat" where
  "left mine ls = length (filter (\<lambda>l. mine (snd l)) ls)"

lemma heads_simps [simp]: "heads mine [] = {}" "heads mine (xs @ ys) = heads mine xs \<union> heads mine ys"
  by (auto simp: heads_def)

lemma left_simps [simp]: "left mine [] = 0" "left mine (xs @ ys) = left mine xs + left mine ys"
  by (simp_all add: left_def)

lemma heads_all: "(\<And>m. mine m) \<Longrightarrow> heads mine ls = fst ` set ls" and left_all: "(\<And>m. mine m) \<Longrightarrow> left mine ls = length ls"
  by (simp_all add: heads_def left_def)

lemma left_le: "left mine ls \<le> length ls"
  by (simp add: left_def)

lemma left_remove1: "l \<in> set ls \<Longrightarrow> left mine (remove1 l ls) + (if mine (snd l) then 1 else 0) = left mine ls"
  by (induction ls) (auto simp: left_def)

lemma heads_remove1: "a \<in> heads mine ls \<Longrightarrow> a \<noteq> fst l \<or> \<not> mine (snd l) \<Longrightarrow> a \<in> heads mine (remove1 l ls)"
proof -
  assume "a \<in> heads mine ls" and l: "a \<noteq> fst l \<or> \<not> mine (snd l)"
  then obtain m where "(a, m) \<in> set ls" "mine m" by (auto simp: heads_def)
  moreover from this l have "(a, m) \<noteq> l" by auto
  ultimately have "(a, m) \<in> set (remove1 l ls)" by (simp add: in_set_remove1)
  with \<open>mine m\<close> show "a \<in> heads mine (remove1 l ls)" by (force simp: heads_def)
qed

text \<open>
  \<open>fresh\<close> and \<open>aware\<close> say of a node's state that it has not, or has, met the packet; a \<open>quiet\<close>
  node passes nothing on; \<open>mine\<close> tells the copies of this packet from others that may be under
  way; \<open>fit W x m\<close> says that the copy \<open>m\<close> may be on its way to \<open>x\<close> when \<open>W\<close> have met the packet,
  \<open>other x m\<close> that another packet's copy may be; \<open>receipt W x gs\<close> is what \<open>x\<close> puts out on meeting it.
\<close>

locale flood_wave =
  fixes turn :: "('t, 's, 'a, 'm, 'o) reader"
    and when_ok :: "'t \<Rightarrow> bool"
    and addr :: "'i \<Rightarrow> 'a"
    and N :: "'i set"
    and hears :: "'i \<Rightarrow> 'i \<Rightarrow> bool"
    and deg :: "'i \<Rightarrow> nat"
    and quiet :: "'i \<Rightarrow> bool"
    and fresh :: "'i \<Rightarrow> 's \<Rightarrow> bool"
    and aware :: "'i \<Rightarrow> 's \<Rightarrow> bool"
    and mine :: "'m \<Rightarrow> bool"
    and fit :: "'i set \<Rightarrow> 'i \<Rightarrow> 'm \<Rightarrow> bool"
    and other :: "'i \<Rightarrow> 'm \<Rightarrow> bool"
    and receipt :: "'i set \<Rightarrow> 'i \<Rightarrow> 'o list \<Rightarrow> bool"
  assumes finite_nodes: "finite N"
    and own_address: "x \<in> N \<Longrightarrow> y \<in> N \<Longrightarrow> addr x = addr y \<Longrightarrow> x = y"
    and hears_within: "x \<in> N \<Longrightarrow> hears x y \<Longrightarrow> y \<in> N"
    and fit_mine: "fit W x m \<Longrightarrow> mine m \<and> W \<noteq> {}"
    and fit_mono: "fit W x m \<Longrightarrow> W \<subseteq> W' \<Longrightarrow> fit W' x m"
    and other_not_mine: "other x m \<Longrightarrow> \<not> mine m"
    and receipt_mono: "receipt W x gs \<Longrightarrow> W \<subseteq> W' \<Longrightarrow> receipt W' x gs"
    and some_time: "\<exists>t. when_ok t"
    and reads_again: "x \<in> W \<Longrightarrow> W \<subseteq> N \<Longrightarrow> aware x s \<Longrightarrow> fit W x m \<Longrightarrow> when_ok t \<Longrightarrow> turn t m s = (s', out, got) \<Longrightarrow>
      aware x s' \<and> out = [] \<and> got = []"
    and reads_first: "x \<in> N \<Longrightarrow> x \<notin> W \<Longrightarrow> W \<subseteq> N \<Longrightarrow> fresh x s \<Longrightarrow> fit W x m \<Longrightarrow> when_ok t \<Longrightarrow> turn t m s = (s', out, got) \<Longrightarrow>
      aware x s' \<and> length out \<le> deg x \<and> receipt (insert x W) x got \<and>
      (\<forall>l \<in> set out. \<exists>y. hears x y \<and> fst l = addr y \<and> fit (insert x W) y (snd l)) \<and>
      (quiet x \<or> (\<forall>y. hears x y \<longrightarrow> y \<in> insert x W \<or> addr y \<in> fst ` set out))"
    and reads_other: "x \<in> N \<Longrightarrow> fresh x s \<or> aware x s \<Longrightarrow> other x m \<Longrightarrow> when_ok t \<Longrightarrow> turn t m s = (s', out, got) \<Longrightarrow>
      (fresh x s \<longrightarrow> fresh x s') \<and> (aware x s \<longrightarrow> aware x s') \<and> got = [] \<and>
      (\<forall>l \<in> set out. \<exists>y. hears x y \<and> fst l = addr y \<and> other y (snd l))"
begin

text \<open>How far a flood from \<open>u\<close> is: \<open>W\<close> have met the packet; nobody has before it is sent.\<close>

definition wave_inv :: "'i \<Rightarrow> 'i set \<Rightarrow> ('i, 's, 'a, 'm, 'o) wave \<Rightarrow> bool" where
  "wave_inv u W w \<longleftrightarrow> (W = {} \<or> u \<in> W) \<and> W \<subseteq> N \<and>
     (\<forall>x \<in> N. if x \<in> W then aware x (wv_nodes w x) else fresh x (wv_nodes w x)) \<and>
     (\<forall>l \<in> set (wv_lines w). \<exists>x \<in> N. fst l = addr x \<and> (fit W x (snd l) \<or> other x (snd l))) \<and>
     (\<forall>y \<in> W. quiet y \<or> (\<forall>z. hears y z \<longrightarrow> z \<in> W \<or> addr z \<in> heads mine (wv_lines w))) \<and>
     (\<forall>x. if x \<in> W - {u} then receipt W x (outputs w x) else outputs w x = [])"

lemma wave_invD:
  assumes "wave_inv u W w"
  shows "W = {} \<or> u \<in> W" "W \<subseteq> N" "x \<in> N \<Longrightarrow> if x \<in> W then aware x (wv_nodes w x) else fresh x (wv_nodes w x)"
    and "l \<in> set (wv_lines w) \<Longrightarrow> \<exists>x \<in> N. fst l = addr x \<and> (fit W x (snd l) \<or> other x (snd l))"
    and "y \<in> W \<Longrightarrow> quiet y \<or> (\<forall>z. hears y z \<longrightarrow> z \<in> W \<or> addr z \<in> heads mine (wv_lines w))"
    and "if x \<in> W - {u} then receipt W x (outputs w x) else outputs w x = []"
  using assms by (simp_all add: wave_inv_def)

lemma line_here:
  assumes "wave_inv u W w" "l \<in> set (wv_lines w)" "x \<in> N" "fst l = addr x"
  shows "mine (snd l) \<Longrightarrow> fit W x (snd l)" and "\<not> mine (snd l) \<Longrightarrow> other x (snd l)"
  using wave_invD(4) [OF assms(1,2)] own_address [OF assms(3)] assms(4) fit_mine other_not_mine by (metis, metis)

lemma sent_within:
  assumes "\<forall>l \<in> set out. \<exists>y. hears x y \<and> fst l = addr y \<and> ok y (snd l)" and "x \<in> N" and "k \<in> set out"
  shows "\<exists>y \<in> N. fst k = addr y \<and> ok y (snd k)"
proof -
  obtain y where "hears x y" "fst k = addr y" "ok y (snd k)" using assms(1,3) by blast
  then show ?thesis using hears_within [OF assms(2)] by blast
qed

lemma heads_own:
  assumes "\<forall>l \<in> set out. \<exists>y. hears x y \<and> fst l = addr y \<and> fit W y (snd l)"
  shows "heads mine out = fst ` set out"
proof -
  have "mine (snd l)" if "l \<in> set out" for l using assms that fit_mine by blast
  then have "{l \<in> set out. mine (snd l)} = set out" by blast
  then show ?thesis by (simp add: heads_def)
qed

text \<open>One node changes: it may meet the packet, and copies may come and go.\<close>

lemma inv_after:
  assumes i: "wave_inv u W w" and W: "W \<subseteq> W'" "W' \<subseteq> insert x W" "W' = {} \<or> u \<in> W'" and x: "x \<in> N"
    and s: "wv_nodes w' = (wv_nodes w)(x := s)" "if x \<in> W' then aware x s else fresh x s"
    and lines: "\<And>k. k \<in> set (wv_lines w') \<Longrightarrow> k \<in> set (wv_lines w) \<or> (\<exists>y \<in> N. fst k = addr y \<and> (fit W' y (snd k) \<or> other y (snd k)))"
    and front: "\<And>z. z \<in> N \<Longrightarrow> z \<notin> W' \<Longrightarrow> addr z \<in> heads mine (wv_lines w) \<Longrightarrow> addr z \<in> heads mine (wv_lines w')"
    and own: "x \<in> W' \<Longrightarrow> x \<notin> W \<Longrightarrow> quiet x \<or> (\<forall>z. hears x z \<longrightarrow> z \<in> W' \<or> addr z \<in> heads mine (wv_lines w'))"
    and got: "\<And>y. outputs w' y = outputs w y @ (if y = x then gs else [])"
      "gs = [] \<and> (x \<in> W \<or> x \<notin> W' - {u}) \<or> x \<in> W' - {u} \<and> x \<notin> W \<and> receipt W' x gs"
  shows "wave_inv u W' w'"
proof -
  have 1: "if y \<in> W' then aware y (wv_nodes w' y) else fresh y (wv_nodes w' y)" if "y \<in> N" for y
    using wave_invD(3) [OF i that] s W(1,2) by (cases "y = x") (auto split: if_splits)
  have 2: "\<exists>y \<in> N. fst k = addr y \<and> (fit W' y (snd k) \<or> other y (snd k))" if k: "k \<in> set (wv_lines w')" for k
    using lines [OF k] wave_invD(4) [OF i, of k] fit_mono [OF _ W(1)] by blast
  have 3: "quiet y \<or> (\<forall>z. hears y z \<longrightarrow> z \<in> W' \<or> addr z \<in> heads mine (wv_lines w'))" if "y \<in> W'" for y
  proof (cases "y \<in> W")
    case True
    then have "hears y z \<Longrightarrow> z \<in> N" for z using hears_within wave_invD(2) [OF i] by blast
    then show ?thesis using wave_invD(5) [OF i True] front W(1) by blast
  next
    case False
    then show ?thesis using that W(2) own by blast
  qed
  have 4: "if y \<in> W' - {u} then receipt W' y (outputs w' y) else outputs w' y = []" for y
  proof (cases "y = x \<and> gs \<noteq> []")
    case True
    then show ?thesis using got wave_invD(6) [OF i, of x] by auto
  next
    case False
    then have "outputs w' y = outputs w y" using got(1) by auto
    moreover have "y \<in> W \<longleftrightarrow> y \<in> W'" if "y \<noteq> x" using W(1,2) that by auto
    ultimately show ?thesis
      using False wave_invD(6) [OF i, of y] receipt_mono [OF _ W(1)] got W(1) by (cases "y = x") (auto split: if_splits)
  qed
  show ?thesis unfolding wave_inv_def using W wave_invD(2) [OF i] x 1 2 3 4 by blast
qed

lemma wave_begins:
  assumes "\<And>x. x \<in> N \<Longrightarrow> fresh x (wv_nodes w x)" "wv_lines w = []" "wv_got w = []"
  shows "wave_inv u {} w"
  using assms by (simp add: wave_inv_def outputs_def)

text \<open>The first copies are sent.\<close>

lemma sends_first:
  assumes i: "wave_inv u {} w" and u: "u \<in> N" and s: "aware u s"
    and out: "\<forall>l \<in> set out. \<exists>y. hears u y \<and> fst l = addr y \<and> fit {u} y (snd l)"
    and all: "quiet u \<or> (\<forall>z. hears u z \<longrightarrow> z = u \<or> addr z \<in> fst ` set out)"
  shows "wave_inv u {u} (w\<lparr>wv_nodes := (wv_nodes w)(u := s), wv_lines := wv_lines w @ out\<rparr>)"
proof (rule inv_after [OF i, where x = u and s = s and gs = "[]"])
  fix k assume "k \<in> set (wv_lines (w\<lparr>wv_nodes := (wv_nodes w)(u := s), wv_lines := wv_lines w @ out\<rparr>))"
  then have "k \<in> set (wv_lines w) \<or> k \<in> set out" by simp
  then show "k \<in> set (wv_lines w) \<or> (\<exists>y \<in> N. fst k = addr y \<and> (fit {u} y (snd k) \<or> other y (snd k)))"
    using sent_within [OF out u, of k] by auto
next
  show "quiet u \<or> (\<forall>z. hears u z \<longrightarrow> z \<in> {u} \<or> addr z \<in> heads mine (wv_lines (w\<lparr>wv_nodes := (wv_nodes w)(u := s), wv_lines := wv_lines w @ out\<rparr>)))"
    using all heads_own [OF out] by auto
qed (use u s in \<open>simp_all add: outputs_def\<close>)

text \<open>Copies of another packet are sent.\<close>

lemma sends_other:
  assumes i: "wave_inv u W w" and x: "x \<in> N" and s: "if x \<in> W then aware x s else fresh x s"
    and out: "\<forall>l \<in> set out. \<exists>y. hears x y \<and> fst l = addr y \<and> other y (snd l)"
  shows "wave_inv u W (w\<lparr>wv_nodes := (wv_nodes w)(x := s), wv_lines := wv_lines w @ out\<rparr>)"
proof (rule inv_after [OF i, where x = x and s = s and gs = "[]"])
  fix k assume "k \<in> set (wv_lines (w\<lparr>wv_nodes := (wv_nodes w)(x := s), wv_lines := wv_lines w @ out\<rparr>))"
  then have "k \<in> set (wv_lines w) \<or> k \<in> set out" by simp
  then show "k \<in> set (wv_lines w) \<or> (\<exists>y \<in> N. fst k = addr y \<and> (fit W y (snd k) \<or> other y (snd k)))"
    using sent_within [OF out x, of k] by auto
qed (use x s wave_invD(1) [OF i] in \<open>simp_all add: outputs_def subset_insertI\<close>)

text \<open>A copy is read: of the packet again, of the packet for the first time, of another packet.\<close>

lemma wave_turn_inv:
  assumes i: "wave_inv u W w" and l: "l \<in> set (wv_lines w)" and x: "x \<in> N" "fst l = addr x" and t: "when_ok t"
  defines "w' \<equiv> wave_turn turn t x l w"
  shows "\<exists>W'. W \<subseteq> W' \<and> (W = {} \<longrightarrow> W' = {}) \<and> wave_inv u W' w' \<and>
    left mine (wv_lines w') + load deg (N - W') + (if mine (snd l) then 1 else 0) \<le> left mine (wv_lines w) + load deg (N - W)"
proof -
  obtain s out got where r: "turn t (snd l) (wv_nodes w x) = (s, out, got)" by (metis prod_cases3)
  have w: "wv_nodes w' = (wv_nodes w)(x := s)" "wv_lines w' = remove1 l (wv_lines w) @ out"
    using r by (simp_all add: w'_def wave_turn_def)
  have o: "outputs w' y = outputs w y @ (if y = x then got else [])" for y unfolding w'_def outputs_turn by (simp add: r)
  have old: "k \<in> set (remove1 l (wv_lines w)) \<Longrightarrow> k \<in> set (wv_lines w)" for k using set_remove1_subset [of l "wv_lines w"] by blast
  have away: "addr z \<in> heads mine (wv_lines w')" if "z \<in> N" "z \<noteq> x \<or> \<not> mine (snd l)" "addr z \<in> heads mine (wv_lines w)" for z
    using heads_remove1 [OF that(3), of l] that(1,2) own_address [OF that(1) x(1)] x(2) by (auto simp: w(2))
  have len: "left mine (wv_lines w') + (if mine (snd l) then 1 else 0) = left mine (wv_lines w) + left mine out"
    using left_remove1 [OF l, of mine] by (simp add: w(2))
  note here = wave_invD(3) [OF i x(1)]
  consider (again) "mine (snd l)" "x \<in> W" | (first) "mine (snd l)" "x \<notin> W" | (other) "\<not> mine (snd l)" by blast
  then show ?thesis
  proof cases
    case again
    have q: "aware x s" "out = []" "got = []"
      using reads_again [OF again(2) wave_invD(2) [OF i] _ line_here(1) [OF i l x again(1)] t r] here again(2) by simp_all
    have "wave_inv u W w'"
      by (rule inv_after [OF i, where x = x and s = s and gs = "[]"])
        (use wave_invD(1) [OF i] x(1) again(2) away in \<open>auto simp: w o q old subset_insertI\<close>)
    then show ?thesis using len q again(1) by (intro exI [of _ W]) simp
  next
    case first
    have f: "fit W x (snd l)" by (rule line_here(1) [OF i l x first(1)])
    have "fresh x (wv_nodes w x)" using here first(2) by simp
    note q = reads_first [OF x(1) first(2) wave_invD(2) [OF i] this f t r]
    have u: "u \<in> W" using fit_mine [OF f] wave_invD(1) [OF i] by blast
    have h: "heads mine out = fst ` set out" using q heads_own by blast
    have "wave_inv u (insert x W) w'"
    proof (rule inv_after [OF i, where x = x and s = s and gs = got])
      fix k assume "k \<in> set (wv_lines w')"
      then show "k \<in> set (wv_lines w) \<or> (\<exists>y \<in> N. fst k = addr y \<and> (fit (insert x W) y (snd k) \<or> other y (snd k)))"
        using sent_within [of out x "fit (insert x W)" k] q x(1) old unfolding w(2) set_append by blast
    next
      show "got = [] \<and> (x \<in> W \<or> x \<notin> insert x W - {u}) \<or> x \<in> insert x W - {u} \<and> x \<notin> W \<and> receipt (insert x W) x got"
        using q u first(2) by blast
    next
      show "quiet x \<or> (\<forall>z. hears x z \<longrightarrow> z \<in> insert x W \<or> addr z \<in> heads mine (wv_lines w'))"
        using q by (auto simp: w(2) h)
    qed (use x(1) w(1) o q away u in auto)
    moreover have "load deg (N - W) = deg x + load deg (N - insert x W)"
    proof -
      have rest: "N - W = insert x (N - insert x W)" using first(2) x(1) by blast
      show ?thesis using finite_nodes by (subst rest) (simp add: load_def)
    qed
    moreover have "left mine out \<le> deg x" using left_le [of mine out] q by linarith
    ultimately show ?thesis using len u by (intro exI [of _ "insert x W"]) auto
  next
    case other
    have "fresh x (wv_nodes w x) \<or> aware x (wv_nodes w x)" using here by (simp split: if_splits)
    note q = reads_other [OF x(1) this line_here(2) [OF i l x other] t r]
    have none: "left mine out = 0" using q other_not_mine by (auto simp: left_def filter_empty_conv)
    have "wave_inv u W w'"
    proof (rule inv_after [OF i, where x = x and s = s and gs = "[]"])
      fix k assume "k \<in> set (wv_lines w')"
      then show "k \<in> set (wv_lines w) \<or> (\<exists>y \<in> N. fst k = addr y \<and> (fit W y (snd k) \<or> other y (snd k)))"
        using sent_within [of out x other k] q x(1) old unfolding w(2) set_append by blast
    qed (use x(1) w(1) o q away other wave_invD(1) [OF i] here in \<open>auto split: if_splits\<close>)
    then show ?thesis using len none other by (intro exI [of _ W]) simp
  qed
qed

text \<open>A network in which only the packet is under way.\<close>

lemma run_inv:
  assumes "wave_inv u W0 w0" and "(wave_step turn when_ok addr N ^^ k) w0 w" and all: "\<And>m. mine m"
  shows "\<exists>W. W0 \<subseteq> W \<and> wave_inv u W w \<and> k + length (wv_lines w) + load deg (N - W) \<le> length (wv_lines w0) + load deg (N - W0)"
  using assms(2)
proof (induction k arbitrary: w)
  case 0
  then show ?case using assms(1) by auto
next
  case (Suc k)
  then obtain w1 where w1: "(wave_step turn when_ok addr N ^^ k) w0 w1" "wave_step turn when_ok addr N w1 w" by auto
  from Suc.IH [OF w1(1)] obtain W where W: "W0 \<subseteq> W" "wave_inv u W w1"
    "k + length (wv_lines w1) + load deg (N - W) \<le> length (wv_lines w0) + load deg (N - W0)" by blast
  from w1(2) show ?case
  proof cases
    case (wave_read l x t)
    from wave_turn_inv [OF W(2) wave_read(2-5)] obtain W' where "W \<subseteq> W'" "wave_inv u W' w"
      "left mine (wv_lines w) + load deg (N - W') + 1 \<le> left mine (wv_lines w1) + load deg (N - W)"
      using all wave_read(1) by auto
    then show ?thesis using W(1,3) by (intro exI [of _ W']) (auto simp: left_all [OF all])
  qed
qed

lemma goes_on:
  assumes "wave_inv u W w" and "wv_lines w \<noteq> []"
  shows "\<exists>w'. wave_step turn when_ok addr N w w'"
proof -
  obtain l where l: "l \<in> set (wv_lines w)" using assms(2) by (cases "wv_lines w") auto
  from wave_invD(4) [OF assms(1) l] obtain x where "x \<in> N" "fst l = addr x" by blast
  moreover obtain t where "when_ok t" using some_time by blast
  ultimately show ?thesis using wave_read [OF l] by metis
qed

text \<open>When no copy is left, all that is reached through nodes that pass the packet on has met it.\<close>

lemma wave_over:
  assumes "wave_inv u W w" and "u \<in> W" and "heads mine (wv_lines w) = {}" and "(\<lambda>y z. \<not> quiet y \<and> hears y z)\<^sup>*\<^sup>* u x"
  shows "x \<in> W"
  using assms(4)
proof (induction rule: rtranclp_induct)
  case base
  then show ?case using assms(2) .
next
  case (step y z)
  then show ?case using wave_invD(5) [OF assms(1), of y] assms(3) by simp
qed

end

end
