(* ===== verification/Net_Flood.thy ===== *)
theory Net_Flood
  imports Net_Journey Net_Wave
begin

text \<open>
  A message in a network of flooding nodes. Copies travel as bytes along live links; whichever
  of them is read next, by the node at the address it was sent to, is handled there. The links
  do not change while the message is under way, and every node handles its copies within the
  sixty seconds for which it remembers the message.
\<close>

section \<open>Flooding nodes\<close>

fun delivered :: "event list \<Rightarrow> packet list" where
  "delivered [] = []"
| "delivered (Deliver p # es) = p # delivered es"
| "delivered (e # es) = delivered es"

text \<open>A node reads a line: what it then is, the lines it sends with their addresses, what it delivers.\<close>

definition message_reader :: "(gotime, node, string, string, packet) reader" where
  "message_reader now line n =
     (case decode line of None \<Rightarrow> (n, [], [])
      | Some p \<Rightarrow> (case handle_message now p n of (n', out) \<Rightarrow> (n', wire_out n' out, delivered out)))"

definition on_time :: "gotime \<Rightarrow> duration \<Rightarrow> gotime \<Rightarrow> bool" where
  "on_time start d now \<longleftrightarrow> start \<le> now \<and> now \<le> start + d"

text \<open>A flooding node that knows the others by the same plan and has not seen the message.\<close>

definition floods :: "string set \<Rightarrow> (string \<Rightarrow> node) \<Rightarrow> string \<Rightarrow> string \<Rightarrow> bool" where
  "floods N ns mid x \<longleftrightarrow>
     node_inv (ns x) \<and> nd_id (ns x) = x \<and> utf8_valid (nd_addr (ns x)) \<and> nd_addr (ns x) \<noteq> [] \<and> (\<exists>s. nd_alg (ns x) = IsFlooding s) \<and>
     seen_at (nd_seen (ns x)) mid = None \<and> set (live_neighbors (ns x)) \<subseteq> N \<and>
     (\<forall>v \<in> N. node_local_id (ns x) (nd_addr (ns v)) = v \<and> endpoint (nd_names (ns x)) v = Some (nd_addr (ns v)))"

definition hears :: "(string \<Rightarrow> node) \<Rightarrow> string \<Rightarrow> string \<Rightarrow> bool" where
  "hears ns y z \<longleftrightarrow> z \<in> set (live_neighbors (ns y))"

text \<open>The nodes a copy has been through: from the origin along live links, none twice.\<close>

definition trail :: "(string \<Rightarrow> node) \<Rightarrow> string \<Rightarrow> string set \<Rightarrow> string list \<Rightarrow> bool" where
  "trail ns u W path \<longleftrightarrow> path \<noteq> [] \<and> hd path = u \<and> successively (hears ns) path \<and> distinct path \<and> set path \<subseteq> W"

text \<open>A copy on its way to \<open>x\<close>; it has not been through the destination.\<close>

definition copy_for :: "(string \<Rightarrow> node) \<Rightarrow> string \<Rightarrow> string \<Rightarrow> string \<Rightarrow> string \<Rightarrow> string set \<Rightarrow> string \<Rightarrow> string \<Rightarrow> bool" where
  "copy_for ns u v mid msg W x line \<longleftrightarrow> (\<exists>q path. in_transit ns v mid msg q line \<and> trail ns u (W - {v}) path \<and>
     trace q = map (\<lambda>y. nd_addr (ns y)) path \<and> sint (p_ttl q) = 17 - int (length path) \<and>
     header_string q header_via = nd_addr (ns (last path)) \<and> hears ns (last path) x)"

lemma trail_mono: "trail ns u W path \<Longrightarrow> W \<subseteq> W' \<Longrightarrow> trail ns u W' path"
  by (auto simp: trail_def)

lemma copy_mono: "copy_for ns u v mid msg W x line \<Longrightarrow> W \<subseteq> W' \<Longrightarrow> copy_for ns u v mid msg W' x line"
  unfolding copy_for_def using trail_mono by (meson Diff_mono subset_refl)

lemma trail_snoc:
  "trail ns u W path \<Longrightarrow> hears ns (last path) x \<Longrightarrow> x \<notin> W \<Longrightarrow> trail ns u (insert x W) (path @ [x])"
  by (auto simp: trail_def successively_append_iff)

lemma trail_reach: "trail ns u W path \<Longrightarrow> (hears ns)\<^sup>*\<^sup>* u (last path)"
proof -
  have "path \<noteq> [] \<Longrightarrow> successively (hears ns) path \<Longrightarrow> (hears ns)\<^sup>*\<^sup>* (hd path) (last path)" for path
    by (induction path rule: induct_list012) (auto intro: converse_rtranclp_into_rtranclp)
  then show "trail ns u W path \<Longrightarrow> (hears ns)\<^sup>*\<^sup>* u (last path)" by (auto simp: trail_def)
qed

text \<open>What a flooding node makes of the algorithm's question.\<close>

lemma flood_hops:
  assumes "nd_alg n = IsFlooding s"
  shows "fst (alg_forward (fabric_of n) p (nd_alg n)) =
    filter (\<lambda>z. z \<noteq> previous_hop_id (fabric_of n) p) (live_neighbors n)"
  using assms by (simp add: flooding_ops_def flooding_forward_def flood_filter fabric_of_def)

lemma hop_by_via: "header_string p header_via = a \<Longrightarrow> a \<noteq> [] \<Longrightarrow> previous_hop_id (fabric_of n) p = node_local_id n a"
  by (simp add: previous_hop_id_def fabric_of_def)

text \<open>The lines that carry one packet to several neighbours.\<close>

lemma wire_of_copies:
  assumes "sends out = map (\<lambda>z. (z, q)) zs" and "encode q = Some line"
    and "\<forall>z \<in> set zs. endpoint (nd_names n) z = Some (f z)"
  shows "wire_out n out = map (\<lambda>z. (f z, line)) zs"
proof -
  have "concat (map (\<lambda>(nb, q). case node_send_to n nb q of None \<Rightarrow> []
      | Some (a, q) \<Rightarrow> (case encode q of None \<Rightarrow> [] | Some data \<Rightarrow> [(a, data)])) (map (\<lambda>z. (z, q)) zs)) = map (\<lambda>z. (f z, line)) zs"
    using assms(2,3) by (induction zs) (simp_all add: node_send_to_def)
  then show ?thesis by (simp add: wire_out_def assms(1))
qed

lemma delivered_none: "(\<And>d. Deliver d \<notin> set es) \<Longrightarrow> delivered es = []"
  by (induction es rule: delivered.induct) auto

lemma floods_addr: "floods N ns mid x \<Longrightarrow> y \<in> N \<Longrightarrow> z \<in> N \<Longrightarrow> nd_addr (ns y) = nd_addr (ns z) \<longleftrightarrow> y = z"
  unfolding floods_def by metis

lemma hears_in: "floods N ns mid y \<Longrightarrow> hears ns y z \<Longrightarrow> z \<in> N"
  by (auto simp: floods_def hears_def)

lemma copy_read:
  assumes "copy_for ns u v mid msg W x line" and "\<forall>y \<in> W. floods N ns mid y" and "W \<subseteq> N" and "v \<in> N" and "card N \<le> 16" and "finite N"
  obtains p path where "decode line = Some p" "own_packet p" "p_to p = nd_addr (ns v)" "payload_text p = Some msg"
    "header_string p header_msg_id = mid" "trace p = map (\<lambda>y. nd_addr (ns y)) path" "1 < sint (p_ttl p)"
    "sint (p_ttl p) = 17 - int (length path)" "header_string p header_via = nd_addr (ns (last path))"
    "trail ns u (W - {v}) path" "hears ns (last path) x"
proof -
  obtain q path where q: "in_transit ns v mid msg q line" "trail ns u (W - {v}) path" "trace q = map (\<lambda>y. nd_addr (ns y)) path"
    "sint (p_ttl q) = 17 - int (length path)" "header_string q header_via = nd_addr (ns (last path))" "hears ns (last path) x"
    using assms(1) unfolding copy_for_def by blast
  note t = transit_read [OF q(1)]
  have "own_packet q" using q(1) by (simp add: in_transit_def)
  then have via: "header_string (received q) header_via = header_string q header_via"
    by (intro header_string_received own_headers_ok)
  have "set path \<subseteq> N - {v}" using q(2) assms(3) by (auto simp: trail_def)
  then have "card (set path) \<le> card (N - {v})" using assms(6) by (intro card_mono) auto
  also have "\<dots> < 16" using card_Diff1_less [OF assms(6,4)] assms(5) by simp
  finally have "length path < 16" using q(2) by (simp add: trail_def distinct_card)
  then show thesis using that [OF t(1,2,3,4,5)] t(6,7) q via by simp
qed

section \<open>Within its window the cache knows the message exactly when the node has seen it\<close>

lemma seen_window:
  assumes "seen_ok c" "sc_ttl c = d" "mid \<noteq> []" "on_time start d now" "0 \<le> d" "d < 9223372036854775807"
  shows "seen_at c mid = None \<Longrightarrow> \<not> fst (seen now mid c) \<and> seen_at (snd (seen now mid c)) mid = Some now"
    and "seen_at c mid = Some t \<Longrightarrow> start \<le> t \<Longrightarrow> fst (seen now mid c) \<and> seen_at (snd (seen now mid c)) mid = Some t"
proof -
  have late: "d < time_sub now t \<longleftrightarrow> d < now - t" for t using assms(5,6) by (rule time_sub_gt)
  show "seen_at c mid = None \<Longrightarrow> \<not> fst (seen now mid c) \<and> seen_at (snd (seen now mid c)) mid = Some now"
    using assms by (auto simp: fst_seen seen_at_seen)
  show "seen_at c mid = Some t \<Longrightarrow> start \<le> t \<Longrightarrow> fst (seen now mid c) \<and> seen_at (snd (seen now mid c)) mid = Some t"
    using assms by (auto simp: fst_seen seen_at_seen seen_at_evict late on_time_def)
qed

text \<open>A node that has met the message is what it was but for the cache.\<close>

definition met :: "(string \<Rightarrow> node) \<Rightarrow> gotime \<Rightarrow> string \<Rightarrow> string \<Rightarrow> node \<Rightarrow> bool" where
  "met ns start mid x n \<longleftrightarrow> (\<exists>c t. n = (ns x)\<lparr>nd_seen := c\<rparr> \<and> seen_ok c \<and> sc_ttl c = message_seen_ttl \<and>
     seen_at c mid = Some t \<and> start \<le> t)"

definition flood_plan :: "(string \<Rightarrow> node) \<Rightarrow> string set \<Rightarrow> string \<Rightarrow> string \<Rightarrow> bool" where
  "flood_plan ns N mid v \<longleftrightarrow> finite N \<and> card N \<le> 16 \<and> (\<forall>x \<in> N. floods N ns mid x) \<and> v \<in> N \<and> mid \<noteq> []"

text \<open>The network, if it is one the argument is about.\<close>

definition on_plan :: "bool \<Rightarrow> 'i set \<Rightarrow> 'i set" where
  "on_plan plan N = (if plan then N else {})"

lemma on_plan_simps [simp]: "on_plan True N = N" "x \<in> on_plan P N \<longleftrightarrow> P \<and> x \<in> N"
  by (simp_all add: on_plan_def)

text \<open>What the destination delivers, and nobody else.\<close>

definition receives :: "(string \<Rightarrow> node) \<Rightarrow> string \<Rightarrow> string \<Rightarrow> string \<Rightarrow> string set \<Rightarrow> string \<Rightarrow> packet list \<Rightarrow> bool" where
  "receives ns u v msg W x gs \<longleftrightarrow>
     (if x = v then \<exists>p path. gs = [p] \<and> payload_text p = Some msg \<and> trail ns u (W - {v}) path \<and> hears ns (last path) v \<and>
        trace p = map (\<lambda>y. nd_addr (ns y)) path
      else gs = [])"

section \<open>One turn\<close>

lemma reader_shape:
  assumes "decode line = Some p" "header_string p header_msg_id = mid"
  shows "message_reader now line ((ns x)\<lparr>nd_seen := c\<rparr>) =
    (let out = snd (handle_message now p ((ns x)\<lparr>nd_seen := c\<rparr>))
     in ((ns x)\<lparr>nd_seen := snd (seen now mid c)\<rparr>, wire_out (ns x) out, delivered out))"
proof -
  have w: "wire_out ((ns x)\<lparr>nd_seen := c'\<rparr>) out = wire_out (ns x) out" for c' out
    by (simp add: wire_out_def node_send_to_def)
  show ?thesis using assms by (simp add: message_reader_def handle_message_cases Let_def w)
qed

lemma out_known:
  "fst (seen now (header_string p header_msg_id) (nd_seen n)) \<Longrightarrow>
   wire_out m (snd (handle_message now p n)) = [] \<and> delivered (snd (handle_message now p n)) = []"
  by (simp add: handle_message_cases wire_out_def)

lemma out_here:
  "\<not> fst (seen now (header_string p header_msg_id) (nd_seen n)) \<Longrightarrow> node_local_id n (p_to p) = nd_id n \<Longrightarrow>
   payload_text p = Some msg \<Longrightarrow>
   wire_out m (snd (handle_message now p n)) = [] \<and> delivered (snd (handle_message now p n)) = [p]"
  by (simp add: handle_message_cases wire_out_def)

lemma out_relayed:
  assumes "floods N ns mid x" and "x \<in> N" and "v \<in> N" and "x \<noteq> v" and "\<not> fst (seen now mid c)" and "last path \<in> N"
    and "own_packet p" "p_to p = nd_addr (ns v)" "payload_text p = Some msg" "header_string p header_msg_id = mid"
      "trace p = map (\<lambda>y. nd_addr (ns y)) path" "1 < sint (p_ttl p)" "sint (p_ttl p) = 17 - int (length path)"
      "header_string p header_via = nd_addr (ns (last path))" "trail ns u (W - {v}) path" "hears ns (last path) x" "x \<notin> W"
    and "nd_addr (ns (last path)) \<noteq> []"
  defines "out \<equiv> snd (handle_message now p ((ns x)\<lparr>nd_seen := c\<rparr>))"
  shows "delivered out = []"
    and "\<exists>line. wire_out (ns x) out = map (\<lambda>z. (nd_addr (ns z), line)) (filter (\<lambda>z. z \<noteq> last path) (live_neighbors (ns x))) \<and>
      (\<forall>z \<in> set (live_neighbors (ns x)). copy_for ns u v mid msg (insert x W) z line)"
proof -
  let ?n = "(ns x)\<lparr>nd_seen := c\<rparr>" and ?zs = "filter (\<lambda>z. z \<noteq> last path) (live_neighbors (ns x))"
  from assms(1) obtain s where f: "nd_id (ns x) = x" "utf8_valid (nd_addr (ns x))" "nd_addr (ns x) \<noteq> []" "nd_alg (ns x) = IsFlooding s"
    "set (live_neighbors (ns x)) \<subseteq> N" and plan: "\<forall>v \<in> N. node_local_id (ns x) (nd_addr (ns v)) = v \<and> endpoint (nd_names (ns x)) v = Some (nd_addr (ns v))"
    unfolding floods_def by blast
  have loc: "node_local_id ?n a = node_local_id (ns x) a" for a using local_id_cong [of ?n "ns x"] by simp
  have away: "node_local_id ?n (p_to p) \<noteq> nd_id ?n" using plan assms(3,4) by (simp add: loc assms(8) f(1))
  have new: "\<not> fst (seen now (header_string p header_msg_id) (nd_seen ?n))" using assms(5) by (simp add: assms(10))
  have addr: "utf8_valid (nd_addr ?n)" using f(2) by simp
  note r = relayed_to [OF away assms(7,12) addr new]
  define q where "q = handed_on (nd_addr (ns x)) p"
  note g = handed_on_facts [OF assms(7,12) f(2), folded q_def]
  show "delivered out = []" unfolding out_def using r(2) by (rule delivered_none)
  have "fst (alg_forward (fabric_of ?n) p (nd_alg ?n)) = ?zs"
    using flood_hops [of "ns x" s p] f(4) hop_by_via [OF assms(14,18), of "ns x"] plan assms(6) by (simp add: fabric_of_seen)
  with r(1) have sends: "sends out = map (\<lambda>z. (z, q)) ?zs" by (simp add: out_def q_def)
  have "\<not> int_le (p_ttl q) 0" using g(2) assms(12) by (simp add: int_le_def)
  from own_received [OF g(1) this] obtain line where line: "encode q = Some line" by blast
  have "in_transit ns v mid msg q line" using g line assms(8,9,10,12) by (simp add: in_transit_def payload_text_def)
  moreover have "trail ns u (insert x W - {v}) (path @ [x])"
    using trail_snoc [OF assms(15,16)] assms(4,17) by (simp add: insert_Diff_if)
  ultimately have "copy_for ns u v mid msg (insert x W) z line" if "z \<in> set (live_neighbors (ns x))" for z
    unfolding copy_for_def using g assms(11,13) that by (intro exI [of _ q] exI [of _ "path @ [x]"]) (simp add: hears_def)
  moreover have "wire_out (ns x) out = map (\<lambda>z. (nd_addr (ns z), line)) ?zs"
    using wire_of_copies [OF sends line, of "ns x" "\<lambda>z. nd_addr (ns z)"] plan f(5) by auto
  ultimately show "\<exists>line. wire_out (ns x) out = map (\<lambda>z. (nd_addr (ns z), line)) ?zs \<and>
      (\<forall>z \<in> set (live_neighbors (ns x)). copy_for ns u v mid msg (insert x W) z line)" by blast
qed

lemma message_again:
  assumes "flood_plan ns N mid v" "W \<subseteq> N" "met ns start mid x n" "copy_for ns u v mid msg W x line"
    "on_time start message_seen_ttl now" "message_reader now line n = (n', out, got)"
  shows "met ns start mid x n' \<and> out = [] \<and> got = []"
proof -
  obtain c t where c: "n = (ns x)\<lparr>nd_seen := c\<rparr>" "seen_ok c" "sc_ttl c = message_seen_ttl" "seen_at c mid = Some t" "start \<le> t"
    using assms(3) unfolding met_def by blast
  obtain p where p: "decode line = Some p" "header_string p header_msg_id = mid"
    using copy_read [OF assms(4) _ assms(2)] assms(1,2) unfolding flood_plan_def by blast
  have "0 \<le> message_seen_ttl" "message_seen_ttl < 9223372036854775807" "mid \<noteq> []"
    using assms(1) by (simp_all add: message_seen_ttl_def second_def flood_plan_def)
  with seen_window(2) [OF c(2,3) _ assms(5)] c(4,5)
  have s: "fst (seen now mid c)" "seen_at (snd (seen now mid c)) mid = Some t" by blast+
  then have "n' = (ns x)\<lparr>nd_seen := snd (seen now mid c)\<rparr>" "out = []" "got = []"
    using reader_shape [OF p, where now = now and ns = ns and x = x and c = c] assms(6) out_known [of now p "(ns x)\<lparr>nd_seen := c\<rparr>"] p(2) c(1)
    by (simp_all add: Let_def)
  then show ?thesis using s(2) c(3,5) seen_ok_seen [OF c(2)] by (auto simp: met_def)
qed

lemma message_first:
  assumes plan: "flood_plan ns N mid v" and x: "x \<in> N" "x \<notin> W" and W: "W \<subseteq> N" and n: "n = ns x"
    and line: "copy_for ns u v mid msg W x line" and t: "on_time start message_seen_ttl now"
    and r: "message_reader now line n = (n', out, got)"
  shows "met ns start mid x n' \<and> length out \<le> length (live_neighbors (ns x)) \<and> receives ns u v msg (insert x W) x got \<and>
    (\<forall>l \<in> set out. \<exists>y. hears ns x y \<and> fst l = nd_addr (ns y) \<and> copy_for ns u v mid msg (insert x W) y (snd l)) \<and>
    (x = v \<or> (\<forall>y. hears ns x y \<longrightarrow> y \<in> insert x W \<or> nd_addr (ns y) \<in> fst ` set out))"
proof -
  have N: "\<forall>y \<in> N. floods N ns mid y" "v \<in> N" "mid \<noteq> []" "card N \<le> 16" "finite N" using plan by (simp_all add: flood_plan_def)
  define c where "c = nd_seen (ns x)"
  have "floods N ns mid x" using N(1) x(1) by blast
  then have c: "n = (ns x)\<lparr>nd_seen := c\<rparr>" "seen_ok c" "sc_ttl c = message_seen_ttl" "seen_at c mid = None"
    by (simp_all add: n c_def floods_def node_inv_def)
  obtain p path where p: "decode line = Some p" "own_packet p" "p_to p = nd_addr (ns v)" "payload_text p = Some msg"
    "header_string p header_msg_id = mid" "trace p = map (\<lambda>y. nd_addr (ns y)) path" "1 < sint (p_ttl p)"
    "sint (p_ttl p) = 17 - int (length path)" "header_string p header_via = nd_addr (ns (last path))"
    "trail ns u (W - {v}) path" "hears ns (last path) x"
    using copy_read [OF line _ W N(2,4,5)] N(1) W by blast
  have "0 \<le> message_seen_ttl" "message_seen_ttl < 9223372036854775807" by (simp_all add: message_seen_ttl_def second_def)
  with seen_window(1) [OF c(2,3) N(3) t] c(4)
  have s: "\<not> fst (seen now mid c)" "seen_at (snd (seen now mid c)) mid = Some now" by blast+
  define es where "es = snd (handle_message now p ((ns x)\<lparr>nd_seen := c\<rparr>))"
  have o: "n' = (ns x)\<lparr>nd_seen := snd (seen now mid c)\<rparr>" "out = wire_out (ns x) es" "got = delivered es"
    using reader_shape [OF p(1,5), where now = now and ns = ns and x = x and c = c] r c(1) by (simp_all add: es_def Let_def)
  have met: "met ns start mid x n'"
    using s(2) t seen_ok_seen [OF c(2)] c(3) by (auto simp: met_def o(1) on_time_def)
  have "last path \<in> set path" using p(10) by (simp add: trail_def)
  then have last: "last path \<in> W" using p(10) unfolding trail_def by blast
  show ?thesis
  proof (cases "x = v")
    case True
    have "node_local_id ((ns x)\<lparr>nd_seen := c\<rparr>) (p_to p) = nd_id ((ns x)\<lparr>nd_seen := c\<rparr>)"
      using N(1,2) True p(3) local_id_cong [of "(ns x)\<lparr>nd_seen := c\<rparr>" "ns x"] by (simp add: floods_def)
    then have "out = []" "got = [p]"
      using out_here [of now p "(ns x)\<lparr>nd_seen := c\<rparr>" msg] s(1) p(4,5) by (simp_all add: o es_def)
    moreover have "trail ns u (insert x W - {v}) path" by (rule trail_mono [OF p(10)]) blast
    ultimately show ?thesis using met True p(4,6,11) by (auto simp: receives_def)
  next
    case False
    have nb: "last path \<in> N" "nd_addr (ns (last path)) \<noteq> []" using last W N(1) by (auto simp: floods_def)
    have fx: "floods N ns mid x" using N(1) x(1) by blast
    note q = out_relayed [OF fx x(1) N(2) False s(1) nb(1) p(2-11) x(2) nb(2), folded es_def]
    let ?zs = "filter (\<lambda>z. z \<noteq> last path) (live_neighbors (ns x))"
    from q(2) obtain l where l: "out = map (\<lambda>z. (nd_addr (ns z), l)) ?zs"
      "\<forall>z \<in> set (live_neighbors (ns x)). copy_for ns u v mid msg (insert x W) z l" unfolding o(2) by blast
    have "length out \<le> length (live_neighbors (ns x))" by (simp add: l(1))
    moreover have "\<forall>k \<in> set out. \<exists>y. hears ns x y \<and> fst k = nd_addr (ns y) \<and> copy_for ns u v mid msg (insert x W) y (snd k)"
      using l(2) by (auto simp: l(1) hears_def)
    moreover have "\<forall>y. hears ns x y \<longrightarrow> y \<in> insert x W \<or> nd_addr (ns y) \<in> fst ` set out"
      using last by (auto simp: l(1) hears_def image_iff)
    ultimately show ?thesis using met False q(1) by (simp add: receives_def o(3))
  qed
qed

interpretation msg: flood_wave message_reader "on_time start message_seen_ttl" "\<lambda>x. nd_addr (ns x)" "on_plan (flood_plan ns N mid v) N"
    "hears ns" "\<lambda>x. length (live_neighbors (ns x))" "\<lambda>x. x = v" "\<lambda>x n. n = ns x" "met ns start mid" "\<lambda>line. True"
    "copy_for ns u v mid msg" "\<lambda>x line. False" "receives ns u v msg"
  for ns N mid u v msg start
proof unfold_locales
  show "finite (on_plan (flood_plan ns N mid v) N)" by (simp add: on_plan_def flood_plan_def)
  show "x \<in> on_plan (flood_plan ns N mid v) N \<Longrightarrow> y \<in> on_plan (flood_plan ns N mid v) N \<Longrightarrow> nd_addr (ns x) = nd_addr (ns y) \<Longrightarrow> x = y" for x y
    using floods_addr [of N ns mid x x y] by (auto simp: flood_plan_def)
  show "x \<in> on_plan (flood_plan ns N mid v) N \<Longrightarrow> hears ns x y \<Longrightarrow> y \<in> on_plan (flood_plan ns N mid v) N" for x y
    using hears_in [of N ns mid x y] by (auto simp: flood_plan_def)
  show "copy_for ns u v mid msg W x m \<Longrightarrow> True \<and> W \<noteq> {}" for W x m by (auto simp: copy_for_def trail_def)
  show "copy_for ns u v mid msg W x m \<Longrightarrow> W \<subseteq> W' \<Longrightarrow> copy_for ns u v mid msg W' x m" for W x m W' by (rule copy_mono)
  show "receives ns u v msg W x gs \<Longrightarrow> W \<subseteq> W' \<Longrightarrow> receives ns u v msg W' x gs" for W x gs W'
    using trail_mono [of ns u "W - {v}" _ "W' - {v}"] unfolding receives_def by (metis (full_types) Diff_mono subset_refl)
  show "\<exists>t. on_time start message_seen_ttl t" by (auto simp: on_time_def message_seen_ttl_def second_def)
  show "x \<in> W \<Longrightarrow> W \<subseteq> on_plan (flood_plan ns N mid v) N \<Longrightarrow> met ns start mid x s \<Longrightarrow> copy_for ns u v mid msg W x m \<Longrightarrow>
      on_time start message_seen_ttl t \<Longrightarrow> message_reader t m s = (s', out, got) \<Longrightarrow> met ns start mid x s' \<and> out = [] \<and> got = []"
    for x W s m t s' out got
    using message_again [of ns N mid v W start x s u msg m t s' out got] by (auto simp: on_plan_def split: if_splits)
  show "x \<in> on_plan (flood_plan ns N mid v) N \<Longrightarrow> x \<notin> W \<Longrightarrow> W \<subseteq> on_plan (flood_plan ns N mid v) N \<Longrightarrow> s = ns x \<Longrightarrow>
      copy_for ns u v mid msg W x m \<Longrightarrow> on_time start message_seen_ttl t \<Longrightarrow> message_reader t m s = (s', out, got) \<Longrightarrow>
      met ns start mid x s' \<and> length out \<le> length (live_neighbors (ns x)) \<and> receives ns u v msg (insert x W) x got \<and>
      (\<forall>l \<in> set out. \<exists>y. hears ns x y \<and> fst l = nd_addr (ns y) \<and> copy_for ns u v mid msg (insert x W) y (snd l)) \<and>
      (x = v \<or> (\<forall>y. hears ns x y \<longrightarrow> y \<in> insert x W \<or> nd_addr (ns y) \<in> fst ` set out))"
    for x W s m t s' out got
    using message_first [of ns N mid v x W s u msg m start t s' out got] by (auto simp: on_plan_def split: if_splits)
qed simp_all

section \<open>From the first copies to the last\<close>

lemma sent_copies:
  assumes plan: "flood_plan ns N mid v" and uv: "u \<in> N" "u \<noteq> v" "v \<noteq> ''*''" and msg: "utf8_valid mid" "utf8_valid msg"
    and send: "node_send start mid v msg (ns u) = ((e, n'), out)"
  shows "met ns start mid u n'"
    and "\<exists>line. wire_out (ns u) out = map (\<lambda>z. (nd_addr (ns z), line)) (filter (\<lambda>z. z \<noteq> u) (live_neighbors (ns u))) \<and>
      (\<forall>z. hears ns u z \<longrightarrow> copy_for ns u v mid msg {u} z line)"
proof -
  have N: "floods N ns mid u" "v \<in> N" "mid \<noteq> []" "utf8_valid (nd_addr (ns v))"
    using plan uv(1) by (auto simp: flood_plan_def floods_def)
  then obtain s where f: "nd_id (ns u) = u" "utf8_valid (nd_addr (ns u))" "nd_addr (ns u) \<noteq> []" "nd_alg (ns u) = IsFlooding s"
    "seen_ok (nd_seen (ns u))" "sc_ttl (nd_seen (ns u)) = message_seen_ttl" "seen_at (nd_seen (ns u)) mid = None"
    "set (live_neighbors (ns u)) \<subseteq> N"
    and names: "\<forall>v \<in> N. node_local_id (ns u) (nd_addr (ns v)) = v \<and> endpoint (nd_names (ns u)) v = Some (nd_addr (ns v))"
    unfolding floods_def node_inv_def by blast
  have dest: "node_address (ns u) v = nd_addr (ns v)" using names N(2) uv f(1) by (simp add: node_address_def)
  define q where "q = launched mid (alg_proto (nd_alg (ns u))) (nd_addr (ns u)) (nd_addr (ns v)) msg"
  note g = launched_facts [OF msg(1) N(3) f(2) N(4) msg(2), of "nd_alg (ns u)", folded q_def]
  obtain line where line: "in_transit ns v mid msg q line"
    using launched_in_transit [of mid "nd_addr (ns u)" ns v msg "nd_alg (ns u)"] msg N(3,4) f(2) unfolding q_def by blast
  let ?zs = "filter (\<lambda>z. z \<noteq> u) (live_neighbors (ns u))"
  have hops: "fst (alg_forward (fabric_of (ns u)) q (nd_alg (ns u))) = ?zs"
    using flood_hops [of "ns u" s q] f(4) hop_by_via [OF g(6) f(3), of "ns u"] names uv(1) by simp
  have r: "n' = (ns u)\<lparr>nd_seen := snd (seen start mid (nd_seen (ns u)))\<rparr>" "sends out = map (\<lambda>z. (z, q)) ?zs"
    using sent_to [OF _ send] uv(2) f(1) g(1,5) hops by (simp_all add: dest q_def)
  have "wire_out (ns u) out = map (\<lambda>z. (nd_addr (ns z), line)) ?zs"
    using line names f(8) by (intro wire_of_copies [OF r(2)]) (auto simp: in_transit_def)
  moreover have "trail ns u ({u} - {v}) [u]" using uv(2) by (simp add: trail_def)
  then have "copy_for ns u v mid msg {u} z line" if "hears ns u z" for z
    unfolding copy_for_def using line g that
    by (intro exI [of _ q] exI [of _ "[u]"]) (simp add: default_ttl_def)
  ultimately show "\<exists>line. wire_out (ns u) out = map (\<lambda>z. (nd_addr (ns z), line)) ?zs \<and>
      (\<forall>z. hears ns u z \<longrightarrow> copy_for ns u v mid msg {u} z line)" by blast
  have "\<not> fst (seen start mid (nd_seen (ns u)))" using f(5,7) by (simp add: fst_seen)
  then have "seen_at (snd (seen start mid (nd_seen (ns u)))) mid = Some start" using f(5) N(3) by (simp add: seen_at_seen)
  then show "met ns start mid u n'" using f(5,6) seen_ok_seen by (auto simp: met_def r(1))
qed

lemma wave_starts:
  assumes plan: "flood_plan ns N mid v" and uv: "u \<in> N" "u \<noteq> v" "v \<noteq> ''*''" and msg: "utf8_valid mid" "utf8_valid msg"
    and send: "node_send start mid v msg (ns u) = ((e, n'), out)"
  defines "w \<equiv> \<lparr>wv_nodes = ns(u := n'), wv_lines = wire_out (ns u) out, wv_got = []\<rparr>"
  shows "msg.wave_inv ns N mid v start u msg u {u} w" and "length (wv_lines w) \<le> length (live_neighbors (ns u))"
proof -
  note s = sent_copies [OF assms(1-7)]
  obtain line where l: "wire_out (ns u) out = map (\<lambda>z. (nd_addr (ns z), line)) (filter (\<lambda>z. z \<noteq> u) (live_neighbors (ns u)))"
    "\<And>z. hears ns u z \<Longrightarrow> copy_for ns u v mid msg {u} z line" using s(2) by blast
  then show "length (wv_lines w) \<le> length (live_neighbors (ns u))" by (simp add: w_def)
  let ?w = "\<lparr>wv_nodes = ns, wv_lines = [], wv_got = []\<rparr>"
  have 1: "msg.wave_inv ns N mid v start u msg u {} ?w" by (rule msg.wave_begins) simp_all
  have 2: "u \<in> on_plan (flood_plan ns N mid v) N" using plan uv(1) by simp
  have 3: "\<forall>k \<in> set (wire_out (ns u) out). \<exists>y. hears ns u y \<and> fst k = nd_addr (ns y) \<and> copy_for ns u v mid msg {u} y (snd k)"
    using l(2) by (auto simp: l(1) hears_def)
  have 4: "u = v \<or> (\<forall>z. hears ns u z \<longrightarrow> z = u \<or> nd_addr (ns z) \<in> fst ` set (wire_out (ns u) out))"
    by (auto simp: l(1) hears_def image_iff)
  show "msg.wave_inv ns N mid v start u msg u {u} w"
    using msg.sends_first [OF 1 2 s(1) 3 4] by (simp add: w_def)
qed

lemma rtranclp_stop: "r\<^sup>*\<^sup>* u v \<Longrightarrow> (\<lambda>y z. y \<noteq> v \<and> r y z)\<^sup>*\<^sup>* u v"
proof (induction rule: converse_rtranclp_induct)
  case (step y z)
  then show ?case by (cases "y = v") (auto intro: converse_rtranclp_into_rtranclp)
qed simp

lemma got_by_one:
  assumes "\<And>x. x \<noteq> v \<Longrightarrow> outputs w x = []"
  shows "wv_got w = map (Pair v) (outputs w v)"
proof -
  have "fst g = v" if "g \<in> set (wv_got w)" for g
  proof (rule ccontr)
    assume "fst g \<noteq> v"
    then have "outputs w (fst g) = []" by (rule assms)
    then show False using that by (auto simp: outputs_def filter_empty_conv)
  qed
  moreover have "\<forall>g \<in> set gs. fst g = v \<Longrightarrow> map (Pair v \<circ> snd) (filter (\<lambda>(y, g). y = v) gs) = gs" for gs :: "('a \<times> 'b) list"
    by (induction gs) auto
  ultimately show ?thesis by (simp add: outputs_def)
qed

text \<open>At any time: how far the flood is, whether it can go on, and what has come of it.\<close>

lemma wave_outcome:
  assumes i: "msg.wave_inv ns N mid v start u msg u W w" "u \<in> W" and plan: "flood_plan ns N mid v" and "u \<noteq> v"
  shows "wv_lines w \<noteq> [] \<longrightarrow> (\<exists>w'. wave_step message_reader (on_time start message_seen_ttl) (\<lambda>x. nd_addr (ns x)) N w w')"
    and "if v \<in> W then \<exists>p path. wv_got w = [(v, p)] \<and> payload_text p = Some msg \<and> trail ns u (W - {v}) path \<and> hears ns (last path) v \<and>
        trace p = map (\<lambda>y. nd_addr (ns y)) path else wv_got w = []"
    and "wv_lines w = [] \<Longrightarrow> v \<in> W \<longleftrightarrow> (hears ns)\<^sup>*\<^sup>* u v"
proof -
  show "wv_lines w \<noteq> [] \<longrightarrow> (\<exists>w'. wave_step message_reader (on_time start message_seen_ttl) (\<lambda>x. nd_addr (ns x)) N w w')"
    using msg.goes_on [OF i(1)] plan by simp
  have "outputs w x = []" if "x \<noteq> v" for x using msg.wave_invD(6) [OF i(1), of x] that by (auto simp: receives_def split: if_splits)
  from got_by_one [OF this] have "wv_got w = map (Pair v) (outputs w v)" .
  then show got: "if v \<in> W then \<exists>p path. wv_got w = [(v, p)] \<and> payload_text p = Some msg \<and> trail ns u (W - {v}) path \<and> hears ns (last path) v \<and>
        trace p = map (\<lambda>y. nd_addr (ns y)) path else wv_got w = []"
    using msg.wave_invD(6) [OF i(1), of v] assms(4) by (cases "v \<in> W") (fastforce simp: receives_def)+
  have "(hears ns)\<^sup>*\<^sup>* u v" if "v \<in> W"
    using got that trail_reach by (fastforce intro: rtranclp.rtrancl_into_rtrancl)
  then show "wv_lines w = [] \<Longrightarrow> v \<in> W \<longleftrightarrow> (hears ns)\<^sup>*\<^sup>* u v"
    using msg.wave_over [OF i] rtranclp_stop [of "hears ns" u v] by (metis heads_simps(1))
qed

lemma run_ends:
  assumes "\<And>k w. (r ^^ k) w0 w \<Longrightarrow> k \<le> (b::nat)" and "\<And>k w. (r ^^ k) w0 w \<Longrightarrow> \<not> over w \<Longrightarrow> \<exists>w'. r w w'"
  shows "\<exists>k w. (r ^^ k) w0 w \<and> over w \<and> k \<le> b"
proof -
  let ?P = "\<lambda>k. \<exists>w. (r ^^ k) w0 w"
  have "?P 0" by simp
  from GreatestI_nat [of ?P, OF this] assms(1) obtain w where w: "(r ^^ (GREATEST k. ?P k)) w0 w" by blast
  have "\<not> ?P (Suc (GREATEST k. ?P k))" using Greatest_le_nat [of ?P] assms(1) by (metis Suc_n_not_le_n)
  then have "\<not> (\<exists>w'. r w w')" using w by auto
  then show ?thesis using w assms by blast
qed

section \<open>Properties\<close>

text \<open>
  C5: a flood ends, and reaches its destination if anything can. In a network of at most sixteen
  flooding nodes, in whatever order the copies of a sent message are read: no more copies are
  read than there are live links, counted at each end; while copies are left one of them can be
  read; and when none is left the destination has delivered the message exactly once if a path
  of live links leads to it, and nobody has delivered anything otherwise. What is delivered has
  the text that was sent, and its trace is a path of live links from the origin.
\<close>

theorem flood_delivers:
  assumes "finite N" and "card N \<le> 16" and "\<forall>x \<in> N. floods N ns mid x"
    and "u \<in> N" and "v \<in> N" and "u \<noteq> v" and "v \<noteq> ''*''" and "utf8_valid mid" and "mid \<noteq> []" and "utf8_valid msg"
    and "node_send start mid v msg (ns u) = ((e, n'), out)"
    and "(wave_step message_reader (on_time start message_seen_ttl) (\<lambda>x. nd_addr (ns x)) N ^^ k)
      \<lparr>wv_nodes = ns(u := n'), wv_lines = wire_out (ns u) out, wv_got = []\<rparr> w"
  shows "k + length (wv_lines w) \<le> (\<Sum>x \<in> N. length (live_neighbors (ns x))) \<and>
    (wv_lines w \<noteq> [] \<longrightarrow> (\<exists>w'. wave_step message_reader (on_time start message_seen_ttl) (\<lambda>x. nd_addr (ns x)) N w w')) \<and>
    (wv_lines w = [] \<longrightarrow> (wv_got w \<noteq> [] \<longleftrightarrow> (hears ns)\<^sup>*\<^sup>* u v)) \<and>
    (wv_got w = [] \<or> (\<exists>p path. wv_got w = [(v, p)] \<and> payload_text p = Some msg \<and> trace p = map (\<lambda>y. nd_addr (ns y)) path \<and>
       path \<noteq> [] \<and> hd path = u \<and> distinct path \<and> successively (hears ns) (path @ [v])))"
proof -
  have plan: "flood_plan ns N mid v" using assms(1-3,5,9) by (simp add: flood_plan_def)
  note s = wave_starts [OF plan assms(4,6,7,8,10,11)]
  have on: "on_plan (flood_plan ns N mid v) N = N" using plan by simp
  have run: "(wave_step message_reader (on_time start message_seen_ttl) (\<lambda>x. nd_addr (ns x)) (on_plan (flood_plan ns N mid v) N) ^^ k)
      \<lparr>wv_nodes = ns(u := n'), wv_lines = wire_out (ns u) out, wv_got = []\<rparr> w" unfolding on by (rule assms(12))
  obtain W where W: "{u} \<subseteq> W" "msg.wave_inv ns N mid v start u msg u W w"
    "k + length (wv_lines w) \<le> length (wire_out (ns u) out) + load (\<lambda>x. length (live_neighbors (ns x))) (N - {u})"
    using msg.run_inv [OF s(1) run TrueI] on by auto
  have "load (\<lambda>x. length (live_neighbors (ns x))) N = length (live_neighbors (ns u)) + load (\<lambda>x. length (live_neighbors (ns x))) (N - {u})"
    using assms(1,4) by (simp add: load_def sum.remove)
  then have "k + length (wv_lines w) \<le> (\<Sum>x \<in> N. length (live_neighbors (ns x)))"
    using W(3) s(2) by (simp add: load_def)
  moreover have inW: "u \<in> W" using W(1) by simp
  moreover note o = wave_outcome [OF W(2) inW plan assms(6)]
  have "wv_lines w = [] \<longrightarrow> (wv_got w \<noteq> [] \<longleftrightarrow> (hears ns)\<^sup>*\<^sup>* u v)" using o(2,3) by (auto split: if_splits)
  moreover have "wv_got w = [] \<or> (\<exists>p path. wv_got w = [(v, p)] \<and> payload_text p = Some msg \<and> trace p = map (\<lambda>y. nd_addr (ns y)) path \<and>
       path \<noteq> [] \<and> hd path = u \<and> distinct path \<and> successively (hears ns) (path @ [v]))"
    using o(2) by (auto simp: trail_def successively_append_iff split: if_splits)
  ultimately show ?thesis using o(1) by blast
qed

text \<open>The witness: the three nodes in a row, in the flooding mode, each having heard its neighbours.\<close>

definition row_peers :: "string \<Rightarrow> string list" where
  "row_peers u = (if u = ''B'' then [''A'', ''C''] else [''B''])"

definition flood_row :: "string \<Rightarrow> node" where
  "flood_row u = (case new_node (row_options u\<lparr>o_mode := ''flooding''\<rparr>) of
     Inr n \<Rightarrow> fold (\<lambda>nb n. fst (mark_alive second ''0f'' nb n)) (row_peers u) (node_start n) | Inl e \<Rightarrow> sample_b)"

lemma flood_row_facts:
  "list_all (\<lambda>x. (case new_node (row_options x\<lparr>o_mode := ''flooding''\<rparr>) of Inr n \<Rightarrow> True | Inl e \<Rightarrow> False) \<and>
     (case nd_alg (flood_row x) of IsFlooding s \<Rightarrow> True | _ \<Rightarrow> False) \<and> nd_id (flood_row x) = x \<and> utf8_valid (nd_addr (flood_row x)) \<and>
     nd_addr (flood_row x) \<noteq> [] \<and> seen_at (nd_seen (flood_row x)) ''0a'' = None \<and> live_neighbors (flood_row x) = row_peers x \<and>
     list_all (\<lambda>v. node_local_id (flood_row x) (nd_addr (flood_row v)) = v \<and>
       endpoint (nd_names (flood_row x)) v = Some (nd_addr (flood_row v))) [''A'', ''B'', ''C'']) [''A'', ''B'', ''C'']"
  by code_simp

lemma flood_row_floods: "x \<in> {''A'', ''B'', ''C''} \<Longrightarrow> floods {''A'', ''B'', ''C''} flood_row ''0a'' x \<and> live_neighbors (flood_row x) = row_peers x"
proof -
  assume "x \<in> {''A'', ''B'', ''C''}"
  then have "x \<in> set [''A'', ''B'', ''C'']" by simp
  note f = flood_row_facts [unfolded list_all_iff, rule_format, OF this]
  then obtain n where n: "new_node (row_options x\<lparr>o_mode := ''flooding''\<rparr>) = Inr n" by (auto split: sum.splits)
  have "topology_ok (o_topology (row_options x\<lparr>o_mode := ''flooding''\<rparr>))" by (simp add: row_options_def) code_simp
  from new_node_inv [OF this n] have "node_inv (node_start n)" by simp
  then have "node_inv (flood_row x)" by (simp add: flood_row_def n row_peers_def mark_alive_inv)
  moreover have "set (row_peers x) \<subseteq> {''A'', ''B'', ''C''}" by (simp add: row_peers_def)
  ultimately show ?thesis using f by (auto simp: floods_def split: any_alg.splits)
qed

theorem flood_delivers_witness:
  "\<exists>k w p. (wave_step message_reader (on_time second message_seen_ttl) (\<lambda>x. nd_addr (flood_row x)) {''A'', ''B'', ''C''} ^^ k)
      \<lparr>wv_nodes = flood_row(''A'' := snd (fst (node_send second ''0a'' ''C'' ''hi'' (flood_row ''A'')))),
       wv_lines = wire_out (flood_row ''A'') (snd (node_send second ''0a'' ''C'' ''hi'' (flood_row ''A''))), wv_got = []\<rparr> w \<and>
     wv_lines w = [] \<and> wv_got w = [(''C'', p)] \<and> payload_text p = Some ''hi'' \<and> k \<le> 4"
proof -
  let ?N = "{''A'', ''B'', ''C''}"
  let ?step = "wave_step message_reader (on_time second message_seen_ttl) (\<lambda>x. nd_addr (flood_row x)) ?N"
  obtain e n' out where s: "node_send second ''0a'' ''C'' ''hi'' (flood_row ''A'') = ((e, n'), out)" by (metis prod.collapse)
  let ?w = "\<lparr>wv_nodes = flood_row(''A'' := n'), wv_lines = wire_out (flood_row ''A'') out, wv_got = []\<rparr>"
  have links: "live_neighbors (flood_row x) = row_peers x" if "x \<in> ?N" for x using flood_row_floods that by blast
  have u: "utf8_valid ''0a''" "utf8_valid ''hi''" by code_simp+
  have f: "floods ?N flood_row ''0a'' ''A'' \<and> floods ?N flood_row ''0a'' ''B'' \<and> floods ?N flood_row ''0a'' ''C''"
    using flood_row_floods by blast
  note d = flood_delivers [of ?N flood_row "''0a''" "''A''" "''C''" "''hi''" second e n' out, simplified, OF f u s]
  have "k \<le> 4" if "(?step ^^ k) ?w w" for k w
    using d [OF that] links [of "''A''"] links [of "''B''"] links [of "''C''"] by (simp add: row_peers_def)
  moreover have "\<exists>w'. ?step w w'" if "(?step ^^ k) ?w w" "wv_lines w \<noteq> []" for k w
    using d [OF that(1)] that(2) by blast
  ultimately obtain k w where w: "(?step ^^ k) ?w w" "wv_lines w = []" "k \<le> 4"
    using run_ends [of ?step ?w 4 "\<lambda>w. wv_lines w = []"] by blast
  have "hears flood_row ''A'' ''B''" "hears flood_row ''B'' ''C''"
    using links [of "''A''"] links [of "''B''"] by (simp_all add: hears_def row_peers_def)
  then have "(hears flood_row)\<^sup>*\<^sup>* ''A'' ''C''" by (meson rtranclp.rtrancl_refl rtranclp.rtrancl_into_rtrancl)
  then obtain p where "wv_got w = [(''C'', p)]" "payload_text p = Some ''hi''"
    using d [OF w(1)] w(2) by blast
  then show ?thesis using w s by (intro exI [of _ k] exI [of _ w] exI [of _ p]) simp
qed

end
