(* ===== verification/Net_Spread.thy ===== *)
theory Net_Spread
  imports Net_Flood
begin

text \<open>
  A round of announcements in a network of link-state nodes: every node announces itself once,
  at any time, and the copies of all the announcements, under way at once, are read in any
  order. The links do not change in the meantime, and every copy is read within the sixty
  seconds for which the caches remember it. Each announcement is a flood of its own.
\<close>

section \<open>An announcement at one node\<close>

definition is_lsr :: "node \<Rightarrow> bool" where
  "is_lsr n \<longleftrightarrow> (case nd_alg n of IsLsr s \<Rightarrow> True | _ \<Rightarrow> False)"

definition lsr_of :: "node \<Rightarrow> lsr_alg" where
  "lsr_of n = (case nd_alg n of IsLsr s \<Rightarrow> s | _ \<Rightarrow> new_lsr)"

lemma is_lsrD: "is_lsr n \<Longrightarrow> nd_alg n = IsLsr (lsr_of n)"
  by (auto simp: is_lsr_def lsr_of_def split: any_alg.splits)

text \<open>The next announcement of a node, as it is sent and as it is filed.\<close>

definition news_of :: "node \<Rightarrow> lsp" where
  "news_of n = own_lsp (fabric_of n) ((lsr_of n)\<lparr>ls_seq := ls_seq (lsr_of n) + 1\<rparr>)"

definition entry_of :: "node \<Rightarrow> announcement" where
  "entry_of n = \<lparr>an_origin = nd_id n, an_seq = ls_seq (lsr_of n) + 1, an_neighbors = ls_links (lsr_of n)\<rparr>"

text \<open>What is on file for an origin, without the instant it was refreshed at.\<close>

definition on_record :: "lsr_alg \<Rightarrow> string \<Rightarrow> announcement option" where
  "on_record s o' = map_option le_entry (mget (ls_lsdb s) o')"

lemma stale_record:
  "stale s o' seq \<longleftrightarrow> (case on_record s o' of None \<Rightarrow> False
     | Some a \<Rightarrow> int_le seq (an_seq a) \<and> int_less (an_seq a - seq) seq_reset_gap)"
  by (simp add: stale_def on_record_def split: option.split)

text \<open>The forwarding loop reads a line.\<close>

definition line_reader :: "(gotime \<times> string \<times> string, node, string, string, packet) reader" where
  "line_reader t line n =
     (case t of (now, r, r') \<Rightarrow>
        (case decode line of None \<Rightarrow> (n, [], [])
         | Some p \<Rightarrow> (case handle now r r' p n of (n', out) \<Rightarrow> (n', wire_out n' out, delivered out))))"

lemma delivered_simps [simp]:
  "delivered (xs @ ys) = delivered xs @ delivered ys" "delivered (map Log ls) = []" "delivered (map (\<lambda>z. Send (f z) (g z)) zs) = []"
proof -
  show "delivered (xs @ ys) = delivered xs @ delivered ys" by (induction xs rule: delivered.induct) simp_all
  show "delivered (map Log ls) = []" by (induction ls) simp_all
  show "delivered (map (\<lambda>z. Send (f z) (g z)) zs) = []" by (induction zs) simp_all
qed

lemma delivered_complaints [simp]: "delivered (complaints p n) = []"
  by (simp add: complaints_def)

text \<open>Hearing a live neighbour again changes no link.\<close>

lemma mput_same_filter:
  "mget m z = Some st \<Longrightarrow> P (z, st) = P (z, st') \<Longrightarrow> map fst (filter P (mput z st' m)) = map fst (filter P m)"
  by (induction m) auto

lemma mark_live:
  assumes "node_inv n" and "z \<in> set (live_neighbors n)"
  shows "\<exists>nbs. mark_alive now r z n = (n\<lparr>nd_neighbors := nbs\<rparr>, []) \<and> live_neighbors (n\<lparr>nd_neighbors := nbs\<rparr>) = live_neighbors n"
proof -
  have ok: "neighbors_ok n" using assms(1) by (simp add: node_inv_def)
  then have "live_cost n z \<noteq> None" using assms(2) live_neighbors_iff by (simp add: neighbors_ok_def)
  then obtain st where st: "mget (nd_neighbors n) z = Some st" "nb_alive st"
    by (auto simp: live_cost_def split: option.splits if_splits)
  then have z: "z \<noteq> []" "z \<noteq> nd_id n" using ok by (auto simp: neighbors_ok_def)
  let ?nbs = "mput z (st\<lparr>nb_alive := True, nb_last := now\<rparr>) (nd_neighbors n)"
  have "mark_alive now r z n = (n\<lparr>nd_neighbors := ?nbs\<rparr>, [])"
    using st z by (simp add: mark_alive_def Let_def)
  moreover have "live_neighbors (n\<lparr>nd_neighbors := ?nbs\<rparr>) = live_neighbors n"
    using mput_same_filter [OF st(1)] st(2) by (simp add: live_neighbors_def)
  ultimately show ?thesis by blast
qed

text \<open>What the algorithm makes of a readable announcement.\<close>

definition news_to :: "gotime \<Rightarrow> string \<Rightarrow> string \<Rightarrow> string \<Rightarrow> goint \<Rightarrow> lsr_alg \<Rightarrow> bool" where
  "news_to now rid self o' seq s \<longleftrightarrow> \<not> fst (seen now rid (ls_seen s)) \<and> o' \<noteq> self \<and> \<not> stale s o' seq"

lemma same_view_record: "same_view s s' \<Longrightarrow> on_record s' = on_record s"
proof
  fix y
  assume "same_view s s'"
  then have "mget (map (\<lambda>(k, e). (k, le_entry e)) (ls_lsdb s')) y = mget (map (\<lambda>(k, e). (k, le_entry e)) (ls_lsdb s)) y"
    by (simp add: same_view_def)
  then show "on_record s' y = on_record s y" by (simp add: on_record_def mget_map_value)
qed

lemma delivered_relay [simp]: "delivered (lsr_relay fab p) = []"
  by (simp add: relay_events)

lemma learn_shape:
  assumes "fb_local_id fab (lsp_origin l) = o'" "o' \<noteq> []" "lsr_learn fab now p l s = (s', out)"
  shows "ls_seen s' = ls_seen s \<and> ls_seq s' = ls_seq s \<and> ls_links s' = ls_links s \<and> delivered out = [] \<and>
    on_record s' = (if o' \<noteq> fb_id fab \<and> \<not> stale s o' (lsp_seq l)
      then (on_record s)(o' \<mapsto> \<lparr>an_origin = o', an_seq = lsp_seq l, an_neighbors = resolve_neighbors fab (lsp_neighbors l)\<rparr>) else on_record s) \<and>
    sends out = (if o' \<noteq> fb_id fab \<and> \<not> stale s o' (lsp_seq l) then sends (lsr_relay fab p) else [])"
proof (cases "o' = fb_id fab")
  case True
  then show ?thesis using assms by (simp add: lsr_learn_def)
next
  case False
  let ?nb = "resolve_neighbors fab (lsp_neighbors l)"
  obtain acc str s2 where st: "store now o' (lsp_seq l) ?nb s = ((acc, str), s2)" by (metis prod.collapse)
  have acc: "acc \<longleftrightarrow> \<not> stale s o' (lsp_seq l)" 
    using st by (cases "stale s o' (lsp_seq l)") (auto simp: store_def Let_def)
  have f: "ls_seen s2 = ls_seen s" "ls_seq s2 = ls_seq s" "ls_links s2 = ls_links s"
    using store_fields [of now o' "lsp_seq l" ?nb s] by (simp_all add: st)
  show ?thesis
  proof (cases acc)
    case True
    then have "ls_lsdb s2 = mput o' \<lparr>le_entry = \<lparr>an_origin = o', an_seq = lsp_seq l, an_neighbors = ?nb\<rparr>, le_refreshed = now\<rparr> (ls_lsdb s)"
      using st acc by (auto simp: store_def Let_def)
    then have "on_record s2 = (on_record s)(o' \<mapsto> \<lparr>an_origin = o', an_seq = lsp_seq l, an_neighbors = ?nb\<rparr>)"
      by (intro ext) (simp add: on_record_def)
    moreover have "on_record (lsr_recompute self s2) = on_record s2" for self by (intro ext) (simp add: on_record_def)
    ultimately show ?thesis using assms False True acc f st by (auto simp: lsr_learn_def Let_def)
  next
    case rejected: False
    then have "same_view s s2" using store_rejected [of now o' "lsp_seq l" ?nb s] by (simp add: st)
    then show ?thesis using assms False rejected acc f st same_view_record by (auto simp: lsr_learn_def Let_def)
  qed
qed

lemma info_shape:
  assumes "decode_lsp (p_payload p) = Some l" "header_string p header_msg_id = rid" "fb_local_id fab (lsp_origin l) = o'" "o' \<noteq> []"
    and "lsr_handle_info fab now r2 p s = (s', out)"
  shows "ls_seen s' = snd (seen now rid (ls_seen s)) \<and> ls_seq s' = ls_seq s \<and> ls_links s' = ls_links s \<and> delivered out = [] \<and>
    on_record s' = (if news_to now rid (fb_id fab) o' (lsp_seq l) s
      then (on_record s)(o' \<mapsto> \<lparr>an_origin = o', an_seq = lsp_seq l, an_neighbors = resolve_neighbors fab (lsp_neighbors l)\<rparr>) else on_record s) \<and>
    sends out = (if news_to now rid (fb_id fab) o' (lsp_seq l) s then sends (lsr_relay fab p) else [])"
proof -
  obtain known c where c: "seen now rid (ls_seen s) = (known, c)" by fastforce
  let ?s = "s\<lparr>ls_seen := c\<rparr>"
  have rec: "on_record ?s = on_record s" by (intro ext) (simp add: on_record_def)
  then have st: "stale ?s = stale s" by (intro ext) (simp add: stale_record)
  obtain s2 out2 where learn: "lsr_learn fab now p l ?s = (s2, out2)" by fastforce
  show ?thesis
    using assms(1,2,5) c learn learn_shape [OF assms(3,4) learn] rec st
    by (auto simp: lsr_handle_info_def Let_def news_to_def split: if_splits)
qed

section \<open>Nodes and copies during a round\<close>

text \<open>
  A link-state node that knows the others by the same plan, whose links are heard both ways and
  have costs that can be written, and that has nothing on file from this round.
\<close>

definition spreads :: "string set \<Rightarrow> (string \<Rightarrow> node) \<Rightarrow> (string \<Rightarrow> string) \<Rightarrow> string \<Rightarrow> bool" where
  "spreads N ns rid x \<longleftrightarrow>
     node_inv (ns x) \<and> is_lsr (ns x) \<and> nd_id (ns x) = x \<and> x \<noteq> [] \<and> x \<noteq> ''*'' \<and>
     utf8_valid (nd_addr (ns x)) \<and> nd_addr (ns x) \<noteq> [] \<and>
     (\<forall>z. hears ns x z \<longrightarrow> z \<in> N \<and> hears ns z x) \<and> (\<forall>z c. live_cost (ns x) z = Some c \<longrightarrow> is_finite c) \<and>
     (\<forall>v \<in> N. node_local_id (ns x) (nd_addr (ns v)) = v \<and> endpoint (nd_names (ns x)) v = Some (nd_addr (ns v))) \<and>
     (\<forall>y \<in> N. seen_at (ls_seen (lsr_of (ns x))) (rid y) = None \<and>
       (y \<noteq> x \<longrightarrow> \<not> stale (lsr_of (ns x)) y (ls_seq (lsr_of (ns y)) + 1)))"

text \<open>The network of a round, \<open>rid x\<close> being the identifier of the announcement of \<open>x\<close>.\<close>

definition round_plan :: "string set \<Rightarrow> (string \<Rightarrow> node) \<Rightarrow> (string \<Rightarrow> string) \<Rightarrow> bool" where
  "round_plan N ns rid \<longleftrightarrow> finite N \<and> N \<noteq> {} \<and> card N \<le> 16 \<and> (\<forall>x \<in> N. spreads N ns rid x) \<and> inj_on rid N \<and>
     (\<forall>x \<in> N. utf8_valid (rid x) \<and> rid x \<noteq> [])"

text \<open>What a round leaves of a node as it was: its place, its links, and what is on file from outside.\<close>

definition in_round :: "string set \<Rightarrow> (string \<Rightarrow> node) \<Rightarrow> string \<Rightarrow> node \<Rightarrow> bool" where
  "in_round N ns x n \<longleftrightarrow> node_inv n \<and> same_place (ns x) n \<and> is_lsr n \<and> live_neighbors n = live_neighbors (ns x) \<and>
     nd_seen n = nd_seen (ns x) \<and> ls_links (lsr_of n) = ls_links (lsr_of (ns x)) \<and> (\<forall>y. y \<notin> N \<longrightarrow> on_record (lsr_of n) y = on_record (lsr_of (ns x)) y)"

text \<open>A copy of the announcement of \<open>o'\<close> that \<open>z\<close> sent.\<close>

definition carries :: "(string \<Rightarrow> node) \<Rightarrow> (string \<Rightarrow> string) \<Rightarrow> string \<Rightarrow> string \<Rightarrow> packet \<Rightarrow> string \<Rightarrow> bool" where
  "carries ns rid o' z q line \<longleftrightarrow> own_packet q \<and> encode q = Some line \<and> 0 < sint (p_ttl q) \<and> p_type q = type_info \<and>
     header_string q header_msg_id = rid o' \<and> decode_lsp (p_payload q) = Some (news_of (ns o')) \<and>
     header_string q header_via = nd_addr (ns z)"

lemma spreadsD:
  assumes "round_plan N ns rid" and "x \<in> N"
  shows "node_inv (ns x)" "is_lsr (ns x)" "nd_id (ns x) = x" "x \<noteq> []" "x \<noteq> ''*''" "utf8_valid (nd_addr (ns x))" "nd_addr (ns x) \<noteq> []"
    and "hears ns x z \<Longrightarrow> z \<in> N" "hears ns x z \<Longrightarrow> hears ns z x" "live_cost (ns x) z = Some c \<Longrightarrow> is_finite c"
    and "v \<in> N \<Longrightarrow> node_local_id (ns x) (nd_addr (ns v)) = v" "v \<in> N \<Longrightarrow> endpoint (nd_names (ns x)) v = Some (nd_addr (ns v))"
    and "y \<in> N \<Longrightarrow> seen_at (ls_seen (lsr_of (ns x))) (rid y) = None"
    and "y \<in> N \<Longrightarrow> y \<noteq> x \<Longrightarrow> \<not> stale (lsr_of (ns x)) y (ls_seq (lsr_of (ns y)) + 1)"
    and "utf8_valid (rid x)" "rid x \<noteq> []"
proof -
  have s: "spreads N ns rid x" and r: "utf8_valid (rid x) \<and> rid x \<noteq> []" using assms unfolding round_plan_def by blast+
  show "node_inv (ns x)" "is_lsr (ns x)" "nd_id (ns x) = x" "x \<noteq> []" "x \<noteq> ''*''" "utf8_valid (nd_addr (ns x))" "nd_addr (ns x) \<noteq> []"
    "utf8_valid (rid x)" "rid x \<noteq> []"
    using s r by (simp_all add: spreads_def)
  show "hears ns x z \<Longrightarrow> z \<in> N" "hears ns x z \<Longrightarrow> hears ns z x" "live_cost (ns x) z = Some c \<Longrightarrow> is_finite c"
    "v \<in> N \<Longrightarrow> node_local_id (ns x) (nd_addr (ns v)) = v" "v \<in> N \<Longrightarrow> endpoint (nd_names (ns x)) v = Some (nd_addr (ns v))"
    "y \<in> N \<Longrightarrow> seen_at (ls_seen (lsr_of (ns x))) (rid y) = None"
    "y \<in> N \<Longrightarrow> y \<noteq> x \<Longrightarrow> \<not> stale (lsr_of (ns x)) y (ls_seq (lsr_of (ns y)) + 1)"
    using s by (simp_all add: spreads_def)
qed

lemma round_addresses:
  assumes "round_plan N ns rid" "x \<in> N" "y \<in> N" "nd_addr (ns x) = nd_addr (ns y)"
  shows "x = y"
  using spreadsD(11) [OF assms(1,2,2)] spreadsD(11) [OF assms(1,2,3)] assms(4) by metis

lemma in_roundD:
  assumes "round_plan N ns rid" "x \<in> N" "in_round N ns x n"
  shows "nd_id n = x" "nd_addr n = nd_addr (ns x)" "nd_names n = nd_names (ns x)" "node_local_id n = node_local_id (ns x)"
    and "node_address n = node_address (ns x)" "nd_alg n = IsLsr (lsr_of n)" "lsr_inv x (lsr_of n)"
proof -
  have p: "same_place (ns x) n" and n: "node_inv n" and l: "nd_alg n = IsLsr (lsr_of n)"
    using assms(3) is_lsrD by (simp_all add: in_round_def)
  then show "nd_id n = x" "nd_addr n = nd_addr (ns x)" "nd_names n = nd_names (ns x)"
    using spreadsD(3) [OF assms(1,2)] by (simp_all add: same_place_def)
  show "nd_alg n = IsLsr (lsr_of n)" by (rule l)
  show "node_local_id n = node_local_id (ns x)" "node_address n = node_address (ns x)" using same_place_names [OF p] by simp_all
  have "alg_inv (nd_id n) (IsLsr (lsr_of n))" using n l by (simp add: node_inv_def)
  then show "lsr_inv x (lsr_of n)" by (simp add: \<open>nd_id n = x\<close>)
qed

lemma in_round_start: "round_plan N ns rid \<Longrightarrow> x \<in> N \<Longrightarrow> in_round N ns x (ns x)"
  using spreadsD(1,2) by (simp add: in_round_def)

text \<open>The announcement of \<open>o'\<close> resolves to its links everywhere.\<close>

lemma live_links:
  assumes "round_plan N ns rid" "x \<in> N"
  shows "wf_map (ls_links (lsr_of (ns x)))" "mget (ls_links (lsr_of (ns x))) z = live_cost (ns x) z"
    and "(z, c) \<in> set (ls_links (lsr_of (ns x))) \<longleftrightarrow> live_cost (ns x) z = Some c" "hears ns x z \<longleftrightarrow> live_cost (ns x) z \<noteq> None"
proof -
  note l = in_roundD(6,7) [OF assms in_round_start [OF assms]]
  have i: "node_inv (ns x)" by (rule spreadsD(1) [OF assms])
  show wf: "wf_map (ls_links (lsr_of (ns x)))" using l(2) by (simp add: lsr_inv_def links_ok_def)
  have "on_file (live_cost (ns x)) (IsLsr (lsr_of (ns x)))" using i l(1) by (simp add: node_inv_def)
  then show g: "mget (ls_links (lsr_of (ns x))) z = live_cost (ns x) z" by simp
  show "(z, c) \<in> set (ls_links (lsr_of (ns x))) \<longleftrightarrow> live_cost (ns x) z = Some c" by (simp add: mget_iff [OF wf, symmetric] g)
  show "hears ns x z \<longleftrightarrow> live_cost (ns x) z \<noteq> None"
    using live_neighbors_iff i by (simp add: hears_def node_inv_def neighbors_ok_def)
qed

lemma news_facts:
  assumes "round_plan N ns rid" "o' \<in> N" "x \<in> N"
  shows "node_local_id (ns x) (lsp_origin (news_of (ns o'))) = o'" "lsp_seq (news_of (ns o')) = ls_seq (lsr_of (ns o')) + 1"
    and "(\<And>v. fb_local_id fab (nd_addr (ns v)) = node_local_id (ns x) (nd_addr (ns v))) \<Longrightarrow>
      resolve_neighbors fab (lsp_neighbors (news_of (ns o'))) = ls_links (lsr_of (ns o'))"
    and "lsp_ok (news_of (ns o'))"
proof -
  note o = spreadsD [OF assms(1,2)] and x = spreadsD [OF assms(1,3)] and l = live_links [OF assms(1,2)]
  have self: "node_address (ns o') o' = nd_addr (ns o')" using o(3) by (simp add: node_address_def)
  have other: "node_address (ns o') v = nd_addr (ns v) \<and> v \<in> N \<and> is_finite c" if "(v, c) \<in> set (ls_links (lsr_of (ns o')))" for v c
  proof -
    have c: "live_cost (ns o') v = Some c" using that l(3) by simp
    then have v: "v \<in> N" using l(4) o(8) by blast
    have "v \<noteq> ''*''" by (rule spreadsD(5) [OF assms(1) v])
    then show ?thesis using o(3) o(12) [OF v] self v o(10) [OF c] by (cases "v = o'") (simp_all add: node_address_def)
  qed
  show "node_local_id (ns x) (lsp_origin (news_of (ns o'))) = o'" "lsp_seq (news_of (ns o')) = ls_seq (lsr_of (ns o')) + 1"
    using x(11) [OF assms(2)] self o(3) by (simp_all add: news_of_def own_lsp_def fabric_of_def)
  show "resolve_neighbors fab (lsp_neighbors (news_of (ns o'))) = ls_links (lsr_of (ns o'))"
    if "\<And>v. fb_local_id fab (nd_addr (ns v)) = node_local_id (ns x) (nd_addr (ns v))"
    using resolve_own [OF l(1), of fab "node_address (ns o')"] other x(11) that
    by (fastforce simp: news_of_def own_lsp_def fabric_of_def split_beta)
  show "lsp_ok (news_of (ns o'))"
    using other spreadsD(6,7) [OF assms(1)] o(3,6) self fval_small(1) [of 0]
    by (auto simp: lsp_ok_def news_of_def own_lsp_def fabric_of_def list_all_iff entry_ok_def)
qed

section \<open>A copy is read\<close>

lemma sends_to_all: "sends (map (\<lambda>y. Send y c) ys) = map (\<lambda>y. (y, c)) ys"
  by (induction ys) simp_all

lemma relayed_copy:
  assumes "own_packet p" "0 < sint (p_ttl p)" "utf8_valid (fb_address fab (fb_id fab))"
  defines "c \<equiv> fst (relay_copy fab p)"
  shows "own_packet c" "p_payload c = p_payload p" "p_type c = p_type p" "sint (p_ttl c) = sint (p_ttl p) - 1"
    and "header_string c header_msg_id = header_string p header_msg_id" "header_string c header_via = fb_address fab (fb_id fab)"
    and "snd (relay_copy fab p) \<longleftrightarrow> 1 < sint (p_ttl p)"
proof -
  let ?v = "set_header header_via (GStr (fb_address fab (fb_id fab))) p"
  have c: "relay_copy fab p = decrement_ttl ?v" by (simp add: relay_copy_def own_clone [OF assms(1)])
  have "own_packet ?v" using own_set_header [OF assms(1) header_names_utf8(3)] assms(3) header_names_utf8 by simp
  then show "own_packet c" using own_ttl by (simp add: c_def c decrement_ttl_def Let_def)
  show "p_payload c = p_payload p" "p_type c = p_type p" "header_string c header_via = fb_address fab (fb_id fab)"
    "header_string c header_msg_id = header_string p header_msg_id"
    by (simp_all add: c_def c hop_fields set_header_fields header_string_put header_names)
  have "0 < sint (p_ttl ?v)" using assms(2) by (simp add: set_header_fields)
  from decrement_positive [OF this] show "sint (p_ttl c) = sint (p_ttl p) - 1" "snd (relay_copy fab p) \<longleftrightarrow> 1 < sint (p_ttl p)"
    by (simp_all add: c_def c set_header_fields)
qed

lemma carried_read:
  assumes "carries ns rid o' z q line"
  shows "decode line = Some (received q)" "own_packet (received q)" "p_type (received q) = type_info" "p_ttl (received q) = p_ttl q"
    and "header_string (received q) header_msg_id = rid o'" "decode_lsp (p_payload (received q)) = Some (news_of (ns o'))"
    and "header_string (received q) header_via = nd_addr (ns z)"
proof -
  have own: "own_packet q" and "\<not> int_le (p_ttl q) 0" using assms by (simp_all add: carries_def int_le_def)
  from own_received [OF this] show "decode line = Some (received q)" using assms by (auto simp: carries_def)
  show "own_packet (received q)" by (rule own_again [OF own])
  show "p_type (received q) = type_info" "p_ttl (received q) = p_ttl q" "decode_lsp (p_payload (received q)) = Some (news_of (ns o'))"
    using assms by (simp_all add: received_fields carries_def)
  show "header_string (received q) header_msg_id = rid o'" "header_string (received q) header_via = nd_addr (ns z)"
    using assms header_string_received [OF own_headers_ok [OF own]] by (simp_all add: carries_def)
qed

text \<open>\<open>handle\<close> on an announcement, when the previous hop is a live neighbour.\<close>

lemma handle_news:
  assumes "node_inv n" "is_lsr n" "p_type p = type_info" "previous_hop_id (fabric_of n) p \<in> set (live_neighbors n)"
  shows "\<exists>nbs s' es. lsr_handle_info (fabric_of n) now r' p (lsr_of n) = (s', es) \<and> live_neighbors (n\<lparr>nd_neighbors := nbs\<rparr>) = live_neighbors n \<and>
    handle now r r' p n = (n\<lparr>nd_neighbors := nbs, nd_alg := IsLsr s'\<rparr>, complaints p n @ es)"
proof -
  obtain nbs where m: "mark_alive now r (previous_hop_id (fabric_of n) p) n = (n\<lparr>nd_neighbors := nbs\<rparr>, [])"
    "live_neighbors (n\<lparr>nd_neighbors := nbs\<rparr>) = live_neighbors n" using mark_live [OF assms(1,4)] by blast
  let ?n = "n\<lparr>nd_neighbors := nbs\<rparr>"
  have "node_address ?n = node_address n" "node_local_id ?n = node_local_id n"
    by (intro ext; simp add: node_address_def node_local_id_def)+
  then have fab: "fabric_of ?n = fabric_of n" using m(2) by (simp add: fabric_of_def)
  obtain s' es where i: "lsr_handle_info (fabric_of n) now r' p (lsr_of n) = (s', es)" by fastforce
  have "on_alg (\<lambda>fab. alg_handle_info fab now r' p) ?n = (?n\<lparr>nd_alg := IsLsr s'\<rparr>, es)"
    using is_lsrD [OF assms(2)] i by (simp add: on_alg_def fab lsr_ops_def)
  moreover have "type_info \<noteq> type_hello" "type_info \<noteq> type_echo" by code_simp+
  ultimately have "handle now r r' p n = (n\<lparr>nd_neighbors := nbs, nd_alg := IsLsr s'\<rparr>, complaints p n @ es)"
    using m(1) assms(3) by (simp add: handle_def and_then_def)
  then show ?thesis using i m(2) by blast
qed

lemma sends_complaints [simp]: "sends (complaints p n) = []"
  by (simp add: complaints_def)

lemma line_read:
  assumes plan: "round_plan N ns rid" and x: "x \<in> N" and n: "in_round N ns x n"
    and o: "o' \<in> N" "z \<in> N" "hears ns z x" "carries ns rid o' z q line"
    and r: "line_reader (now, r1, r2) line n = (n', out, got)"
  defines "new \<equiv> news_to now (rid o') x o' (ls_seq (lsr_of (ns o')) + 1) (lsr_of n)"
  shows "in_round N ns x n'" "got = []" "ls_seen (lsr_of n') = snd (seen now (rid o') (ls_seen (lsr_of n)))"
    and "ls_seq (lsr_of n') = ls_seq (lsr_of n)"
    and "on_record (lsr_of n') = (if new then (on_record (lsr_of n))(o' \<mapsto> entry_of (ns o')) else on_record (lsr_of n))"
    and "\<not> (new \<and> 1 < sint (p_ttl q)) \<Longrightarrow> out = []"
    and "new \<Longrightarrow> 1 < sint (p_ttl q) \<Longrightarrow> \<exists>c line'. out = map (\<lambda>y. (nd_addr (ns y), line')) (filter (\<lambda>y. y \<noteq> z) (live_neighbors (ns x))) \<and>
      carries ns rid o' x c line' \<and> sint (p_ttl c) = sint (p_ttl q) - 1"
proof -
  define p where "p = received q"
  note p = carried_read [OF o(4), folded p_def]
  note e = in_roundD [OF plan x n] and sx = spreadsD [OF plan x] and so = spreadsD [OF plan o(1)]
  have inv: "node_inv n" "is_lsr n" and live: "live_neighbors n = live_neighbors (ns x)" using n by (simp_all add: in_round_def)
  have prev: "previous_hop_id (fabric_of n) p = z"
    using hop_by_via [OF p(7) spreadsD(7) [OF plan o(2)], of n] sx(11) [OF o(2)] e(4) by simp
  then have "previous_hop_id (fabric_of n) p \<in> set (live_neighbors n)"
    using spreadsD(9) [OF plan o(2,3)] live by (simp add: hears_def)
  from handle_news [OF inv p(3) this] obtain nbs s' es where
    h: "lsr_handle_info (fabric_of n) now r2 p (lsr_of n) = (s', es)" "live_neighbors (n\<lparr>nd_neighbors := nbs\<rparr>) = live_neighbors n"
      "handle now r1 r2 p n = (n\<lparr>nd_neighbors := nbs, nd_alg := IsLsr s'\<rparr>, complaints p n @ es)" by blast
  note nf = news_facts [OF plan o(1) x]
  have org: "fb_local_id (fabric_of n) (lsp_origin (news_of (ns o'))) = o'" using nf(1) e(4) by (simp add: fabric_of_def)
  have res: "resolve_neighbors (fabric_of n) (lsp_neighbors (news_of (ns o'))) = ls_links (lsr_of (ns o'))"
    using nf(3) [of "fabric_of n"] e(4) by (simp add: fabric_of_def)
  have fid: "fb_id (fabric_of n) = x" using e(1) by (simp add: fabric_of_def)
  note i = info_shape [OF p(6,5) org so(4) h(1), unfolded fid nf(2), folded new_def, unfolded res]
  have n': "n' = n\<lparr>nd_neighbors := nbs, nd_alg := IsLsr s'\<rparr>" "out = wire_out n' (complaints p n @ es)"
      "got = delivered (complaints p n @ es)"
    using r p(1) h(3) by (auto simp: line_reader_def)
  have lsr: "lsr_of n' = s'" "is_lsr n'" by (simp_all add: n' lsr_of_def is_lsr_def)
  show "got = []" using i by (simp add: n'(3))
  show "ls_seen (lsr_of n') = snd (seen now (rid o') (ls_seen (lsr_of n)))" "ls_seq (lsr_of n') = ls_seq (lsr_of n)"
    using i lsr by simp_all
  show rec: "on_record (lsr_of n') = (if new then (on_record (lsr_of n))(o' \<mapsto> entry_of (ns o')) else on_record (lsr_of n))"
    using i lsr so(3) by (simp add: entry_of_def)
  have "node_inv n'" using handle_inv [OF inv(1) decoded_inbound [OF p(1)], of now r1 r2] by (simp add: h(3) n'(1))
  moreover have "live_neighbors n' = live_neighbors (ns x)" using h(2) live by (simp add: n'(1) live_neighbors_def)
  moreover have "on_record (lsr_of n') y = on_record (lsr_of (ns x)) y" if "y \<notin> N" for y
    using n that o(1) by (auto simp: rec in_round_def)
  ultimately show "in_round N ns x n'" using n i lsr by (simp add: in_round_def n'(1) same_place_def)
  have own: "utf8_valid (fb_address (fabric_of n) (fb_id (fabric_of n)))" and adr: "fb_address (fabric_of n) (fb_id (fabric_of n)) = nd_addr (ns x)"
    using e sx(3,6) by (simp_all add: fabric_of_def node_address_def)
  have pos: "0 < sint (p_ttl p)" using o(4) p(4) by (simp add: carries_def)
  note c = relayed_copy [OF p(2) pos own]
  have sends: "sends (complaints p n @ es) = (if new \<and> 1 < sint (p_ttl q)
      then map (\<lambda>y. (y, fst (relay_copy (fabric_of n) p))) (filter (\<lambda>y. y \<noteq> z) (live_neighbors (ns x))) else [])"
    using i c(7) p(4) prev live by (simp add: relay_events fabric_of_def sends_to_all)
  show "\<not> (new \<and> 1 < sint (p_ttl q)) \<Longrightarrow> out = []" using sends by (auto simp: n'(2) wire_out_def)
  assume new: "new" "1 < sint (p_ttl q)"
  let ?c = "fst (relay_copy (fabric_of n) p)"
  have "\<not> int_le (p_ttl ?c) 0" using c(4) p(4) new(2) by (simp add: int_le_def)
  from own_received [OF c(1) this] obtain line' where line': "encode ?c = Some line'" by blast
  have "\<forall>y \<in> set (filter (\<lambda>y. y \<noteq> z) (live_neighbors (ns x))). endpoint (nd_names n') y = Some (nd_addr (ns y))"
    using sx(8,12) e(3) by (simp add: n'(1) hears_def)
  from wire_of_copies [OF _ line' this] have "out = map (\<lambda>y. (nd_addr (ns y), line')) (filter (\<lambda>y. y \<noteq> z) (live_neighbors (ns x)))"
    using sends new by (simp add: n'(2))
  moreover have "carries ns rid o' x ?c line'"
    using c line' p new(2) adr by (simp add: carries_def)
  ultimately show "\<exists>c line'. out = map (\<lambda>y. (nd_addr (ns y), line')) (filter (\<lambda>y. y \<noteq> z) (live_neighbors (ns x))) \<and>
      carries ns rid o' x c line' \<and> sint (p_ttl c) = sint (p_ttl q) - 1"
    using c(4) p(4) by (intro exI [of _ ?c] exI [of _ line']) simp
qed

section \<open>An announcement is sent\<close>

lemma announce_seen:
  assumes "snd (announce fab now rid s) = map (\<lambda>y. Send y q) ys"
  shows "ls_seen (fst (announce fab now rid s)) = snd (seen now rid (ls_seen s))"
proof (cases "new_object rid proto_lsr type_info (fb_address fab (fb_id fab)) ''*''
    (lsp_json (own_lsp fab (s\<lparr>ls_seq := ls_seq s + 1, ls_last := now\<rparr>)))")
  case None
  then have "[Log CannotEncode] = map (\<lambda>y. Send y q) ys" using assms by (simp add: announce_def Let_def)
  then show ?thesis by (cases ys) simp_all
next
  case (Some p)
  then show ?thesis using new_object_id [OF Some] by (simp add: announce_def Let_def)
qed

lemma line_sent:
  assumes plan: "round_plan N ns rid" and u: "u \<in> N" and n: "in_round N ns u n" and seq: "ls_seq (lsr_of n) = ls_seq (lsr_of (ns u))"
    and r: "on_alg (\<lambda>fab. alg_refresh fab now (rid u)) n = (n', out)"
  shows "in_round N ns u n'" "ls_seen (lsr_of n') = snd (seen now (rid u) (ls_seen (lsr_of n)))" "on_record (lsr_of n') = on_record (lsr_of n)"
    and "\<exists>c line. wire_out n' out = map (\<lambda>y. (nd_addr (ns y), line)) (live_neighbors (ns u)) \<and>
      carries ns rid u u c line \<and> sint (p_ttl c) = 15"
proof -
  note e = in_roundD [OF plan u n] and su = spreadsD [OF plan u]
  have inv: "node_inv n" and live: "live_neighbors n = live_neighbors (ns u)" and links: "ls_links (lsr_of n) = ls_links (lsr_of (ns u))"
    using n by (simp_all add: in_round_def)
  let ?fab = "fabric_of n" and ?s = "lsr_of n"
  have lsp: "own_lsp ?fab (?s\<lparr>ls_seq := ls_seq ?s + 1, ls_last := now\<rparr>) = news_of (ns u)"
    using e(1,5) su(3) links seq by (simp add: news_of_def own_lsp_def fabric_of_def)
  have adr: "fb_address ?fab (fb_id ?fab) = nd_addr (ns u)" using e(1,5) su(3) by (simp add: fabric_of_def node_address_def)
  have "fb_local_id ?fab (fb_address ?fab (fb_id ?fab)) = fb_id ?fab" using adr e(1,4) su(11) [OF u] by (simp add: fabric_of_def)
  moreover have "fb_id ?fab \<notin> set (fb_neighbors ?fab)"
    using inv live_neighbors_iff [of n "nd_id n"] by (auto simp: fabric_of_def node_inv_def neighbors_ok_def live_cost_def split: option.splits if_splits)
  ultimately obtain q j where q: "snd (announce ?fab now (rid u) ?s) = map (\<lambda>nb. Send nb q) (fb_neighbors ?fab)" "own_packet q"
    "lsp_json (news_of (ns u)) = Some j" "p_payload q = json_print j" "p_type q = type_info" "sint (p_ttl q) = 15"
    "header_string q header_msg_id = rid u" "header_string q header_via = nd_addr (ns u)"
    using announce_sends [where fab = ?fab and s = ?s and now = now, OF su(15,16)] adr su(6) news_facts(4) [OF plan u u] unfolding lsp by auto
  have res: "n' = n\<lparr>nd_alg := IsLsr (fst (announce ?fab now (rid u) ?s))\<rparr>" "out = snd (announce ?fab now (rid u) ?s)"
    using r e(6) by (auto simp: on_alg_def lsr_refresh_def map_prod_def split: prod.splits)
  have lsr: "lsr_of n' = fst (announce ?fab now (rid u) ?s)" "is_lsr n'" by (simp_all add: res lsr_of_def is_lsr_def)
  show "ls_seen (lsr_of n') = snd (seen now (rid u) (ls_seen ?s))" using announce_seen [OF q(1)] by (simp add: lsr)
  show rec: "on_record (lsr_of n') = on_record ?s" by (intro ext) (simp add: lsr on_record_def)
  have "node_inv n'" by (rule node_step_inv [OF step_alg_refresh [OF r] inv])
  moreover have "live_neighbors n' = live_neighbors n" by (simp add: res live_neighbors_def)
  ultimately show "in_round N ns u n'" using n lsr rec by (simp add: in_round_def res(1) same_place_def)
  have "\<not> int_le (p_ttl q) 0" using q(6) by (simp add: int_le_def)
  from own_received [OF q(2) this] obtain line where line: "encode q = Some line" by blast
  have "\<forall>y \<in> set (live_neighbors (ns u)). endpoint (nd_names n') y = Some (nd_addr (ns y))"
    using su(8,12) e(3) by (simp add: res(1) hears_def)
  from wire_of_copies [OF _ line this] have "wire_out n' out = map (\<lambda>y. (nd_addr (ns y), line)) (live_neighbors (ns u))"
    using q(1) live by (simp add: res(2) sends_to_all fabric_of_def)
  moreover have "decode_lsp (p_payload q) = Some (news_of (ns u))"
    using decode_lsp_own [OF news_facts(4) [OF plan u u] q(3)] q(4) by simp
  then have "carries ns rid u u q line" using q line by (simp add: carries_def)
  ultimately show "\<exists>c line. wire_out n' out = map (\<lambda>y. (nd_addr (ns y), line)) (live_neighbors (ns u)) \<and>
      carries ns rid u u c line \<and> sint (p_ttl c) = 15" using q(6) by blast
qed

section \<open>Each announcement is a flood\<close>

definition notice_for :: "(string \<Rightarrow> node) \<Rightarrow> (string \<Rightarrow> string) \<Rightarrow> string \<Rightarrow> string set \<Rightarrow> string \<Rightarrow> string \<Rightarrow> bool" where
  "notice_for ns rid u W x line \<longleftrightarrow> (\<exists>q path. carries ns rid u (last path) q line \<and> trail ns u W path \<and>
     sint (p_ttl q) = 16 - int (length path) \<and> hears ns (last path) x)"

definition notice_other :: "string set \<Rightarrow> (string \<Rightarrow> node) \<Rightarrow> (string \<Rightarrow> string) \<Rightarrow> string \<Rightarrow> string \<Rightarrow> string \<Rightarrow> bool" where
  "notice_other N ns rid u x line \<longleftrightarrow> (\<exists>q o' z. o' \<in> N \<and> rid o' \<noteq> rid u \<and> z \<in> N \<and> hears ns z x \<and> carries ns rid o' z q line)"

definition notice_of :: "(string \<Rightarrow> string) \<Rightarrow> string \<Rightarrow> string \<Rightarrow> bool" where
  "notice_of rid u line \<longleftrightarrow> (case decode line of None \<Rightarrow> False | Some p \<Rightarrow> header_string p header_msg_id = rid u)"

definition uninformed :: "string set \<Rightarrow> (string \<Rightarrow> node) \<Rightarrow> (string \<Rightarrow> string) \<Rightarrow> string \<Rightarrow> string \<Rightarrow> node \<Rightarrow> bool" where
  "uninformed N ns rid u x n \<longleftrightarrow> in_round N ns x n \<and> seen_at (ls_seen (lsr_of n)) (rid u) = None \<and>
     on_record (lsr_of n) u = on_record (lsr_of (ns x)) u \<and> (x = u \<longrightarrow> ls_seq (lsr_of n) = ls_seq (lsr_of (ns u)))"

definition informed :: "string set \<Rightarrow> (string \<Rightarrow> node) \<Rightarrow> (string \<Rightarrow> string) \<Rightarrow> gotime \<Rightarrow> string \<Rightarrow> string \<Rightarrow> node \<Rightarrow> bool" where
  "informed N ns rid start u x n \<longleftrightarrow> in_round N ns x n \<and> (\<exists>t. seen_at (ls_seen (lsr_of n)) (rid u) = Some t \<and> start \<le> t) \<and>
     (x \<noteq> u \<longrightarrow> on_record (lsr_of n) u = Some (entry_of (ns u)))"

definition timely :: "gotime \<Rightarrow> gotime \<times> string \<times> string \<Rightarrow> bool" where
  "timely start t \<longleftrightarrow> on_time start lsp_seen_ttl (fst t)"

lemma carried_mine: "carries ns rid o' z q line \<Longrightarrow> notice_of rid u line \<longleftrightarrow> rid o' = rid u"
  using carried_read(1,5) by (simp add: notice_of_def)

lemma round_cache:
  assumes "round_plan N ns rid" "x \<in> N" "in_round N ns x n" "u \<in> N" "on_time start lsp_seen_ttl now"
  shows "seen_at (ls_seen (lsr_of n)) (rid u) = None \<Longrightarrow>
      \<not> fst (seen now (rid u) (ls_seen (lsr_of n))) \<and> seen_at (snd (seen now (rid u) (ls_seen (lsr_of n)))) (rid u) = Some now"
    and "seen_at (ls_seen (lsr_of n)) (rid u) = Some t \<Longrightarrow> start \<le> t \<Longrightarrow>
      fst (seen now (rid u) (ls_seen (lsr_of n))) \<and> seen_at (snd (seen now (rid u) (ls_seen (lsr_of n)))) (rid u) = Some t"
    and "seen_at (ls_seen (lsr_of n)) (rid u) = None \<Longrightarrow> rid u \<noteq> r \<Longrightarrow> seen_at (snd (seen now r (ls_seen (lsr_of n)))) (rid u) = None"
    and "seen_at (ls_seen (lsr_of n)) (rid u) = Some t \<Longrightarrow> start \<le> t \<Longrightarrow> seen_at (snd (seen now r (ls_seen (lsr_of n)))) (rid u) = Some t"
proof -
  have c: "seen_ok (ls_seen (lsr_of n))" "sc_ttl (ls_seen (lsr_of n)) = lsp_seen_ttl"
    using in_roundD(7) [OF assms(1-3)] by (simp_all add: lsr_inv_def cache_ok_def)
  have d: "0 \<le> lsp_seen_ttl" "lsp_seen_ttl < 9223372036854775807" by (simp_all add: lsp_seen_ttl_def second_def)
  note w = seen_window [OF c spreadsD(16) [OF assms(1,4)] assms(5) d]
  show "seen_at (ls_seen (lsr_of n)) (rid u) = None \<Longrightarrow>
      \<not> fst (seen now (rid u) (ls_seen (lsr_of n))) \<and> seen_at (snd (seen now (rid u) (ls_seen (lsr_of n)))) (rid u) = Some now"
    by (rule w(1))
  show "seen_at (ls_seen (lsr_of n)) (rid u) = Some t \<Longrightarrow> start \<le> t \<Longrightarrow>
      fst (seen now (rid u) (ls_seen (lsr_of n))) \<and> seen_at (snd (seen now (rid u) (ls_seen (lsr_of n)))) (rid u) = Some t"
    by (rule w(2))
  show "seen_at (ls_seen (lsr_of n)) (rid u) = None \<Longrightarrow> rid u \<noteq> r \<Longrightarrow> seen_at (snd (seen now r (ls_seen (lsr_of n)))) (rid u) = None"
    by (rule seen.invents_nothing [OF c(1)])
  assume t: "seen_at (ls_seen (lsr_of n)) (rid u) = Some t" "start \<le> t"
  have "\<not> lsp_seen_ttl < time_sub now t" using time_sub_gt [OF d, of now t] t(2) assms(5) by (simp add: on_time_def)
  then show "seen_at (snd (seen now r (ls_seen (lsr_of n)))) (rid u) = Some t" using seen.keeps [OF c(1) t(1)] c(2) by simp
qed

lemma notice_again:
  assumes plan: "round_plan N ns rid" and u: "u \<in> N" and x: "x \<in> W" and W: "W \<subseteq> N" and n: "informed N ns rid start u x n"
    and line: "notice_for ns rid u W x line" and t: "timely start t" and r: "line_reader t line n = (n', out, got)"
  shows "informed N ns rid start u x n' \<and> out = [] \<and> got = []"
proof -
  have xN: "x \<in> N" using x W by blast
  obtain t0 where n0: "in_round N ns x n" "seen_at (ls_seen (lsr_of n)) (rid u) = Some t0" "start \<le> t0"
    "x \<noteq> u \<longrightarrow> on_record (lsr_of n) u = Some (entry_of (ns u))" using n by (auto simp: informed_def)
  obtain q path where q: "carries ns rid u (last path) q line" "trail ns u W path" "hears ns (last path) x"
    using line by (auto simp: notice_for_def)
  have "last path \<in> N" using q(2) W last_in_set unfolding trail_def by blast
  obtain now r1 r2 where t3: "t = (now, r1, r2)" by (cases t)
  have now: "on_time start lsp_seen_ttl now" using t by (simp add: timely_def t3)
  note l = line_read [OF plan xN n0(1) u \<open>last path \<in> N\<close> q(3,1) r [unfolded t3]]
  note k = round_cache(2) [OF plan xN n0(1) u now n0(2,3)]
  have "\<not> news_to now (rid u) x u (ls_seq (lsr_of (ns u)) + 1) (lsr_of n)" using k by (simp add: news_to_def)
  then show ?thesis using l k n0(3,4) by (auto simp: informed_def)
qed

lemma notice_elsewhere:
  assumes plan: "round_plan N ns rid" and u: "u \<in> N" and x: "x \<in> N" and line: "notice_other N ns rid u x line"
    and t: "timely start t" and r: "line_reader t line n = (n', out, got)"
    and n: "uninformed N ns rid u x n \<or> informed N ns rid start u x n"
  shows "(uninformed N ns rid u x n \<longrightarrow> uninformed N ns rid u x n') \<and> (informed N ns rid start u x n \<longrightarrow> informed N ns rid start u x n') \<and>
    got = [] \<and> (\<forall>l \<in> set out. \<exists>y. hears ns x y \<and> fst l = nd_addr (ns y) \<and> notice_other N ns rid u y (snd l))"
proof -
  obtain q o' z where q: "o' \<in> N" "rid o' \<noteq> rid u" "z \<in> N" "hears ns z x" "carries ns rid o' z q line"
    using line unfolding notice_other_def by blast
  have rid: "rid u \<noteq> rid o'" "u \<noteq> o'" using q(2) by auto
  have n0: "in_round N ns x n" using n by (auto simp: informed_def uninformed_def)
  obtain now r1 r2 where t3: "t = (now, r1, r2)" by (cases t)
  have now: "on_time start lsp_seen_ttl now" using t by (simp add: timely_def t3)
  note l = line_read [OF plan x n0 q(1,3,4,5) r [unfolded t3]]
  note k = round_cache(3,4) [OF plan x n0 u now]
  have rec: "on_record (lsr_of n') u = on_record (lsr_of n) u" using l(5) rid by simp
  have "uninformed N ns rid u x n'" if "uninformed N ns rid u x n"
    using that l k(1) [of "rid o'"] rid rec by (simp add: uninformed_def)
  moreover have "informed N ns rid start u x n'" if i: "informed N ns rid start u x n"
  proof -
    obtain t0 where "seen_at (ls_seen (lsr_of n)) (rid u) = Some t0" "start \<le> t0" using i by (auto simp: informed_def)
    with k(2) [OF this, of "rid o'"] show ?thesis using i l rec by (auto simp: informed_def)
  qed
  moreover have "\<exists>y. hears ns x y \<and> fst m = nd_addr (ns y) \<and> notice_other N ns rid u y (snd m)" if m: "m \<in> set out" for m
  proof -
    have "out \<noteq> []" using m by auto
    then obtain c line' where c: "out = map (\<lambda>y. (nd_addr (ns y), line')) (filter (\<lambda>y. y \<noteq> z) (live_neighbors (ns x)))"
      "carries ns rid o' x c line'" using l(6,7) by blast
    then obtain y where "y \<in> set (live_neighbors (ns x))" "m = (nd_addr (ns y), line')" using m by auto
    then show ?thesis using q(1,2) x c(2) unfolding notice_other_def hears_def by auto
  qed
  ultimately show ?thesis using l(2) by blast
qed

lemma notice_first:
  assumes plan: "round_plan N ns rid" and u: "u \<in> N" and x: "x \<in> N" "x \<notin> W" and W: "W \<subseteq> N" and n: "uninformed N ns rid u x n"
    and line: "notice_for ns rid u W x line" and t: "timely start t" and r: "line_reader t line n = (n', out, got)"
  shows "informed N ns rid start u x n' \<and> length out \<le> length (live_neighbors (ns x)) \<and> got = [] \<and>
    (\<forall>l \<in> set out. \<exists>y. hears ns x y \<and> fst l = nd_addr (ns y) \<and> notice_for ns rid u (insert x W) y (snd l)) \<and>
    (\<forall>y. hears ns x y \<longrightarrow> y \<in> insert x W \<or> nd_addr (ns y) \<in> fst ` set out)"
proof -
  obtain q path where q: "carries ns rid u (last path) q line" "trail ns u W path" "sint (p_ttl q) = 16 - int (length path)"
    "hears ns (last path) x" using line by (auto simp: notice_for_def)
  have path: "set path \<subseteq> W" "distinct path" "last path \<in> W" "u \<in> W" "path \<noteq> []"
    using q(2) last_in_set hd_in_set by (auto simp: trail_def)
  then have z: "last path \<in> N" and xu: "x \<noteq> u" using W x(2) by blast+
  have n0: "in_round N ns x n" "seen_at (ls_seen (lsr_of n)) (rid u) = None" "on_record (lsr_of n) u = on_record (lsr_of (ns x)) u"
    using n by (simp_all add: uninformed_def)
  obtain now r1 r2 where t3: "t = (now, r1, r2)" by (cases t)
  have now: "on_time start lsp_seen_ttl now" using t by (simp add: timely_def t3)
  note l = line_read [OF plan x(1) n0(1) u z q(4,1) r [unfolded t3]]
  note k = round_cache(1) [OF plan x(1) n0(1) u now n0(2)]
  have "\<not> stale (lsr_of n) u (ls_seq (lsr_of (ns u)) + 1)"
    using spreadsD(14) [OF plan x(1) u] xu n0(3) by (simp add: stale_record)
  then have new: "news_to now (rid u) x u (ls_seq (lsr_of (ns u)) + 1) (lsr_of n)" using k xu by (simp add: news_to_def)
  have inf: "informed N ns rid start u x n'" using l(1,3,5) k new now by (auto simp: informed_def on_time_def)
  show ?thesis
  proof (cases "1 < sint (p_ttl q)")
    case True
    then obtain c line' where c: "out = map (\<lambda>y. (nd_addr (ns y), line')) (filter (\<lambda>y. y \<noteq> last path) (live_neighbors (ns x)))"
      "carries ns rid u x c line'" "sint (p_ttl c) = sint (p_ttl q) - 1" using l(7) new by blast
    have "trail ns u (insert x W) (path @ [x])" using trail_snoc [OF q(2,4) x(2)] .
    then have "notice_for ns rid u (insert x W) y line'" if "hears ns x y" for y
      unfolding notice_for_def using c(2,3) q(3) that by (intro exI [of _ c] exI [of _ "path @ [x]"]) simp
    then have "\<forall>l \<in> set out. \<exists>y. hears ns x y \<and> fst l = nd_addr (ns y) \<and> notice_for ns rid u (insert x W) y (snd l)"
      by (auto simp: c(1) hears_def)
    moreover have "\<forall>y. hears ns x y \<longrightarrow> y \<in> insert x W \<or> nd_addr (ns y) \<in> fst ` set out"
      using path(3) by (auto simp: c(1) hears_def image_iff)
    moreover have "length out \<le> length (live_neighbors (ns x))" by (simp add: c(1))
    ultimately show ?thesis using inf l(2) by blast
  next
    case False
    have fin: "finite N" "card N \<le> 16" using plan by (simp_all add: round_plan_def)
    have "0 < sint (p_ttl q)" using q(1) by (simp add: carries_def)
    then have "length path = 15" using False q(3) by linarith
    then have "card (set path) = 15" using path(2) by (simp add: distinct_card)
    moreover have "x \<notin> set path" using path(1) x(2) by blast
    ultimately have "card (insert x (set path)) = 16" by simp
    moreover have "insert x (set path) \<subseteq> N" using path(1) W x(1) by blast
    ultimately have "insert x (set path) = N" using fin card_seteq [OF fin(1)] by simp
    then have "y \<in> insert x W" if "hears ns x y" for y using spreadsD(8) [OF plan x(1) that] path(1) by blast
    moreover have "out = []" using l(6) False by blast
    ultimately show ?thesis using inf l(2) by simp
  qed
qed

interpretation news: flood_wave line_reader "timely start" "\<lambda>x. nd_addr (ns x)" "on_plan (round_plan N ns rid \<and> u \<in> N) N"
    "hears ns" "\<lambda>x. length (live_neighbors (ns x))" "\<lambda>x. False" "uninformed N ns rid u" "informed N ns rid start u" "notice_of rid u"
    "notice_for ns rid u" "notice_other N ns rid u" "\<lambda>W x gs. gs = []"
  for start ns N rid u
proof unfold_locales
  fix x y W W' m t s s' out got
  let ?N = "on_plan (round_plan N ns rid \<and> u \<in> N) N"
  have on: "X \<subseteq> ?N \<Longrightarrow> X \<noteq> {} \<Longrightarrow> round_plan N ns rid \<and> u \<in> N \<and> X \<subseteq> N" for X by (auto simp: on_plan_def split: if_splits)
  show "finite ?N" by (simp add: on_plan_def round_plan_def)
  show "x \<in> ?N \<Longrightarrow> y \<in> ?N \<Longrightarrow> nd_addr (ns x) = nd_addr (ns y) \<Longrightarrow> x = y"
    using round_addresses [of N ns rid x y] by simp
  show "x \<in> ?N \<Longrightarrow> hears ns x y \<Longrightarrow> y \<in> ?N" using spreadsD(8) [of N ns rid x y] by auto
  show "notice_for ns rid u W x m \<Longrightarrow> notice_of rid u m \<and> W \<noteq> {}"
    using carried_mine by (auto simp: notice_for_def trail_def)
  show "notice_for ns rid u W x m \<Longrightarrow> W \<subseteq> W' \<Longrightarrow> notice_for ns rid u W' x m"
    using trail_mono unfolding notice_for_def by blast
  show "\<exists>t. timely start t" by (auto simp: timely_def on_time_def lsp_seen_ttl_def second_def)
  show "x \<in> W \<Longrightarrow> W \<subseteq> ?N \<Longrightarrow> informed N ns rid start u x s \<Longrightarrow> notice_for ns rid u W x m \<Longrightarrow> timely start t \<Longrightarrow>
      line_reader t m s = (s', out, got) \<Longrightarrow> informed N ns rid start u x s' \<and> out = [] \<and> got = []"
    using on [of W] notice_again [of N ns rid u x W start s m t s' out got] by blast
  show "x \<in> ?N \<Longrightarrow> x \<notin> W \<Longrightarrow> W \<subseteq> ?N \<Longrightarrow> uninformed N ns rid u x s \<Longrightarrow> notice_for ns rid u W x m \<Longrightarrow> timely start t \<Longrightarrow>
      line_reader t m s = (s', out, got) \<Longrightarrow>
      informed N ns rid start u x s' \<and> length out \<le> length (live_neighbors (ns x)) \<and> got = [] \<and>
      (\<forall>l \<in> set out. \<exists>y. hears ns x y \<and> fst l = nd_addr (ns y) \<and> notice_for ns rid u (insert x W) y (snd l)) \<and>
      (False \<or> (\<forall>y. hears ns x y \<longrightarrow> y \<in> insert x W \<or> nd_addr (ns y) \<in> fst ` set out))"
    using on [of "insert x W"] notice_first [of N ns rid u x W s m start t s' out got] by simp
  show "x \<in> ?N \<Longrightarrow> uninformed N ns rid u x s \<or> informed N ns rid start u x s \<Longrightarrow> notice_other N ns rid u x m \<Longrightarrow> timely start t \<Longrightarrow>
      line_reader t m s = (s', out, got) \<Longrightarrow>
      (uninformed N ns rid u x s \<longrightarrow> uninformed N ns rid u x s') \<and> (informed N ns rid start u x s \<longrightarrow> informed N ns rid start u x s') \<and>
      got = [] \<and> (\<forall>l \<in> set out. \<exists>y. hears ns x y \<and> fst l = nd_addr (ns y) \<and> notice_other N ns rid u y (snd l))"
    using notice_elsewhere [of N ns rid u x m start t s s' out got] by simp
  show "notice_other N ns rid u x m \<Longrightarrow> \<not> notice_of rid u m" using carried_mine by (auto simp: notice_other_def)
qed simp_all

end
