(* ===== verification/Net_Converge.thy ===== *)
theory Net_Converge
  imports Net_Spread
begin

text \<open>
  A whole round: the steps of a network in which every node announces itself once, the
  invariant that keeps a flood for each announcement, and what the round leads to. When the
  last copy has been read, every node routes by the shortest paths of one graph, the graph of
  the links that are up.
\<close>

section \<open>The steps of a round\<close>

text \<open>The nodes that have announced themselves, and the network.\<close>

type_synonym round_state = "string set \<times> (string, node, string, string, packet) wave"

inductive round_step ::
    "string set \<Rightarrow> (string \<Rightarrow> string) \<Rightarrow> (string \<Rightarrow> string) \<Rightarrow> gotime \<Rightarrow> round_state \<Rightarrow> round_state \<Rightarrow> bool"
  for N addr rid start where
  round_announce: "x \<in> N \<Longrightarrow> x \<notin> L \<Longrightarrow> on_time start lsp_seen_ttl now \<Longrightarrow>
    on_alg (\<lambda>fab. alg_refresh fab now (rid x)) (wv_nodes w x) = (n', out) \<Longrightarrow>
    round_step N addr rid start (L, w)
      (insert x L, w\<lparr>wv_nodes := (wv_nodes w)(x := n'), wv_lines := wv_lines w @ wire_out n' out\<rparr>)"
| round_read: "l \<in> set (wv_lines w) \<Longrightarrow> x \<in> N \<Longrightarrow> fst l = addr x \<Longrightarrow> timely start t \<Longrightarrow>
    round_step N addr rid start (L, w) (L, wave_turn line_reader t x l w)"

text \<open>\<open>Ws u\<close> are the nodes that have met the announcement of \<open>u\<close>.\<close>

definition round_inv :: "(string \<Rightarrow> node) \<Rightarrow> string set \<Rightarrow> (string \<Rightarrow> string) \<Rightarrow> gotime \<Rightarrow> (string \<Rightarrow> string set) \<Rightarrow> round_state \<Rightarrow> bool" where
  "round_inv ns N rid start Ws st \<longleftrightarrow> fst st \<subseteq> N \<and>
     (\<forall>u \<in> N. news.wave_inv ns N rid u start u (Ws u) (snd st) \<and> (u \<in> fst st \<longleftrightarrow> Ws u \<noteq> {}))"

text \<open>The copies that are under way or may still be sent.\<close>

definition due_copies :: "(string \<Rightarrow> node) \<Rightarrow> string set \<Rightarrow> (string \<Rightarrow> string) \<Rightarrow> (string \<Rightarrow> string set) \<Rightarrow> round_state \<Rightarrow> nat" where
  "due_copies ns N rid Ws st =
     (\<Sum>u \<in> N. left (notice_of rid u) (wv_lines (snd st)) + load (\<lambda>x. length (live_neighbors (ns x))) (N - Ws u))"

lemma round_invD:
  assumes "round_inv ns N rid start Ws (L, w)"
  shows "L \<subseteq> N" "u \<in> N \<Longrightarrow> news.wave_inv ns N rid u start u (Ws u) w" "u \<in> N \<Longrightarrow> u \<in> L \<longleftrightarrow> Ws u \<noteq> {}"
  using assms by (simp_all add: round_inv_def)

lemma on_round [simp]: "round_plan N ns rid \<Longrightarrow> u \<in> N \<Longrightarrow> on_plan (round_plan N ns rid \<and> u \<in> N) N = N"
  by (simp add: on_plan_def)

lemma round_starts:
  assumes "round_plan N ns rid"
  shows "round_inv ns N rid start (\<lambda>u. {}) ({}, \<lparr>wv_nodes = ns, wv_lines = [], wv_got = []\<rparr>)"
proof -
  have "uninformed N ns rid u x (ns x)" if "u \<in> N" "x \<in> N" for u x
    using in_round_start [OF assms that(2)] spreadsD(13) [OF assms that(2,1)] by (simp add: uninformed_def)
  then have "news.wave_inv ns N rid u start u {} \<lparr>wv_nodes = ns, wv_lines = [], wv_got = []\<rparr>" if "u \<in> N" for u
    using that by (intro news.wave_begins) simp_all
  then show ?thesis by (simp add: round_inv_def)
qed

text \<open>Every copy belongs to the announcement of a node.\<close>

lemma copy_of_node:
  assumes "round_inv ns N rid start Ws (L, w)" "round_plan N ns rid" "l \<in> set (wv_lines w)"
  shows "\<exists>u \<in> N. notice_of rid u (snd l)" "\<exists>x \<in> N. fst l = nd_addr (ns x)"
proof -
  obtain u where u: "u \<in> N" using assms(2) by (auto simp: round_plan_def)
  from news.wave_invD(4) [OF round_invD(2) [OF assms(1) u] assms(3)] obtain x where x: "x \<in> N" "fst l = nd_addr (ns x)"
    "notice_for ns rid u (Ws u) x (snd l) \<or> notice_other N ns rid u x (snd l)" using assms(2) u by auto
  then show "\<exists>x \<in> N. fst l = nd_addr (ns x)" by blast
  show "\<exists>u \<in> N. notice_of rid u (snd l)"
    using x(3) u carried_mine unfolding notice_for_def notice_other_def by metis
qed

text \<open>A node announces itself.\<close>

lemma round_announced:
  assumes plan: "round_plan N ns rid" and i: "round_inv ns N rid start Ws (L, w)" and x: "x \<in> N" "x \<notin> L" and now: "on_time start lsp_seen_ttl now"
    and r: "on_alg (\<lambda>fab. alg_refresh fab now (rid x)) (wv_nodes w x) = (n', out)"
  defines "w' \<equiv> w\<lparr>wv_nodes := (wv_nodes w)(x := n'), wv_lines := wv_lines w @ wire_out n' out\<rparr>"
  shows "round_inv ns N rid start (Ws(x := {x})) (insert x L, w')"
    and "due_copies ns N rid (Ws(x := {x})) (insert x L, w') \<le> due_copies ns N rid Ws (L, w)"
proof -
  have empty: "Ws x = {}" using round_invD(3) [OF i x(1)] x(2) by blast
  have ux: "uninformed N ns rid x x (wv_nodes w x)"
    using news.wave_invD(3) [OF round_invD(2) [OF i x(1)], of x] empty x(1) plan by simp
  then have n: "in_round N ns x (wv_nodes w x)" "ls_seq (lsr_of (wv_nodes w x)) = ls_seq (lsr_of (ns x))"
    "seen_at (ls_seen (lsr_of (wv_nodes w x))) (rid x) = None" by (simp_all add: uninformed_def)
  note s = line_sent [OF plan x(1) n(1,2) r]
  obtain c line where c: "wire_out n' out = map (\<lambda>y. (nd_addr (ns y), line)) (live_neighbors (ns x))"
    "carries ns rid x x c line" "sint (p_ttl c) = 15" using s(4) by blast
  have inv: "news.wave_inv ns N rid u start u ((Ws(x := {x})) u) w'" if u: "u \<in> N" for u
  proof (cases "u = x")
    case True
    have "informed N ns rid start x x n'"
      using s(1,2) round_cache(1) [OF plan x(1) n(1) x(1) now n(3)] now by (simp add: informed_def on_time_def)
    moreover have "notice_for ns rid x {x} y line" if "hears ns x y" for y
      unfolding notice_for_def using c(2,3) that by (intro exI [of _ c] exI [of _ "[x]"]) (simp add: trail_def)
    ultimately show ?thesis
      using news.sends_first [of ns N rid x start x w n' "wire_out n' out"] round_invD(2) [OF i x(1)] empty x(1) plan
      by (auto simp: w'_def True c(1) hears_def image_iff)
  next
    case False
    have rid: "rid x \<noteq> rid u" using plan x(1) u False by (auto simp: round_plan_def inj_on_def)
    have old: "if x \<in> Ws u then informed N ns rid start u x (wv_nodes w x) else uninformed N ns rid u x (wv_nodes w x)"
      using news.wave_invD(3) [OF round_invD(2) [OF i u], of x] x(1) u plan by simp
    note k = round_cache(3,4) [OF plan x(1) n(1) u now]
    have "uninformed N ns rid u x n'" if "uninformed N ns rid u x (wv_nodes w x)"
      using that s(1-3) k(1) [of "rid x"] rid False by (simp add: uninformed_def)
    moreover have "informed N ns rid start u x n'" if i: "informed N ns rid start u x (wv_nodes w x)"
    proof -
      obtain t0 where "seen_at (ls_seen (lsr_of (wv_nodes w x))) (rid u) = Some t0" "start \<le> t0" using i by (auto simp: informed_def)
      with k(2) [OF this, of "rid x"] show ?thesis using i s(1-3) by (auto simp: informed_def)
    qed
    ultimately have new: "if x \<in> Ws u then informed N ns rid start u x n' else uninformed N ns rid u x n'" using old by (simp split: if_splits)
    have "notice_other N ns rid u y line" if "hears ns x y" for y
      using c(2) x(1) rid that unfolding notice_other_def by blast
    then show ?thesis
      using news.sends_other [OF round_invD(2) [OF i u], of x n' "wire_out n' out"] x(1) u plan new False
      by (auto simp: w'_def c(1) hears_def)
  qed
  then show "round_inv ns N rid start (Ws(x := {x})) (insert x L, w')"
    using round_invD(1,3) [OF i] x(1) by (auto simp: round_inv_def)
  have fin: "finite N" using plan by (simp add: round_plan_def)
  have "left (notice_of rid u) (wv_lines w') + load (\<lambda>x. length (live_neighbors (ns x))) (N - (Ws(x := {x})) u)
      \<le> left (notice_of rid u) (wv_lines w) + load (\<lambda>x. length (live_neighbors (ns x))) (N - Ws u)" if u: "u \<in> N" for u
  proof (cases "u = x")
    case True
    have "left (notice_of rid x) (wire_out n' out) \<le> length (live_neighbors (ns x))"
      using left_le [of "notice_of rid x" "wire_out n' out"] by (simp add: c(1))
    moreover have "load (\<lambda>x. length (live_neighbors (ns x))) N = length (live_neighbors (ns x)) + load (\<lambda>x. length (live_neighbors (ns x))) (N - {x})"
      using fin x(1) by (simp add: load_def sum.remove)
    ultimately show ?thesis using True empty by (simp add: w'_def)
  next
    case False
    have "rid x \<noteq> rid u" using plan x(1) u False by (auto simp: round_plan_def inj_on_def)
    then have "left (notice_of rid u) (wire_out n' out) = 0" using carried_mine [OF c(2)] by (auto simp: c(1) left_def filter_empty_conv)
    then show ?thesis using False by (simp add: w'_def)
  qed
  then show "due_copies ns N rid (Ws(x := {x})) (insert x L, w') \<le> due_copies ns N rid Ws (L, w)"
    unfolding due_copies_def snd_conv by (intro sum_mono)
qed

text \<open>A copy is read.\<close>

lemma round_copy_read:
  assumes plan: "round_plan N ns rid" and i: "round_inv ns N rid start Ws (L, w)"
    and l: "l \<in> set (wv_lines w)" and x: "x \<in> N" "fst l = nd_addr (ns x)" and t: "timely start t"
  defines "w' \<equiv> wave_turn line_reader t x l w"
  shows "\<exists>Ws'. round_inv ns N rid start Ws' (L, w') \<and> due_copies ns N rid Ws' (L, w') < due_copies ns N rid Ws (L, w)"
proof -
  let ?deg = "\<lambda>x. length (live_neighbors (ns x))"
  have "\<forall>u \<in> N. \<exists>W'. (Ws u = {} \<longleftrightarrow> W' = {}) \<and> news.wave_inv ns N rid u start u W' w' \<and>
      left (notice_of rid u) (wv_lines w') + load ?deg (N - W') + (if notice_of rid u (snd l) then 1 else 0)
        \<le> left (notice_of rid u) (wv_lines w) + load ?deg (N - Ws u)"
  proof
    fix u assume u: "u \<in> N"
    have "x \<in> on_plan (round_plan N ns rid \<and> u \<in> N) N" using plan u x(1) by simp
    from news.wave_turn_inv [OF round_invD(2) [OF i u] l this x(2) t, folded w'_def]
    show "\<exists>W'. (Ws u = {} \<longleftrightarrow> W' = {}) \<and> news.wave_inv ns N rid u start u W' w' \<and>
      left (notice_of rid u) (wv_lines w') + load ?deg (N - W') + (if notice_of rid u (snd l) then 1 else 0)
        \<le> left (notice_of rid u) (wv_lines w) + load ?deg (N - Ws u)" using plan u by fastforce
  qed
  from bchoice [OF this] obtain Ws' where W: "\<forall>u \<in> N. (Ws u = {} \<longleftrightarrow> Ws' u = {}) \<and> news.wave_inv ns N rid u start u (Ws' u) w' \<and>
      left (notice_of rid u) (wv_lines w') + load ?deg (N - Ws' u) + (if notice_of rid u (snd l) then 1 else 0)
        \<le> left (notice_of rid u) (wv_lines w) + load ?deg (N - Ws u)" ..
  have "round_inv ns N rid start Ws' (L, w')"
    using W round_invD(1,3) [OF i] by (auto simp: round_inv_def)
  moreover have "due_copies ns N rid Ws' (L, w') < due_copies ns N rid Ws (L, w)"
    unfolding due_copies_def snd_conv
  proof (rule sum_strict_mono_ex1)
    show "finite N" using plan by (simp add: round_plan_def)
    show "\<forall>u \<in> N. left (notice_of rid u) (wv_lines w') + load ?deg (N - Ws' u) \<le> left (notice_of rid u) (wv_lines w) + load ?deg (N - Ws u)"
      using W by fastforce
    obtain u where "u \<in> N" "notice_of rid u (snd l)" using copy_of_node(1) [OF i plan l] by blast
    then show "\<exists>u \<in> N. left (notice_of rid u) (wv_lines w') + load ?deg (N - Ws' u) < left (notice_of rid u) (wv_lines w) + load ?deg (N - Ws u)"
      using W by (intro bexI [of _ u]) auto
  qed
  ultimately show ?thesis by blast
qed

section \<open>The whole round\<close>

lemma round_run:
  assumes plan: "round_plan N ns rid"
    and "(round_step N (\<lambda>x. nd_addr (ns x)) rid start ^^ k) ({}, \<lparr>wv_nodes = ns, wv_lines = [], wv_got = []\<rparr>) st"
  shows "\<exists>Ws. round_inv ns N rid start Ws st \<and>
    k + due_copies ns N rid Ws st \<le> card (fst st) + card N * (\<Sum>x \<in> N. length (live_neighbors (ns x)))"
  using assms(2)
proof (induction k arbitrary: st)
  case 0
  then have "st = ({}, \<lparr>wv_nodes = ns, wv_lines = [], wv_got = []\<rparr>)" by simp
  then show ?case using round_starts [OF plan, of start] by (intro exI [of _ "\<lambda>u. {}"]) (simp add: due_copies_def load_def)
next
  case (Suc k)
  then obtain st1 where st1: "(round_step N (\<lambda>x. nd_addr (ns x)) rid start ^^ k) ({}, \<lparr>wv_nodes = ns, wv_lines = [], wv_got = []\<rparr>) st1"
    "round_step N (\<lambda>x. nd_addr (ns x)) rid start st1 st" by auto
  from Suc.IH [OF st1(1)] obtain Ws where W: "round_inv ns N rid start Ws st1"
    "k + due_copies ns N rid Ws st1 \<le> card (fst st1) + card N * (\<Sum>x \<in> N. length (live_neighbors (ns x)))" by blast
  from st1(2) show ?case
  proof cases
    case (round_announce x L now w n' out)
    note i = W(1) [unfolded round_announce(1)]
    have "finite L" using round_invD(1) [OF i] plan finite_subset by (auto simp: round_plan_def)
    then have "card (fst st) = Suc (card (fst st1))" using round_announce by simp
    then show ?thesis
      using W(2) round_announced [OF plan i round_announce(3-6)] unfolding round_announce(1,2)
      by (intro exI [of _ "Ws(x := {x})"]) (simp del: fun_upd_apply)
  next
    case (round_read l w x t L)
    from round_copy_read [OF plan W(1) [unfolded round_read(1)] round_read(3-6)] obtain Ws' where
      "round_inv ns N rid start Ws' st" "due_copies ns N rid Ws' st < due_copies ns N rid Ws st1"
      unfolding round_read(1,2) by blast
    then show ?thesis using W(2) round_read(1,2) by (intro exI [of _ Ws']) simp
  qed
qed

lemma length_left:
  assumes "finite N" and "\<And>l. l \<in> set ls \<Longrightarrow> \<exists>u \<in> N. f u (snd l)"
  shows "length ls \<le> (\<Sum>u \<in> N. left (f u) ls)"
  using assms(2)
proof (induction ls)
  case (Cons l ls)
  obtain u where u: "u \<in> N" "f u (snd l)" using Cons.prems [of l] by auto
  have "left (f v) (l # ls) = (if f v (snd l) then 1 else 0) + left (f v) ls" for v by (simp add: left_def)
  moreover have "1 \<le> (\<Sum>v \<in> N. if f v (snd l) then 1 else (0::nat))"
    using member_le_sum [OF u(1), of "\<lambda>v. if f v (snd l) then 1 else (0::nat)"] assms(1) u(2) by simp
  ultimately show ?case using Cons by (simp add: sum.distrib)
qed simp

lemma round_goes_on:
  assumes plan: "round_plan N ns rid" and i: "round_inv ns N rid start Ws (L, w)" and "L \<noteq> N \<or> wv_lines w \<noteq> []"
  shows "\<exists>st. round_step N (\<lambda>x. nd_addr (ns x)) rid start (L, w) st"
proof (cases "L = N")
  case True
  then obtain l where l: "l \<in> set (wv_lines w)" using assms(3) by (cases "wv_lines w") auto
  obtain x where "x \<in> N" "fst l = nd_addr (ns x)" using copy_of_node(2) [OF i plan l] by blast
  moreover have "timely start (start, [], [])" by (simp add: timely_def on_time_def lsp_seen_ttl_def second_def)
  ultimately show ?thesis using round_read [OF l] by metis
next
  case False
  then obtain x where x: "x \<in> N" "x \<notin> L" using round_invD(1) [OF i] by blast
  obtain n' out where "on_alg (\<lambda>fab. alg_refresh fab start (rid x)) (wv_nodes w x) = (n', out)" by fastforce
  moreover have "on_time start lsp_seen_ttl start" by (simp add: on_time_def lsp_seen_ttl_def second_def)
  ultimately show ?thesis using round_announce [OF x] by metis
qed

text \<open>After the last copy: what every node has on file.\<close>

lemma round_over:
  assumes plan: "round_plan N ns rid" and i: "round_inv ns N rid start Ws (N, w)" and "wv_lines w = []"
    and u: "u \<in> N" and x: "x \<in> N" and r: "(hears ns)\<^sup>*\<^sup>* u x"
  shows "informed N ns rid start u x (wv_nodes w x)"
proof -
  have "u \<in> Ws u" using news.wave_invD(1) [OF round_invD(2) [OF i u]] round_invD(3) [OF i u] u by blast
  then have "x \<in> Ws u" using news.wave_over [OF round_invD(2) [OF i u]] assms(3) r by simp
  then show ?thesis using news.wave_invD(3) [OF round_invD(2) [OF i u], of x] plan u x by simp
qed

lemma record_database: "lsr_inv self s \<Longrightarrow> mget (lsr_database s) y = on_record s y"
  by (simp add: mget_database on_record_def)

section \<open>One graph\<close>

text \<open>The links that are up at a node.\<close>

definition up_links :: "node \<Rightarrow> link list" where
  "up_links n = map (\<lambda>(v, st). \<lparr>l_from = nd_id n, l_to = v, l_cost = nb_cost st\<rparr>) (filter (\<lambda>(v, st). nb_alive st) (nd_neighbors n))"

lemma set_up_links:
  assumes "node_inv n"
  shows "l \<in> set (up_links n) \<longleftrightarrow> l_from l = nd_id n \<and> live_cost n (l_to l) = Some (l_cost l)"
proof -
  have wf: "wf_map (nd_neighbors n)" using assms by (simp add: node_inv_def neighbors_ok_def)
  have "l \<in> set (up_links n) \<longleftrightarrow> (\<exists>st. (l_to l, st) \<in> set (nd_neighbors n) \<and> nb_alive st \<and> l_cost l = nb_cost st \<and> l_from l = nd_id n)"
    by (cases l) (force simp: up_links_def)
  also have "\<dots> \<longleftrightarrow> l_from l = nd_id n \<and> live_cost n (l_to l) = Some (l_cost l)"
    by (auto simp: live_cost_def mget_iff [OF wf, symmetric] split: option.split)
  finally show ?thesis .
qed

text \<open>A node that has everybody's announcement on file shows exactly the links that are up.\<close>

lemma set_links_declared:
  "lsr_inv self s \<Longrightarrow> l \<in> set (lsr_links self s) \<longleftrightarrow> declared_cost self s (l_from l) (l_to l) = Some (l_cost l)"
proof -
  assume i: "lsr_inv self s"
  have same: "\<lparr>l_from = l_from l, l_to = l_to l, l_cost = l_cost l\<rparr> = l" by (cases l) simp
  have "l \<in> set (lsr_links self s) \<longleftrightarrow> l_cost l \<in> link_costs (lsr_links self s) (l_from l) (l_to l)"
    by (simp only: link_costs_iff same)
  then show ?thesis unfolding link_costs_lsr [OF i] by (cases "declared_cost self s (l_from l) (l_to l)") auto
qed

lemma informed_links:
  assumes plan: "round_plan N ns rid" and x: "x \<in> N" and n: "in_round N ns x n"
    and all: "\<And>u. u \<in> N \<Longrightarrow> u \<noteq> x \<Longrightarrow> on_record (lsr_of n) u = Some (entry_of (ns u))"
    and none: "\<And>y. y \<notin> N \<Longrightarrow> on_record (lsr_of (ns x)) y = None" and xs: "set xs = N"
  shows "set (lsr_links x (lsr_of n)) = set (concat (map (\<lambda>u. up_links (ns u)) xs))"
proof -
  note e = in_roundD [OF plan x n]
  have rec: "declared_cost x (lsr_of n) u v = (if u \<in> N then live_cost (ns u) v else None)" for u v
  proof (cases "u = x")
    case True
    then show ?thesis using x n live_links(2) [OF plan x] by (simp add: declared_cost_def in_round_def)
  next
    case False
    have "on_record (lsr_of n) u = (if u \<in> N then Some (entry_of (ns u)) else None)"
      using all [OF _ False] none n by (auto simp: in_round_def)
    then show ?thesis using False live_links(2) [OF plan, of u v]
      by (auto simp: declared_cost_def on_record_def entry_of_def split: option.splits if_splits)
  qed
  have up: "l \<in> set (up_links (ns u)) \<longleftrightarrow> l_from l = u \<and> live_cost (ns u) (l_to l) = Some (l_cost l)" if "u \<in> N" for u l
    using set_up_links [OF spreadsD(1) [OF plan that]] spreadsD(3) [OF plan that] by simp
  have "l \<in> set (lsr_links x (lsr_of n)) \<longleftrightarrow> (\<exists>u \<in> N. l \<in> set (up_links (ns u)))" for l
    unfolding set_links_declared [OF e(7), of l] rec using up by (auto split: if_splits)
  then show ?thesis using xs by auto
qed

lemma informed_table:
  assumes plan: "round_plan N ns rid" and x: "x \<in> N" and n: "in_round N ns x n"
    and all: "\<And>u. u \<in> N \<Longrightarrow> u \<noteq> x \<Longrightarrow> on_record (lsr_of n) u = Some (entry_of (ns u))"
    and none: "\<And>y. y \<notin> N \<Longrightarrow> on_record (lsr_of (ns x)) y = None" and xs: "set xs = N"
  shows "node_table n = dijkstra (graph_of_links (concat (map (\<lambda>u. up_links (ns u)) xs))) x" "live_cost n = live_cost (ns x)"
proof -
  note e = in_roundD [OF plan x n]
  have "node_table n = dijkstra (graph_of_links (lsr_links x (lsr_of n))) x"
    using lsr_table_eq [OF e(7)] by (simp add: node_table_def e(6) lsr_ops_def)
  then show "node_table n = dijkstra (graph_of_links (concat (map (\<lambda>u. up_links (ns u)) xs))) x"
    using dijkstra_of_same_links [OF informed_links [OF assms] inv_nan_free [OF e(7)]] by simp
  show "live_cost n = live_cost (ns x)"
  proof
    fix v
    have i: "node_inv n" and l: "ls_links (lsr_of n) = ls_links (lsr_of (ns x))" using n by (simp_all add: in_round_def)
    have "on_file (live_cost n) (IsLsr (lsr_of n))" using i e(6) by (simp add: node_inv_def)
    then have "mget (ls_links (lsr_of n)) v = live_cost n v" by simp
    then show "live_cost n v = live_cost (ns x) v" using l live_links(2) [OF plan x] by simp
  qed
qed

text \<open>A round can be brought to its end.\<close>

lemma round_ends:
  assumes plan: "round_plan N ns rid"
  shows "\<exists>k w. (round_step N (\<lambda>x. nd_addr (ns x)) rid start ^^ k) ({}, \<lparr>wv_nodes = ns, wv_lines = [], wv_got = []\<rparr>) (N, w) \<and> wv_lines w = []"
proof -
  let ?r = "round_step N (\<lambda>x. nd_addr (ns x)) rid start" and ?st = "({}, \<lparr>wv_nodes = ns, wv_lines = [], wv_got = []\<rparr>)"
  have "k \<le> card N + card N * (\<Sum>x \<in> N. length (live_neighbors (ns x)))" if run: "(?r ^^ k) ?st st" for k st
  proof -
    obtain Ws where "round_inv ns N rid start Ws st" "k + due_copies ns N rid Ws st \<le> card (fst st) + card N * (\<Sum>x \<in> N. length (live_neighbors (ns x)))"
      using round_run [OF plan run] by blast
    moreover from this(1) have "card (fst st) \<le> card N" using plan card_mono by (auto simp: round_inv_def round_plan_def)
    ultimately show ?thesis by linarith
  qed
  moreover have "\<exists>st'. ?r st st'" if run: "(?r ^^ k) ?st st" and "\<not> (fst st = N \<and> wv_lines (snd st) = [])" for k st
    using round_run [OF plan run] round_goes_on [OF plan, of start _ "fst st" "snd st"] that(2) by auto
  ultimately obtain k st where "(?r ^^ k) ?st st" "fst st = N \<and> wv_lines (snd st) = []"
    using run_ends [of ?r ?st _ "\<lambda>st. fst st = N \<and> wv_lines (snd st) = []"] by blast
  then show ?thesis by (metis prod.collapse)
qed

text \<open>The graph of the links that are up, and nodes that route by it.\<close>

lemma up_graph:
  assumes plan: "round_plan N ns rid" and xs: "set xs = N"
  defines "g \<equiv> graph_of_links (concat (map (\<lambda>u. up_links (ns u)) xs))"
  shows "nan_free g" "\<forall>x \<in> N. \<forall>z c. live_cost (ns x) z = Some c \<longrightarrow> c \<in> whole ` {1..<2 ^ 53} \<Longrightarrow> whole_costs g"
    and "set (nodes g) \<subseteq> N" "u \<in> N \<Longrightarrow> hears ns u z \<Longrightarrow> u \<in> set (nodes g)"
proof -
  let ?es = "concat (map (\<lambda>u. up_links (ns u)) xs)"
  have up: "l \<in> set ?es \<longleftrightarrow> l_from l \<in> N \<and> live_cost (ns (l_from l)) (l_to l) = Some (l_cost l)" for l
    using set_up_links [OF spreadsD(1) [OF plan]] spreadsD(3) [OF plan] xs by auto
  have "l_cost l \<noteq> fnan" if "l \<in> set ?es" for l
  proof -
    have "is_finite (l_cost l)" using that up spreadsD(10) [OF plan] by blast
    then show ?thesis by (rule finite_not_nan)
  qed
  then have nan: "links_nan_free ?es" by (simp add: links_nan_free_def)
  show "nan_free g" unfolding g_def by (rule nan_free_graph_of_links [OF nan])
  show "whole_costs g" if "\<forall>x \<in> N. \<forall>z c. live_cost (ns x) z = Some c \<longrightarrow> c \<in> whole ` {1..<2 ^ 53}"
  proof -
    have "\<forall>l \<in> set ?es. l_cost l \<in> whole ` {1..<2 ^ 53}" using up that by blast
    then show ?thesis unfolding g_def by (rule whole_links [OF nan]) simp
  qed
  show "set (nodes g) \<subseteq> N"
    using up live_links(4) [OF plan] spreadsD(8) [OF plan] unfolding g_def nodes_graph_of_links by fastforce
  assume u: "u \<in> N" "hears ns u z"
  then obtain c where "live_cost (ns u) z = Some c" using live_links(4) [OF plan u(1)] by auto
  then have "\<lparr>l_from = u, l_to = z, l_cost = c\<rparr> \<in> set ?es" using up u(1) by simp
  then show "u \<in> set (nodes g)" unfolding g_def nodes_graph_of_links by force
qed

lemma converged_routes:
  assumes plan: "round_plan N ns rid" and out: "\<And>x. x \<in> N \<Longrightarrow> in_round N ns x (ms x) \<and> node_table (ms x) = dijkstra g x"
    and x: "x \<in> M" and M: "M \<subseteq> N" and seen: "\<forall>x \<in> N. seen_at (nd_seen (ns x)) mid = None"
  shows "routes_by g M ms mid x"
proof -
  have xN: "x \<in> N" using x M by blast
  have n: "in_round N ns x (ms x)" using out [OF xN] by blast
  note e = in_roundD [OF plan xN n] and sx = spreadsD [OF plan xN]
  have "node_local_id (ms x) (nd_addr (ms y)) = y \<and> endpoint (nd_names (ms x)) y = Some (nd_addr (ms y))" if "y \<in> M" for y
  proof -
    have y: "y \<in> N" using that M by blast
    then have "nd_addr (ms y) = nd_addr (ns y)" using in_roundD(2) [OF plan y] out by blast
    then show ?thesis using sx(11,12) [OF y] e(3,4) by simp
  qed
  moreover have "node_inv (ms x)" "nd_seen (ms x) = nd_seen (ns x)" using n by (simp_all add: in_round_def)
  ultimately show ?thesis using out [OF xN] e(1,2,6) sx(6) seen xN by (simp add: routes_by_def)
qed

lemma round_outcome:
  assumes plan: "round_plan N ns rid" and "\<forall>u \<in> N. \<forall>x \<in> N. (hears ns)\<^sup>*\<^sup>* u x"
    and run: "(round_step N (\<lambda>x. nd_addr (ns x)) rid start)\<^sup>*\<^sup>* ({}, \<lparr>wv_nodes = ns, wv_lines = [], wv_got = []\<rparr>) (N, w)"
    and "wv_lines w = []" and x: "x \<in> N"
  shows "in_round N ns x (wv_nodes w x)" "u \<in> N \<Longrightarrow> u \<noteq> x \<Longrightarrow> on_record (lsr_of (wv_nodes w x)) u = Some (entry_of (ns u))"
proof -
  obtain k where "(round_step N (\<lambda>x. nd_addr (ns x)) rid start ^^ k) ({}, \<lparr>wv_nodes = ns, wv_lines = [], wv_got = []\<rparr>) (N, w)"
    using run by (auto simp: rtranclp_power)
  from round_run [OF plan this] obtain Ws where W: "round_inv ns N rid start Ws (N, w)" by blast
  have inf: "informed N ns rid start u x (wv_nodes w x)" if "u \<in> N" for u
    using round_over [OF plan W assms(4) that x] assms(2) x that by blast
  then show "in_round N ns x (wv_nodes w x)" using x by (auto simp: informed_def)
  show "u \<in> N \<Longrightarrow> u \<noteq> x \<Longrightarrow> on_record (lsr_of (wv_nodes w x)) u = Some (entry_of (ns u))"
    using inf by (auto simp: informed_def)
qed

lemma nothing_else:
  assumes "round_plan N ns rid" "x \<in> N" "\<forall>x \<in> N. \<forall>y. y \<notin> N \<longrightarrow> mget (lsr_database (lsr_of (ns x))) y = None"
  shows "y \<notin> N \<Longrightarrow> on_record (lsr_of (ns x)) y = None"
  using record_database [OF in_roundD(7) [OF assms(1,2) in_round_start [OF assms(1,2)]], of y] assms(2,3) by metis

section \<open>Properties\<close>

text \<open>
  C4: a round of announcements ends and reaches everybody. In a network of at most sixteen
  link-state nodes whose links are heard both ways, let every node announce itself once, at any
  time, and let the copies be read in any order: no more steps are made than nodes times one
  more than the live links counted at each end; until all have announced themselves and no copy
  is left a step can be made; and then every node has on file, for each node whose live links
  lead to it, that node's links at their costs under its new sequence number.
\<close>

theorem announcements_spread:
  assumes "round_plan N ns rid"
    and "(round_step N (\<lambda>x. nd_addr (ns x)) rid start ^^ k) ({}, \<lparr>wv_nodes = ns, wv_lines = [], wv_got = []\<rparr>) (L, w)"
  shows "k + length (wv_lines w) \<le> card N * (1 + (\<Sum>x \<in> N. length (live_neighbors (ns x)))) \<and>
    (L = N \<and> wv_lines w = [] \<or> (\<exists>st. round_step N (\<lambda>x. nd_addr (ns x)) rid start (L, w) st)) \<and>
    (L = N \<and> wv_lines w = [] \<longrightarrow> (\<forall>u \<in> N. \<forall>x \<in> N. u \<noteq> x \<and> (hears ns)\<^sup>*\<^sup>* u x \<longrightarrow>
      (\<exists>s. nd_alg (wv_nodes w x) = IsLsr s \<and> mget (lsr_database s) u = Some (entry_of (ns u)))))"
proof -
  obtain Ws where W: "round_inv ns N rid start Ws (L, w)"
    "k + due_copies ns N rid Ws (L, w) \<le> card L + card N * (\<Sum>x \<in> N. length (live_neighbors (ns x)))"
    using round_run [OF assms] by auto
  have fin: "finite N" using assms(1) by (simp add: round_plan_def)
  have "length (wv_lines w) \<le> (\<Sum>u \<in> N. left (notice_of rid u) (wv_lines w))"
    using copy_of_node(1) [OF W(1) assms(1)] by (intro length_left [OF fin])
  also have "\<dots> \<le> due_copies ns N rid Ws (L, w)" unfolding due_copies_def by (intro sum_mono) simp
  finally have "k + length (wv_lines w) \<le> card N + card N * (\<Sum>x \<in> N. length (live_neighbors (ns x)))"
    using W(2) card_mono [OF fin round_invD(1) [OF W(1)]] by linarith
  moreover have "\<exists>s. nd_alg (wv_nodes w x) = IsLsr s \<and> mget (lsr_database s) u = Some (entry_of (ns u))"
    if "L = N" "wv_lines w = []" "u \<in> N" "x \<in> N" "u \<noteq> x" "(hears ns)\<^sup>*\<^sup>* u x" for u x
  proof -
    have inf: "informed N ns rid start u x (wv_nodes w x)"
      using round_over [OF assms(1) _ that(2-4,6)] W(1) that(1) by blast
    then have "in_round N ns x (wv_nodes w x)" by (simp add: informed_def)
    note e = in_roundD(6,7) [OF assms(1) that(4) this]
    then show ?thesis using inf record_database [OF e(2)] that(5) by (auto simp: informed_def)
  qed
  ultimately show ?thesis using round_goes_on [OF assms(1) W(1)] by auto
qed

text \<open>The witness: the three nodes in a row, in the link-state mode, each having heard its neighbours.\<close>

definition row_links :: "string \<Rightarrow> (string, float64) gomap" where
  "row_links u = map (\<lambda>v. (v, f64 1)) (row_peers u)"

definition spread_row :: "string \<Rightarrow> node" where
  "spread_row u = (case new_node (row_options u\<lparr>o_mode := ''lsr''\<rparr>) of
     Inr n \<Rightarrow> (node_start n)\<lparr>nd_neighbors := map (\<lambda>v. (v, \<lparr>nb_alive = True, nb_cost = f64 1, nb_last = second\<rparr>)) (row_peers u),
        nd_alg := IsLsr (lsr_recompute u (new_lsr\<lparr>ls_links := row_links u\<rparr>))\<rparr> | Inl e \<Rightarrow> sample_b)"

definition row_rid :: "string \<Rightarrow> string" where
  "row_rid u = ''new-'' @ u"

lemma spread_row_facts:
  "list_all (\<lambda>x. (case new_node (row_options x\<lparr>o_mode := ''lsr''\<rparr>) of Inr n \<Rightarrow> nd_id (node_start n) = x | Inl e \<Rightarrow> False) \<and>
     nd_id (spread_row x) = x \<and> utf8_valid (nd_addr (spread_row x)) \<and> nd_addr (spread_row x) \<noteq> [] \<and> utf8_valid (row_rid x) \<and>
     x \<noteq> [] \<and> x \<noteq> ''*'' \<and>
     list_all (\<lambda>v. node_local_id (spread_row x) (nd_addr (spread_row v)) = v \<and>
       endpoint (nd_names (spread_row x)) v = Some (nd_addr (spread_row v))) [''A'', ''B'', ''C'']) [''A'', ''B'', ''C'']"
  by code_simp

lemma row_links_facts:
  "wf_map (row_links u)" "mget (row_links u) v = (if v \<in> set (row_peers u) then Some (f64 1) else None)"
  by (auto simp: row_links_def row_peers_def wf_map_def)

lemma spread_row_state:
  assumes "x \<in> {''A'', ''B'', ''C''}"
  shows "node_inv (spread_row x)" "nd_alg (spread_row x) = IsLsr (lsr_recompute x (new_lsr\<lparr>ls_links := row_links x\<rparr>))"
    "live_neighbors (spread_row x) = row_peers x" "live_cost (spread_row x) v = (if v \<in> set (row_peers x) then Some (f64 1) else None)"
proof -
  have "x \<in> set [''A'', ''B'', ''C'']" using assms by simp
  note f = spread_row_facts [unfolded list_all_iff, rule_format, OF this]
  then obtain n0 where n0: "new_node (row_options x\<lparr>o_mode := ''lsr''\<rparr>) = Inr n0" "nd_id (node_start n0) = x" by (auto split: sum.splits)
  define n where "n = node_start n0"
  have n: "nd_id n = x" using n0(2) by (simp add: n_def)
  let ?nbs = "map (\<lambda>v. (v, \<lparr>nb_alive = True, nb_cost = f64 1, nb_last = second\<rparr>)) (row_peers x)"
  let ?s = "lsr_recompute x (new_lsr\<lparr>ls_links := row_links x\<rparr>)"
  have row: "spread_row x = n\<lparr>nd_neighbors := ?nbs, nd_alg := IsLsr ?s\<rparr>" by (simp add: spread_row_def n0(1) n_def)
  then show "nd_alg (spread_row x) = IsLsr ?s" by simp
  show "live_neighbors (spread_row x) = row_peers x" by (simp add: row live_neighbors_def comp_def)
  have nb: "mget ?nbs v = (if v \<in> set (row_peers x) then Some \<lparr>nb_alive = True, nb_cost = f64 1, nb_last = second\<rparr> else None)" for v
    by (auto simp: row_peers_def)
  then show live: "live_cost (spread_row x) v = (if v \<in> set (row_peers x) then Some (f64 1) else None)" for v
    by (simp add: row live_cost_def)
  have fin: "f64 1 \<noteq> fnan" by code_simp
  have "lsdb_ok x (new_lsr\<lparr>ls_links := row_links x\<rparr>)" "cache_ok (new_lsr\<lparr>ls_links := row_links x\<rparr>)"
    using new_lsr_inv by (simp_all add: lsr_inv_def lsdb_ok_def cache_ok_def)
  moreover have "links_ok (new_lsr\<lparr>ls_links := row_links x\<rparr>)"
    using row_links_facts(1) fin by (simp add: links_ok_def) (simp add: row_links_def list_all_iff)
  ultimately have alg: "lsr_inv x ?s" by (intro recompute_inv)
  have "topology_ok (o_topology (row_options x\<lparr>o_mode := ''lsr''\<rparr>))" by (simp add: row_options_def) code_simp
  from new_node_inv [OF this n0(1)] have i: "node_inv n" by (simp add: n_def)
  have "wf_map ?nbs" by (auto simp: wf_map_def row_peers_def)
  moreover have "v \<in> set (row_peers x) \<Longrightarrow> v \<noteq> [] \<and> v \<noteq> x" for v using assms by (auto simp: row_peers_def)
  ultimately have "neighbors_ok (spread_row x)" using nb fin n by (simp add: neighbors_ok_def row split: if_splits)
  moreover have "on_file (live_cost (spread_row x)) (IsLsr ?s)" using live row_links_facts(2) by simp
  ultimately show "node_inv (spread_row x)" using i alg n by (simp add: node_inv_def row)
qed

lemma spread_row_plan: "round_plan {''A'', ''B'', ''C''} spread_row row_rid"
proof -
  let ?N = "{''A'', ''B'', ''C''}"
  have fin: "is_finite (f64 1)" by code_simp
  have "spreads ?N spread_row row_rid x" if x: "x \<in> ?N" for x
  proof -
    have "x \<in> set [''A'', ''B'', ''C'']" using x by simp
    note f = spread_row_facts [unfolded list_all_iff, rule_format, OF this]
    note st = spread_row_state [OF x]
    have lsr: "lsr_of (spread_row y) = lsr_recompute y (new_lsr\<lparr>ls_links := row_links y\<rparr>)" "is_lsr (spread_row y)" if "y \<in> ?N" for y
      using spread_row_state(2) [OF that] by (simp_all add: lsr_of_def is_lsr_def)
    have "seen_at (ls_seen (lsr_of (spread_row x))) r = None" "\<not> stale (lsr_of (spread_row x)) y q" for r y q
      by (simp_all add: lsr(1) [OF x] seen_at_def stale_def) (simp_all add: new_lsr_def new_seen_cache_def)
    moreover have "hears spread_row x z \<longleftrightarrow> z \<in> set (row_peers x)" for z using st(3) by (simp add: hears_def)
    moreover have "z \<in> ?N \<and> hears spread_row z x" if "z \<in> set (row_peers x)" for z
      using that x spread_row_state(3) [of z] by (auto simp: hears_def row_peers_def split: if_splits)
    ultimately show ?thesis using f st lsr(2) [OF x] fin by (auto simp: spreads_def split: if_splits)
  qed
  moreover have "inj_on row_rid ?N" by (simp add: row_rid_def)
  moreover have "utf8_valid (row_rid x) \<and> row_rid x \<noteq> []" if "x \<in> ?N" for x
  proof -
    have "x \<in> set [''A'', ''B'', ''C'']" using that by simp
    note f = spread_row_facts [unfolded list_all_iff, rule_format, OF this]
    then show ?thesis by (simp add: row_rid_def)
  qed
  ultimately show ?thesis by (simp add: round_plan_def)
qed

lemma spread_row_none: "\<forall>x \<in> {''A'', ''B'', ''C''}. \<forall>y. y \<notin> {''A'', ''B'', ''C''} \<longrightarrow> mget (lsr_database (lsr_of (spread_row x))) y = None"
  using spread_row_state(2) by (simp add: lsr_of_def lsr_database_def) (simp add: new_lsr_def)

lemma spread_row_table:
  "mget (dijkstra (graph_of_links (concat (map (\<lambda>u. up_links (spread_row u)) [''A'', ''B'', ''C'']))) ''A'') ''C'' =
     Some \<lparr>r_dest = ''C'', r_next = ''B'', r_cost = f64 2\<rparr>"
  by code_simp

lemma spread_row_reach:
  assumes "u \<in> {''A'', ''B'', ''C''}" "x \<in> {''A'', ''B'', ''C''}"
  shows "(hears spread_row)\<^sup>*\<^sup>* u x"
proof -
  have h: "hears spread_row ''A'' ''B''" "hears spread_row ''B'' ''A''" "hears spread_row ''B'' ''C''" "hears spread_row ''C'' ''B''"
    using spread_row_state(3) by (simp_all add: hears_def row_peers_def)
  have "(hears spread_row)\<^sup>*\<^sup>* u ''B''" using assms(1) h by auto
  moreover have "(hears spread_row)\<^sup>*\<^sup>* ''B'' x" using assms(2) h by auto
  ultimately show ?thesis by (rule rtranclp_trans)
qed

theorem announcements_spread_witness:
  "\<exists>k w s. (round_step {''A'', ''B'', ''C''} (\<lambda>x. nd_addr (spread_row x)) row_rid second ^^ k)
      ({}, \<lparr>wv_nodes = spread_row, wv_lines = [], wv_got = []\<rparr>) ({''A'', ''B'', ''C''}, w) \<and> k \<le> 15 \<and>
    nd_alg (wv_nodes w ''C'') = IsLsr s \<and> mget (lsr_database s) ''A'' = Some (entry_of (spread_row ''A''))"
proof -
  let ?N = "{''A'', ''B'', ''C''}"
  obtain k w where w: "(round_step ?N (\<lambda>x. nd_addr (spread_row x)) row_rid second ^^ k)
      ({}, \<lparr>wv_nodes = spread_row, wv_lines = [], wv_got = []\<rparr>) (?N, w)" "wv_lines w = []"
    using round_ends [OF spread_row_plan] by blast
  note s = announcements_spread [OF spread_row_plan w(1)]
  have "(\<Sum>x \<in> ?N. length (live_neighbors (spread_row x))) = 4" using spread_row_state(3) by (simp add: row_peers_def)
  then have "k \<le> 15" using s w(2) by simp
  moreover have "(hears spread_row)\<^sup>*\<^sup>* ''A'' ''C''" by (rule spread_row_reach) simp_all
  then obtain t where "nd_alg (wv_nodes w ''C'') = IsLsr t" "mget (lsr_database t) ''A'' = Some (entry_of (spread_row ''A''))"
    using s w(2) by auto
  ultimately show ?thesis using w(1) by blast
qed

text \<open>
  C3: the network converges. After a round in a connected network with nothing on file from
  outside, the table of every node is the shortest-path table of one and the same graph, the
  graph of the links that are up, and the links are as they were.
\<close>

theorem network_converges:
  assumes "round_plan N ns rid" and "set xs = N"
    and "\<forall>u \<in> N. \<forall>x \<in> N. (hears ns)\<^sup>*\<^sup>* u x" and "\<forall>x \<in> N. \<forall>y. y \<notin> N \<longrightarrow> mget (lsr_database (lsr_of (ns x))) y = None"
    and "(round_step N (\<lambda>x. nd_addr (ns x)) rid start)\<^sup>*\<^sup>* ({}, \<lparr>wv_nodes = ns, wv_lines = [], wv_got = []\<rparr>) (N, w)"
    and "wv_lines w = []" and "x \<in> N"
  shows "node_table (wv_nodes w x) = dijkstra (graph_of_links (concat (map (\<lambda>u. up_links (ns u)) xs))) x \<and>
    live_cost (wv_nodes w x) = live_cost (ns x)"
  using informed_table [OF assms(1,7) round_outcome [OF assms(1,3,5,6,7)] nothing_else [OF assms(1,7,4)] assms(2)] by blast

theorem network_converges_witness:
  "\<exists>w. (round_step {''A'', ''B'', ''C''} (\<lambda>x. nd_addr (spread_row x)) row_rid second)\<^sup>*\<^sup>*
      ({}, \<lparr>wv_nodes = spread_row, wv_lines = [], wv_got = []\<rparr>) ({''A'', ''B'', ''C''}, w) \<and>
    mget (node_table (wv_nodes w ''A'')) ''C'' = Some \<lparr>r_dest = ''C'', r_next = ''B'', r_cost = f64 2\<rparr>"
proof -
  let ?N = "{''A'', ''B'', ''C''}"
  obtain w where w: "(round_step ?N (\<lambda>x. nd_addr (spread_row x)) row_rid second)\<^sup>*\<^sup>*
      ({}, \<lparr>wv_nodes = spread_row, wv_lines = [], wv_got = []\<rparr>) (?N, w)" "wv_lines w = []"
    using round_ends [OF spread_row_plan, of second] unfolding rtranclp_power by blast
  have xs: "set [''A'', ''B'', ''C''] = ?N" by simp
  have conn: "\<forall>u \<in> ?N. \<forall>x \<in> ?N. (hears spread_row)\<^sup>*\<^sup>* u x" using spread_row_reach by blast
  have a: "''A'' \<in> ?N" by simp
  have "mget (node_table (wv_nodes w ''A'')) ''C'' = Some \<lparr>r_dest = ''C'', r_next = ''B'', r_cost = f64 2\<rparr>"
    using network_converges [OF spread_row_plan xs conn spread_row_none w a] spread_row_table by metis
  then show ?thesis using w(1) by blast
qed

text \<open>
  C6: in the converged network messages arrive. After such a round, if every live cost is a whole
  number between 1 and \<open>2 ^ 53\<close> and the cost in the sender's table is below \<open>2 ^ 53\<close>, so that the sums
  of doubles the nodes compute are exact, a message one node sends to another goes from next hop
  to next hop as bytes and is delivered with its text by its destination, over a path without
  repetition of live links whose cost is the one in the sender's table, and the trace of the
  delivered packet is that path. With other costs each table is still a shortest-path table, but
  the tables of different nodes may round the same sum differently.
\<close>

theorem converged_delivery:
  assumes "round_plan N ns rid" and "set xs = N"
    and "\<forall>u \<in> N. \<forall>x \<in> N. (hears ns)\<^sup>*\<^sup>* u x" and "\<forall>x \<in> N. \<forall>y. y \<notin> N \<longrightarrow> mget (lsr_database (lsr_of (ns x))) y = None"
    and "(round_step N (\<lambda>x. nd_addr (ns x)) rid start)\<^sup>*\<^sup>* ({}, \<lparr>wv_nodes = ns, wv_lines = [], wv_got = []\<rparr>) (N, w)"
    and "wv_lines w = []" and "u \<in> N" and "v \<in> N"
    and "\<forall>x \<in> N. seen_at (nd_seen (ns x)) mid = None \<and> (\<forall>z c. live_cost (ns x) z = Some c \<longrightarrow> c \<in> whole ` {1..<2 ^ 53})"
    and "utf8_valid mid" and "mid \<noteq> []" and "utf8_valid msg"
    and "mget (node_table (wv_nodes w u)) v = Some r" and "r_cost r < exact_cost"
    and "node_send now mid v msg (wv_nodes w u) = ((e, n'), out)" and "16 \<le> length ts"
  defines "g \<equiv> graph_of_links (concat (map (\<lambda>u. up_links (ns u)) xs))"
  shows "e = None \<and> (\<exists>line p path. wire_out (wv_nodes w u) out = [(nd_addr (wv_nodes w (r_next r)), line)] \<and>
    journey (wv_nodes w) ts (r_next r) line = Some (v, p) \<and> payload_text p = Some msg \<and>
    last path = v \<and> distinct (u # path) \<and> path_cost g u path = Some (r_cost r) \<and>
    trace p = map (\<lambda>x. nd_addr (wv_nodes w x)) (u # butlast path))"
proof -
  have costs: "\<forall>x \<in> N. \<forall>z c. live_cost (ns x) z = Some c \<longrightarrow> c \<in> whole ` {1..<2 ^ 53}" using assms(9) by blast
  note q = up_graph [OF assms(1,2), folded g_def]
  have out: "in_round N ns x (wv_nodes w x) \<and> node_table (wv_nodes w x) = dijkstra g x" if "x \<in> N" for x
    unfolding g_def using round_outcome [OF assms(1,3,5,6) that]
      informed_table(1) [OF assms(1) that _ _ nothing_else [OF assms(1) that assms(4)] assms(2)] by blast
  let ?N = "insert v (set (nodes g))"
  have "routes_by g ?N (wv_nodes w) mid x" if "x \<in> ?N" for x
    using that q(3) assms(8,9) by (intro converged_routes [OF assms(1) out]) blast+
  moreover have "mget (dijkstra g u) v = Some r" using assms(13) out [OF assms(7)] by simp
  from dijkstra_entry(2) [OF q(1) this] have "u \<noteq> v" by simp
  then obtain z where "hears ns u z" using assms(3,7,8) converse_rtranclpE [of "hears ns" u v] by metis
  then have "u \<in> set (nodes g)" by (rule q(4) [OF assms(7)])
  moreover have "card (set (nodes g)) \<le> 16" using q(3) assms(1) card_mono [of N "set (nodes g)"] by (simp add: round_plan_def)
  ultimately show ?thesis
    using journey_arrives [of g v "wv_nodes w" mid msg u r now e n' out ts] q(1) q(2) [OF costs] assms(10-16) spreadsD(5) [OF assms(1,8)] by blast
qed

theorem converged_delivery_witness:
  "\<exists>w line p. (round_step {''A'', ''B'', ''C''} (\<lambda>x. nd_addr (spread_row x)) row_rid second)\<^sup>*\<^sup>*
      ({}, \<lparr>wv_nodes = spread_row, wv_lines = [], wv_got = []\<rparr>) ({''A'', ''B'', ''C''}, w) \<and>
    wire_out (wv_nodes w ''A'') (snd (node_send (2 * second) ''0a'' ''C'' ''hi'' (wv_nodes w ''A''))) = [(nd_addr (wv_nodes w ''B''), line)] \<and>
    journey (wv_nodes w) (replicate 16 (2 * second)) ''B'' line = Some (''C'', p) \<and> payload_text p = Some ''hi''"
proof -
  let ?N = "{''A'', ''B'', ''C''}" and ?xs = "[''A'', ''B'', ''C'']"
  obtain w where w: "(round_step ?N (\<lambda>x. nd_addr (spread_row x)) row_rid second)\<^sup>*\<^sup>*
      ({}, \<lparr>wv_nodes = spread_row, wv_lines = [], wv_got = []\<rparr>) (?N, w)" "wv_lines w = []"
    using round_ends [OF spread_row_plan, of second] unfolding rtranclp_power by blast
  have xs: "set ?xs = ?N" and ac: "''A'' \<in> ?N" "''C'' \<in> ?N" by simp_all
  have conn: "\<forall>u \<in> ?N. \<forall>x \<in> ?N. (hears spread_row)\<^sup>*\<^sup>* u x" using spread_row_reach by blast
  note out = round_outcome [OF spread_row_plan conn w ac(1)]
  have tab: "mget (node_table (wv_nodes w ''A'')) ''C'' = Some \<lparr>r_dest = ''C'', r_next = ''B'', r_cost = f64 2\<rparr>"
    using informed_table(1) [OF spread_row_plan ac(1) out nothing_else [OF spread_row_plan ac(1) spread_row_none] xs] spread_row_table by metis
  have "seen_at (nd_seen (spread_row x)) ''0a'' = None" if "x \<in> ?N" for x
  proof -
    have "list_all (\<lambda>x. seen_at (nd_seen (spread_row x)) ''0a'' = None) ?xs" by code_simp
    then show ?thesis using that by auto
  qed
  moreover have "f64 1 \<in> whole ` {1..<2 ^ 53}" by (rule image_eqI [where x = 1]) (simp_all add: whole_def)
  ultimately have seen: "\<forall>x \<in> ?N. seen_at (nd_seen (spread_row x)) ''0a'' = None \<and>
      (\<forall>z c. live_cost (spread_row x) z = Some c \<longrightarrow> c \<in> whole ` {1..<2 ^ 53})"
    using spread_row_state(4) by (auto split: if_splits)
  have u: "utf8_valid ''0a''" "''0a'' \<noteq> []" "utf8_valid ''hi''" by code_simp+
  have l: "r_cost \<lparr>r_dest = ''C'', r_next = ''B'', r_cost = f64 2\<rparr> < exact_cost" by (simp add: exact_cost_def) code_simp
  obtain e n' out where s: "node_send (2 * second) ''0a'' ''C'' ''hi'' (wv_nodes w ''A'') = ((e, n'), out)" by (metis prod.collapse)
  have len: "16 \<le> length (replicate 16 (2 * second))" by simp
  from converged_delivery [OF spread_row_plan xs conn spread_row_none w ac seen u tab l s len] show ?thesis
    using w(1) s by auto
qed

end
