(* ===== verification/Net_Server.thy ===== *)
theory Net_Server
  imports Proto_Own
begin

text \<open>
  internal/transport/server.go: one connection read line by line, as \<open>bufio.Scanner\<close> reads it
  with a buffer of at most 1 MiB, each line decoded and handed on. The bytes that arrive until
  the peer closes are an argument, and so is the number of lines read before the context is
  cancelled. Listening and accepting are not modelled.
\<close>

section \<open>Lines\<close>

definition newline :: char where "newline = CHR 0x0A"

definition max_line :: nat where "max_line = 2 ^ 20"

text \<open>
  \<open>ScanLines\<close>: the text up to a newline without its carriage return, and at the end of the
  input what is left. A line that fills the buffer ends the scan with an error.
\<close>

definition drop_cr :: "string \<Rightarrow> string" where
  "drop_cr line = (if line \<noteq> [] \<and> last line = CHR 0x0D then butlast line else line)"

lemma cut_shorter: "str_cut c s = (line, rest, True) \<Longrightarrow> length rest < length s"
  by (induction s arbitrary: line) (auto split: if_splits prod.splits)

function scan_lines :: "string \<Rightarrow> string list" where
  "scan_lines s =
     (if s = [] then []
      else case str_cut newline s of
        (line, rest, found) \<Rightarrow>
          if max_line \<le> length line then []
          else drop_cr line # (if found then scan_lines rest else []))"
  by pat_completeness auto
termination
  by (relation "measure length") (auto simp: cut_shorter dest: sym)

declare scan_lines.simps [simp del]

section \<open>Serving a connection\<close>

datatype served = Handed packet | DroppedLine string

definition serve_line :: "string \<Rightarrow> served list" where
  "serve_line line =
     (if line = [] then [] else case decode line of None \<Rightarrow> [DroppedLine line] | Some p \<Rightarrow> [Handed p])"

definition serve_conn :: "nat \<Rightarrow> string \<Rightarrow> served list" where
  "serve_conn before_cancel input = concat (map serve_line (take before_cancel (scan_lines input)))"

section \<open>Framing\<close>

lemma scan_line_cons:
  assumes "newline \<notin> set d" "length d < max_line"
  shows "scan_lines (d @ newline # s) = drop_cr d # scan_lines s"
  using assms by (simp add: scan_lines.simps [of "d @ newline # s"] cut_found)

lemma scan_last:
  assumes "newline \<notin> set d"
  shows "scan_lines d = (if d = [] \<or> max_line \<le> length d then [] else [drop_cr d])"
  using assms by (simp add: scan_lines.simps [of d] cut_not_found)

text \<open>What \<open>Marshal\<close> writes has no control character, so a newline can end it.\<close>

definition visible :: "string \<Rightarrow> bool" where
  "visible s \<longleftrightarrow> (\<forall>c \<in> set s. 0x20 \<le> byte c)"

lemma visible_simps [simp]:
  "visible []" "visible (c # s) \<longleftrightarrow> 0x20 \<le> byte c \<and> visible s" "visible (s @ t) \<longleftrightarrow> visible s \<and> visible t"
  by (auto simp: visible_def)

lemma digits_visible: "list_all is_digit s \<Longrightarrow> visible s"
  by (auto simp: visible_def list_all_iff is_digit_def)

lemma unescape_visible: "unescape e \<noteq> None \<Longrightarrow> 0x20 \<le> byte e"
  by (auto simp: unescape_def byte_def quote_char_def bs_def split: if_splits)

lemma scan_string_visible: "scan_string s = Some (b, r) \<Longrightarrow> visible b"
proof (induction s arbitrary: b r rule: scan_string.induct)
  case (2 c s)
  have u: "0x20 \<le> byte (CHR ''u'')" by (simp add: byte_def)
  show ?case
  proof (cases "c = bs \<and> c \<noteq> quote_char")
    case True
    with "2.prems" obtain e t b' where s: "s = e # t" and b: "b = c # e # b'" "scan_string t = Some (b', r)"
      and e: "e = CHR ''u'' \<or> unescape e \<noteq> None" and c: "0x20 \<le> byte c"
      by (auto split: if_splits list.splits)
    have "visible b'" using "2.IH"(1) [OF _ _ _ s, of b' r] "2.prems" True s b(2) by (auto split: if_splits)
    moreover have "0x20 \<le> byte e" using e u unescape_visible by blast
    ultimately show ?thesis using b(1) c by simp
  next
    case False
    then show ?thesis using "2.prems" "2.IH"(2) by (auto split: if_splits)
  qed
qed simp

lemma body_visible: "body_ok b \<Longrightarrow> visible b"
  unfolding body_ok_def by (rule scan_string_visible)

lemma scan_digits_visible: "scan_digits s = Some (d, r) \<Longrightarrow> visible d"
  by (auto simp: scan_digits_def Let_def visible_def is_digit_def dest: set_takeWhileD split: if_splits)

lemma number_visible: "number_ok tok \<Longrightarrow> visible tok"
proof -
  assume "number_ok tok"
  then obtain neg r0 ip r1 fp r2 e where s: "scan_int r0 = Some (ip, r1)" "scan_frac r1 = Some (fp, r2)" "scan_exp r2 = Some (e, [])"
    and tok: "tok = (if neg then [CHR ''-''] else []) @ ip @ fp @ e"
    by (auto simp: number_ok_def scan_number_def Let_def split: prod.splits option.splits)
  have "visible ip" using s(1) by (auto simp: scan_int_def byte_def scan_digits_visible split: list.splits if_splits)
  moreover have "visible fp" using s(2) by (auto simp: scan_frac_def byte_def scan_digits_visible split: list.splits if_splits)
  moreover have "visible e"
    using s(3) by (auto simp: scan_exp_def byte_def scan_digits_visible split: list.splits if_splits)
  ultimately show "visible tok" by (simp add: tok byte_def)
qed

lemma visible_comma: "\<forall>x \<in> set xs. visible x \<Longrightarrow> visible (join_comma xs)"
  by (induction xs rule: join_comma.induct) (simp_all add: byte_def)

lemma visible_quoted: "visible b \<Longrightarrow> visible (quoted b)"
  by (simp add: quoted_def quote_char_def byte_def)

lemma json_print_visible: "wf_json j \<Longrightarrow> visible (json_print j)"
proof (induction j)
  case (JArr vs)
  then show ?case by (auto simp: byte_def intro!: visible_comma)
next
  case (JObj ms)
  then show ?case
    by (fastforce simp: byte_def body_visible visible_quoted intro!: visible_comma)
qed (auto simp: byte_def number_visible body_visible visible_quoted)

lemma encoded_visible:
  assumes "wire_ok p" "encode p = Some data"
  shows "visible data \<and> data \<noteq> []"
proof -
  from assms obtain j q where j: "packet_json p = Some j" "data = json_print j"
    and q: "wf_json q" "html_clean q" "json_print q = p_payload p" "json_parse (p_payload p) = Some q"
    by (auto simp: wire_ok_def encode_def split: option.splits)
  have "p_payload p \<noteq> []" using q(4) by (auto simp: json_parse_def parse_fuel_def skip_ws_def numeral_2_eq_2)
  then have "payload_json (p_payload p) = Some q" using q by (simp add: payload_json_def compact_clean)
  from wf_packet_json [OF j(1) q(1) this] have "visible data" unfolding j(2) by (rule json_print_visible)
  moreover have "data \<noteq> []" using decode_encode [OF assms(1)] assms(2) j(1)
    by (auto simp: packet_json_def j(2) split: option.splits)
  ultimately show ?thesis by blast
qed

lemma visible_line: "visible s \<Longrightarrow> newline \<notin> set s \<and> drop_cr s = s"
proof -
  assume v: "visible s"
  then have "newline \<notin> set s" by (auto simp: visible_def newline_def byte_def)
  moreover have "last s \<noteq> CHR 0x0D" if "s \<noteq> []"
    using v last_in_set [OF that] by (auto simp: visible_def byte_def)
  ultimately show ?thesis by (auto simp: drop_cr_def)
qed

text \<open>One packet on the stream is one packet handed over, whatever follows it.\<close>

lemma served_packet:
  assumes "wire_ok p" "encode p = Some data" "length data < max_line"
  shows "scan_lines (data @ newline # s) = data # scan_lines s" and "serve_line data = [Handed (received p)]"
proof -
  note v = encoded_visible [OF assms(1,2)]
  then show "scan_lines (data @ newline # s) = data # scan_lines s"
    using visible_line assms(3) by (simp add: scan_line_cons)
  have "decode data = Some (received p)" using decode_encode [OF assms(1)] assms(2) by auto
  with v show "serve_line data = [Handed (received p)]" by (simp add: serve_line_def)
qed

text \<open>The stream a client makes of its packets: each encoded, and ended by a newline.\<close>

fun packet_stream :: "packet list \<Rightarrow> string option" where
  "packet_stream [] = Some []"
| "packet_stream (p # ps) =
     (case encode p of None \<Rightarrow> None | Some data \<Rightarrow> map_option (\<lambda>s. data @ newline # s) (packet_stream ps))"

lemma serve_stream:
  "\<forall>p \<in> set ps. wire_ok p \<and> (\<forall>data. encode p = Some data \<longrightarrow> length data < max_line) \<Longrightarrow> packet_stream ps = Some s \<Longrightarrow>
   serve_conn (length ps + k) (s @ t) = map (\<lambda>p. Handed (received p)) ps @ serve_conn k t"
proof (induction ps arbitrary: s)
  case (Cons p ps)
  then obtain data s' where d: "encode p = Some data" "packet_stream ps = Some s'" "s = data @ newline # s'"
    by (auto split: option.splits)
  have p: "wire_ok p" "length data < max_line" using Cons.prems(1) d(1) by auto
  note sv = served_packet [OF p(1) d(1) p(2)]
  have "serve_conn (length (p # ps) + k) (s @ t) = Handed (received p) # serve_conn (length ps + k) (s' @ t)"
    using sv by (simp add: serve_conn_def d(3))
  with Cons.IH [OF _ d(2)] Cons.prems(1) show ?case by simp
qed simp

section \<open>Properties\<close>

text \<open>
  C22: packets keep their borders on a connection. Whatever number of packets a client writes,
  one line each under the size limit, the server hands over exactly these, in order, before
  anything else on the connection; and a write that breaks off in the middle of a line costs
  no packet but its own.
\<close>

theorem stream_framing:
  assumes "\<forall>p \<in> set ps. own_packet p \<and> 0 < sint (p_ttl p) \<and> (\<forall>data. encode p = Some data \<longrightarrow> length data < max_line)"
    and "packet_stream ps = Some s"
  shows "serve_conn (length ps + k) (s @ t) = map (\<lambda>p. Handed (received p)) ps @ serve_conn k t \<and>
    (newline \<notin> set t \<longrightarrow> length (serve_conn k t) \<le> 1)"
proof -
  have "wire_ok p" if "p \<in> set ps" for p
    by (rule own_wire) (use assms(1) that in \<open>auto simp: int_le_def\<close>)
  then have "\<forall>p \<in> set ps. wire_ok p \<and> (\<forall>data. encode p = Some data \<longrightarrow> length data < max_line)"
    using assms(1) by blast
  then have "serve_conn (length ps + k) (s @ t) = map (\<lambda>p. Handed (received p)) ps @ serve_conn k t"
    by (rule serve_stream [OF _ assms(2)])
  moreover have "length (serve_line d) \<le> 1" for d by (simp add: serve_line_def split: option.split)
  then have "newline \<notin> set t \<Longrightarrow> length (serve_conn k t) \<le> 1"
    by (cases k) (simp_all add: serve_conn_def scan_last)
  ultimately show ?thesis by blast
qed

text \<open>The witness: a text message that fits, followed by the beginning of another line.\<close>

definition framed_hi :: packet where
  "framed_hi = new_text ''0a'' proto_lsr type_message ''10.0.0.2:5000'' ''10.0.0.1:5000'' ''hi''"

theorem stream_framing_witness:
  "\<exists>s. packet_stream [framed_hi] = Some s \<and> serve_conn 2 (s @ ''{'') = [Handed (received framed_hi), DroppedLine ''{'']"
proof -
  have u: "utf8_valid ''0a''" "utf8_valid proto_lsr" "utf8_valid type_message" "utf8_valid ''10.0.0.2:5000''"
    "utf8_valid ''10.0.0.1:5000''" "utf8_valid ''hi''" by code_simp+
  have own: "own_packet framed_hi" "p_ttl framed_hi = default_ttl"
    unfolding framed_hi_def using own_new_text [OF u(1) _ u(2-6)] by simp_all
  have ttl: "0 < sint (p_ttl framed_hi)" by (simp add: own(2) default_ttl_def)
  have "case encode framed_hi of Some data \<Rightarrow> length data < 1000 | None \<Rightarrow> False" by code_simp
  then obtain data where d: "encode framed_hi = Some data" "length data < 1000" by (auto split: option.splits)
  have "decode ''{'' = None" by code_simp
  then have "serve_conn 1 ''{'' = [DroppedLine ''{'']"
    by (simp add: serve_conn_def scan_last newline_def max_line_def drop_cr_def serve_line_def)
  moreover have "packet_stream [framed_hi] = Some (data @ [newline])" "length data < max_line" using d by (simp_all add: max_line_def)
  ultimately show ?thesis
    using stream_framing [of "[framed_hi]" "data @ [newline]" 1 "''{''"] own(1) ttl d(1) by (simp add: numeral_2_eq_2)
qed

end
