(* ===== verification/Net_Accept.thy ===== *)
theory Net_Accept
  imports Net_Server Node_Behaviour
begin

text \<open>
  internal/transport/server.go, the rest: starting, the accept loop and its wait group, and the
  handler a node gives the server, which is \<open>receive\<close>. What \<open>Listen\<close> and \<open>Accept\<close> return is an
  argument; a connection is a number. Each turn of the loop and the end of each connection is one
  step, so any interleaving of connections is a sequence of steps.
\<close>

section \<open>The server\<close>

record server =
  sv_addr :: string
  sv_bound :: "string option"
  sv_accepting :: bool
  sv_open :: "nat list"
  sv_wg :: nat

definition new_server :: "string \<Rightarrow> server" where
  "new_server addr = \<lparr>sv_addr = addr, sv_bound = None, sv_accepting = False, sv_open = [], sv_wg = 0\<rparr>"

datatype server_error = CannotBind string

text \<open>\<open>Start\<close>, from the address the listener is bound to, if it can be bound.\<close>

definition server_start :: "string option \<Rightarrow> server \<Rightarrow> server_error + server" where
  "server_start bound s =
     (case bound of
        None \<Rightarrow> Inl (CannotBind (sv_addr s))
      | Some b \<Rightarrow> Inr (s\<lparr>sv_bound := Some b, sv_wg := sv_wg s + 1, sv_accepting := True\<rparr>))"

definition server_address :: "server \<Rightarrow> string" where
  "server_address s = (case sv_bound s of None \<Rightarrow> sv_addr s | Some b \<Rightarrow> b)"

text \<open>\<open>Wait\<close> returns when the count is zero.\<close>

definition wait_returns :: "server \<Rightarrow> bool" where
  "wait_returns s \<longleftrightarrow> sv_wg s = 0"

text \<open>
  What \<open>Accept\<close> returns: a connection, or an error, with whether the context is cancelled and
  whether the error says the listener is closed.
\<close>

datatype accepted = Conn nat | AcceptFailed bool bool

datatype server_log = AcceptError

definition accept_turn :: "accepted \<Rightarrow> server \<Rightarrow> server \<times> server_log list" where
  "accept_turn r s =
     (case r of
        AcceptFailed cancelled shut \<Rightarrow>
          if cancelled \<or> shut then (s\<lparr>sv_accepting := False, sv_wg := sv_wg s - 1\<rparr>, []) else (s, [AcceptError])
      | Conn c \<Rightarrow> (s\<lparr>sv_wg := sv_wg s + 1, sv_open := c # sv_open s\<rparr>, []))"

text \<open>The end of a connection's goroutine.\<close>

definition conn_done :: "nat \<Rightarrow> server \<Rightarrow> server" where
  "conn_done c s = s\<lparr>sv_open := remove1 c (sv_open s), sv_wg := sv_wg s - 1\<rparr>"

inductive server_reaches :: "server \<Rightarrow> bool" where
  server_up: "server_start (Some b) (new_server addr) = Inr s \<Longrightarrow> server_reaches s"
| server_accepts: "server_reaches s \<Longrightarrow> sv_accepting s \<Longrightarrow> accept_turn r s = (s', out) \<Longrightarrow> server_reaches s'"
| server_conn_ends: "server_reaches s \<Longrightarrow> c \<in> set (sv_open s) \<Longrightarrow> server_reaches (conn_done c s)"

lemma server_count: "server_reaches s \<Longrightarrow> sv_wg s = length (sv_open s) + (if sv_accepting s then 1 else 0)"
proof (induction rule: server_reaches.induct)
  case (server_conn_ends s c)
  then have "0 < length (sv_open s)" by (cases "sv_open s") auto
  with server_conn_ends show ?case by (simp add: conn_done_def length_remove1)
qed (auto simp: server_start_def new_server_def accept_turn_def split: accepted.splits if_splits)

section \<open>Handing packets to the node\<close>

text \<open>What a connection serves, with the node's \<open>receive\<close> as the handler.\<close>

fun serve_node :: "served list \<Rightarrow> node \<Rightarrow> node \<times> event list" where
  "serve_node [] n = (n, [])"
| "serve_node (Handed p # ss) n = and_then (receive p n) (serve_node ss)"
| "serve_node (DroppedLine line # ss) n = serve_node ss n"

fun handed :: "served list \<Rightarrow> packet list" where
  "handed [] = []"
| "handed (Handed p # ss) = p # handed ss"
| "handed (DroppedLine line # ss) = handed ss"

lemma serve_node_inbox:
  "length (nd_inbox n) \<le> inbox_size \<Longrightarrow>
   serve_node ss n =
     (n\<lparr>nd_inbox := nd_inbox n @ take (inbox_size - length (nd_inbox n)) (handed ss)\<rparr>,
      map (\<lambda>p. Log (InboxFull (packet_line p))) (drop (inbox_size - length (nd_inbox n)) (handed ss)))"
proof (induction ss n rule: serve_node.induct)
  case (2 p ss n)
  show ?case
  proof (cases "length (nd_inbox n) < inbox_size")
    case True
    let ?m = "n\<lparr>nd_inbox := nd_inbox n @ [p]\<rparr>"
    have "receive p n = (?m, [])" using True by (simp add: receive_def)
    moreover have "inbox_size - length (nd_inbox n) = Suc (inbox_size - length (nd_inbox ?m))" using True by simp
    ultimately show ?thesis using "2.IH" [of ?m] True by (simp add: and_then_def)
  next
    case False
    then have full: "inbox_size - length (nd_inbox n) = 0" by simp
    have "receive p n = (n, [Log (InboxFull (packet_line p))])" using False by (simp add: receive_def)
    moreover from this have "serve_node ss n = (n, map (\<lambda>p. Log (InboxFull (packet_line p))) (handed ss))"
      using "2.IH" [of n] "2.prems" full by simp
    ultimately show ?thesis using full by (simp add: and_then_def)
  qed
qed auto

section \<open>Properties\<close>

text \<open>
  Shutting down waits for everyone. However connections come and go, \<open>Wait\<close> returns exactly
  when the accept loop has ended and no accepted connection is still served, and an error of
  \<open>Accept\<close> that is neither a shutdown nor a closed listener changes nothing and is logged.
\<close>

theorem wait_for_all:
  assumes "server_reaches s"
  shows "(wait_returns s \<longleftrightarrow> \<not> sv_accepting s \<and> sv_open s = []) \<and>
    accept_turn (AcceptFailed False False) s = (s, [AcceptError])"
  using server_count [OF assms] by (simp add: wait_returns_def accept_turn_def)

theorem wait_for_all_witness:
  "\<not> wait_returns (fst (accept_turn (AcceptFailed True False) (fst (accept_turn (Conn 7)
     (projr (server_start (Some ''10.0.0.1:5000'') (new_server '':5000'')))))))"
proof -
  let ?s = "projr (server_start (Some ''10.0.0.1:5000'') (new_server '':5000''))"
  have s: "server_start (Some ''10.0.0.1:5000'') (new_server '':5000'') = Inr ?s" by (simp add: server_start_def)
  have a: "sv_accepting ?s" by (simp add: server_start_def)
  then have b: "sv_accepting (fst (accept_turn (Conn 7) ?s))" by (simp add: accept_turn_def)
  let ?t = "fst (accept_turn (AcceptFailed True False) (fst (accept_turn (Conn 7) ?s)))"
  have "server_reaches ?t"
    by (rule server_accepts [OF server_accepts [OF server_up [OF s] a prod.collapse [symmetric]] b prod.collapse [symmetric]])
  moreover have "sv_open ?t \<noteq> []" by (simp add: accept_turn_def)
  ultimately show ?thesis using wait_for_all by blast
qed

text \<open>
  The inbox fills in order. Of the packets a connection delivers to a node, those that fit
  into the 256 places are queued in the order they arrived, behind what was waiting; every later
  one is dropped, each with a line on the console; nothing else of the node changes.
\<close>

theorem inbox_fills:
  assumes "node_reaches n"
  shows "serve_node ss n =
     (n\<lparr>nd_inbox := nd_inbox n @ take (256 - length (nd_inbox n)) (handed ss)\<rparr>,
      map (\<lambda>p. Log (InboxFull (packet_line p))) (drop (256 - length (nd_inbox n)) (handed ss)))"
proof -
  have "length (nd_inbox n) \<le> inbox_size" using node_reaches_inv [OF assms] by (simp add: node_inv_def)
  from serve_node_inbox [OF this] show ?thesis by (simp add: inbox_size_def)
qed

theorem inbox_fills_witness:
  "length (nd_inbox (fst (serve_node (replicate 300 (Handed sample_packet)) (sample_node (IsLsr new_lsr) ''lsr'')))) = 256"
proof -
  have h: "length (handed (replicate k (Handed p))) = k" for k p by (induction k) simp_all
  have "nd_inbox (sample_node (IsLsr new_lsr) ''lsr'') = []" by (simp add: sample_node_def)
  then show ?thesis unfolding inbox_fills [OF sample_lsr_reached] by (simp add: h)
qed

end
