(* ===== verification/Net_Client.thy ===== *)
theory Net_Client
  imports Net_Server
begin

text \<open>
  internal/transport/client.go: the pool that keeps one connection per address. A connection is
  a number; what the network does (whether a dial succeeds and which connection it gives, whether
  a write goes through or breaks after some bytes) is an argument of the operation, and what the
  client does to connections is the list of its network operations. \<open>conn\<close>, \<open>drop\<close> and \<open>Close\<close>
  hold the lock, so an interleaving of senders is a sequence of these steps and of writes.
\<close>

section \<open>The pool\<close>

record client =
  cl_conns :: "(string, nat) gomap"

definition new_client :: client where
  "new_client = \<lparr>cl_conns = []\<rparr>"

datatype net_op =
    Dialed string nat
  | Refused string
  | Closed nat
  | Wrote nat string
  | Broke nat string

definition client_dial :: "string \<Rightarrow> nat option \<Rightarrow> client \<Rightarrow> (nat option \<times> client) \<times> net_op list" where
  "client_dial addr dialed cl =
     (case dialed of
        None \<Rightarrow> ((None, cl), [Refused addr])
      | Some c \<Rightarrow> ((Some c, cl\<lparr>cl_conns := mput addr c (cl_conns cl)\<rparr>), [Dialed addr c]))"

definition client_conn :: "string \<Rightarrow> bool \<Rightarrow> nat option \<Rightarrow> client \<Rightarrow> (nat option \<times> client) \<times> net_op list" where
  "client_conn addr reconnect dialed cl =
     (case mget (cl_conns cl) addr of
        Some existing \<Rightarrow>
          if \<not> reconnect then ((Some existing, cl), [])
          else (case client_dial addr dialed (cl\<lparr>cl_conns := mdel addr (cl_conns cl)\<rparr>) of
                  (r, ops) \<Rightarrow> (r, Closed existing # ops))
      | None \<Rightarrow> client_dial addr dialed cl)"

definition client_drop :: "string \<Rightarrow> client \<Rightarrow> client \<times> net_op list" where
  "client_drop addr cl =
     (case mget (cl_conns cl) addr of
        Some c \<Rightarrow> (cl\<lparr>cl_conns := mdel addr (cl_conns cl)\<rparr>, [Closed c])
      | None \<Rightarrow> (cl, []))"

definition client_close :: "client \<Rightarrow> client \<times> net_op list" where
  "client_close cl = (cl\<lparr>cl_conns := []\<rparr>, map (\<lambda>(addr, c). Closed c) (cl_conns cl))"

section \<open>Sending\<close>

text \<open>
  What the network does in one attempt: the outcome of a dial, whether the deadline can be set,
  and the number of bytes written when the write fails.
\<close>

record attempt =
  at_dial :: "nat option"
  at_deadline :: bool
  at_broke :: "nat option"

definition client_write :: "string \<Rightarrow> string \<Rightarrow> bool \<Rightarrow> attempt \<Rightarrow> client \<Rightarrow> (bool \<times> client) \<times> net_op list" where
  "client_write addr bytes reconnect a cl =
     (case client_conn addr reconnect (at_dial a) cl of
        ((None, cl), ops) \<Rightarrow> ((False, cl), ops)
      | ((Some c, cl), ops) \<Rightarrow>
          if \<not> at_deadline a then (case client_drop addr cl of (cl, ops') \<Rightarrow> ((False, cl), ops @ ops'))
          else (case at_broke a of
                  Some k \<Rightarrow> (case client_drop addr cl of (cl, ops') \<Rightarrow> ((False, cl), ops @ Broke c (take k bytes) # ops'))
                | None \<Rightarrow> ((True, cl), ops @ [Wrote c bytes])))"

datatype send_failure = CannotEncodePacket | SendFailed string

definition client_send ::
    "string \<Rightarrow> packet \<Rightarrow> attempt \<Rightarrow> attempt \<Rightarrow> client \<Rightarrow> (send_failure option \<times> client) \<times> net_op list" where
  "client_send addr p a1 a2 cl =
     (case encode p of
        None \<Rightarrow> ((Some CannotEncodePacket, cl), [])
      | Some data \<Rightarrow>
          (case client_write addr (data @ [newline]) False a1 cl of
             ((ok, cl), ops) \<Rightarrow>
               if ok then ((None, cl), ops)
               else (case client_write addr (data @ [newline]) True a2 cl of
                       ((ok, cl), ops') \<Rightarrow>
                         ((if ok then None else Some (SendFailed addr), cl), ops @ ops'))))"

section \<open>Open connections\<close>

text \<open>The connections open after some operations, given those open before.\<close>

fun open_after :: "nat set \<Rightarrow> net_op list \<Rightarrow> nat set" where
  "open_after S [] = S"
| "open_after S (Dialed addr c # ops) = open_after (insert c S) ops"
| "open_after S (Closed c # ops) = open_after (S - {c}) ops"
| "open_after S (_ # ops) = open_after S ops"

lemma open_after_append [simp]: "open_after S (ops @ ops') = open_after (open_after S ops) ops'"
  by (induction S ops rule: open_after.induct) simp_all

text \<open>Every open connection is the pooled one of exactly one address.\<close>

definition pool_ok :: "client \<Rightarrow> nat set \<Rightarrow> bool" where
  "pool_ok cl S \<longleftrightarrow> wf_map (cl_conns cl) \<and> S = snd ` set (cl_conns cl) \<and>
     (\<forall>a b c. mget (cl_conns cl) a = Some c \<longrightarrow> mget (cl_conns cl) b = Some c \<longrightarrow> a = b)"

lemma pool_ok_mget: "pool_ok cl S \<Longrightarrow> c \<in> S \<longleftrightarrow> (\<exists>a. mget (cl_conns cl) a = Some c)"
  by (auto simp: pool_ok_def mget_iff image_iff) (metis snd_conv)

lemma pool_okI:
  "wf_map (cl_conns cl) \<Longrightarrow> (\<And>c. c \<in> S \<longleftrightarrow> (\<exists>a. mget (cl_conns cl) a = Some c)) \<Longrightarrow>
   (\<And>a b c. mget (cl_conns cl) a = Some c \<Longrightarrow> mget (cl_conns cl) b = Some c \<Longrightarrow> a = b) \<Longrightarrow> pool_ok cl S"
  unfolding pool_ok_def by (auto simp: mget_iff image_iff) force+

lemma pool_add:
  assumes "pool_ok cl S" "mget (cl_conns cl) addr = None" "c \<notin> S"
  shows "pool_ok (cl\<lparr>cl_conns := mput addr c (cl_conns cl)\<rparr>) (insert c S)"
proof (rule pool_okI)
  note g = pool_ok_mget [OF assms(1)]
  show "wf_map (cl_conns (cl\<lparr>cl_conns := mput addr c (cl_conns cl)\<rparr>))" using assms(1) by (auto simp: pool_ok_def)
  show "d \<in> insert c S \<longleftrightarrow> (\<exists>a. mget (cl_conns (cl\<lparr>cl_conns := mput addr c (cl_conns cl)\<rparr>)) a = Some d)" for d
    using assms(2) by (auto simp: g) (metis option.distinct(1))
  fix a b d
  assume "mget (cl_conns (cl\<lparr>cl_conns := mput addr c (cl_conns cl)\<rparr>)) a = Some d"
    "mget (cl_conns (cl\<lparr>cl_conns := mput addr c (cl_conns cl)\<rparr>)) b = Some d"
  then show "a = b" using assms(1,3) g [of c] by (auto simp: pool_ok_def split: if_splits)
qed

lemma pool_remove:
  assumes "pool_ok cl S" "mget (cl_conns cl) addr = Some c"
  shows "pool_ok (cl\<lparr>cl_conns := mdel addr (cl_conns cl)\<rparr>) (S - {c})"
proof (rule pool_okI)
  note g = pool_ok_mget [OF assms(1)]
  have one: "mget (cl_conns cl) a = Some d \<Longrightarrow> mget (cl_conns cl) b = Some d \<Longrightarrow> a = b" for a b d
    using assms(1) by (auto simp: pool_ok_def)
  show "wf_map (cl_conns (cl\<lparr>cl_conns := mdel addr (cl_conns cl)\<rparr>))" using assms(1) by (auto simp: pool_ok_def)
  show "d \<in> S - {c} \<longleftrightarrow> (\<exists>a. mget (cl_conns (cl\<lparr>cl_conns := mdel addr (cl_conns cl)\<rparr>)) a = Some d)" for d
    using assms(2) one by (auto simp: g) (metis option.inject)
  fix a b d
  assume "mget (cl_conns (cl\<lparr>cl_conns := mdel addr (cl_conns cl)\<rparr>)) a = Some d"
    "mget (cl_conns (cl\<lparr>cl_conns := mdel addr (cl_conns cl)\<rparr>)) b = Some d"
  then show "a = b" using one by (auto split: if_splits)
qed

text \<open>A dial gives a connection that is not open already.\<close>

lemma pool_dial:
  assumes "pool_ok cl S" "mget (cl_conns cl) addr = None" "\<forall>c. dialed = Some c \<longrightarrow> c \<notin> S"
  shows "pool_ok (snd (fst (client_dial addr dialed cl))) (open_after S (snd (client_dial addr dialed cl)))"
  using assms by (cases dialed) (simp_all add: client_dial_def pool_add)

lemma pool_conn:
  assumes "pool_ok cl S" "\<forall>c. dialed = Some c \<longrightarrow> c \<notin> S"
  shows "pool_ok (snd (fst (client_conn addr reconnect dialed cl))) (open_after S (snd (client_conn addr reconnect dialed cl)))"
proof (cases "mget (cl_conns cl) addr")
  case None
  then show ?thesis using pool_dial [OF assms(1) None assms(2)] by (simp add: client_conn_def)
next
  case (Some e)
  let ?cl = "cl\<lparr>cl_conns := mdel addr (cl_conns cl)\<rparr>"
  have "pool_ok (snd (fst (client_dial addr dialed ?cl))) (open_after (S - {e}) (snd (client_dial addr dialed ?cl)))"
    using assms(2) by (intro pool_dial pool_remove assms(1) Some) auto
  with Some assms(1) show ?thesis
    by (cases "client_dial addr dialed ?cl") (auto simp: client_conn_def)
qed

lemma pool_drop:
  "pool_ok cl S \<Longrightarrow> pool_ok (fst (client_drop addr cl)) (open_after S (snd (client_drop addr cl)))"
  using pool_remove by (cases "mget (cl_conns cl) addr") (simp_all add: client_drop_def)

lemma open_after_closes: "open_after S (map (\<lambda>(a, c). Closed c) m) = S - snd ` set m"
  by (induction m arbitrary: S) (auto simp: rev_image_eqI)

lemma pool_close: "pool_ok cl S \<Longrightarrow> open_after S (snd (client_close cl)) = {}"
  by (auto simp: client_close_def open_after_closes pool_ok_def)

section \<open>Senders that share the pool\<close>

inductive client_step :: "client \<Rightarrow> net_op list \<Rightarrow> client \<Rightarrow> bool" where
  step_conn: "client_conn addr reconnect dialed cl = ((r, cl'), ops) \<Longrightarrow> client_step cl ops cl'"
| step_drop: "client_drop addr cl = (cl', ops) \<Longrightarrow> client_step cl ops cl'"
| step_wrote: "client_step cl [Wrote c bytes] cl"
| step_broke: "client_step cl [Broke c bytes] cl"

text \<open>The clients reached by any interleaving, with the connections open.\<close>

inductive client_reaches :: "client \<Rightarrow> nat set \<Rightarrow> bool" where
  reach_new: "client_reaches new_client {}"
| reach_step: "client_reaches cl S \<Longrightarrow> client_step cl ops cl' \<Longrightarrow> (\<forall>a c. Dialed a c \<in> set ops \<longrightarrow> c \<notin> S) \<Longrightarrow>
    client_reaches cl' (open_after S ops)"

lemma dialed_op: "dialed = Some c \<Longrightarrow> reconnect \<or> mget (cl_conns cl) addr = None \<Longrightarrow>
    Dialed addr c \<in> set (snd (client_conn addr reconnect dialed cl))"
  by (auto simp: client_conn_def client_dial_def split: option.split)

lemma client_step_ok:
  assumes "client_step cl ops cl'" "pool_ok cl S" "\<forall>a c. Dialed a c \<in> set ops \<longrightarrow> c \<notin> S"
  shows "pool_ok cl' (open_after S ops)"
  using assms
proof (induction rule: client_step.induct)
  case (step_conn addr reconnect dialed cl r cl' ops)
  show ?case
  proof (cases "reconnect \<or> mget (cl_conns cl) addr = None")
    case True
    then have "\<forall>c. dialed = Some c \<longrightarrow> c \<notin> S"
      using dialed_op [of dialed _ reconnect cl addr] step_conn by auto
    from pool_conn [OF step_conn(2) this, of addr reconnect] step_conn(1) show ?thesis by simp
  next
    case False
    then show ?thesis using step_conn by (auto simp: client_conn_def split: option.splits)
  qed
next
  case (step_drop addr cl cl' ops)
  then show ?case using pool_drop [OF step_drop(2), of addr] by simp
qed simp_all

lemma client_reaches_ok: "client_reaches cl S \<Longrightarrow> pool_ok cl S"
proof (induction rule: client_reaches.induct)
  case (reach_step cl S ops cl')
  then show ?case using client_step_ok by blast
qed (simp add: new_client_def pool_ok_def)

section \<open>The fate of one packet\<close>

text \<open>What one attempt does to the pool: the connection it wrote on is kept, any other outcome leaves none.\<close>

lemma write_facts:
  assumes "client_write addr bytes reconnect a cl = ((ok, cl'), ops)"
  shows "(ok \<longleftrightarrow> (\<exists>c. Wrote c bytes \<in> set ops \<and> mget (cl_conns cl') addr = Some c))"
    and "\<not> ok \<longrightarrow> mget (cl_conns cl') addr = None \<and> (\<forall>c d. Wrote c d \<notin> set ops)"
    and "b \<noteq> addr \<longrightarrow> mget (cl_conns cl') b = mget (cl_conns cl) b"
    and "Wrote c d \<in> set ops \<Longrightarrow> d = bytes"
    and "length (filter (\<lambda>x. \<exists>c d. x = Wrote c d \<or> x = Broke c d) ops) \<le> 1"
    and "Dialed b c \<in> set ops \<Longrightarrow> b = addr \<and> at_dial a = Some c"
  using assms
  by (auto simp: client_write_def client_conn_def client_dial_def client_drop_def split: prod.splits option.splits if_splits)

lemma conn_reaches:
  "client_reaches cl S \<Longrightarrow> client_conn addr reconnect dialed cl = ((r, cl'), ops) \<Longrightarrow> (\<forall>c. dialed = Some c \<longrightarrow> c \<notin> S) \<Longrightarrow>
   client_reaches cl' (open_after S ops)"
  by (rule reach_step [OF _ step_conn])
    (auto simp: client_conn_def client_dial_def split: option.splits if_splits prod.splits)

lemma drop_reaches: "client_reaches cl S \<Longrightarrow> client_reaches (fst (client_drop addr cl)) (open_after S (snd (client_drop addr cl)))"
  by (rule reach_step [OF _ step_drop]) (auto simp: client_drop_def split: option.splits)

lemma write_reaches:
  assumes "client_reaches cl S" and "client_write addr bytes reconnect a cl = ((ok, cl'), ops)"
    and "\<forall>c. at_dial a = Some c \<longrightarrow> c \<notin> S"
  shows "client_reaches cl' (open_after S ops)"
proof -
  obtain r m es where c: "client_conn addr reconnect (at_dial a) cl = ((r, m), es)" by (metis prod.exhaust)
  note reach = conn_reaches [OF assms(1) c assms(3)]
  show ?thesis
    using assms(2) reach drop_reaches [OF reach, of addr]
    by (auto simp: client_write_def c split: option.splits if_splits prod.splits)
qed

section \<open>Properties\<close>

text \<open>
  C29: the fate of one send. A packet that cannot be encoded touches nothing. Otherwise the
  send succeeds exactly when the whole line was written once, on the connection now pooled for
  the address; it makes at most two attempts, a failed send leaves no pooled connection behind,
  and the connections to other addresses stay as they are.
\<close>

theorem send_attempts:
  assumes "client_send addr p a1 a2 cl = ((e, cl'), ops)"
  shows "(e = Some CannotEncodePacket \<longleftrightarrow> encode p = None) \<and> (encode p = None \<longrightarrow> cl' = cl \<and> ops = []) \<and>
    (\<forall>data. encode p = Some data \<longrightarrow>
       (e = None \<longleftrightarrow> (\<exists>c. Wrote c (data @ [newline]) \<in> set ops \<and> mget (cl_conns cl') addr = Some c)) \<and>
       (e \<noteq> None \<longrightarrow> mget (cl_conns cl') addr = None \<and> (\<forall>c d. Wrote c d \<notin> set ops)) \<and>
       length (filter (\<lambda>x. \<exists>c d. x = Wrote c d \<or> x = Broke c d) ops) \<le> 2 \<and>
       (\<forall>b. b \<noteq> addr \<longrightarrow> mget (cl_conns cl') b = mget (cl_conns cl) b))"
proof (cases "encode p")
  case None
  with assms show ?thesis by (auto simp: client_send_def)
next
  case (Some data)
  let ?b = "data @ [newline]"
  obtain ok m es where w: "client_write addr ?b False a1 cl = ((ok, m), es)" by (metis prod.exhaust)
  note f = write_facts [OF w]
  show ?thesis
  proof (cases ok)
    case True
    then have r: "cl' = m" "ops = es" "e = None" using assms Some w by (simp_all add: client_send_def)
    have "\<exists>c. Wrote c ?b \<in> set ops \<and> mget (cl_conns cl') addr = Some c" using f(1) True by (simp add: r)
    moreover have "\<forall>b. b \<noteq> addr \<longrightarrow> mget (cl_conns cl') b = mget (cl_conns cl) b" using f(3) by (simp add: r)
    moreover have "length (filter (\<lambda>x. \<exists>c d. x = Wrote c d \<or> x = Broke c d) ops) \<le> 2" using f(5) by (simp add: r)
    ultimately show ?thesis using Some by (simp add: r(3))
  next
    case False
    obtain ok' m' es' where w': "client_write addr ?b True a2 m = ((ok', m'), es')" by (metis prod.exhaust)
    note g = write_facts [OF w']
    have r: "cl' = m'" "ops = es @ es'" "e = (if ok' then None else Some (SendFailed addr))"
      using assms Some w w' False by (simp_all add: client_send_def)
    have e: "e = None \<longleftrightarrow> ok'" by (simp add: r(3))
    have none: "Wrote c d \<notin> set es" for c d using f(2) False by blast
    have "ok' \<longleftrightarrow> (\<exists>c. Wrote c ?b \<in> set ops \<and> mget (cl_conns cl') addr = Some c)"
      unfolding r(1,2) set_append Un_iff using g(1) none by blast
    moreover have "\<not> ok' \<longrightarrow> mget (cl_conns cl') addr = None \<and> (\<forall>c d. Wrote c d \<notin> set ops)"
      unfolding r(1,2) set_append Un_iff using g(2) none by blast
    moreover have "length (filter (\<lambda>x. \<exists>c d. x = Wrote c d \<or> x = Broke c d) ops) \<le> 2"
      using f(5) g(5) by (simp add: r)
    moreover have "b \<noteq> addr \<longrightarrow> mget (cl_conns cl') b = mget (cl_conns cl) b" for b
      using f(3) g(3) by (simp add: r)
    moreover have "e \<noteq> Some CannotEncodePacket" by (simp add: r(3))
    ultimately show ?thesis using Some unfolding e by simp
  qed
qed

theorem send_attempts_witness:
  "\<exists>cl' ops. client_send ''10.0.0.1:5000'' framed_hi \<lparr>at_dial = Some 7, at_deadline = True, at_broke = Some 3\<rparr>
     \<lparr>at_dial = Some 8, at_deadline = True, at_broke = None\<rparr> new_client = ((None, cl'), ops) \<and>
     mget (cl_conns cl') ''10.0.0.1:5000'' = Some 8"
proof -
  let ?a1 = "\<lparr>at_dial = Some 7, at_deadline = True, at_broke = Some 3\<rparr>"
    and ?a2 = "\<lparr>at_dial = Some 8, at_deadline = True, at_broke = None\<rparr>"
  have "encode framed_hi \<noteq> None" by code_simp
  then obtain data where d: "encode framed_hi = Some data" by blast
  let ?r = "client_send ''10.0.0.1:5000'' framed_hi ?a1 ?a2 new_client"
  have "?r = ((fst (fst ?r), snd (fst ?r)), snd ?r)" by simp
  from send_attempts [OF this] d show ?thesis
    by (simp add: client_send_def client_write_def client_conn_def client_dial_def client_drop_def new_client_def)
qed

text \<open>
  C30: no connection is lost. However the senders that share the pool are interleaved, the open
  connections are exactly the pooled ones, one per address; a whole send keeps that; and
  closing the pool closes them all.
\<close>

theorem connections_accounted:
  assumes "client_reaches cl S" and "client_send addr p a1 a2 cl = ((e, cl'), ops)"
    and "\<forall>c. at_dial a1 = Some c \<or> at_dial a2 = Some c \<longrightarrow> c \<notin> S" and "at_dial a1 = at_dial a2 \<longrightarrow> at_dial a1 = None"
  shows "S = snd ` set (cl_conns cl) \<and> card S = length (cl_conns cl) \<and>
    client_reaches cl' (open_after S ops) \<and> open_after S (snd (client_close cl)) = {}"
proof -
  have ok: "pool_ok cl S" by (rule client_reaches_ok [OF assms(1)])
  then have wf: "wf_map (cl_conns cl)" and S: "S = snd ` set (cl_conns cl)" by (simp_all add: pool_ok_def)
  have inj: "inj_on snd (set (cl_conns cl))"
    using ok wf by (auto simp: pool_ok_def inj_on_def mget_iff)
  have "card S = length (cl_conns cl)"
    using card_image [OF inj] distinct_card [of "cl_conns cl"] wf by (simp add: S wf_map_def distinct_map)
  moreover have "client_reaches cl' (open_after S ops)"
  proof (cases "encode p")
    case None
    then show ?thesis using assms(1,2) by (simp add: client_send_def)
  next
    case (Some data)
    let ?b = "data @ [newline]"
    obtain r m es where w: "client_write addr ?b False a1 cl = ((r, m), es)" by (metis prod.exhaust)
    obtain r' m' es' where w': "client_write addr ?b True a2 m = ((r', m'), es')" by (metis prod.exhaust)
    have m: "client_reaches m (open_after S es)" using write_reaches [OF assms(1) w] assms(3) by blast
    have "open_after S es \<subseteq> S \<union> {c. \<exists>a. Dialed a c \<in> set es}"
      by (induction S es rule: open_after.induct) auto
    then have "\<forall>c. at_dial a2 = Some c \<longrightarrow> c \<notin> open_after S es"
      using assms(3,4) write_facts(6) [OF w] by fastforce
    with write_reaches [OF m w'] assms(2) Some w w' m show ?thesis
      by (auto simp: client_send_def split: if_splits)
  qed
  ultimately show ?thesis using S pool_close [OF ok] by simp
qed

theorem connections_accounted_witness:
  "client_reaches (snd (fst (client_send ''10.0.0.1:5000'' framed_hi \<lparr>at_dial = Some 7, at_deadline = True, at_broke = Some 3\<rparr>
     \<lparr>at_dial = Some 8, at_deadline = True, at_broke = None\<rparr> new_client))) {8}"
proof -
  let ?a1 = "\<lparr>at_dial = Some 7, at_deadline = True, at_broke = Some 3\<rparr>"
    and ?a2 = "\<lparr>at_dial = Some 8, at_deadline = True, at_broke = None\<rparr>"
  let ?r = "client_send ''10.0.0.1:5000'' framed_hi ?a1 ?a2 new_client"
  have "encode framed_hi \<noteq> None" by code_simp
  then obtain data where d: "encode framed_hi = Some data" by blast
  have "?r = ((fst (fst ?r), snd (fst ?r)), snd ?r)" by simp
  from connections_accounted [OF reach_new this] have "client_reaches (snd (fst ?r)) (open_after {} (snd ?r))" by simp
  moreover have "open_after {} (snd ?r) = {8}"
    by (auto simp: client_send_def client_write_def client_conn_def client_dial_def client_drop_def new_client_def d)
  ultimately show ?thesis by simp
qed

end
