(* ===== verification/Net_Shutdown.thy ===== *)
theory Net_Shutdown
  imports Net_Accept Net_Client
begin

text \<open>
  Stopping. A process has a context, the goroutines its node waits for, the two of the link-state
  mode it does not wait for, a server and a connection pool; \<open>Wait\<close> of internal/node/node.go and
  the end of \<open>run\<close> of cmd/node/main.go decide when it exits. While its console is served a signal
  cancels the context; from \<open>stop()\<close> on a signal has its default effect and ends the process. A
  network of processes shares the connections one side dialled and the other accepted. A step
  is an event of one process, or a line or the end of a connection; no connection breaks by itself.
\<close>

section \<open>One process\<close>

record process =
  pr_cancelled :: bool
  pr_caught :: bool
  pr_console :: bool
  pr_loops :: nat
  pr_tickers :: nat
  pr_server :: server
  pr_client :: client
  pr_exited :: bool

text \<open>
  After \<open>Start\<close>: signals are caught (\<open>NotifyContext\<close>), there are two loops to wait for, and what the
  algorithm started on its own.
\<close>

definition process_start :: "string \<Rightarrow> server \<Rightarrow> process" where
  "process_start mode sv =
     \<lparr>pr_cancelled = False, pr_caught = True, pr_console = True, pr_loops = 2,
      pr_tickers = (if mode = mode_lsr then 2 else 0), pr_server = sv, pr_client = new_client, pr_exited = False\<rparr>"

definition node_wait :: "process \<Rightarrow> (process \<times> net_op list) option" where
  "node_wait p =
     (if pr_loops p = 0 \<and> wait_returns (pr_server p)
      then (case client_close (pr_client p) of (cl, ops) \<Rightarrow> Some (p\<lparr>pr_client := cl\<rparr>, ops))
      else None)"

text \<open>
  The end of \<open>run\<close>: the console has returned; \<open>stop()\<close> cancels the context and gives signals their
  default effect back; and the process waits.
\<close>

definition run_stop :: "process \<Rightarrow> process" where
  "run_stop p = p\<lparr>pr_console := False, pr_caught := False, pr_cancelled := True\<rparr>"

definition run_exit :: "process \<Rightarrow> process option" where
  "run_exit p = map_option (\<lambda>(p, ops). p\<lparr>pr_exited := True\<rparr>) (node_wait p)"

text \<open>
  SIGINT or SIGTERM: caught, it cancels the context; otherwise the process ends at once, and the
  system closes its listener and every connection it had dialled or accepted.
\<close>

definition killed :: "process \<Rightarrow> process" where
  "killed p =
     p\<lparr>pr_cancelled := True, pr_console := False, pr_loops := 0, pr_tickers := 0,
       pr_server := (pr_server p)\<lparr>sv_accepting := False, sv_open := [], sv_wg := 0\<rparr>,
       pr_client := \<lparr>cl_conns = []\<rparr>, pr_exited := True\<rparr>"

definition signalled :: "process \<Rightarrow> process" where
  "signalled p = (if pr_caught p then p\<lparr>pr_cancelled := True\<rparr> else killed p)"

text \<open>Whether no goroutine of the process sends any more.\<close>

definition idle :: "process \<Rightarrow> bool" where
  "idle p \<longleftrightarrow> pr_exited p \<or> \<not> pr_console p \<and> pr_loops p = 0 \<and> pr_tickers p = 0"

section \<open>A network of processes\<close>

text \<open>Connections are numbered; each has the process that dialled it and the one that accepted it.\<close>

record net =
  nt_procs :: "(string, process) gomap"
  nt_conns :: "(nat, string \<times> string) gomap"

abbreviation proc :: "net \<Rightarrow> string \<Rightarrow> process option" where
  "proc w u \<equiv> mget (nt_procs w) u"

definition put_proc :: "string \<Rightarrow> process \<Rightarrow> net \<Rightarrow> net" where
  "put_proc u p w = w\<lparr>nt_procs := mput u p (nt_procs w)\<rparr>"

definition pooled :: "process \<Rightarrow> nat \<Rightarrow> bool" where
  "pooled p c \<longleftrightarrow> c \<in> snd ` set (cl_conns (pr_client p))"

definition served :: "process \<Rightarrow> nat \<Rightarrow> bool" where
  "served p c \<longleftrightarrow> c \<in> set (sv_open (pr_server p))"

text \<open>
  The connection's goroutine returns: after the next line once the context is cancelled, and
  when the dialler has closed its end.
\<close>

definition serve_end :: "nat \<Rightarrow> process \<Rightarrow> process" where
  "serve_end c p = p\<lparr>pr_server := conn_done c (pr_server p)\<rparr>"

definition serve_next :: "nat \<Rightarrow> process \<Rightarrow> process" where
  "serve_next c p = (if pr_cancelled p then serve_end c p else p)"

text \<open>
  What happens: a process is signalled, its console returns, one of its loops or tickers ends, its
  listener is closed, it dials another or drops a connection, it reads a line or the end of a
  connection it serves, and it exits.
\<close>

datatype net_event =
    Signals string
  | ConsoleEnds string
  | LoopEnds string
  | TickerEnds string
  | AcceptEnds string
  | Dials string string nat
  | Drops string string
  | ReadsLine string nat
  | SeesEnd string nat
  | Exits string

inductive net_step :: "net_event \<Rightarrow> net \<Rightarrow> net \<Rightarrow> bool" where
  net_signal: "proc w u = Some p \<Longrightarrow> \<not> pr_exited p \<Longrightarrow> net_step (Signals u) w (put_proc u (signalled p) w)"
| net_stop: "proc w u = Some p \<Longrightarrow> pr_console p \<Longrightarrow> net_step (ConsoleEnds u) w (put_proc u (run_stop p) w)"
| net_loop_ends: "proc w u = Some p \<Longrightarrow> pr_cancelled p \<Longrightarrow> 0 < pr_loops p \<Longrightarrow>
    net_step (LoopEnds u) w (put_proc u (p\<lparr>pr_loops := pr_loops p - 1\<rparr>) w)"
| net_ticker_ends: "proc w u = Some p \<Longrightarrow> pr_cancelled p \<Longrightarrow> 0 < pr_tickers p \<Longrightarrow>
    net_step (TickerEnds u) w (put_proc u (p\<lparr>pr_tickers := pr_tickers p - 1\<rparr>) w)"
| net_accept_ends: "proc w u = Some p \<Longrightarrow> pr_cancelled p \<Longrightarrow> sv_accepting (pr_server p) \<Longrightarrow>
    net_step (AcceptEnds u) w (put_proc u (p\<lparr>pr_server := fst (accept_turn (AcceptFailed True True) (pr_server p))\<rparr>) w)"
| net_dial: "proc w u = Some p \<Longrightarrow> \<not> idle p \<Longrightarrow> c \<notin> set (mkeys (nt_conns w)) \<Longrightarrow>
    client_conn addr reconnect (Some c) (pr_client p) = ((Some c, cl), ops) \<Longrightarrow>
    proc (put_proc u (p\<lparr>pr_client := cl\<rparr>) w) v = Some q \<Longrightarrow> sv_accepting (pr_server q) \<Longrightarrow>
    net_step (Dials u v c) w ((put_proc v (q\<lparr>pr_server := fst (accept_turn (Conn c) (pr_server q))\<rparr>)
                  (put_proc u (p\<lparr>pr_client := cl\<rparr>) w))\<lparr>nt_conns := mput c (u, v) (nt_conns w)\<rparr>)"
| net_drop: "proc w u = Some p \<Longrightarrow> \<not> idle p \<Longrightarrow>
    net_step (Drops u addr) w (put_proc u (p\<lparr>pr_client := fst (client_drop addr (pr_client p))\<rparr>) w)"
| net_line: "proc w u = Some p \<Longrightarrow> \<not> idle p \<Longrightarrow> pooled p c \<Longrightarrow> mget (nt_conns w) c = Some (u, v) \<Longrightarrow>
    proc w v = Some q \<Longrightarrow> served q c \<Longrightarrow> net_step (ReadsLine v c) w (put_proc v (serve_next c q) w)"
| net_eof: "proc w v = Some q \<Longrightarrow> served q c \<Longrightarrow> mget (nt_conns w) c = Some (u, v) \<Longrightarrow>
    \<not> (\<exists>p. proc w u = Some p \<and> pooled p c) \<Longrightarrow> net_step (SeesEnd v c) w (put_proc v (serve_end c q) w)"
| net_exit: "proc w u = Some p \<Longrightarrow> pr_cancelled p \<Longrightarrow> \<not> pr_console p \<Longrightarrow> \<not> pr_exited p \<Longrightarrow> run_exit p = Some p' \<Longrightarrow>
    net_step (Exits u) w (put_proc u p' w)"

text \<open>The networks that started processes can get into, and the events on the way from one to another.\<close>

inductive net_reaches :: "net \<Rightarrow> bool" where
  net_started: "\<forall>u p. mget ps u = Some p \<longrightarrow> (\<exists>b addr mode sv. server_start (Some b) (new_server addr) = Inr sv \<and>
    p = process_start mode sv) \<Longrightarrow> net_reaches \<lparr>nt_procs = ps, nt_conns = []\<rparr>"
| net_next: "net_reaches w \<Longrightarrow> net_step e w w' \<Longrightarrow> net_reaches w'"

inductive net_run :: "net \<Rightarrow> net_event list \<Rightarrow> net \<Rightarrow> bool" where
  run_none: "net_run w [] w"
| run_more: "net_run w es w' \<Longrightarrow> net_step e w' w'' \<Longrightarrow> net_run w (es @ [e]) w''"

section \<open>What every network keeps\<close>

text \<open>
  The server counts its goroutines, and every connection it serves is one somebody dialled to it.
  Signals are caught exactly while the console is served; only a cancelled process has left its
  console; and an exited one holds no connection.
\<close>

definition server_ok :: "net \<Rightarrow> string \<Rightarrow> process \<Rightarrow> bool" where
  "server_ok w u p \<longleftrightarrow>
     sv_wg (pr_server p) = length (sv_open (pr_server p)) + (if sv_accepting (pr_server p) then 1 else 0) \<and>
     distinct (sv_open (pr_server p)) \<and> (\<forall>c. served p c \<longrightarrow> (\<exists>v. mget (nt_conns w) c = Some (v, u)))"

definition flags_ok :: "process \<Rightarrow> bool" where
  "flags_ok p \<longleftrightarrow> (pr_caught p \<longleftrightarrow> pr_console p) \<and> (\<not> pr_cancelled p \<longrightarrow> pr_console p) \<and>
     (pr_exited p \<longrightarrow> \<not> pr_console p \<and> pr_loops p = 0 \<and> cl_conns (pr_client p) = [] \<and>
        \<not> sv_accepting (pr_server p) \<and> sv_open (pr_server p) = [])"

definition process_ok :: "net \<Rightarrow> string \<Rightarrow> process \<Rightarrow> bool" where
  "process_ok w u p \<longleftrightarrow> server_ok w u p \<and> flags_ok p"

definition net_inv :: "net \<Rightarrow> bool" where
  "net_inv w \<longleftrightarrow> (\<forall>u p. proc w u = Some p \<longrightarrow> process_ok w u p)"

lemma proc_put [simp]: "proc (put_proc u p w) v = (if v = u then Some p else proc w v)"
  by (simp add: put_proc_def)

lemma conns_put [simp]: "nt_conns (put_proc u p w) = nt_conns w"
  by (simp add: put_proc_def)

lemma put_proc_conns: "(put_proc v q w)\<lparr>nt_conns := cs\<rparr> = put_proc v q (w\<lparr>nt_conns := cs\<rparr>)"
  by (simp add: put_proc_def)

lemma serve_end_fields [simp]:
  "pr_cancelled (serve_end c p) = pr_cancelled p" "pr_caught (serve_end c p) = pr_caught p"
  "pr_console (serve_end c p) = pr_console p"
  "pr_loops (serve_end c p) = pr_loops p" "pr_tickers (serve_end c p) = pr_tickers p"
  "pr_client (serve_end c p) = pr_client p" "pr_exited (serve_end c p) = pr_exited p"
  "sv_open (pr_server (serve_end c p)) = remove1 c (sv_open (pr_server p))"
  "sv_wg (pr_server (serve_end c p)) = sv_wg (pr_server p) - 1"
  "sv_accepting (pr_server (serve_end c p)) = sv_accepting (pr_server p)"
  by (simp_all add: serve_end_def conn_done_def)

lemma process_ok_end: "process_ok w u p \<Longrightarrow> served p c \<Longrightarrow> process_ok w u (serve_end c p)"
  using length_pos_if_in_set [of c "sv_open (pr_server p)"]
  by (auto simp: process_ok_def server_ok_def flags_ok_def served_def length_remove1)

lemma process_ok_same: "process_ok w u p \<Longrightarrow> pr_server p' = pr_server p \<Longrightarrow> flags_ok p' \<Longrightarrow> process_ok w u p'"
  by (simp add: process_ok_def server_ok_def served_def)

lemma process_ok_conn:
  assumes "process_ok w u p" and "mget (nt_conns w) c = None"
  shows "process_ok (w\<lparr>nt_conns := mput c e (nt_conns w)\<rparr>) u p"
proof -
  have "\<not> served p c" using assms by (auto simp: process_ok_def server_ok_def)
  then show ?thesis using assms(1) by (auto simp: process_ok_def server_ok_def)
qed

lemma net_inv_put: "net_inv w \<Longrightarrow> process_ok w u p \<Longrightarrow> net_inv (put_proc u p w)"
  by (auto simp: net_inv_def process_ok_def server_ok_def)

lemma net_inv_proc: "net_inv w \<Longrightarrow> proc w u = Some p \<Longrightarrow> process_ok w u p"
  by (simp add: net_inv_def)

lemma net_inv_flags: "net_inv w \<Longrightarrow> proc w u = Some p \<Longrightarrow> flags_ok p"
  using net_inv_proc by (simp add: process_ok_def)

text \<open>A step that leaves the server of one process as it is.\<close>

lemma net_inv_same:
  "net_inv w \<Longrightarrow> proc w u = Some p \<Longrightarrow> pr_server p' = pr_server p \<Longrightarrow> flags_ok p' \<Longrightarrow> net_inv (put_proc u p' w)"
  by (intro net_inv_put process_ok_same [OF net_inv_proc])

lemma run_exit_fields:
  "run_exit p = Some p' \<Longrightarrow>
   p' = p\<lparr>pr_client := \<lparr>cl_conns = []\<rparr>, pr_exited := True\<rparr> \<and> pr_loops p = 0 \<and> wait_returns (pr_server p)"
  by (auto simp: run_exit_def node_wait_def client_close_def split: if_splits)

lemma signalled_ok: "process_ok w u p \<Longrightarrow> process_ok w u (signalled p)"
  by (auto simp: signalled_def killed_def process_ok_def server_ok_def flags_ok_def served_def)

lemma net_step_inv: "net_step e w w' \<Longrightarrow> net_inv w \<Longrightarrow> net_inv w'"
proof (induction rule: net_step.induct)
  case (net_signal w u p)
  then show ?case by (intro net_inv_put signalled_ok net_inv_proc)
next
  case (net_accept_ends w u p)
  have "process_ok w u p" by (rule net_inv_proc [OF net_accept_ends(4,1)])
  with net_accept_ends show ?case
    by (intro net_inv_put) (auto simp: process_ok_def server_ok_def flags_ok_def served_def accept_turn_def)
next
  case (net_dial w u p c addr reconnect cl ops v q)
  let ?w = "put_proc u (p\<lparr>pr_client := cl\<rparr>) w"
  have "flags_ok (p\<lparr>pr_client := cl\<rparr>)"
    using net_inv_flags [OF net_dial(7,1)] net_dial(2) by (auto simp: flags_ok_def idle_def)
  then have i: "net_inv ?w" by (intro net_inv_same [OF net_dial(7,1)]) simp_all
  have new: "mget (nt_conns w) c = None" using net_dial(3) by (simp add: map_of_eq_None_iff)
  have q: "process_ok ?w v q" by (rule net_inv_proc [OF i net_dial(5)])
  have "\<not> served q c" using q new by (auto simp: process_ok_def server_ok_def)
  with q net_dial(6) have "process_ok (?w\<lparr>nt_conns := mput c (u, v) (nt_conns w)\<rparr>) v
      (q\<lparr>pr_server := fst (accept_turn (Conn c) (pr_server q))\<rparr>)"
    by (auto simp: process_ok_def server_ok_def flags_ok_def served_def accept_turn_def)
  moreover have "process_ok (?w\<lparr>nt_conns := mput c (u, v) (nt_conns w)\<rparr>) x r" if "proc ?w x = Some r" for x r
    using process_ok_conn [OF net_inv_proc [OF i that], of c "(u, v)"] new by simp
  then have "net_inv (?w\<lparr>nt_conns := mput c (u, v) (nt_conns w)\<rparr>)" by (simp add: net_inv_def)
  ultimately show ?case unfolding put_proc_conns by (rule net_inv_put [rotated])
next
  case (net_line w u p c v q)
  have "process_ok w v (serve_next c q)"
    using net_inv_proc [OF net_line(7,5)] net_line(6) by (simp add: serve_next_def process_ok_end)
  then show ?case by (rule net_inv_put [OF net_line(7)])
next
  case (net_eof w v q c u)
  then show ?case by (intro net_inv_put process_ok_end net_inv_proc)
next
  case (net_exit w u p p')
  note ok = net_inv_proc [OF net_exit(6,1)] and p' = run_exit_fields [OF net_exit(5)]
  have "sv_open (pr_server p) = [] \<and> \<not> sv_accepting (pr_server p)"
    using ok p' by (auto simp: process_ok_def server_ok_def wait_returns_def split: if_splits)
  then have "flags_ok p'" using ok p' net_exit(3) by (auto simp: process_ok_def flags_ok_def)
  with p' show ?case by (intro net_inv_same [OF net_exit(6,1)]) simp_all
next
  case (net_stop w u p)
  then show ?case
    by (intro net_inv_same [OF net_stop(3,1)]) (use net_inv_flags in \<open>fastforce simp: run_stop_def flags_ok_def\<close>)+
next
  case (net_loop_ends w u p)
  show ?case
    by (intro net_inv_same [OF net_loop_ends(4,1)]) (use net_inv_flags [OF net_loop_ends(4,1)] in \<open>auto simp: flags_ok_def\<close>)
next
  case (net_ticker_ends w u p)
  show ?case
    by (intro net_inv_same [OF net_ticker_ends(4,1)]) (use net_inv_flags [OF net_ticker_ends(4,1)] in \<open>auto simp: flags_ok_def\<close>)
next
  case (net_drop w u p addr)
  show ?case
    by (intro net_inv_same [OF net_drop(3,1)])
      (use net_inv_flags [OF net_drop(3,1)] net_drop(2) in \<open>auto simp: flags_ok_def idle_def\<close>)
qed

lemma net_reaches_inv: "net_reaches w \<Longrightarrow> net_inv w"
proof (induction rule: net_reaches.induct)
  case (net_started ps)
  then show ?case
    by (fastforce simp: net_inv_def process_ok_def server_ok_def flags_ok_def served_def process_start_def server_start_def new_server_def)
next
  case (net_next w e w')
  then show ?case using net_step_inv by blast
qed

lemma net_run_reaches: "net_run w es w' \<Longrightarrow> net_reaches w \<Longrightarrow> net_reaches w'"
  by (induction rule: net_run.induct) (auto intro: net_next)

section \<open>Waiting in a circle\<close>

text \<open>
  Every process of \<open>U\<close> is stopping, sends nothing any more, and serves a connection that another
  process of \<open>U\<close> keeps open.
\<close>

definition stopping :: "process \<Rightarrow> bool" where
  "stopping p \<longleftrightarrow> pr_cancelled p \<and> idle p \<and> \<not> pr_exited p"

definition held_up :: "net \<Rightarrow> string set \<Rightarrow> string \<Rightarrow> nat \<Rightarrow> bool" where
  "held_up w U u c \<longleftrightarrow> (\<exists>v q. mget (nt_conns w) c = Some (v, u) \<and> v \<in> U \<and> proc w v = Some q \<and> pooled q c)"

definition locked :: "net \<Rightarrow> string set \<Rightarrow> bool" where
  "locked w U \<longleftrightarrow> (\<forall>u \<in> U. \<exists>p. proc w u = Some p \<and> stopping p \<and> (\<exists>c. served p c \<and> held_up w U u c))"

lemma locked_kept:
  assumes "locked w U"
    and "\<And>u p. u \<in> U \<Longrightarrow> proc w u = Some p \<Longrightarrow> stopping p \<Longrightarrow>
      \<exists>p'. proc w' u = Some p' \<and> stopping p' \<and> pr_client p' = pr_client p \<and>
        (\<forall>c. served p c \<and> held_up w U u c \<longrightarrow> served p' c)"
    and "\<And>c e. mget (nt_conns w) c = Some e \<Longrightarrow> mget (nt_conns w') c = Some e"
  shows "locked w' U"
  unfolding locked_def
proof
  fix u
  assume u: "u \<in> U"
  then obtain p c where p: "proc w u = Some p" "stopping p" "served p c" "held_up w U u c"
    using assms(1) by (auto simp: locked_def)
  from p(4) obtain v q where v: "mget (nt_conns w) c = Some (v, u)" "v \<in> U" "proc w v = Some q" "pooled q c"
    by (auto simp: held_up_def)
  from v(2) assms(1) v(3) have "stopping q" by (auto simp: locked_def)
  from assms(2) [OF v(2,3) this] obtain q' where "proc w' v = Some q'" "pr_client q' = pr_client q" by blast
  with v assms(3) have "held_up w' U u c" by (auto simp: held_up_def pooled_def)
  with assms(2) [OF u p(1,2)] p(3,4)
  show "\<exists>p. proc w' u = Some p \<and> stopping p \<and> (\<exists>c. served p c \<and> held_up w' U u c)" by blast
qed

lemma serving_blocks:
  assumes "net_inv w" and "proc w u = Some p" and "served p c"
  shows "node_wait p = None" and "run_exit p = None"
proof -
  have "sv_open (pr_server p) \<noteq> []" using assms(3) by (auto simp: served_def)
  then show "node_wait p = None"
    using net_inv_proc [OF assms(1,2)] by (simp add: node_wait_def wait_returns_def process_ok_def server_ok_def)
  then show "run_exit p = None" by (simp add: run_exit_def)
qed

lemma served_end: "served (serve_end c p) d \<longleftrightarrow> (if d = c then d \<in> set (remove1 c (sv_open (pr_server p))) else served p d)"
  by (simp add: served_def)

lemma locked_step:
  assumes "net_step e w w'" and "net_inv w" and l: "locked w U" and "\<forall>u \<in> U. e \<noteq> Signals u"
  shows "locked w' U"
  using assms(1)
proof cases
  case (net_signal u p)
  with assms(4) have "u \<notin> U" by blast
  then show ?thesis using net_signal by (intro locked_kept [OF l]) auto
next
  case (net_line u p c v q)
  have "u \<notin> U" using l net_line(3,4) by (auto simp: locked_def stopping_def)
  then have "\<not> held_up w U v c" using net_line(6) by (auto simp: held_up_def)
  then show ?thesis
    using net_line
    by (intro locked_kept [OF l]) (auto simp: serve_next_def served_end stopping_def idle_def split: if_splits)
next
  case (net_eof v q c u)
  then have "\<not> held_up w U v c" by (auto simp: held_up_def)
  then show ?thesis
    using net_eof
    by (intro locked_kept [OF l]) (auto simp: served_end stopping_def idle_def split: if_splits)
next
  case (net_dial u p c addr reconnect cl ops v q)
  have "u \<notin> U" using l net_dial(3,4) by (auto simp: locked_def stopping_def)
  then show ?thesis
    using net_dial
    by (intro locked_kept [OF l])
      (auto simp: accept_turn_def stopping_def idle_def served_def map_of_eq_None_iff [symmetric] simp del: map_of_eq_None_iff split: if_splits)
next
  case (net_exit u p p')
  have "u \<notin> U"
  proof
    assume "u \<in> U"
    with l net_exit(3) obtain c where "served p c" by (auto simp: locked_def)
    from serving_blocks(2) [OF assms(2) net_exit(3) this] net_exit(7) show False by simp
  qed
  then show ?thesis using net_exit by (intro locked_kept [OF l]) auto
next
  case (net_drop u p addr)
  then have "u \<notin> U" using l by (auto simp: locked_def stopping_def)
  then show ?thesis using net_drop by (intro locked_kept [OF l]) auto
qed (intro locked_kept [OF l], auto simp: stopping_def idle_def run_stop_def accept_turn_def served_def split: if_splits)+

section \<open>Properties\<close>

text \<open>
  C13: processes that stop together wait for each other until one of them is killed. In a set of
  stopping processes each of which serves a connection that another of them keeps open, no
  process exits, whatever else happens in the network, as long as none of the set is signalled
  once more: \<open>Wait\<close> closes the pool only after the server has drained, and the server's
  connections end only when their diallers send or close. Another signal is the way out, for by
  then it is no longer caught: it ends the process, and closes its connections.
\<close>

theorem shutdown_deadlock:
  assumes "net_reaches w" and "locked w U" and "net_run w es w'" and "\<forall>u \<in> U. Signals u \<notin> set es"
  shows "\<forall>u \<in> U. \<exists>p. proc w' u = Some p \<and> \<not> pr_exited p \<and> node_wait p = None \<and> run_exit p = None \<and>
    net_step (Signals u) w' (put_proc u (killed p) w')"
proof -
  have i: "net_inv w'" by (rule net_reaches_inv [OF net_run_reaches [OF assms(3,1)]])
  have "locked w' U"
    using assms(3,1,2,4)
  proof (induction rule: net_run.induct)
    case (run_more w es y e z)
    have "net_inv y" by (rule net_reaches_inv [OF net_run_reaches [OF run_more(1,4)]])
    moreover have "locked y U" using run_more by simp
    ultimately show ?case using locked_step [OF run_more(2)] run_more(6) by auto
  qed
  show ?thesis
  proof
    fix u
    assume "u \<in> U"
    with \<open>locked w' U\<close> obtain p c where p: "proc w' u = Some p" "stopping p" "served p c" by (auto simp: locked_def)
    then have "\<not> pr_exited p" "signalled p = killed p"
      using net_inv_flags [OF i p(1)] by (auto simp: stopping_def idle_def flags_ok_def signalled_def)
    with net_signal [OF p(1)] serving_blocks [OF i p(1,3)] p(1)
    show "\<exists>p. proc w' u = Some p \<and> \<not> pr_exited p \<and> node_wait p = None \<and> run_exit p = None \<and>
      net_step (Signals u) w' (put_proc u (killed p) w')" by auto
  qed
qed

text \<open>The witness: two nodes, each of which has dialled the other, are both asked to quit.\<close>

definition sample_server :: "nat list \<Rightarrow> server" where
  "sample_server cs =
     \<lparr>sv_addr = '':5000'', sv_bound = Some '':5000'', sv_accepting = True, sv_open = cs, sv_wg = length cs + 1\<rparr>"

definition sample_pair :: "process \<Rightarrow> process \<Rightarrow> (nat, string \<times> string) gomap \<Rightarrow> net" where
  "sample_pair p q cs = \<lparr>nt_procs = [(''A'', p), (''B'', q)], nt_conns = cs\<rparr>"

lemma sample_pair_simps [simp]:
  "proc (sample_pair p q cs) ''A'' = Some p" "proc (sample_pair p q cs) ''B'' = Some q"
  "put_proc ''A'' p' (sample_pair p q cs) = sample_pair p' q cs" "put_proc ''B'' q' (sample_pair p q cs) = sample_pair p q' cs"
  "nt_conns (sample_pair p q cs) = cs" "(sample_pair p q cs)\<lparr>nt_conns := ds\<rparr> = sample_pair p q ds"
  by (simp_all add: sample_pair_def put_proc_def)

text \<open>A process that runs, and one that was asked to quit and has ended its loops; it dialled \<open>mine\<close> and serves \<open>theirs\<close>.\<close>

definition sample_running :: "string \<Rightarrow> nat \<Rightarrow> nat \<Rightarrow> process" where
  "sample_running peer mine theirs =
     \<lparr>pr_cancelled = False, pr_caught = True, pr_console = True, pr_loops = 2, pr_tickers = 0, pr_server = sample_server [theirs],
      pr_client = \<lparr>cl_conns = [(peer, mine)]\<rparr>, pr_exited = False\<rparr>"

definition sample_stopped :: "string \<Rightarrow> nat \<Rightarrow> nat \<Rightarrow> process" where
  "sample_stopped peer mine theirs =
     (sample_running peer mine theirs)\<lparr>pr_cancelled := True, pr_caught := False, pr_console := False, pr_loops := 0\<rparr>"

abbreviation sample_conns :: "(nat, string \<times> string) gomap" where
  "sample_conns \<equiv> [(1, (''A'', ''B'')), (2, (''B'', ''A''))]"

definition sample_net :: net where
  "sample_net = sample_pair (sample_stopped ''B'' 1 2) (sample_stopped ''A'' 2 1) sample_conns"

lemma sample_meet: "net_reaches (sample_pair (sample_running ''B'' 1 2) (sample_running ''A'' 2 1) sample_conns)"
proof -
  define p0 where "p0 = process_start mode_dijkstra (sample_server [])"
  define a1 where "a1 = p0\<lparr>pr_client := \<lparr>cl_conns = [(''B'', 1)]\<rparr>\<rparr>"
  define b1 where "b1 = p0\<lparr>pr_server := sample_server [1]\<rparr>"
  note d = p0_def a1_def b1_def process_start_def new_client_def idle_def sample_server_def accept_turn_def
    mode_dijkstra_def mode_lsr_def sample_running_def
  have "server_start (Some '':5000'') (new_server '':5000'') = Inr (sample_server [])" by code_simp
  then have 0: "net_reaches (sample_pair p0 p0 [])"
    unfolding sample_pair_def by (intro net_started) (auto simp: p0_def split: if_splits)
  have "client_conn ''B'' False (Some 1) (pr_client p0) = ((Some 1, \<lparr>cl_conns = [(''B'', 1)]\<rparr>), [Dialed ''B'' 1])"
    by (simp add: d client_conn_def client_dial_def)
  from net_next [OF 0 net_dial [OF _ _ _ this, of _ "''A''" "''B''" p0]]
  have 1: "net_reaches (sample_pair a1 b1 [(1, (''A'', ''B''))])" by (simp add: d)
  have "client_conn ''A'' False (Some 2) (pr_client b1) = ((Some 2, \<lparr>cl_conns = [(''A'', 2)]\<rparr>), [Dialed ''A'' 2])"
    by (simp add: d client_conn_def client_dial_def)
  from net_next [OF 1 net_dial [OF _ _ _ this, of _ "''B''" "''A''" a1]] show ?thesis by (simp add: d)
qed

lemma sample_net_reached: "net_reaches sample_net"
proof -
  let ?a = "run_stop (sample_running ''B'' 1 2)" and ?b = "run_stop (sample_running ''A'' 2 1)"
  have 1: "net_reaches (sample_pair ?a ?b sample_conns)"
    using net_next [OF net_next [OF sample_meet net_stop [of _ "''A''"]] net_stop [of _ "''B''" "sample_running ''A'' 2 1"]]
    by (simp add: sample_running_def)
  have loop_a: "net_reaches (sample_pair p q c) \<Longrightarrow> pr_cancelled p \<Longrightarrow> 0 < pr_loops p \<Longrightarrow>
      net_reaches (sample_pair (p\<lparr>pr_loops := pr_loops p - 1\<rparr>) q c)" for p q c
    using net_next [OF _ net_loop_ends [of _ "''A''" p]] by fastforce
  have loop_b: "net_reaches (sample_pair p q c) \<Longrightarrow> pr_cancelled q \<Longrightarrow> 0 < pr_loops q \<Longrightarrow>
      net_reaches (sample_pair p (q\<lparr>pr_loops := pr_loops q - 1\<rparr>) c)" for p q c
    using net_next [OF _ net_loop_ends [of _ "''B''" q]] by fastforce
  from loop_b [OF loop_b [OF loop_a [OF loop_a [OF 1]]]] show ?thesis
    unfolding sample_net_def by (simp add: sample_stopped_def sample_running_def run_stop_def)
qed

theorem shutdown_deadlock_witness:
  "let a = sample_stopped ''B'' 1 2;
       w = put_proc ''A'' (a\<lparr>pr_server := fst (accept_turn (AcceptFailed True True) (pr_server a))\<rparr>) sample_net
   in (\<exists>p. proc w ''A'' = Some p \<and> node_wait p = None) \<and> (\<exists>q. proc w ''B'' = Some q \<and> node_wait q = None)"
proof -
  let ?a = "sample_stopped ''B'' 1 2"
  have l: "locked sample_net {''A'', ''B''}"
    by (auto simp: locked_def held_up_def stopping_def idle_def served_def pooled_def sample_net_def sample_stopped_def
        sample_running_def sample_server_def)
  have "proc sample_net ''A'' = Some ?a" by (simp add: sample_net_def)
  from net_accept_ends [OF this]
  have "net_step (AcceptEnds ''A'') sample_net
      (put_proc ''A'' (?a\<lparr>pr_server := fst (accept_turn (AcceptFailed True True) (pr_server ?a))\<rparr>) sample_net)"
    by (simp add: sample_stopped_def sample_running_def sample_server_def)
  from shutdown_deadlock [OF sample_net_reached l run_more [OF run_none this]] show ?thesis unfolding Let_def by auto
qed

end
