(* ===== verification/Net_Exit.thy ===== *)
theory Net_Exit
  imports Net_Shutdown
begin

text \<open>
  A process that stops while the others run on. Unlike processes that stop together
  (\<open>shutdown_deadlock\<close>), it always gets to its exit: not only is there a way out, every run takes it
  in which what the process waits for happens once it can.
\<close>

section \<open>Runs without end\<close>

text \<open>A run is a sequence of networks and of what happens between them; nothing may happen, too.\<close>

fun moves :: "net_event option \<Rightarrow> net \<Rightarrow> net \<Rightarrow> bool" where
  "moves None w w' = (w' = w)"
| "moves (Some e) w w' = net_step e w w'"

definition is_run :: "(nat \<Rightarrow> net) \<Rightarrow> (nat \<Rightarrow> net_event option) \<Rightarrow> bool" where
  "is_run run ev \<longleftrightarrow> net_reaches (run 0) \<and> (\<forall>i. moves (ev i) (run i) (run (Suc i)))"

definition enabled :: "net_event \<Rightarrow> net \<Rightarrow> bool" where
  "enabled e w \<longleftrightarrow> (\<exists>w'. net_step e w w')"

text \<open>Weak fairness: an event that stays possible from some point on happens.\<close>

definition fair :: "(nat \<Rightarrow> net) \<Rightarrow> (nat \<Rightarrow> net_event option) \<Rightarrow> net_event \<Rightarrow> bool" where
  "fair run ev e \<longleftrightarrow> (\<forall>i. (\<forall>j \<ge> i. enabled e (run j)) \<longrightarrow> (\<exists>j \<ge> i. ev j = Some e))"

text \<open>
  What the shutdown of one process waits for: its console, its loops and its listener end, it reads
  what arrives on the connections it serves, and it exits.
\<close>

definition shutdown_events :: "string \<Rightarrow> net_event set" where
  "shutdown_events u =
     {ConsoleEnds u, LoopEnds u, AcceptEnds u, Exits u} \<union> range (ReadsLine u) \<union> range (SeesEnd u)"

lemma run_reached: "is_run run ev \<Longrightarrow> net_reaches (run i)"
proof (induction i)
  case (Suc i)
  then have "net_reaches (run i)" "moves (ev i) (run i) (run (Suc i))" by (simp_all add: is_run_def)
  then show ?case using net_next by (cases "ev i") auto
qed (simp add: is_run_def)

text \<open>The rule behind all that follows: what only waits for one event happens.\<close>

lemma fair_leads:
  assumes "fair run ev e"
    and "\<And>j. i \<le> j \<Longrightarrow> \<not> Q j \<Longrightarrow> enabled e (run j)"
    and "\<And>j. i \<le> j \<Longrightarrow> \<not> Q j \<Longrightarrow> ev j = Some e \<Longrightarrow> Q (Suc j)"
  shows "\<exists>j \<ge> i. Q j"
proof (rule ccontr)
  assume "\<not> ?thesis"
  then have n: "\<not> Q j" if "i \<le> j" for j using that by blast
  with assms(2) have "\<forall>j \<ge> i. enabled e (run j)" by blast
  with assms(1) obtain j where "i \<le> j" "ev j = Some e" by (auto simp: fair_def)
  with assms(3) n have "Q (Suc j)" by blast
  with n \<open>i \<le> j\<close> show False by simp
qed

text \<open>What goes on for ever: a fact that no step undoes.\<close>

lemma run_keeps:
  assumes "is_run run ev" and "P (run i)" and "\<And>j e. net_step e (run j) (run (Suc j)) \<Longrightarrow> P (run j) \<Longrightarrow> P (run (Suc j))"
    and "i \<le> j"
  shows "P (run j)"
  using assms(4)
proof (induction j rule: dec_induct)
  case (step j)
  have "moves (ev j) (run j) (run (Suc j))" using assms(1) by (simp add: is_run_def)
  with step assms(3) show ?case by (cases "ev j") auto
qed (rule assms(2))

section \<open>What a step can change\<close>

text \<open>One process only gets further: nothing of its shutdown is undone.\<close>

definition further :: "process \<Rightarrow> process \<Rightarrow> bool" where
  "further p p' \<longleftrightarrow> (pr_cancelled p \<longrightarrow> pr_cancelled p') \<and> (pr_console p' \<longrightarrow> pr_console p) \<and> pr_loops p' \<le> pr_loops p \<and>
     (pr_exited p \<longrightarrow> pr_exited p') \<and>
     (\<not> sv_accepting (pr_server p) \<longrightarrow> \<not> sv_accepting (pr_server p') \<and>
        set (sv_open (pr_server p')) \<subseteq> set (sv_open (pr_server p)))"

lemma further_refl [simp]: "further p p"
  by (simp add: further_def)

lemma further_trans: "further p q \<Longrightarrow> further q r \<Longrightarrow> further p r"
  by (auto simp: further_def)

lemma further_end: "further p (serve_end c p)"
  using set_remove1_subset [of c] by (auto simp: further_def)

lemma step_further: "net_step e w w' \<Longrightarrow> proc w u = Some p \<Longrightarrow> \<exists>p'. proc w' u = Some p' \<and> further p p'"
proof (induction rule: net_step.induct)
  case (net_dial w v q c addr reconnect cl ops x r)
  then show ?case by (auto simp: further_def accept_turn_def split: if_splits)
next
  case (net_line w v q c x r)
  then show ?case using further_end by (auto simp: serve_next_def)
next
  case (net_eof w v q c x)
  then show ?case using further_end by auto
next
  case (net_exit w v q q')
  then show ?case using run_exit_fields [OF net_exit(5)] by (auto simp: further_def)
qed (auto simp: further_def signalled_def killed_def run_stop_def accept_turn_def)

text \<open>A connection keeps its two ends, and the dialler that has let go of it does not get it back.\<close>

lemma step_conns: "net_step e w w' \<Longrightarrow> mget (nt_conns w) c = Some vu \<Longrightarrow> mget (nt_conns w') c = Some vu"
  by (induction rule: net_step.induct) (auto simp: map_of_eq_None_iff [symmetric] simp del: map_of_eq_None_iff)

definition let_go :: "nat \<Rightarrow> string \<Rightarrow> net \<Rightarrow> bool" where
  "let_go c v w \<longleftrightarrow> \<not> (\<exists>q. proc w v = Some q \<and> pooled q c)"

lemma pool_mput: "snd ` set (mput k v m) \<subseteq> insert v (snd ` set m)"
  by (induction m) auto

lemma pool_mdel: "snd ` set (mdel k m) \<subseteq> snd ` set m"
  by (induction m) auto

lemma pooled_conn:
  assumes "client_conn addr reconnect (Some d) (pr_client p) = ((r, cl), ops)" and "pooled (p\<lparr>pr_client := cl\<rparr>) c"
  shows "c = d \<or> pooled p c"
proof -
  let ?m = "cl_conns (pr_client p)"
  have "cl_conns cl \<in> {?m, mput addr d ?m, mput addr d (mdel addr ?m)}"
    using assms(1) by (auto simp: client_conn_def client_dial_def split: option.splits if_splits)
  moreover have v: "c \<in> snd ` set (cl_conns cl)" using assms(2) by (simp add: pooled_def)
  ultimately show ?thesis
  proof (elim insertE emptyE)
    assume "cl_conns cl = ?m"
    with v show ?thesis by (simp add: pooled_def)
  next
    assume "cl_conns cl = mput addr d ?m"
    with v have "c \<in> snd ` set (mput addr d ?m)" by simp
    from subsetD [OF pool_mput this] show ?thesis unfolding pooled_def by (rule insertE) simp_all
  next
    assume "cl_conns cl = mput addr d (mdel addr ?m)"
    with v have "c \<in> snd ` set (mput addr d (mdel addr ?m))" by simp
    from subsetD [OF pool_mput this] show ?thesis
      unfolding pooled_def by (rule insertE) (simp, metis subsetD [OF pool_mdel])
  qed
qed

lemma pooled_drop: "pooled (p\<lparr>pr_client := fst (client_drop addr (pr_client p))\<rparr>) c \<Longrightarrow> pooled p c"
  using pool_mdel [of addr "cl_conns (pr_client p)"] by (auto simp: client_drop_def pooled_def split: option.splits)

lemma let_go_put: "let_go c v w \<Longrightarrow> (u = v \<Longrightarrow> \<not> pooled p c) \<Longrightarrow> let_go c v (put_proc u p w)"
  by (simp add: let_go_def)

lemma let_go_same: "let_go c v w \<Longrightarrow> proc w u = Some p \<Longrightarrow> pr_client p' = pr_client p \<Longrightarrow> let_go c v (put_proc u p' w)"
  by (rule let_go_put) (auto simp: let_go_def pooled_def)

lemma step_let_go:
  "net_step e w w' \<Longrightarrow> mget (nt_conns w) c = Some vu \<Longrightarrow> let_go c v w \<Longrightarrow> let_go c v w'"
proof (induction rule: net_step.induct)
  case (net_signal w u p)
  have "\<not> pooled (killed p) c" by (simp add: killed_def pooled_def)
  then show ?case using net_signal by (intro let_go_put) (auto simp: signalled_def let_go_def pooled_def)
next
  case (net_dial w u p d addr reconnect cl ops x q)
  have "c \<noteq> d" using net_dial(3,7) by (auto simp: map_of_eq_None_iff [symmetric] simp del: map_of_eq_None_iff)
  then have "\<not> pooled (p\<lparr>pr_client := cl\<rparr>) c" if "u = v"
    using pooled_conn [OF net_dial(4), of c] that net_dial(1,8) by (auto simp: let_go_def)
  then have "let_go c v (put_proc u (p\<lparr>pr_client := cl\<rparr>) w)" by (rule let_go_put [OF net_dial(8)])
  from let_go_same [OF this net_dial(5), of "q\<lparr>pr_server := fst (accept_turn (Conn d) (pr_server q))\<rparr>"]
  show ?case by (simp add: let_go_def)
next
  case (net_drop w u p addr)
  then show ?case using pooled_drop [of addr p c] by (intro let_go_put) (auto simp: let_go_def)
next
  case (net_line w u p d x q)
  show ?case by (rule let_go_same [OF net_line(8,5)]) (simp add: serve_next_def)
next
  case (net_eof w x q d u)
  show ?case by (rule let_go_same [OF net_eof(6,1)]) simp
next
  case (net_exit w u p p')
  have "\<not> pooled p' c" using run_exit_fields [OF net_exit(5)] by (simp add: pooled_def)
  then show ?case by (intro let_go_put [OF net_exit(7)])
qed (auto intro!: let_go_same simp: run_stop_def)

section \<open>The stages of a shutdown\<close>

text \<open>A process that never exits, in a run that is fair to its shutdown.\<close>

definition lingers :: "(nat \<Rightarrow> net) \<Rightarrow> (nat \<Rightarrow> net_event option) \<Rightarrow> string \<Rightarrow> (nat \<Rightarrow> process) \<Rightarrow> bool" where
  "lingers run ev u pu \<longleftrightarrow> is_run run ev \<and> (\<forall>e \<in> shutdown_events u. fair run ev e) \<and>
     (\<forall>i. proc (run i) u = Some (pu i) \<and> further (pu i) (pu (Suc i)) \<and> pr_cancelled (pu i) \<and> \<not> pr_exited (pu i))"

lemma lingersD:
  assumes "lingers run ev u pu"
  shows "is_run run ev" and "e \<in> shutdown_events u \<Longrightarrow> fair run ev e" and "proc (run i) u = Some (pu i)"
    and "pr_cancelled (pu i)" and "\<not> pr_exited (pu i)" and "net_inv (run i)" and "process_ok (run i) u (pu i)"
  using assms net_reaches_inv [OF run_reached] net_inv_proc [OF net_reaches_inv [OF run_reached]] by (auto simp: lingers_def)

lemma lingers_further:
  assumes "lingers run ev u pu" and "i \<le> j"
  shows "further (pu i) (pu j)"
  using assms(2)
proof (induction j rule: dec_induct)
  case (step j)
  have "further (pu j) (pu (Suc j))" using assms(1) by (simp add: lingers_def)
  with step show ?case using further_trans by blast
qed simp

text \<open>The process after one of its own events.\<close>

lemma event_effect:
  assumes "net_step e w w'" and "proc w u = Some p"
  shows "e = ConsoleEnds u \<Longrightarrow> proc w' u = Some (run_stop p)"
    and "e = LoopEnds u \<Longrightarrow> proc w' u = Some (p\<lparr>pr_loops := pr_loops p - 1\<rparr>) \<and> 0 < pr_loops p"
    and "e = AcceptEnds u \<Longrightarrow> proc w' u = Some (p\<lparr>pr_server := fst (accept_turn (AcceptFailed True True) (pr_server p))\<rparr>)"
    and "e = ReadsLine u c \<Longrightarrow> proc w' u = Some (serve_next c p)"
    and "e = SeesEnd u c \<Longrightarrow> proc w' u = Some (serve_end c p)"
  using assms by (auto elim: net_step.cases)

lemma exit_effect: "net_step (Exits u) w w' \<Longrightarrow> \<exists>p'. proc w' u = Some p' \<and> pr_exited p'"
proof (induction "Exits u" w w' rule: net_step.induct)
  case (net_exit w p p')
  then show ?case using run_exit_fields [OF net_exit(5)] by simp
qed

lemma lingers_event:
  assumes "lingers run ev u pu" and "ev j = Some e"
  shows "e = ConsoleEnds u \<Longrightarrow> \<not> pr_console (pu (Suc j))"
    and "e = LoopEnds u \<Longrightarrow> pr_loops (pu (Suc j)) < pr_loops (pu j)"
    and "e = AcceptEnds u \<Longrightarrow> \<not> sv_accepting (pr_server (pu (Suc j)))"
    and "e = ReadsLine u c \<or> e = SeesEnd u c \<Longrightarrow> pu (Suc j) = serve_end c (pu j)"
    and "e \<noteq> Exits u"
proof -
  have "moves (ev j) (run j) (run (Suc j))" using assms(1) by (simp add: lingers_def is_run_def)
  then have s: "net_step e (run j) (run (Suc j))" by (simp add: assms(2))
  note e = event_effect [OF s lingersD(3) [OF assms(1)]]
  have p: "pu (Suc j) = p'" if "proc (run (Suc j)) u = Some p'" for p' using lingersD(3) [OF assms(1), of "Suc j"] that by simp
  show "e = ConsoleEnds u \<Longrightarrow> \<not> pr_console (pu (Suc j))" using p [OF e(1)] by (simp add: run_stop_def)
  show "e = LoopEnds u \<Longrightarrow> pr_loops (pu (Suc j)) < pr_loops (pu j)" using p e(2) by fastforce
  show "e = AcceptEnds u \<Longrightarrow> \<not> sv_accepting (pr_server (pu (Suc j)))" using p [OF e(3)] by (simp add: accept_turn_def)
  show "e = ReadsLine u c \<or> e = SeesEnd u c \<Longrightarrow> pu (Suc j) = serve_end c (pu j)"
    using p [OF e(4)] p [OF e(5)] lingersD(4) [OF assms(1), of j] by (auto simp: serve_next_def)
  show "e \<noteq> Exits u" using p exit_effect s lingersD(5) [OF assms(1), of "Suc j"] by blast
qed

lemma console_gone: "lingers run ev u pu \<Longrightarrow> \<exists>j. \<not> pr_console (pu j)"
proof -
  assume l: "lingers run ev u pu"
  have "fair run ev (ConsoleEnds u)" by (rule lingersD(2) [OF l]) (simp add: shutdown_events_def)
  then have "\<exists>j \<ge> 0. \<not> pr_console (pu j)"
  proof (rule fair_leads)
    show "enabled (ConsoleEnds u) (run j)" if "\<not> \<not> pr_console (pu j)" for j
      using net_stop [OF lingersD(3) [OF l]] that by (auto simp: enabled_def)
  qed (use lingers_event(1) [OF l] in blast)
  then show ?thesis by blast
qed

lemma loops_gone: "lingers run ev u pu \<Longrightarrow> \<exists>j. pr_loops (pu j) = 0"
proof -
  assume l: "lingers run ev u pu"
  have f: "fair run ev (LoopEnds u)" by (rule lingersD(2) [OF l]) (simp add: shutdown_events_def)
  have "\<exists>j. pr_loops (pu j) = 0" if "pr_loops (pu i) = k" for i k
    using that
  proof (induction k arbitrary: i rule: less_induct)
    case (less k)
    show ?case
    proof (cases "k = 0")
      case False
      have "\<exists>j \<ge> i. pr_loops (pu j) < k"
        using f
      proof (rule fair_leads)
        fix j
        assume j: "i \<le> j" "\<not> pr_loops (pu j) < k"
        with False have "0 < pr_loops (pu j)" by simp
        from net_loop_ends [OF lingersD(3,4) [OF l] this] show "enabled (LoopEnds u) (run j)" unfolding enabled_def by blast
        have "pr_loops (pu j) \<le> k" using lingers_further [OF l j(1)] less.prems by (simp add: further_def)
        then show "ev j = Some (LoopEnds u) \<Longrightarrow> pr_loops (pu (Suc j)) < k" using lingers_event(2) [OF l] by fastforce
      qed
      with less.IH show ?thesis by blast
    qed (use less.prems in blast)
  qed
  then show ?thesis by blast
qed

lemma listener_gone: "lingers run ev u pu \<Longrightarrow> \<exists>j. \<not> sv_accepting (pr_server (pu j))"
proof -
  assume l: "lingers run ev u pu"
  have "fair run ev (AcceptEnds u)" by (rule lingersD(2) [OF l]) (simp add: shutdown_events_def)
  then have "\<exists>j \<ge> 0. \<not> sv_accepting (pr_server (pu j))"
  proof (rule fair_leads)
    show "enabled (AcceptEnds u) (run j)" if "\<not> \<not> sv_accepting (pr_server (pu j))" for j
      using net_accept_ends [OF lingersD(3,4) [OF l]] that by (auto simp: enabled_def)
  qed (use lingers_event(3) [OF l] in blast)
  then show ?thesis by blast
qed

text \<open>The others run on, and the process has not dialled itself.\<close>

definition alone :: "(nat \<Rightarrow> net) \<Rightarrow> string \<Rightarrow> bool" where
  "alone run u \<longleftrightarrow> (\<forall>i v q. v \<noteq> u \<longrightarrow> proc (run i) v = Some q \<longrightarrow> \<not> pr_cancelled q) \<and>
     (\<forall>i c. mget (nt_conns (run i)) c \<noteq> Some (u, u))"

lemma connection_gone:
  assumes l: "lingers run ev u pu" and a: "alone run u" and c: "served (pu i) c"
  shows "\<exists>j \<ge> i. \<not> served (pu j) c"
proof (rule ccontr)
  assume "\<not> ?thesis"
  then have served: "served (pu j) c" if "i \<le> j" for j using that by blast
  obtain v where v0: "mget (nt_conns (run i)) c = Some (v, u)"
    using lingersD(7) [OF l, of i] c by (auto simp: process_ok_def server_ok_def)
  have v: "mget (nt_conns (run j)) c = Some (v, u)" if "i \<le> j" for j
    using run_keeps [OF lingersD(1) [OF l], of "\<lambda>w. mget (nt_conns w) c = Some (v, u)", OF v0 _ that] step_conns by blast
  have ne: "v \<noteq> u" using a v0 by (auto simp: alone_def)
  have gone: False if "i \<le> j" "ev j = Some e" "e = ReadsLine u c \<or> e = SeesEnd u c" for j e
  proof -
    have "distinct (sv_open (pr_server (pu j)))" using lingersD(7) [OF l] by (simp add: process_ok_def server_ok_def)
    then have "\<not> served (pu (Suc j)) c" using lingers_event(4) [OF l that(2,3)] by (simp add: served_def)
    with served that(1) show False by simp
  qed
  have f: "fair run ev (ReadsLine u c)" "fair run ev (SeesEnd u c)"
    by (rule lingersD(2) [OF l], simp add: shutdown_events_def)+
  show False
  proof (cases "\<exists>k \<ge> i. let_go c v (run k)")
    case True
    then obtain k where k: "i \<le> k" "let_go c v (run k)" by blast
    have "enabled (SeesEnd u c) (run j)" if "k \<le> j" for j
    proof -
      have "let_go c v (run j) \<and> mget (nt_conns (run j)) c = Some (v, u)"
        using run_keeps [OF lingersD(1) [OF l], of "\<lambda>w. let_go c v w \<and> mget (nt_conns w) c = Some (v, u)" k j]
          k v [OF k(1)] that step_let_go step_conns by blast
      then show ?thesis
        using net_eof [OF lingersD(3) [OF l] served [OF order_trans [OF k(1) that]]] unfolding enabled_def let_go_def by blast
    qed
    with f(2) obtain j where "k \<le> j" "ev j = Some (SeesEnd u c)" unfolding fair_def by blast
    with gone [of j "SeesEnd u c"] k(1) show False by simp
  next
    case False
    have "enabled (ReadsLine u c) (run j)" if "i \<le> j" for j
    proof -
      from False that obtain q where q: "proc (run j) v = Some q" "pooled q c" by (auto simp: let_go_def)
      have "\<not> idle q"
        using a ne q(1) net_inv_flags [OF lingersD(6) [OF l] q(1)] by (auto simp: alone_def flags_ok_def idle_def)
      from net_line [OF q(1) this q(2) v [OF that] lingersD(3) [OF l] served [OF that]]
      show ?thesis unfolding enabled_def by blast
    qed
    with f(1) obtain j where "i \<le> j" "ev j = Some (ReadsLine u c)" unfolding fair_def by blast
    with gone show False by blast
  qed
qed

lemma connections_gone:
  assumes l: "lingers run ev u pu" and a: "alone run u"
  shows "\<not> sv_accepting (pr_server (pu i)) \<Longrightarrow> \<exists>j \<ge> i. sv_open (pr_server (pu j)) = []"
proof (induction "card (set (sv_open (pr_server (pu i))))" arbitrary: i rule: less_induct)
  case less
  show ?case
  proof (cases "sv_open (pr_server (pu i))")
    case (Cons c cs)
    then have c: "served (pu i) c" by (simp add: served_def)
    from connection_gone [OF l a this] obtain j where j: "i \<le> j" "\<not> served (pu j) c" by blast
    have f: "further (pu i) (pu j)" by (rule lingers_further [OF l j(1)])
    then have "set (sv_open (pr_server (pu j))) \<subset> set (sv_open (pr_server (pu i)))"
      using less.prems j(2) c by (auto simp: further_def served_def)
    then have "card (set (sv_open (pr_server (pu j)))) < card (set (sv_open (pr_server (pu i))))"
      by (rule psubset_card_mono [rotated]) simp
    from less.hyps [OF this] f less.prems j(1) show ?thesis by (meson further_def order_trans)
  qed blast
qed

lemma nobody_lingers: "lingers run ev u pu \<Longrightarrow> alone run u \<Longrightarrow> False"
proof -
  assume l: "lingers run ev u pu" and a: "alone run u"
  obtain a1 a2 a3 where s: "\<not> pr_console (pu a1)" "pr_loops (pu a2) = 0" "\<not> sv_accepting (pr_server (pu a3))"
    using console_gone [OF l] loops_gone [OF l] listener_gone [OF l] by blast
  define i where "i = max a1 (max a2 a3)"
  have i: "a1 \<le> i" "a2 \<le> i" "a3 \<le> i" by (simp_all add: i_def)
  have s: "\<not> pr_console (pu i)" "pr_loops (pu i) = 0" "\<not> sv_accepting (pr_server (pu i))"
    using s lingers_further [OF l i(1)] lingers_further [OF l i(2)] lingers_further [OF l i(3)] by (auto simp: further_def)
  from connections_gone [OF l a s(3)] obtain k where k: "i \<le> k" "sv_open (pr_server (pu k)) = []" by blast
  have "enabled (Exits u) (run j)" if "k \<le> j" for j
  proof -
    have "further (pu i) (pu j)" "further (pu k) (pu j)" using lingers_further [OF l] k(1) that by auto
    then have p: "\<not> pr_console (pu j)" "pr_loops (pu j) = 0" "\<not> sv_accepting (pr_server (pu j))" "sv_open (pr_server (pu j)) = []"
      using s k(2) lingers_further [OF l k(1)] by (auto simp: further_def)
    then have "wait_returns (pr_server (pu j))"
      using lingersD(7) [OF l, of j] by (simp add: process_ok_def server_ok_def wait_returns_def)
    then obtain p' where "run_exit (pu j) = Some p'" using p(2) by (simp add: run_exit_def node_wait_def client_close_def)
    from net_exit [OF lingersD(3,4) [OF l] p(1) lingersD(5) [OF l] this] show ?thesis unfolding enabled_def by blast
  qed
  moreover have "fair run ev (Exits u)" by (rule lingersD(2) [OF l]) (simp add: shutdown_events_def)
  ultimately obtain j where "ev j = Some (Exits u)" unfolding fair_def by blast
  with lingers_event(5) [OF l] show False by blast
qed


section \<open>Property\<close>

text \<open>
  C32: a process that stops alone always gets away. In every run of the network in which the other
  processes are never cancelled, the process has dialled no connection to itself, and the events
  its shutdown waits for are treated fairly (each that stays possible happens: its console, its
  loops and its listener end, the next line or the end of a connection it serves is read, and it
  exits; a running node sends a hello on its connections at every interval, so lines keep
  coming), a cancelled process does exit, and from then on holds none of its connections open,
  whatever else the others do meanwhile, dialling it and dropping connections included.
\<close>

theorem stops_alone:
  assumes "is_run run ev" and "\<forall>e \<in> shutdown_events u. fair run ev e" and "alone run u"
    and "proc (run 0) u = Some p" and "pr_cancelled p"
  shows "\<exists>k. \<forall>j \<ge> k. \<exists>q. proc (run j) u = Some q \<and> pr_exited q \<and> cl_conns (pr_client q) = []"
proof -
  define pu where "pu j = the (proc (run j) u)" for j
  have kept: "proc (run j) u = Some (pu j) \<and> pr_cancelled (pu j)" for j
  proof -
    have "\<exists>q. proc (run j) u = Some q \<and> pr_cancelled q"
      using run_keeps [OF assms(1), of "\<lambda>w. \<exists>q. proc w u = Some q \<and> pr_cancelled q" 0 j] assms(4,5) step_further
      by (force simp: further_def)
    then show ?thesis by (auto simp: pu_def)
  qed
  have next': "further (pu j) (pu (Suc j))" for j
  proof -
    have "moves (ev j) (run j) (run (Suc j))" using assms(1) by (simp add: is_run_def)
    with step_further kept [of j] kept [of "Suc j"] show ?thesis by (cases "ev j") (fastforce simp: pu_def)+
  qed
  have "\<exists>k. pr_exited (pu k)"
  proof (rule ccontr)
    assume "\<not> ?thesis"
    with assms(1,2) kept next' have "lingers run ev u pu" by (simp add: lingers_def)
    from nobody_lingers [OF this assms(3)] show False .
  qed
  then obtain k where k: "pr_exited (pu k)" ..
  have "\<exists>q. proc (run j) u = Some q \<and> pr_exited q" if "k \<le> j" for j
    using run_keeps [OF assms(1), of "\<lambda>w. \<exists>q. proc w u = Some q \<and> pr_exited q", OF _ _ that] k kept [of k] step_further
    by (force simp: further_def)
  then show ?thesis
    using net_inv_flags [OF net_reaches_inv [OF run_reached [OF assms(1)]]] unfolding flags_ok_def by metis
qed

text \<open>An exited process takes no part in anything any more.\<close>

lemma exited_still: "proc w u = Some p \<Longrightarrow> flags_ok p \<Longrightarrow> pr_exited p \<Longrightarrow> e \<in> shutdown_events u \<Longrightarrow> \<not> enabled e w"
  by (auto simp: enabled_def shutdown_events_def flags_ok_def served_def elim!: net_step.cases)

text \<open>The witness: of two nodes, each of which has dialled the other, one is asked to quit.\<close>

definition quitting :: "process list" where
  "quitting =
     (let p = run_stop (sample_running ''B'' 1 2); q = p\<lparr>pr_loops := 0\<rparr>;
          r = q\<lparr>pr_server := fst (accept_turn (AcceptFailed True True) (pr_server q))\<rparr>; s = serve_end 2 r
      in [p, p\<lparr>pr_loops := 1\<rparr>, q, r, s, s\<lparr>pr_client := \<lparr>cl_conns = []\<rparr>, pr_exited := True\<rparr>])"

definition sample_run :: "nat \<Rightarrow> net" where
  "sample_run i = sample_pair (quitting ! min i 5) (sample_running ''A'' 2 1) sample_conns"

definition sample_events :: "nat \<Rightarrow> net_event option" where
  "sample_events i =
     (if i < 5 then Some ([LoopEnds ''A'', LoopEnds ''A'', AcceptEnds ''A'', ReadsLine ''A'' 2, Exits ''A''] ! i) else None)"

lemma sample_moves: "moves (sample_events i) (sample_run i) (sample_run (Suc i))"
proof -
  let ?w = "\<lambda>p. sample_pair p (sample_running ''A'' 2 1) sample_conns"
  let ?s = "\<lambda>e p p'. net_step e (?w p) (?w p')"
  note d = quitting_def Let_def run_stop_def sample_running_def sample_server_def
  have 0: "?s (LoopEnds ''A'') (quitting ! 0) (quitting ! 1)"
    using net_loop_ends [of "?w (quitting ! 0)" "''A''" "quitting ! 0"] by (simp add: d)
  have 1: "?s (LoopEnds ''A'') (quitting ! 1) (quitting ! 2)"
    using net_loop_ends [of "?w (quitting ! 1)" "''A''" "quitting ! 1"] by (simp add: d)
  have 2: "?s (AcceptEnds ''A'') (quitting ! 2) (quitting ! 3)"
    using net_accept_ends [of "?w (quitting ! 2)" "''A''" "quitting ! 2"] by (simp add: d)
  have 3: "?s (ReadsLine ''A'' 2) (quitting ! 3) (quitting ! 4)"
    using net_line [of "?w (quitting ! 3)" "''B''" "sample_running ''A'' 2 1" 2 "''A''" "quitting ! 3"]
    by (simp add: d idle_def pooled_def served_def serve_next_def accept_turn_def)
  have 4: "?s (Exits ''A'') (quitting ! 4) (quitting ! 5)"
    using net_exit [of "?w (quitting ! 4)" "''A''" "quitting ! 4" "quitting ! 5"]
    by (simp add: d run_exit_def node_wait_def wait_returns_def client_close_def serve_end_def conn_done_def accept_turn_def)
  have "i \<in> {0, 1, 2, 3, 4} \<or> 5 \<le> i" by auto
  then show ?thesis
    using 0 1 2 3 4 by (auto simp: sample_events_def sample_run_def numeral_eq_Suc)
qed

theorem stops_alone_witness:
  "\<exists>k. \<forall>j. \<exists>q. proc (sample_run (k + j)) ''A'' = Some q \<and> pr_exited q \<and> cl_conns (pr_client q) = []"
proof -
  have start: "sample_run 0 = sample_pair (run_stop (sample_running ''B'' 1 2)) (sample_running ''A'' 2 1) sample_conns"
    by (simp add: sample_run_def quitting_def Let_def)
  have r: "is_run sample_run sample_events"
    using net_next [OF sample_meet net_stop [of _ "''A''"]] sample_moves by (simp add: is_run_def start sample_running_def)
  have last: "proc (sample_run j) ''A'' = Some (quitting ! 5)" "pr_exited (quitting ! 5)" if "5 \<le> j" for j
    using that by (simp_all add: sample_run_def) (simp add: quitting_def Let_def)
  have "\<not> enabled e (sample_run j)" if "e \<in> shutdown_events ''A''" "5 \<le> j" for e j
    using exited_still [OF last(1) [OF that(2)] _ last(2) [OF that(2)] that(1)]
      net_inv_flags [OF net_reaches_inv [OF run_reached [OF r]] last(1) [OF that(2)]] by blast
  then have f: "\<forall>e \<in> shutdown_events ''A''. fair sample_run sample_events e"
    unfolding fair_def by (meson le_cases order_trans)
  have a: "alone sample_run ''A''"
    by (auto simp: alone_def sample_run_def sample_pair_def sample_running_def split: if_splits)
  have p: "proc (sample_run 0) ''A'' = Some (run_stop (sample_running ''B'' 1 2))" by (simp add: start)
  have "pr_cancelled (run_stop (sample_running ''B'' 1 2))" by (simp add: run_stop_def)
  from stops_alone [OF r f a p this] show ?thesis by (meson le_add1)
qed

end
