(* ===== verification/Node_Race.thy ===== *)
theory Node_Race
  imports Node_Links
begin

text \<open>
  internal/node/discovery.go, between the locks. \<open>reapDead\<close> marks the silent neighbours under
  the node's lock and tells the algorithm after releasing it, so the forwarding loop may handle
  a hello in between. This theory splits the operation at that point; everywhere else a call of
  the discovery plane is one step.
\<close>

text \<open>What the algorithm has recorded about a neighbour it was told is down.\<close>

fun told_down :: "string \<Rightarrow> any_alg \<Rightarrow> bool" where
  "told_down pid (IsDijkstra s) = is_down (da_down s) pid"
| "told_down pid (IsFlooding s) = (mget (fl_costs s) pid = None)"
| "told_down pid (IsLsr s) = (mget (ls_links s) pid = None)"

lemma told_down_down: "told_down pid (fst (alg_link_down fab now rid d a)) \<longleftrightarrow> pid = d \<or> told_down pid a"
  by (cases a) (auto simp: dijkstra_ops_def flooding_ops_def lsr_ops_def dj_link_down_def dj_recompute_def
      flooding_link_down_def fst_link_down mhas_def Let_def)

lemma told_down_up: "told_down pid (fst (alg_link_up fab now rid d c a)) \<longleftrightarrow> pid \<noteq> d \<and> told_down pid a"
  by (cases a) (auto simp: dijkstra_ops_def flooding_ops_def lsr_ops_def dj_link_up_def dj_recompute_def
      flooding_link_up_def fst_link_up Let_def)

lemma told_down_notify:
  "told_down pid (nd_alg (fst (reap_notify now ids dead n))) \<longleftrightarrow> pid \<in> set dead \<or> told_down pid (nd_alg n)"
  by (induction dead arbitrary: n) (auto simp: told_down_down)

lemma notify_keeps:
  "nd_neighbors (fst (reap_notify now ids dead n)) = nd_neighbors n" "nd_id (fst (reap_notify now ids dead n)) = nd_id n"
  by (induction dead arbitrary: n) simp_all

lemma alive_neighbors:
  assumes "pid \<noteq> []" and "pid \<noteq> nd_id n" and "mget (nd_neighbors n) pid = Some st"
  shows "nd_neighbors (fst (mark_alive now rid pid n)) = mput pid (st\<lparr>nb_alive := True, nb_last := now\<rparr>) (nd_neighbors n)"
    and "nd_alg (fst (mark_alive now rid pid n)) =
      (if nb_alive st then nd_alg n
       else fst (alg_link_up (fabric_of (n\<lparr>nd_neighbors := mput pid (st\<lparr>nb_alive := True, nb_last := now\<rparr>) (nd_neighbors n)\<rparr>))
                   now rid pid (nb_cost st) (nd_alg n)))"
    and "nd_id (fst (mark_alive now rid pid n)) = nd_id n"
  using assms by (simp_all add: mark_alive_def Let_def)

text \<open>
  C28: a hello between the two halves of \<open>reapDead\<close> leaves the planes apart. If a neighbour is
  marked dead and its hello is handled before the algorithm is told, discovery holds it up while
  the algorithm holds it down; no later hello repairs this, in whatever mode; the next echo does.
  Had the hello come after the whole of \<open>reapDead\<close>, the algorithm would have been told last that
  the neighbour is up.
\<close>

theorem reap_race:
  fixes ids :: "string \<Rightarrow> string" and arrival later now :: gotime and rid rid_b :: string
  assumes "node_reaches n" and "reap_mark now n = (ds @ es, m)" and "pid \<in> set es"
  defines "hello \<equiv> \<lambda>t rid. fst \<circ> mark_alive t rid pid" and "notify \<equiv> \<lambda>dead. fst \<circ> reap_notify now ids dead"
  defines "raced \<equiv> notify es (hello arrival rid (notify ds m))" and "whole \<equiv> hello arrival rid (notify es (notify ds m))"
  shows "live_cost raced pid \<noteq> None \<and> told_down pid (nd_alg raced) \<and> told_down pid (nd_alg (hello later rid_b raced)) \<and>
    \<not> told_down pid (nd_alg (fst (mark_alive_with_cost later rid_b pid c raced))) \<and>
    live_cost whole pid = live_cost raced pid \<and> \<not> told_down pid (nd_alg whole)"
proof -
  note i = node_reaches_inv [OF assms(1)]
  have wf: "wf_map (nd_neighbors n)" and ok: "neighbors_ok n" using i by (simp_all add: node_inv_def neighbors_ok_def)
  from assms(2,3) have "pid \<in> set (fst (reap_mark now n))" by simp
  then obtain st0 where st0: "mget (nd_neighbors n) pid = Some st0" "overdue now st0"
    by (force simp: reap_mark_def mget_iff [OF wf])
  define st where "st = st0\<lparr>nb_alive := False\<rparr>"
  have m: "mget (nd_neighbors m) pid = Some st" using mget_mark [of now n pid] assms(2) st0 by (simp add: st_def)
  have "nb_alive st0" using st0(2) by (simp add: overdue_def)
  then have "live_cost n pid \<noteq> None" by (simp add: live_cost_def st0(1))
  then have ne: "pid \<noteq> []" "pid \<noteq> nd_id n" using planes_agree_nan [OF assms(1)] by blast+
  have self: "nd_id m = nd_id n" using assms(2) by (auto simp: reap_mark_def)
  have keep: "nd_neighbors (notify d k) = nd_neighbors k" "nd_id (notify d k) = nd_id k" for d k
    by (simp_all add: notify_def notify_keeps)
  have hello: "nd_neighbors (hello t rid k) = mput pid (s\<lparr>nb_alive := True, nb_last := t\<rparr>) (nd_neighbors k)"
    "nd_id (hello t rid k) = nd_id n" if "nd_id k = nd_id n" "mget (nd_neighbors k) pid = Some s" for t rid k s
    using alive_neighbors(1,3) [of pid k s] that ne by (simp_all add: hello_def)
  have quiet: "nd_alg (hello t rid k) = nd_alg k"
    if "nd_id k = nd_id n" "mget (nd_neighbors k) pid = Some s" "nb_alive s" for t rid k s
    using alive_neighbors(2) [of pid k s] that ne by (simp add: hello_def)
  have up: "\<not> told_down pid (nd_alg (hello t rid k))"
    if "nd_id k = nd_id n" "mget (nd_neighbors k) pid = Some s" "\<not> nb_alive s" for t rid k s
    using alive_neighbors(2) [of pid k s] that ne by (simp add: hello_def told_down_up)
  have r: "nd_id raced = nd_id n" "mget (nd_neighbors raced) pid = Some (st\<lparr>nb_alive := True, nb_last := arrival\<rparr>)"
    using hello [of "notify ds m" st arrival rid] m self by (simp_all add: raced_def keep)
  have w: "mget (nd_neighbors whole) pid = Some (st\<lparr>nb_alive := True, nb_last := arrival\<rparr>)"
    using hello [of "notify es (notify ds m)" st arrival rid] m self by (simp add: whole_def keep)
  have down: "told_down pid (nd_alg raced)"
    using assms(3) by (simp add: raced_def notify_def told_down_notify)
  moreover have "told_down pid (nd_alg (hello later rid_b raced))" using down quiet [OF r] by simp
  moreover have "\<not> told_down pid (nd_alg (fst (mark_alive_with_cost later rid_b pid c raced)))"
    using ne r(1) by (simp add: mark_alive_with_cost_def Let_def told_down_up)
  moreover have "\<not> told_down pid (nd_alg whole)"
    unfolding whole_def by (rule up [where s = st]) (use m self in \<open>simp_all add: keep st_def\<close>)
  ultimately show ?thesis using r(2) w by (simp add: live_cost_def)
qed

theorem reap_race_witness:
  "let n = struck; now = 15 * second; r = reap_mark now n;
       raced = fst (reap_notify now (\<lambda>_. ''0f'') (fst r) (fst (mark_alive now ''0e'' ''B'' (snd r))))
   in live_cost raced ''B'' \<noteq> None \<and> told_down ''B'' (nd_alg raced)"
proof -
  let ?p = "received absurd_echo" and ?n = "sample_node (IsLsr new_lsr) ''lsr''"
  have b: "''B'' = node_local_id ?n (p_from ?p)" "''B'' \<noteq> []" "''B'' \<noteq> nd_id ?n"
    using absurd_arrives sample_names_b [of "IsLsr new_lsr" "''lsr''"] by force (simp_all add: sample_node_def)
  obtain c where c: "mget (nd_neighbors struck) ''B'' = Some \<lparr>nb_alive = True, nb_cost = c, nb_last = 0\<rparr>"
    using echo_state [OF b, of 0 "''0d''"] unfolding struck_def by blast
  have wf: "wf_map (nd_neighbors struck)"
    using node_reaches_inv [OF struck_facts(1)] by (simp add: node_inv_def neighbors_ok_def)
  have "overdue (15 * second) \<lparr>nb_alive = True, nb_cost = c, nb_last = 0\<rparr>"
    by (simp add: overdue_def dead_after_def second_def time_sub_gt)
  then have d: "''B'' \<in> set (fst (reap_mark (15 * second) struck))"
    using c by (force simp: reap_mark_def mget_iff [OF wf])
  have r: "reap_mark (15 * second) struck = ([] @ fst (reap_mark (15 * second) struck), snd (reap_mark (15 * second) struck))"
    by simp
  show ?thesis
    using reap_race [OF struck_facts(1) r d, where arrival = "15 * second" and ids = "\<lambda>_. ''0f''" and rid = "''0e''"] by (simp add: Let_def)
qed

end
