(* ===== verification/Node_Runs.thy ===== *)
theory Node_Runs
  imports Node_Race Lsr_Behaviour
begin

text \<open>
  Two things that hold along every run of one node: the discovery plane and the routing algorithm
  agree on which links are up, in every mode; and a cost that has become infinite stays so for
  as long as the link is up.
\<close>

section \<open>Neighbours that have been heard\<close>


text \<open>The static mode computes over the topology it was given, which holds no NaN.\<close>

fun base_ok :: "any_alg \<Rightarrow> bool" where
  "base_ok (IsDijkstra s) = nan_free (da_base s)"
| "base_ok (IsFlooding s) = True"
| "base_ok (IsLsr s) = True"


lemma base_ok_ops [simp]:
  "base_ok (fst (alg_link_up fab now rid d c a)) = base_ok a"
  "base_ok (fst (alg_link_down fab now rid d a)) = base_ok a"
  "base_ok (fst (alg_handle_info fab now rid p a)) = base_ok a"
  "base_ok (fst (alg_refresh fab now rid a)) = base_ok a"
  "base_ok (fst (alg_sweep fab now a)) = base_ok a"
  by (cases a; simp add: dijkstra_ops_def dj_link_up_def dj_link_down_def dj_recompute_def dj_handle_info_def Let_def)+

lemma told_down_other [simp]:
  "told_down pid (fst (alg_handle_info fab now rid p a)) = told_down pid a"
  "told_down pid (fst (alg_refresh fab now rid a)) = told_down pid a"
  "told_down pid (fst (alg_sweep fab now a)) = told_down pid a"
  by (cases a; simp add: dijkstra_ops_def dj_handle_info_def flooding_ops_def flooding_handle_info_def
      lsr_ops_def info_links lsr_refresh_def sweep_links)+

lemma base_ok_notify [simp]: "base_ok (nd_alg (fst (reap_notify now ids dead n))) = base_ok (nd_alg n)"
  by (induction dead arbitrary: n) simp_all









lemma warn_neighbors: "nd_neighbors (fst (warn_silent_neighbors now started n)) = nd_neighbors n \<and>
    nd_alg (fst (warn_silent_neighbors now started n)) = nd_alg n"
  by (simp add: warn_silent_neighbors_def)







section \<open>Properties\<close>





text \<open>An echo in an empty inbox, received and handled.\<close>

lemma echo_turn:
  assumes "node_reaches n" and "nd_inbox n = []" and "decode data = Some p" and "p_type p = type_echo"
  shows "node_reaches (fst (handle_echo now rid p n))"
    and "node_step (n\<lparr>nd_inbox := [p]\<rparr>) (snd (handle now rid rid' p n)) (fst (handle_echo now rid p n))"
proof -
  have "receive p n = (n\<lparr>nd_inbox := [p]\<rparr>, [])" using assms(2) by (simp add: receive_def inbox_size_def)
  then have r: "node_reaches (n\<lparr>nd_inbox := [p]\<rparr>)" by (rule node_next [OF assms(1) step_receive [OF assms(3)]])
  have ne: "type_echo \<noteq> type_hello" by code_simp
  have e: "n\<lparr>nd_inbox := []\<rparr> = n" using assms(2) by simp
  then have "forwarding_turn now rid rid' (n\<lparr>nd_inbox := [p]\<rparr>) = Some (fst (handle_echo now rid p n), snd (handle now rid rid' p n))" for rid'
    using ne by (simp add: forwarding_turn_def prod_eq_iff) (simp add: handle_def assms(4))
  from step_forward [OF this] show s: "node_step (n\<lparr>nd_inbox := [p]\<rparr>) (snd (handle now rid rid' p n)) (fst (handle_echo now rid p n))" for rid' .
  show "node_reaches (fst (handle_echo now rid p n))" by (rule node_next [OF r s])
qed



section \<open>A cost without bound\<close>

text \<open>The bound the argument uses, and its multiples.\<close>

definition huge :: rat where
  "huge = 2 powi 1015"

lemma huge_powers: "(2::rat) powi 1020 = huge * 32" "(2::rat) powi 1024 = huge * 512" "1 \<le> huge"
proof -
  show "(2::rat) powi 1020 = huge * 32" using power_int_add [of "2::rat" 1015 5] by (simp add: huge_def)
  show "(2::rat) powi 1024 = huge * 512" using power_int_add [of "2::rat" 1015 9] by (simp add: huge_def)
  have "(2::rat) powi 0 < 2 powi 1015" by (simp only: powi_less_iff)
  then show "1 \<le> huge" by (simp add: huge_def)
qed

lemma f64_huge: "is_finite (f64 huge)" "fval (f64 huge) = huge"
proof -
  have "ieee_round huge = Fin huge" using ieee_round_powi [of 1015] by (simp add: huge_def)
  then show "is_finite (f64 huge)" "fval (f64 huge) = huge" unfolding is_finite_def by (transfer, simp)+
qed

lemma f64_overflow: "huge * 512 \<le> q \<Longrightarrow> f64 q = fposinf"
proof -
  assume "huge * 512 \<le> q"
  then have "ieee_round q = PosInf" unfolding huge_powers(2) [symmetric] by (rule ieee_round_overflow) simp
  then show ?thesis by transfer
qed

lemma finite_above: "is_finite x \<Longrightarrow> \<not> x \<le> fneginf"
  unfolding is_finite_def
proof (transfer, elim conjE)
  fix x
  assume "x \<noteq> NaN" "x \<noteq> PosInf" "x \<noteq> NegInf"
  then show "\<not> ieee_le x NegInf" by (cases x) simp_all
qed

lemma huge_cases: "huge \<le> q \<Longrightarrow> f64 q = fposinf \<or> is_finite (f64 q) \<and> huge \<le> fval (f64 q)"
proof -
  assume "huge \<le> q"
  then have le: "f64 huge \<le> f64 q" by (rule f64_mono)
  have "f64 q \<noteq> fneginf" using le finite_above [OF f64_huge(1)] by auto
  then show ?thesis
    using le f64_huge fless_fval [of "f64 q" "f64 huge"] by (auto simp: is_finite_def fless_iff not_less)
qed

lemma times_thousand: "huge \<le> q \<Longrightarrow> fmul (f64 q) (f64 1000) = fposinf"
proof -
  assume "huge \<le> q"
  then consider "f64 q = fposinf" | "is_finite (f64 q)" "huge \<le> fval (f64 q)" using huge_cases by blast
  then show ?thesis
  proof cases
    case 1
    then show ?thesis by (simp add: fmul_posinf scales)
  next
    case 2
    have k: "is_finite (f64 1000)" "fval (f64 1000) = 1000" using fval_small [of 1000] by simp_all
    have "huge * 512 \<le> fval (f64 q) * 1000" using 2(2) huge_powers(3) by linarith
    from f64_overflow [OF this] show ?thesis using fmul_f64 [OF 2(1) k(1)] k(2) by simp
  qed
qed

lemma f_low_val: "fval f_low = - (huge * 32)"
  unfolding huge_powers(1) [symmetric] by transfer (simp add: low_exp_def)

text \<open>A timestamp \<open>2 ^ 1020\<close> seconds in the past, read at an instant between 1970 and 2043, overflows.\<close>

lemma absurd_measured:
  assumes "header_float p header_t0 = Some t0" and "is_finite t0" and "t0 \<le> f_low" and "0 \<le> now" "now \<le> 2 ^ 61"
  shows "measured_cost now p = fposinf"
proof -
  let ?x = "now_seconds now"
  have n: "is_finite ?x" "\<bar>fval ?x - of_int now / 1000000000\<bar> \<le> 3 / 4000000" using clock_error assms(4,5) by blast+
  have "(0::rat) \<le> of_int now / 1000000000" using assms(4) by simp
  then have "- 1 \<le> fval ?x" using n(2) by linarith
  moreover have "fval t0 \<le> - (huge * 32)"
    using assms(2,3) f_low_finite fless_fval [of f_low t0] finite_not_nan [of t0] finite_not_nan [of f_low]
    by (auto simp: fless_iff f_low_val not_less)
  ultimately have d: "huge \<le> fval ?x - fval t0" using huge_powers(3) by linarith
  have "fmul (fsub ?x t0) (f64 1000) = fposinf"
    using times_thousand [OF d] fsub_f64 [OF n(1) assms(2)] by simp
  moreover have "fdiv fposinf (f64 2) = fposinf" "\<not> fless fposinf min_cost" by code_simp+
  ultimately show ?thesis by (simp add: measured_cost_def assms(1))
qed

section \<open>As long as the link is up\<close>

text \<open>Steps of the node that leave one neighbour alive.\<close>

definition keeps_up :: "string \<Rightarrow> node \<Rightarrow> node \<Rightarrow> bool" where
  "keeps_up pid n n' \<longleftrightarrow> (\<exists>out. node_step n out n') \<and> live_cost n' pid \<noteq> None"

lemma infinite_smoothed:
  assumes "inbound_ok p" and "nb_cost st \<noteq> fnan"
    and "measured_cost now p = fposinf \<or> nb_alive st \<and> nb_cost st = fposinf"
  shows "smoothed st (measured_cost now p) = fposinf"
proof -
  note m = measured_cost_bounds(2) [OF assms(1), of now]
  have pos: "fless f0 fposinf" by code_simp
  show ?thesis
  proof (cases "nb_alive st \<and> nb_cost st = fposinf")
    case True
    then show ?thesis using m scales pos by (simp add: smoothed_def fmul_posinf fadd_posinf cost_ok_fmul)
  next
    case False
    with assms(3) have i: "measured_cost now p = fposinf" by blast
    have "fadd (fmul (nb_cost st) (fsub (f64 1) cost_smoothing)) fposinf = fposinf" if "fless f0 (nb_cost st)"
    proof -
      have "cost_ok (nb_cost st)" using that assms(2) by (simp add: cost_ok_def fless_def)
      then show ?thesis using scales by (subst fadd_comm) (simp add: fadd_posinf cost_ok_fmul)
    qed
    then show ?thesis using scales by (simp add: smoothed_def i fmul_posinf)
  qed
qed


definition lsr_mode :: "any_alg \<Rightarrow> bool" where
  "lsr_mode a \<longleftrightarrow> (\<exists>s. a = IsLsr s)"

lemma lsr_mode_ops [simp]:
  "lsr_mode (fst (alg_link_up fab now rid d c a)) = lsr_mode a" "lsr_mode (fst (alg_link_down fab now rid d a)) = lsr_mode a"
  "lsr_mode (fst (alg_handle_info fab now rid p a)) = lsr_mode a" "lsr_mode (fst (alg_refresh fab now rid a)) = lsr_mode a"
  "lsr_mode (fst (alg_sweep fab now a)) = lsr_mode a"
  by (cases a; simp add: lsr_mode_def)+

lemma lsr_mode_notify [simp]: "lsr_mode (nd_alg (fst (reap_notify now ids dead n))) = lsr_mode (nd_alg n)"
  by (induction dead arbitrary: n) simp_all

text \<open>A link-state node with a link at an infinite cost.\<close>

definition spoilt :: "string \<Rightarrow> node \<Rightarrow> bool" where
  "spoilt pid n \<longleftrightarrow> lsr_mode (nd_alg n) \<and> live_cost n pid = Some fposinf"

lemma spoilt_cong: "spoilt pid n \<Longrightarrow> nd_neighbors m = nd_neighbors n \<Longrightarrow> lsr_mode (nd_alg m) = lsr_mode (nd_alg n) \<Longrightarrow> spoilt pid m"
  using live_cost_cong [of m n] by (simp add: spoilt_def)

lemma spoilt_entry: "spoilt pid n \<Longrightarrow> \<exists>st. mget (nd_neighbors n) pid = Some st \<and> nb_alive st \<and> nb_cost st = fposinf"
  by (auto simp: spoilt_def live_cost_def split: option.splits if_splits)

lemma spoilt_put:
  assumes "spoilt pid n" and "nd_neighbors m = mput nb st (nd_neighbors n)" and "lsr_mode (nd_alg m) = lsr_mode (nd_alg n)"
    and "nb = pid \<Longrightarrow> nb_alive st \<and> nb_cost st = fposinf"
  shows "spoilt pid m"
  using assms by (auto simp: spoilt_def live_cost_def split: option.splits if_splits)

lemma spoilt_mark: "spoilt pid n \<Longrightarrow> spoilt pid (fst (mark_alive now rid nb n))"
proof (cases "nb = [] \<or> nb = nd_id n")
  case False
  assume s: "spoilt pid n"
  let ?st = "case mget (nd_neighbors n) nb of Some st \<Rightarrow> st | None \<Rightarrow> \<lparr>nb_alive = False, nb_cost = f64 1, nb_last = zero_time\<rparr>"
  show ?thesis
    by (rule spoilt_put [OF s, of _ nb "?st\<lparr>nb_alive := True, nb_last := now\<rparr>"])
      (use False spoilt_entry [OF s] in \<open>auto simp: mark_alive_def Let_def\<close>)
qed (simp add: mark_alive_def)

lemma spoilt_mark_cost:
  assumes "spoilt pid n" and "inbound_ok p"
  shows "spoilt pid (fst (mark_alive_with_cost now rid nb (measured_cost now p) n))"
proof (cases "nb = [] \<or> nb = nd_id n")
  case False
  let ?st = "case mget (nd_neighbors n) nb of Some st \<Rightarrow> st | None \<Rightarrow> \<lparr>nb_alive = False, nb_cost = f0, nb_last = zero_time\<rparr>"
  have "smoothed ?st (measured_cost now p) = fposinf" if "nb = pid"
  proof -
    obtain st where st: "mget (nd_neighbors n) pid = Some st" "nb_alive st" "nb_cost st = fposinf"
      using spoilt_entry [OF assms(1)] by blast
    have "fposinf \<noteq> fnan" by code_simp
    with st infinite_smoothed [OF assms(2), of st now] that show ?thesis by simp
  qed
  then show ?thesis
    by (intro spoilt_put [OF assms(1), of _ nb "\<lparr>nb_alive = True, nb_cost = smoothed ?st (measured_cost now p), nb_last = now\<rparr>"])
      (use False in \<open>simp_all add: mark_alive_with_cost_def Let_def\<close>)
qed (use assms in \<open>simp add: mark_alive_with_cost_def\<close>)

lemma spoilt_handle: "spoilt pid n \<Longrightarrow> inbound_ok p \<Longrightarrow> spoilt pid (fst (handle now rid rid' p n))"
proof -
  assume s: "spoilt pid n" and p: "inbound_ok p"
  have "spoilt pid (fst (handle_hello now rid rid' p n))"
    using spoilt_mark [OF s] by (simp add: handle_hello_def Let_def split: option.split)
  moreover have "spoilt pid (fst (handle_message now p n))"
    by (rule spoilt_cong [OF s]) (simp_all add: fst_handle_message)
  moreover have "spoilt pid (fst (on_alg (\<lambda>fab. alg_handle_info fab now rid' p) (fst (mark_alive now rid (node_previous_hop n p) n))))"
    by (rule spoilt_cong [OF spoilt_mark [OF s]]) simp_all
  ultimately show ?thesis using s spoilt_mark_cost [OF s p] by (simp add: handle_def handle_echo_def)
qed

lemma spoilt_step: "node_step n out n' \<Longrightarrow> node_inv n \<Longrightarrow> spoilt pid n \<Longrightarrow> live_cost n' pid \<noteq> None \<Longrightarrow> spoilt pid n'"
proof (induction rule: node_step.induct)
  case (step_receive data p n n' out)
  show ?case by (rule spoilt_cong [OF step_receive(4)]) (use step_receive(2) in \<open>auto simp: receive_def split: if_splits\<close>)
next
  case (step_forward now rid rid' n n' out)
  then obtain p ps where p: "nd_inbox n = p # ps" "handle now rid rid' p (n\<lparr>nd_inbox := ps\<rparr>) = (n', out)"
    by (auto simp: forwarding_turn_def split: list.splits)
  have "spoilt pid (n\<lparr>nd_inbox := ps\<rparr>)" by (rule spoilt_cong [OF step_forward(3)]) simp_all
  moreover have "inbound_ok p" using step_forward(2) p(1) by (simp add: node_inv_def)
  ultimately show ?case using spoilt_handle [of pid "n\<lparr>nd_inbox := ps\<rparr>" p now rid rid'] p(2) by simp
next
  case (step_tick now begun ids ids' n n' out)
  have wf: "wf_map (nd_neighbors n)" using step_tick(2) by (simp add: node_inv_def neighbors_ok_def)
  have n': "nd_neighbors n' = nd_neighbors (snd (reap_mark now n))" "lsr_mode (nd_alg n') = lsr_mode (nd_alg n)"
    using arg_cong [OF step_tick(1), of fst]
    by (auto simp: discovery_tick_def probe_all_def warn_neighbors reap_dead_def case_prod_beta notify_keeps)
      (auto simp: reap_mark_def)
  have "live_cost n' pid = live_cost (snd (reap_mark now n)) pid" using live_cost_cong [OF n'(1)] by simp
  with step_tick(3,4) n'(2) show ?case using live_cost_mark [OF wf, of now pid] by (auto simp: spoilt_def split: if_splits)
next
  case (step_send now rid dest msg n e n' out)
  show ?case
    by (rule spoilt_cong [OF step_send(3)]) (use step_send(1) in \<open>auto simp: node_send_def Let_def split: prod.splits if_splits\<close>)
next
  case (step_alg_refresh now rid n n' out)
  have "spoilt pid (fst (on_alg (\<lambda>fab. alg_refresh fab now rid) n))" by (rule spoilt_cong [OF step_alg_refresh(3)]) simp_all
  with step_alg_refresh(1) show ?case by simp
next
  case (step_alg_sweep now n n' out)
  have "spoilt pid (fst (on_alg (\<lambda>fab. alg_sweep fab now) n))" by (rule spoilt_cong [OF step_alg_sweep(3)]) simp_all
  with step_alg_sweep(1) show ?case by simp
qed

lemma spoilt_run: "(keeps_up pid)\<^sup>*\<^sup>* n m \<Longrightarrow> node_inv n \<Longrightarrow> spoilt pid n \<Longrightarrow> node_inv m \<and> spoilt pid m"
  by (induction rule: rtranclp_induct) (auto simp: keeps_up_def intro: spoilt_step node_step_inv)

lemma spoilt_mute: "node_inv n \<Longrightarrow> spoilt pid n \<Longrightarrow> snd (on_alg (\<lambda>fab. alg_refresh fab now rid) n) = [Log CannotEncode]"
proof -
  assume i: "node_inv n" and s: "spoilt pid n"
  then obtain s' where s': "nd_alg n = IsLsr s'" by (auto simp: spoilt_def lsr_mode_def)
  then have "mget (ls_links s') pid = Some fposinf" using i s by (simp add: node_inv_def spoilt_def)
  then have "snd (announce (fabric_of n) now rid s') = [Log CannotEncode]" using announce_infinite mget_SomeD by metis
  then show ?thesis by (simp add: snd_on_alg s' lsr_refresh_def)
qed

text \<open>
  C35: one absurd timestamp silences a link-state node. An echo of a neighbour whose timestamp
  lies at least \<open>2 ^ 1020\<close> seconds in the past makes the cost of that link infinite, whatever it was
  before; it stays infinite through every further step of the node, all later echoes included,
  because the average never forgets, until the neighbour is declared down; and meanwhile the
  node cannot announce itself: each refresh ends with a message on the console.
\<close>

theorem infinite_cost_sticks:
  assumes "node_reaches n" and "nd_alg n = IsLsr s"
    and "decode data = Some p" and "header_float p header_t0 = Some t0" and "t0 \<le> f_low"
    and "node_local_id n (p_from p) = pid" and "pid \<noteq> []" and "pid \<noteq> nd_id n" and "0 \<le> now" and "now \<le> 2 ^ 61"
    and "(keeps_up pid)\<^sup>*\<^sup>* (fst (handle_echo now rid p n)) m"
  shows "live_cost m pid = Some fposinf \<and> snd (on_alg (\<lambda>fab. alg_refresh fab later rid') m) = [Log CannotEncode]"
proof -
  let ?n = "fst (handle_echo now rid p n)"
  let ?st = "case mget (nd_neighbors n) pid of Some st \<Rightarrow> st | None \<Rightarrow> \<lparr>nb_alive = False, nb_cost = f0, nb_last = zero_time\<rparr>"
  note i = node_reaches_inv [OF assms(1)] and ok = decoded_inbound [OF assms(3)]
  have "is_finite t0" using ok assms(4) by (simp add: inbound_ok_def)
  then have "measured_cost now p = fposinf" by (rule absurd_measured [OF assms(4) _ assms(5,9,10)])
  moreover have "nb_cost ?st \<noteq> fnan" using i by (auto simp: node_inv_def neighbors_ok_def split: option.split)
  ultimately have "smoothed ?st (measured_cost now p) = fposinf" using infinite_smoothed [OF ok] by blast
  then have "live_cost ?n pid = Some fposinf"
    using echo_state [OF assms(6) [symmetric] assms(7,8), of now rid] by (simp add: live_cost_def)
  moreover have "lsr_mode (nd_alg ?n)" using echo_alg [OF assms(2)] by (simp add: lsr_mode_def)
  ultimately have "spoilt pid ?n" by (simp add: spoilt_def)
  with spoilt_run [OF assms(11) echo_inv [OF i ok]] have m: "node_inv m" "spoilt pid m" by blast+
  with spoilt_mute show ?thesis by (simp add: spoilt_def)
qed

theorem infinite_cost_sticks_witness:
  "\<exists>p m. (keeps_up ''B'')\<^sup>*\<^sup>* struck m \<and> p_from p = ''10.0.0.2:5000'' \<and> m = fst (handle_echo second ''0f'' p struck) \<and>
     live_cost m ''B'' = Some fposinf \<and> snd (on_alg (\<lambda>fab. alg_refresh fab (2 * second) ''10'') m) = [Log CannotEncode]"
proof -
  let ?q = "received absurd_echo" and ?n = "sample_node (IsLsr new_lsr) ''lsr''"
  obtain absurd where q: "decode absurd = Some ?q" "p_from ?q = ''10.0.0.2:5000''" "header_float ?q header_t0 = Some f_low"
    using absurd_arrives by blast
  obtain p where p: "decode (echo_line []) = Some p" "p_from p = ''10.0.0.2:5000''" "p_type p = type_echo"
    using echo_line_decoded by blast
  have e: "nd_inbox struck = []" unfolding struck_def handle_echo_def mark_alive_with_cost_def Let_def by (simp add: sample_node_def)
  define m where "m = fst (handle_echo second ''0f'' p struck)"
  have "receive p struck = (struck\<lparr>nd_inbox := [p]\<rparr>, [])" using e by (simp add: receive_def inbox_size_def)
  then have 1: "keeps_up ''B'' struck (struck\<lparr>nd_inbox := [p]\<rparr>)"
    using step_receive [OF p(1)] struck_facts(3) live_cost_cong [of "struck\<lparr>nd_inbox := [p]\<rparr>" struck] by (auto simp: keeps_up_def)
  have id: "nd_id struck = ''A''" unfolding struck_def handle_echo_def mark_alive_with_cost_def Let_def by (simp add: sample_node_def)
  have "live_cost m ''B'' \<noteq> None"
    using echo_state [of "''B''" struck p second "''0f''"] struck_facts(4) id by (simp add: m_def live_cost_def p(2))
  then have 2: "keeps_up ''B'' (struck\<lparr>nd_inbox := [p]\<rparr>) m"
    using echo_turn(2) [OF struck_facts(1) e p(1,3)] unfolding keeps_up_def m_def by blast
  from 1 2 have run: "(keeps_up ''B'')\<^sup>*\<^sup>* struck m" by (meson rtranclp.rtrancl_into_rtrancl rtranclp.rtrancl_refl)
  have b: "node_local_id ?n (p_from ?q) = ''B''" "''B'' \<noteq> []" "''B'' \<noteq> nd_id ?n"
    by (simp_all add: q(2) sample_names_b) (simp add: sample_node_def)
  have "nd_alg ?n = IsLsr new_lsr" by (simp add: sample_node_def)
  from infinite_cost_sticks [OF sample_lsr_reached this q(1,3) order_refl b, of 0 "''0d''" m "2 * second" "''10''"] run
  show ?thesis using run p(2) unfolding struck_def m_def by auto
qed

end
