(* ===== verification/Lsr_Relay.thy ===== *)
theory Lsr_Relay
  imports Lsr_Behaviour
begin

text \<open>
  What a link-state node passes on over a whole run of calls, in any order and from any goroutine:
  the runs of \<open>HandleInfo\<close>, \<open>OnLinkUp\<close>, \<open>OnLinkDown\<close> and the two periodic duties of
  internal/routing/alg_lsr.go, with the packets among them that are flooded on.
\<close>

section \<open>Runs of calls\<close>

text \<open>The entry points that change the state, with the instant each runs at.\<close>

datatype lsr_call =
    InfoCall fabric gotime string packet
  | UpCall fabric gotime string string float64
  | DownCall fabric gotime string string
  | RefreshCall fabric gotime string
  | SweepCall fabric gotime

fun call_time :: "lsr_call \<Rightarrow> gotime" where
  "call_time (InfoCall fab now rid p) = now"
| "call_time (UpCall fab now rid n c) = now"
| "call_time (DownCall fab now rid n) = now"
| "call_time (RefreshCall fab now rid) = now"
| "call_time (SweepCall fab now) = now"

fun lsr_apply :: "lsr_call \<Rightarrow> lsr_alg \<Rightarrow> lsr_alg \<times> event list" where
  "lsr_apply (InfoCall fab now rid p) s = lsr_handle_info fab now rid p s"
| "lsr_apply (UpCall fab now rid n c) s = lsr_link_up fab now rid n c s"
| "lsr_apply (DownCall fab now rid n) s = lsr_link_down fab now rid n s"
| "lsr_apply (RefreshCall fab now rid) s = lsr_refresh fab now rid s"
| "lsr_apply (SweepCall fab now) s = lsr_sweep fab now s"

text \<open>Every step of the algorithm is one of these calls.\<close>

lemma step_is_call: "lsr_step self s out s' \<Longrightarrow> \<exists>c. lsr_apply c s = (s', out)"
  by (induction rule: lsr_step.induct) (metis lsr_apply.simps)+

text \<open>The packet a call is about, with the fabric it is read with.\<close>

fun info_of :: "lsr_call \<Rightarrow> (fabric \<times> packet) list" where
  "info_of (InfoCall fab now rid p) = [(fab, p)]"
| "info_of c = []"

text \<open>The packets passed on, in the order of the calls: those that made the node send something.\<close>

fun relayed :: "lsr_call list \<Rightarrow> lsr_alg \<Rightarrow> (fabric \<times> packet) list" where
  "relayed [] s = []"
| "relayed (c # cs) s =
     (if sends (snd (lsr_apply c s)) = [] then [] else info_of c) @ relayed cs (fst (lsr_apply c s))"

text \<open>The message identifiers of packets, and the numbers they announce for one origin.\<close>

definition message_ids :: "(fabric \<times> packet) list \<Rightarrow> string list" where
  "message_ids fps = filter (\<lambda>mid. mid \<noteq> []) (map (\<lambda>(fab, p). header_string p header_msg_id) fps)"

definition number_for :: "string \<Rightarrow> fabric \<times> packet \<Rightarrow> int list" where
  "number_for origin fp =
     (case decode_lsp (p_payload (snd fp)) of
        None \<Rightarrow> []
      | Some l \<Rightarrow> if fb_local_id (fst fp) (lsp_origin l) = origin then [sint (lsp_seq l)] else [])"

definition numbers :: "string \<Rightarrow> (fabric \<times> packet) list \<Rightarrow> int list" where
  "numbers origin fps = concat (map (number_for origin) fps)"

lemma message_ids_simps [simp]:
  "message_ids [] = []" "message_ids (xs @ ys) = message_ids xs @ message_ids ys"
  "message_ids [(fab, p)] = (if header_string p header_msg_id = [] then [] else [header_string p header_msg_id])"
  by (simp_all add: message_ids_def)

lemma numbers_simps [simp]:
  "numbers origin [] = []" "numbers origin (xs @ ys) = numbers origin xs @ numbers origin ys"
  "numbers origin [fp] = number_for origin fp"
  by (simp_all add: numbers_def)

lemma numbers_head:
  "sends (snd (lsr_apply c s)) \<noteq> [] \<Longrightarrow>
   numbers u (relayed (c # cs) s) = numbers u (info_of c) @ numbers u (relayed cs (fst (lsr_apply c s)))"
  by simp

lemma relayed_heard: "set (numbers origin (relayed cs s)) \<subseteq> set (numbers origin (concat (map info_of cs)))"
  by (induction cs arbitrary: s) (auto split: if_splits)

section \<open>What a call does to the cache\<close>

text \<open>A cache after at most one more identifier, recorded at that instant.\<close>

definition asked_at :: "gotime \<Rightarrow> seen_cache \<Rightarrow> seen_cache \<Rightarrow> bool" where
  "asked_at now c c' \<longleftrightarrow> c' = c \<or> (\<exists>mid. c' = snd (seen now mid c))"

lemma asked_none [simp]: "asked_at now c c"
  by (simp add: asked_at_def)

lemma asked_one [simp]: "asked_at now c (snd (seen now mid c))"
  by (auto simp: asked_at_def)

lemma announce_asked: "asked_at now (ls_seen s) (ls_seen (fst (announce fab now rid s)))"
  by (simp add: announce_def Let_def split: option.split)

lemma learn_seen: "ls_seen (fst (lsr_learn fab now p l s)) = ls_seen s"
  by (simp add: lsr_learn_def Let_def split: prod.split) (metis store_fields(2) snd_conv)

lemma call_asked: "asked_at (call_time c) (ls_seen s) (ls_seen (fst (lsr_apply c s)))"
proof (cases c)
  case (InfoCall fab now rid p)
  then show ?thesis by (simp add: fst_handle_info Let_def learn_seen split: option.split)
next
  case (UpCall fab now rid n cost)
  then show ?thesis using announce_asked [of now "s\<lparr>ls_links := mput n cost (ls_links s)\<rparr>" fab rid]
    by (simp add: fst_link_up Let_def)
next
  case (DownCall fab now rid n)
  then show ?thesis using announce_asked [of now "s\<lparr>ls_links := mdel n (ls_links s)\<rparr>" fab rid]
    by (simp add: fst_link_down)
next
  case (RefreshCall fab now rid)
  then show ?thesis by (simp add: lsr_refresh_def announce_asked)
next
  case (SweepCall fab now)
  then show ?thesis by (simp add: fst_sweep fst_report)
qed

definition cache_works :: "lsr_alg \<Rightarrow> bool" where
  "cache_works s \<longleftrightarrow> seen_ok (ls_seen s) \<and> sc_ttl (ls_seen s) = lsp_seen_ttl"

lemma call_cache: "cache_works s \<Longrightarrow> cache_works (fst (lsr_apply c s))"
  using call_asked [of c s] by (auto simp: cache_works_def asked_at_def seen_ok_seen)

lemma call_remembers:
  assumes "cache_works s" and "seen_at (ls_seen s) mid = Some t" and "t0 \<le> t" and "call_time c \<le> t0 + 60 * second"
  shows "seen_at (ls_seen (fst (lsr_apply c s))) mid = Some t"
proof -
  have "\<not> sc_ttl (ls_seen s) < time_sub (call_time c) t"
    using assms(1,3,4) by (simp add: cache_works_def lsp_seen_ttl_def second_def time_sub_gt)
  then show ?thesis
    using call_asked [of c s] seen.keeps [of "ls_seen s" mid t] assms(1,2) by (auto simp: asked_at_def cache_works_def)
qed

text \<open>A packet is passed on only if its identifier was not remembered, and then it is.\<close>

lemma relay_records:
  assumes "cache_works s" and "(fab, p) \<in> set (info_of c)" and "sends (snd (lsr_apply c s)) \<noteq> []"
    and "header_string p header_msg_id = mid" and "mid \<noteq> []"
  shows "seen_at (ls_seen (fst (lsr_apply c s))) mid = Some (call_time c)"
    and "\<not> (\<exists>t. seen_at (ls_seen s) mid = Some t \<and> t0 \<le> t \<and> call_time c \<le> t0 + 60 * second)"
proof -
  obtain now rid where c: "c = InfoCall fab now rid p" using assms(2) by (cases c) simp_all
  obtain s' out where r: "lsr_handle_info fab now rid p s = (s', out)" by fastforce
  with assms(3) c have "sends out \<noteq> []" by simp
  with info_cases [OF r] assms(4) have new: "\<not> fst (seen now mid (ls_seen s))" by auto
  have ok: "seen_ok (ls_seen s)" using assms(1) by (simp add: cache_works_def)
  have "ls_seen s' = snd (seen now mid (ls_seen s))"
    using fst_handle_info [of fab now rid p s] r assms(4) by (simp add: Let_def learn_seen split: option.splits if_splits)
  then show "seen_at (ls_seen (fst (lsr_apply c s))) mid = Some (call_time c)"
    using seen.remembers [OF ok assms(5) new] r c by simp
  show "\<not> (\<exists>t. seen_at (ls_seen s) mid = Some t \<and> t0 \<le> t \<and> call_time c \<le> t0 + 60 * second)"
    using new assms(1,5) c by (auto simp: fst_seen ok cache_works_def lsp_seen_ttl_def second_def time_sub_gt)
qed

lemma relayed_fresh:
  assumes "cache_works s" and "\<forall>c \<in> set cs. t0 \<le> call_time c \<and> call_time c \<le> t0 + 60 * second"
  shows "distinct (message_ids (relayed cs s)) \<and>
    (\<forall>mid t. seen_at (ls_seen s) mid = Some t \<and> t0 \<le> t \<longrightarrow> mid \<notin> set (message_ids (relayed cs s)))"
  using assms
proof (induction cs arbitrary: s)
  case (Cons c cs)
  let ?s = "fst (lsr_apply c s)"
  have t: "t0 \<le> call_time c" "call_time c \<le> t0 + 60 * second" using Cons.prems(2) by simp_all
  have ih: "distinct (message_ids (relayed cs ?s))"
      "seen_at (ls_seen ?s) mid = Some t \<Longrightarrow> t0 \<le> t \<Longrightarrow> mid \<notin> set (message_ids (relayed cs ?s))" for mid t
    using Cons.IH [OF call_cache [OF Cons.prems(1), of c]] Cons.prems(2) by simp_all
  have kept: "mid \<notin> set (message_ids (relayed cs ?s))" if "seen_at (ls_seen s) mid = Some t" "t0 \<le> t" for mid t
    using call_remembers [OF Cons.prems(1) that t(2)] ih(2) that(2) by blast
  show ?case
  proof (cases "sends (snd (lsr_apply c s)) = [] \<or> info_of c = []")
    case True
    then have "relayed (c # cs) s = relayed cs ?s" by auto
    with ih(1) kept show ?thesis by simp
  next
    case False
    then obtain fab p where p: "info_of c = [(fab, p)]" by (cases c) simp_all
    let ?mid = "header_string p header_msg_id"
    have r: "relayed (c # cs) s = (fab, p) # relayed cs ?s" using False p by simp
    have ids: "message_ids (relayed (c # cs) s) = (if ?mid = [] then [] else [?mid]) @ message_ids (relayed cs ?s)"
      unfolding r by (simp add: message_ids_def)
    have rec: "seen_at (ls_seen ?s) ?mid = Some (call_time c)"
      "\<not> (\<exists>t. seen_at (ls_seen s) ?mid = Some t \<and> t0 \<le> t \<and> call_time c \<le> t0 + 60 * second)" if "?mid \<noteq> []"
      using relay_records(1) [OF Cons.prems(1), of fab p c ?mid] relay_records(2) [OF Cons.prems(1), of fab p c ?mid t0]
        False p that by simp_all
    show ?thesis
    proof (cases "?mid = []")
      case True
      with ih(1) kept ids show ?thesis by simp
    next
      case f: False
      have "?mid \<notin> set (message_ids (relayed cs ?s))" using ih(2) [OF rec(1) [OF f] t(1)] .
      moreover have "mid \<noteq> ?mid" if "seen_at (ls_seen s) mid = Some t" "t0 \<le> t" for mid t
        using rec(2) [OF f] that t(2) by blast
      ultimately show ?thesis using ih(1) kept unfolding ids by (auto simp: f)
    qed
  qed
qed simp


section \<open>What a call does to an entry on file\<close>

text \<open>
  An entry that stays is refreshed at most; it changes to another number only when a packet is
  accepted, and it goes only when a sweep finds it too old.
\<close>

definition entry_stays :: "gotime \<Rightarrow> lsdb_entry option \<Rightarrow> lsdb_entry option \<Rightarrow> bool" where
  "entry_stays now old new \<longleftrightarrow> new = old \<or> (\<exists>e. old = Some e \<and> new = Some (e\<lparr>le_refreshed := now\<rparr>))"

lemma stays_same [simp]: "entry_stays now e e"
  by (simp add: entry_stays_def)

lemma store_entry:
  "\<not> fst (fst (store now origin seq nb s)) \<Longrightarrow>
   entry_stays now (mget (ls_lsdb s) u) (mget (ls_lsdb (snd (store now origin seq nb s))) u)"
  by (auto simp: store_def Let_def entry_stays_def split: if_splits option.split)

lemma learn_entry:
  "(entry_stays now (mget (ls_lsdb s) u) (mget (ls_lsdb (fst (lsr_learn fab now p l s))) u) \<and>
    (u = fb_local_id fab (lsp_origin l) \<longrightarrow> sends (snd (lsr_learn fab now p l s)) = [])) \<or>
   (u = fb_local_id fab (lsp_origin l) \<and> \<not> stale s u (lsp_seq l) \<and>
    mget (ls_lsdb (fst (lsr_learn fab now p l s))) u = Some
      \<lparr>le_entry = \<lparr>an_origin = u, an_seq = lsp_seq l, an_neighbors = resolve_neighbors fab (lsp_neighbors l)\<rparr>, le_refreshed = now\<rparr>)"
proof -
  let ?o = "fb_local_id fab (lsp_origin l)"
  obtain s' out where r: "lsr_learn fab now p l s = (s', out)" by fastforce
  obtain acc str s2 where st: "store now ?o (lsp_seq l) (resolve_neighbors fab (lsp_neighbors l)) s = ((acc, str), s2)"
    by (metis prod.exhaust)
  show ?thesis
  proof (cases "?o = [] \<or> ?o = fb_id fab \<or> \<not> acc")
    case True
    then have "s' = s \<or> \<not> acc \<and> s' = s2" "out = []"
      using r st by (auto simp: lsr_learn_def Let_def split: if_splits)
    with store_entry [of now ?o "lsp_seq l" "resolve_neighbors fab (lsp_neighbors l)" s u] r st
    show ?thesis by auto
  next
    case False
    then have "acc" by blast
    then have "\<not> stale s ?o (lsp_seq l)" using st by (auto simp: store_def split: if_splits)
    with False r st show ?thesis by (auto simp: lsr_learn_def store_def Let_def split: if_splits)
  qed
qed

lemma mget_filter_kept: "(\<And>v. mget m u = Some v \<Longrightarrow> P (u, v)) \<Longrightarrow> mget (filter P m) u = mget m u"
  by (induction m) (auto split: if_splits)

text \<open>The packet a call accepts for an origin: the number that is then on file.\<close>

lemma call_entry:
  assumes "\<And>e. mget (ls_lsdb s) u = Some e \<Longrightarrow> \<not> expired (call_time c) e"
  shows "(entry_stays (call_time c) (mget (ls_lsdb s) u) (mget (ls_lsdb (fst (lsr_apply c s))) u) \<and>
      (sends (snd (lsr_apply c s)) \<noteq> [] \<longrightarrow> numbers u (info_of c) = [])) \<or>
    (\<exists>seq e. numbers u (info_of c) = [sint seq] \<and> \<not> stale s u seq \<and>
      mget (ls_lsdb (fst (lsr_apply c s))) u = Some e \<and> an_seq (le_entry e) = seq \<and> le_refreshed e = call_time c)"
proof (cases c)
  case (InfoCall fab now rid p)
  obtain known cache where k: "seen now (header_string p header_msg_id) (ls_seen s) = (known, cache)" by fastforce
  let ?s = "s\<lparr>ls_seen := cache\<rparr>"
  have st: "stale ?s = stale s" by (intro ext) (simp add: stale_def)
  show ?thesis
  proof (cases "known \<or> decode_lsp (p_payload p) = None")
    case True
    then show ?thesis using k by (auto simp: InfoCall lsr_handle_info_def Let_def)
  next
    case False
    then obtain l where l: "decode_lsp (p_payload p) = Some l" and nk: "\<not> known" by auto
    obtain s2 out2 where r: "lsr_learn fab now p l ?s = (s2, out2)" by fastforce
    have a: "ls_lsdb (fst (lsr_apply c s)) = ls_lsdb s2" "sends (snd (lsr_apply c s)) = sends out2"
      using k l nk r by (simp_all add: InfoCall lsr_handle_info_def Let_def)
    from learn_entry [of now ?s u fab p l] show ?thesis
      unfolding a r st using l by (auto simp: InfoCall number_for_def)
  qed
next
  case (SweepCall fab now)
  have "mget (ls_lsdb (fst (lsr_apply c s))) u = mget (ls_lsdb s) u"
    using mget_filter_kept [of "ls_lsdb s" u "\<lambda>(origin, e). \<not> expired now e"] assms
    by (simp add: SweepCall fst_sweep fst_report expire_def Let_def)
  then show ?thesis by (simp add: SweepCall)
qed (simp_all add: fst_link_up fst_link_down lsr_refresh_def Let_def)

lemma window_stale:
  assumes "mget (ls_lsdb s) u = Some e" "0 \<le> lo" "lo \<le> sint (an_seq (le_entry e))" "sint (an_seq (le_entry e)) < lo + 16"
    and "lo \<le> sint seq" "sint seq < lo + 16" "\<not> stale s u seq"
  shows "sint (an_seq (le_entry e)) < sint seq"
proof (rule ccontr)
  assume "\<not> ?thesis"
  with assms(2-6) have "stale s u seq" by (subst stale_small [OF assms(1)]) simp_all
  with assms(7) show False ..
qed

text \<open>Once a number of the window is on file, only greater ones are passed on.\<close>

lemma relayed_rises:
  assumes "\<forall>c \<in> set cs. t0 \<le> call_time c \<and> call_time c \<le> t0 + 30 * second" and "0 \<le> lo"
    and "\<forall>k \<in> set (numbers u (concat (map info_of cs))). lo \<le> k \<and> k < lo + 16"
  shows "mget (ls_lsdb s) u = Some e \<Longrightarrow> t0 \<le> le_refreshed e \<Longrightarrow> lo \<le> sint (an_seq (le_entry e)) \<Longrightarrow>
      sint (an_seq (le_entry e)) < lo + 16 \<Longrightarrow>
      sorted_wrt (<) (numbers u (relayed cs s)) \<and> (\<forall>k \<in> set (numbers u (relayed cs s)). sint (an_seq (le_entry e)) < k)"
  using assms
proof (induction cs arbitrary: s e)
  case (Cons c cs)
  let ?s = "fst (lsr_apply c s)"
  have t: "t0 \<le> call_time c" "call_time c \<le> t0 + 30 * second" using Cons.prems(5) by simp_all
  have "\<not> expired (call_time c) e"
    using Cons.prems(2) t by (simp add: expired_def lsp_max_age_def second_def time_sub_gt)
  then have cases: "(entry_stays (call_time c) (Some e) (mget (ls_lsdb ?s) u) \<and>
      (sends (snd (lsr_apply c s)) \<noteq> [] \<longrightarrow> numbers u (info_of c) = [])) \<or>
    (\<exists>seq f. numbers u (info_of c) = [sint seq] \<and> \<not> stale s u seq \<and>
      mget (ls_lsdb ?s) u = Some f \<and> an_seq (le_entry f) = seq \<and> le_refreshed f = call_time c)"
    using call_entry [of s u c] Cons.prems(1) by simp
  have n: "numbers u (relayed (c # cs) s) =
      (if sends (snd (lsr_apply c s)) = [] then [] else numbers u (info_of c)) @ numbers u (relayed cs ?s)" by simp
  have ih: "sorted_wrt (<) (numbers u (relayed cs ?s)) \<and> (\<forall>k \<in> set (numbers u (relayed cs ?s)). sint (an_seq (le_entry f)) < k)"
    if "mget (ls_lsdb ?s) u = Some f" "t0 \<le> le_refreshed f" "lo \<le> sint (an_seq (le_entry f))" "sint (an_seq (le_entry f)) < lo + 16" for f
    by (rule Cons.IH [OF that]) (use Cons.prems(5-7) in auto)
  from cases show ?case
  proof (elim disjE conjE exE)
    assume "entry_stays (call_time c) (Some e) (mget (ls_lsdb ?s) u)" and z: "sends (snd (lsr_apply c s)) \<noteq> [] \<longrightarrow> numbers u (info_of c) = []"
    then obtain f where f: "mget (ls_lsdb ?s) u = Some f" "le_entry f = le_entry e" "t0 \<le> le_refreshed f"
      using Cons.prems(2) t(1) by (auto simp: entry_stays_def)
    from ih [OF f(1,3)] z Cons.prems(3,4) show ?thesis unfolding n f(2) by (auto split: if_splits)
  next
    fix seq f
    assume a: "numbers u (info_of c) = [sint seq]" "\<not> stale s u seq" "mget (ls_lsdb ?s) u = Some f"
      "an_seq (le_entry f) = seq" "le_refreshed f = call_time c"
    have w: "lo \<le> sint seq" "sint seq < lo + 16" using Cons.prems(7) a(1) by simp_all
    have "sint (an_seq (le_entry e)) < sint seq"
      by (rule window_stale [OF Cons.prems(1,6,3,4) w a(2)])
    with ih [OF a(3)] a t(1) w show ?thesis unfolding n by force
  qed
qed simp

lemma relayed_rises_first:
  assumes "\<forall>c \<in> set cs. t0 \<le> call_time c \<and> call_time c \<le> t0 + 30 * second" and "0 \<le> lo"
    and "\<forall>k \<in> set (numbers u (concat (map info_of cs))). lo \<le> k \<and> k < lo + 16"
  shows "sorted_wrt (<) (numbers u (relayed cs s))"
  using assms
proof (induction cs arbitrary: s)
  case (Cons c cs)
  let ?s = "fst (lsr_apply c s)"
  have ih: "sorted_wrt (<) (numbers u (relayed cs ?s))" by (rule Cons.IH) (use Cons.prems in auto)
  show ?case
  proof (cases "sends (snd (lsr_apply c s)) = [] \<or> numbers u (info_of c) = []")
    case True
    with ih show ?thesis by auto
  next
    case False
    then obtain fab now rid p where c: "c = InfoCall fab now rid p" by (cases c) simp_all
    obtain s' out where r: "lsr_handle_info fab now rid p s = (s', out)" by fastforce
    from False r c have "sends out \<noteq> []" by simp
    with info_cases [OF r] obtain l where l: "decode_lsp (p_payload p) = Some l"
      and db: "mget (ls_lsdb s') (fb_local_id fab (lsp_origin l)) = Some
        \<lparr>le_entry = \<lparr>an_origin = fb_local_id fab (lsp_origin l), an_seq = lsp_seq l,
          an_neighbors = resolve_neighbors fab (lsp_neighbors l)\<rparr>, le_refreshed = now\<rparr>" by auto
    have n: "fb_local_id fab (lsp_origin l) = u" "numbers u (info_of c) = [sint (lsp_seq l)]"
      using False l by (auto simp: c number_for_def split: if_splits)
    have s': "?s = s'" using r by (simp add: c)
    have w: "lo \<le> sint (lsp_seq l)" "sint (lsp_seq l) < lo + 16" using Cons.prems(3) n(2) by simp_all
    have "t0 \<le> now" using Cons.prems(1) by (simp add: c)
    with relayed_rises [of cs t0 lo u ?s] db [unfolded n(1)] Cons.prems w
    have "\<forall>k \<in> set (numbers u (relayed cs ?s)). sint (lsp_seq l) < k" by (simp add: s')
    with ih n(2) show ?thesis by simp
  qed
qed simp


section \<open>Property\<close>

text \<open>
  C12: an announcement is flooded on at most once, whatever happens in between. In any sixty
  seconds of a link-state node, over any sequence of its calls, no two packets it passes on carry
  the same message identifier. And in any thirty seconds, while the numbers heard of an origin
  stay within sixteen consecutive ones (so that none is taken for a restart, and no entry
  accepted meanwhile expires), the numbers passed on for that origin rise strictly, whatever
  identifiers their packets carry: each announcement at most once, and none after a newer one.
\<close>

theorem relayed_once:
  assumes "lsr_reaches self s"
    and "\<forall>c \<in> set calls. t0 \<le> call_time c \<and> call_time c \<le> t0 + 60 * second"
  shows "distinct (message_ids (relayed calls s)) \<and>
    ((\<forall>c \<in> set calls. call_time c \<le> t0 + 30 * second) \<and> 0 \<le> lo \<and>
      (\<forall>k \<in> set (numbers origin (concat (map info_of calls))). lo \<le> k \<and> k < lo + 16) \<longrightarrow>
     sorted_wrt (<) (numbers origin (relayed calls s)))"
proof -
  have "cache_works s" using reaches_inv [OF assms(1)] by (simp add: lsr_inv_def cache_ok_def cache_works_def)
  from relayed_fresh [OF this assms(2)] have "distinct (message_ids (relayed calls s))" ..
  with assms(2) relayed_rises_first [of calls t0 lo origin s] show ?thesis by blast
qed

text \<open>
  The witness: the same announcement under two message identifiers, with a refresh and a sweep
  in between; it is passed on once.
\<close>

definition sample_calls :: "lsr_call list" where
  "sample_calls =
     [InfoCall lsr_fab second ''0b'' info_from_a, RefreshCall lsr_fab second ''0e'', SweepCall lsr_fab (2 * second),
      InfoCall lsr_fab (3 * second) ''0d'' (set_header header_msg_id (GStr ''0c'') info_from_a)]"

theorem relayed_once_witness:
  "numbers ''A'' (relayed sample_calls new_lsr) = [1] \<and> distinct (message_ids (relayed sample_calls new_lsr))"
proof -
  have t: "\<forall>c \<in> set sample_calls. second \<le> call_time c \<and> call_time c \<le> second + 60 * second"
    "\<forall>c \<in> set sample_calls. call_time c \<le> second + 30 * second"
    by (simp_all add: sample_calls_def second_def)
  have a: "number_for ''A'' (lsr_fab, info_from_a) = [1]"
    "number_for ''A'' (lsr_fab, set_header header_msg_id (GStr ''0c'') info_from_a) = [1]"
    using sample_facts(1) by (simp_all add: number_for_def lsr_fab_def lsp_from_a_def)
  then have heard: "set (numbers ''A'' (concat (map info_of sample_calls))) = {1}"
    by (simp add: sample_calls_def numbers_def)
  have s: "distinct (message_ids (relayed sample_calls new_lsr))" "sorted_wrt (<) (numbers ''A'' (relayed sample_calls new_lsr))"
    using relayed_once [OF reach_new t(1), where lo = 1 and origin = "''A''"] t(2) heard by auto
  let ?c = "InfoCall lsr_fab second ''0b'' info_from_a"
  obtain later where l: "sample_calls = ?c # later" by (simp add: sample_calls_def)
  have "sends (snd (lsr_apply ?c new_lsr)) \<noteq> []" by (simp add: info_from_a_run)
  then obtain rest where r: "numbers ''A'' (relayed sample_calls new_lsr) = 1 # rest"
    unfolding l using numbers_head [of ?c new_lsr "''A''" later] a(1) by simp
  moreover have "set (1 # rest) \<subseteq> {1}" using relayed_heard [of "''A''" sample_calls new_lsr] heard r by simp
  ultimately have "rest = []" using s(2) by (cases rest) auto
  with r s(1) show ?thesis by simp
qed

end
