(* ===== verification/Alg_Race.thy ===== *)
theory Alg_Race
  imports Alg_Dijkstra
begin

text \<open>
  internal/routing/alg_dijkstra.go, between the locks. \<open>recompute\<close> builds its graph under the
  algorithm's lock, runs the shortest-path routine outside it, and installs the result. This
  theory splits it at that point: the discovery loop reports losses and the forwarding loop
  recoveries, each from its own goroutine.
\<close>

text \<open>The table computed from the flags as they are, and its installation.\<close>

definition dj_compute :: "string \<Rightarrow> dijkstra_alg \<Rightarrow> table" where
  "dj_compute self s = dijkstra (graph_of_links (live_links (da_base s) (da_down s))) self"

definition dj_install :: "table \<Rightarrow> dijkstra_alg \<Rightarrow> dijkstra_alg" where
  "dj_install t s = s\<lparr>da_table := st_replace t (da_table s)\<rparr>"

text \<open>\<open>OnLinkDown\<close> up to its call of \<open>recompute\<close>, for a neighbour that was up.\<close>

definition dj_flag :: "string \<Rightarrow> dijkstra_alg \<Rightarrow> dijkstra_alg" where
  "dj_flag n s = s\<lparr>da_down := mput n True (da_down s)\<rparr>"

lemma dj_recompute_halves: "dj_recompute self s = dj_install (dj_compute self s) s"
  by (simp add: dj_recompute_def dj_install_def dj_compute_def)

lemma dj_link_down_halves:
  "\<not> is_down (da_down s) n \<Longrightarrow>
   fst (dj_link_down fab now rid n s) = dj_install (dj_compute (fb_id fab) (dj_flag n s)) (dj_flag n s)"
  by (simp add: dj_link_down_def dj_flag_def Let_def dj_recompute_halves)

lemma dj_table_install: "table_ok t \<Longrightarrow> dj_table (dj_install t s) = t"
  by (simp add: dj_table_def dj_install_def table_ok_def st_snapshot_eq st_replace_def)

lemma compute_table_ok: "table_ok (dj_compute self s)"
  by (simp add: dj_compute_def dijkstra_table_ok)

lemma walk_enters:
  assumes "walk_cost ext E u acc vs = Some c" and "vs \<noteq> []"
  shows "\<exists>w. E w (last vs) \<noteq> None"
proof -
  have "vs = butlast vs @ [last vs]" using assms(2) by simp
  with assms(1) have "walk_cost ext E u acc (butlast vs @ [last vs]) = Some c" by metis
  then show ?thesis by (auto simp: walk_cost_append split: option.splits)
qed

lemma pruned_unreachable:
  assumes "wf_graph base" and "nan_free base" and "is_down d k"
  shows "mget (dijkstra (graph_of_links (live_links base d)) self) k = None"
proof (rule ccontr)
  let ?g = "graph_of_links (live_links base d)"
  assume "mget (dijkstra ?g self) k \<noteq> None"
  then obtain r where r: "mget (dijkstra ?g self) k = Some r" by blast
  have "nan_free ?g" using assms(2) by (simp add: nan_free_graph_of_links links_nan_free_live)
  from dijkstra_entry(5) [OF this r] obtain vs
    where "last (r_next r # vs) = k" "path_cost ?g self (r_next r # vs) = Some (r_cost r)" by blast
  with walk_enters [of fadd "usable ?g" self f0 "r_next r # vs"]
  obtain w where "usable ?g w k \<noteq> None" by (auto simp: path_cost_def)
  then show False using edge_live [OF assms(1,2), of d w k] assms(3) by (simp add: usable_def)
qed

text \<open>
  C31: a table computed earlier can be installed later. If one goroutine reports the loss of
  \<open>n\<close> and computes its table, another reports that \<open>k\<close> is back and finishes, and the first then
  installs its table, the node knows that \<open>k\<close> is up and shows its links, but holds no route to it;
  had one report followed the other, the table would be that of the links shown. Later reports
  that \<open>k\<close> is up change nothing.
\<close>

theorem recompute_race:
  fixes fab :: fabric and base :: graph and evs :: "(string \<times> float64 option) list"
    and now later :: gotime and rid :: string and c c' :: float64
  assumes "wf_graph base" and "nan_free base" and "k \<in> lost evs" and "n \<notin> lost evs" and "k \<noteq> n"
  defines "s \<equiv> dj_run fab base evs"
  defines "up \<equiv> \<lambda>s. fst (dj_link_up fab now rid k c s)" and "flagged \<equiv> dj_flag n s"
  defines "raced \<equiv> dj_install (dj_compute (fb_id fab) flagged) (up flagged)"
    and "whole \<equiv> up (fst (dj_link_down fab now rid n s))"
  shows "\<not> is_down (da_down raced) k \<and> mget (dj_table raced) k = None \<and>
    dj_topology fab raced = dj_topology fab whole \<and>
    dj_table whole = dijkstra (graph_of_links (dj_topology fab whole)) (fb_id fab) \<and>
    dj_table (fst (dj_link_up fab later rid' k c' raced)) = dj_table raced"
proof -
  note run = dj_run_facts [of fab base evs]
  have s: "da_base s = base" "dj_inv (fb_id fab) s" "is_down (da_down s) k" "\<not> is_down (da_down s) n"
    using run assms(3,4) by (simp_all add: s_def)
  have flagged: "da_base flagged = base" "is_down (da_down flagged) k"
    using s assms(5) by (simp_all add: flagged_def dj_flag_def)
  have up: "da_down (up t) = mdel k (da_down t)" "da_base (up t) = da_base t" for t
    by (simp_all add: up_def dj_link_up_def dj_recompute_def Let_def)
  have down: "da_down (fst (dj_link_down fab now rid n s)) = da_down flagged"
      "da_base (fst (dj_link_down fab now rid n s)) = da_base flagged"
    using s(4) by (simp_all add: flagged_def dj_link_down_halves dj_install_def)
  have raced: "da_down raced = mdel k (da_down flagged)" "da_base raced = base"
    "dj_table raced = dj_compute (fb_id fab) flagged"
    using up flagged by (simp_all add: raced_def dj_table_install compute_table_ok) (simp_all add: dj_install_def)
  have whole: "da_down whole = da_down raced" "da_base whole = da_base raced"
    using down raced flagged(1) by (simp_all add: whole_def up)
  have "dj_inv (fb_id fab) whole" unfolding whole_def up_def using s(2) by (intro dj_inv_up dj_inv_down)
  from dj_table_eq [OF this] have t: "dj_table whole = dijkstra (graph_of_links (dj_topology fab whole)) (fb_id fab)"
    by (simp add: dj_topology_live)
  have up_already: "\<not> is_down (da_down raced) k" by (simp add: raced(1))
  then have "dj_table (fst (dj_link_up fab later rid' k c' raced)) = dj_table raced"
    by (simp add: dj_link_up_def dj_table_def Let_def)
  moreover have "mget (dj_table raced) k = None"
    using pruned_unreachable [OF assms(1,2) flagged(2)] by (simp add: raced(3) dj_compute_def flagged(1))
  moreover have "dj_topology fab raced = dj_topology fab whole" using whole by (simp add: dj_topology_live)
  ultimately show ?thesis using t up_already by simp
qed

theorem recompute_race_witness:
  "let s = dj_run sample_static (graph_of_links square) [(''B'', None)];
       f = dj_flag ''D'' s;
       raced = dj_install (dj_compute ''A'' f) (fst (dj_link_up sample_static 0 [] ''B'' (f64 1) f))
   in mget (dj_table raced) ''B'' = None \<and>
     mget (dijkstra (graph_of_links (dj_topology sample_static raced)) ''A'') ''B'' \<noteq> None"
proof -
  have w: "wf_graph (graph_of_links square)" by (rule wf_graph_of_links)
  have n: "nan_free (graph_of_links square)" by code_simp
  have l: "''B'' \<in> lost [(''B'', None)]" "''D'' \<notin> lost [(''B'', None)]" "''B'' \<noteq> ''D''" by (simp_all add: lost_def)
  let ?f = "dj_flag ''D'' (dj_run sample_static (graph_of_links square) [(''B'', None)])"
  let ?raced = "dj_install (dj_compute ''A'' ?f) (fst (dj_link_up sample_static 0 [] ''B'' (f64 1) ?f))"
  have self: "fb_id sample_static = ''A''" by (simp add: sample_static_def)
  have "mget (dj_table ?raced) ''B'' = None" using recompute_race [OF w n l, of sample_static 0 "[]" "f64 1"] self by simp
  moreover have "mget (dijkstra (graph_of_links (dj_topology sample_static ?raced)) ''A'') ''B'' \<noteq> None" by code_simp
  ultimately show ?thesis by (simp add: Let_def)
qed

end
