(* ===== verification/Cli_Console.thy ===== *)
theory Cli_Console
  imports Node_Messages
begin

text \<open>
  internal/cli/console.go and \<open>Table.String\<close>: the commands of the console and the text they
  print, with the columns of \<open>fmt\<close> written out. A printed line is its text, except for the two
  that quote what the user typed. The format of a time of day depends on the time zone of the
  host and is an argument. Float64 values have one zero here, so \<open>-0.00\<close> is only printed for
  negative numbers.
\<close>

section \<open>Columns\<close>

text \<open>Widths count characters; a byte that belongs to none counts as one.\<close>

function rune_count :: "string \<Rightarrow> nat" where
  "rune_count s = (if s = [] then 0 else 1 + rune_count (drop (max 1 (utf8_len s)) s))"
  by auto
termination by (relation "measure length") auto

declare rune_count.simps [simp del]

text \<open>\<open>%-16s\<close> and \<open>%-8s\<close>\<close>

definition pad :: "nat \<Rightarrow> string \<Rightarrow> string" where
  "pad w s = s @ replicate (w - rune_count s) (CHR '' '')"

text \<open>\<open>%.2f\<close>: the exact value rounded to two decimals, ties to even.\<close>

definition fixed2 :: "float64 \<Rightarrow> string" where
  "fixed2 x =
     (if x = fnan then ''NaN'' else if x = fposinf then ''+Inf'' else if x = fneginf then ''-Inf''
      else
        let q = fval x; n = round_even (\<bar>q\<bar> * 100)
        in (if q < 0 then ''-'' else []) @ dec_digits (n div 100) @ ''.'' @
           [digit (n mod 100 div 10), digit (n mod 10)])"

definition join_with :: "string \<Rightarrow> string list \<Rightarrow> string" where
  "join_with sep xs = concat (case xs of [] \<Rightarrow> [] | x # r \<Rightarrow> x # map (\<lambda>y. sep @ y) r)"

definition lf :: string where "lf = [CHR 0x0A]"

definition trim_right_lf :: "string \<Rightarrow> string" where
  "trim_right_lf s = rev (dropWhile (\<lambda>c. c = CHR 0x0A) (rev s))"

section \<open>The routing table as text\<close>

definition route_line :: "route \<Rightarrow> string" where
  "route_line r = pad 16 (r_dest r) @ '' '' @ pad 16 (r_next r) @ '' '' @ fixed2 (r_cost r)"

definition table_header :: string where
  "table_header = pad 16 ''DEST'' @ '' '' @ pad 16 ''NEXT HOP'' @ '' COST''"

definition table_text :: "table \<Rightarrow> string" where
  "table_text t =
     (if t = [] then ''(empty routing table)''
      else trim_right_lf (table_header @ lf @ concat (map (\<lambda>r. route_line r @ lf) (table_sorted t))))"

section \<open>Commands\<close>

datatype console_line =
    Line string
  | Prompt string
  | UnknownCommand string
  | SendFailure send_error

definition print_neighbors :: "(gotime \<Rightarrow> string) \<Rightarrow> node \<Rightarrow> console_line list" where
  "print_neighbors clock n =
     (let states = neighbor_states n
      in if states = [] then [Line ''(no neighbours)'']
         else
           Line (pad 16 ''NEIGHBOUR'' @ '' '' @ pad 8 ''STATE'' @ '' '' @ pad 8 ''COST'' @ '' LAST SEEN'') #
           map (\<lambda>s. Line (pad 16 (ns_id s) @ '' '' @ pad 8 (if ns_alive s then ''up'' else ''down'') @ '' '' @
                 pad 8 (fixed2 (ns_cost s)) @ '' '' @ (if ns_last s = zero_time then ''never'' else clock (ns_last s))))
             (sort_key ns_id states))"

text \<open>The part of \<open>check\<close> only the link-state mode has.\<close>

definition one_sided :: "node \<Rightarrow> asymmetry list" where
  "one_sided n = (case nd_alg n of IsLsr s \<Rightarrow> lsr_asymmetries (fabric_of n) s | _ \<Rightarrow> [])"

definition print_check :: "node \<Rightarrow> console_line list" where
  "print_check n =
     (let silent = silent_neighbors n; found = one_sided n;
          problems = length silent + length found
      in (if silent = [] then []
          else Line ''configured neighbours that never answered a hello:'' #
               map (\<lambda>pid. Line (''  '' @ pad 16 pid @ '' check that its address is current and that it is running'')) silent) @
         (if found = [] then []
          else Line ''links declared by only one endpoint:'' #
               map (\<lambda>a. Line (''  '' @ a_declared a @ '' -> '' @ a_missing a @ '' (cost '' @ fixed2 (a_cost a) @ ''): '' @
                      a_missing a @ '' does not declare it back'')) found) @
         (if problems = 0 then [Line ''no inconsistencies found''] else []))"

definition database_line :: "string \<Rightarrow> announcement \<Rightarrow> string" where
  "database_line origin a =
     pad 16 origin @ '' seq='' @ pad 4 (int_text (sint (an_seq a))) @ '' '' @
     join_with '' '' (sort (map (\<lambda>(nb, c). nb @ ''('' @ fixed2 c @ '')'') (an_neighbors a)))"

definition print_database :: "node \<Rightarrow> console_line list" where
  "print_database n =
     (case nd_alg n of
        IsLsr s \<Rightarrow>
          (let db = lsr_database s
           in if db = [] then [Line ''(link-state database is empty)'']
              else map (\<lambda>origin. Line (database_line origin
                          (mget_or \<lparr>an_origin = [], an_seq = 0, an_neighbors = []\<rparr> db origin))) (sort (mkeys db)))
      | _ \<Rightarrow> [Line (''no link-state database in '' @ nd_mode n @ '' mode'')])"

text \<open>Links in the order of their ends.\<close>

definition print_topology :: "node \<Rightarrow> console_line list" where
  "print_topology n =
     (let edges = node_topology n
      in if edges = [] then [Line ''(no topology known yet)'']
         else
           Line (pad 16 ''ORIGEN'' @ '' '' @ pad 16 ''DESTINO'' @ '' PESO'') #
           map (\<lambda>e. Line (pad 16 (l_from e) @ '' '' @ pad 16 (l_to e) @ '' '' @ fixed2 (l_cost e)))
             (sort_key l_from (sort_key l_to edges)))"

definition no_routes_text :: string where
  "no_routes_text = ''(sin rutas: la topolog'' @ [CHR 0xC3, CHR 0xAD] @ ''a conocida todav'' @ [CHR 0xC3, CHR 0xAD] @
     ''a no alcanza a nadie)''"

definition dijkstra_header :: string where
  "dijkstra_header = pad 16 ''DESTINO'' @ '' '' @ pad 16 ''NEXT HOP'' @ '' COSTO''"

definition print_dijkstra :: "node \<Rightarrow> console_line list" where
  "print_dijkstra n =
     (let table = dijkstra (graph_of_links (node_topology n)) (nd_id n)
      in if table = [] then [Line no_routes_text]
         else Line dijkstra_header # map (\<lambda>r. Line (route_line r)) (table_sorted table))"

definition print_help :: "console_line list" where
  "print_help = map Line
     [''commands:'',
      ''  send <dest> <text>   send a user message through the network'',
      ''  table                show the routing table'',
      ''  neighbors            show direct links and their measured cost'',
      ''  lsdb                 show the link-state database (lsr mode only)'',
      ''  topology             show every known link and its weight (alias: graph)'',
      ''  dijkstra             recompute and show routes: destino, next hop, costo'',
      ''  check                diagnose links that are configured but never came up,'',
      ''                       and links only one endpoint declares'',
      ''  info                 show this node'' @ [CHR 0x27] @ ''s id and mode'',
      ''  help                 show this text'',
      ''  quit                 stop the node'']"

definition console_send :: "gotime \<Rightarrow> string \<Rightarrow> string \<Rightarrow> node \<Rightarrow> node \<times> console_line list \<times> event list" where
  "console_send now rid rest n =
     (case str_cut (CHR '' '') rest of
        (dest, text, found) \<Rightarrow>
          if \<not> found \<or> trim_space dest = [] then (n, [Line ''usage: send <destination> <text>''], [])
          else (case node_send now rid dest (trim_space text) n of
                  ((e, n), out) \<Rightarrow> (n, (case e of Some err \<Rightarrow> [SendFailure err] | None \<Rightarrow> []), out)))"

text \<open>One command: whether the console ends, the node after it, what is printed, and the node's own events.\<close>

definition console_dispatch ::
    "(gotime \<Rightarrow> string) \<Rightarrow> gotime \<Rightarrow> string \<Rightarrow> string \<Rightarrow> node \<Rightarrow> bool \<times> node \<times> console_line list \<times> event list" where
  "console_dispatch clock now rid line n =
     (if line = [] then (False, n, [], [])
      else case str_cut (CHR '' '') line of
        (command, rest, _) \<Rightarrow>
          let rest = trim_space rest
          in if command = ''send'' then (False, console_send now rid rest n)
             else if command \<in> {''table'', ''routes''} then (False, n, [Line (table_text (node_table n))], [])
             else if command \<in> {''neighbors'', ''neighbours''} then (False, n, print_neighbors clock n, [])
             else if command = ''lsdb'' then (False, n, print_database n, [])
             else if command \<in> {''topology'', ''graph''} then (False, n, print_topology n, [])
             else if command = ''dijkstra'' then (False, n, print_dijkstra n, [])
             else if command = ''check'' then (False, n, print_check n, [])
             else if command = ''info'' then (False, n, [Line (''id='' @ nd_id n @ '' mode='' @ nd_mode n)], [])
             else if command \<in> {''help'', ''?''} then (False, n, print_help, [])
             else if command \<in> {''quit'', ''exit''} then (True, n, [], [])
             else (False, n, [UnknownCommand command], []))"

text \<open>
  The loop of \<open>Run\<close> over what it receives, each input with the instant and the identifier a
  send would use. It reports whether the user asked to stop; None while it waits for more.
\<close>

datatype console_input = Typed gotime string string | InputClosed | ContextDone

fun console_loop ::
    "(gotime \<Rightarrow> string) \<Rightarrow> console_input list \<Rightarrow> node \<Rightarrow> bool option \<times> node \<times> console_line list \<times> event list" where
  "console_loop clock [] n = (None, n, [Prompt (nd_id n)], [])"
| "console_loop clock (InputClosed # rest) n = (Some False, n, [Prompt (nd_id n)], [])"
| "console_loop clock (ContextDone # rest) n = (Some False, n, [Prompt (nd_id n)], [])"
| "console_loop clock (Typed now rid line # rest) n =
     (case console_dispatch clock now rid (trim_space line) n of
        (quit, n, lines, out) \<Rightarrow>
          if quit then (Some True, n, Prompt (nd_id n) # lines, out)
          else (case console_loop clock rest n of
                  (r, n, lines', out') \<Rightarrow> (r, n, Prompt (nd_id n) # lines @ lines', out @ out')))"

definition console_run ::
    "(gotime \<Rightarrow> string) \<Rightarrow> console_input list \<Rightarrow> node \<Rightarrow> bool option \<times> node \<times> console_line list \<times> event list" where
  "console_run clock inputs n =
     (case console_loop clock inputs n of (r, n, lines, out) \<Rightarrow> (r, n, print_help @ lines, out))"

section \<open>Tables and recomputed routes\<close>

lemma dec_digits_chars: "0 \<le> n \<Longrightarrow> list_all is_digit (dec_digits n)"
  using dec_digits_ok by simp

lemma route_line_end: "route_line r \<noteq> [] \<and> last (route_line r) \<noteq> CHR 0x0A"
proof -
  have d: "digit (n mod 10) \<noteq> CHR 0x0A" for n :: int
    using byte_digit [of "n mod 10"] by (auto simp: byte_def)
  then have "fixed2 x \<noteq> [] \<and> last (fixed2 x) \<noteq> CHR 0x0A" for x by (simp add: fixed2_def Let_def)
  then show ?thesis by (simp add: route_line_def)
qed

lemma join_lf: "xs \<noteq> [] \<Longrightarrow> concat (map (\<lambda>x. x @ lf) xs) = join_with lf xs @ lf"
proof (induction xs)
  case (Cons x xs)
  then show ?case by (cases xs) (simp_all add: join_with_def)
qed simp

lemma trim_lf_once: "s \<noteq> [] \<Longrightarrow> last s \<noteq> CHR 0x0A \<Longrightarrow> trim_right_lf (s @ lf) = s"
proof -
  assume "s \<noteq> []" "last s \<noteq> CHR 0x0A"
  then show ?thesis by (cases s rule: rev_cases) (simp_all add: trim_right_lf_def lf_def)
qed

lemma last_join: "xs \<noteq> [] \<Longrightarrow> last xs \<noteq> [] \<Longrightarrow> join_with lf xs \<noteq> [] \<and> last (join_with lf xs) = last (last xs)"
proof (induction xs rule: rev_induct)
  case (snoc x xs)
  then show ?case by (cases xs) (simp_all add: join_with_def)
qed simp

text \<open>The text of a table that is not empty: the header and one line per route.\<close>

lemma table_text_lines:
  assumes "t \<noteq> []"
  shows "table_text t = join_with lf (table_header # map route_line (table_sorted t))"
proof -
  let ?xs = "table_header # map route_line (table_sorted t)"
  have "length (table_sorted t) = length t" by (simp add: table_sorted_def)
  with assms have ne: "table_sorted t \<noteq> []" by auto
  then have "last ?xs = route_line (last (table_sorted t))" by (simp add: last_map)
  then have l: "last ?xs \<noteq> []" "last (last ?xs) \<noteq> CHR 0x0A" using route_line_end by simp_all
  then have j: "join_with lf ?xs \<noteq> []" "last (join_with lf ?xs) \<noteq> CHR 0x0A" using last_join [of ?xs] by simp_all
  have "table_text t = trim_right_lf (concat (map (\<lambda>x. x @ lf) ?xs))"
    using assms by (simp add: table_text_def comp_def)
  also have "\<dots> = trim_right_lf (join_with lf ?xs @ lf)" using join_lf [of ?xs] by simp
  also have "\<dots> = join_with lf ?xs" by (rule trim_lf_once [OF j])
  finally show ?thesis .
qed

text \<open>What a command can do to the node: nothing, or what \<open>Send\<close> does.\<close>

lemma dispatch_effect:
  assumes "console_dispatch clock now rid line n = (quit, n', lines, out)"
  shows "(n' = n \<and> out = []) \<or> (\<exists>e dest text. node_send now rid dest text n = ((e, n'), out))"
  using assms
  by (auto simp: console_dispatch_def console_send_def Let_def split: if_splits prod.splits)

lemma dispatch_reaches:
  "node_reaches n \<Longrightarrow> console_dispatch clock now rid line n = (quit, n', lines, out) \<Longrightarrow> node_reaches n'"
  using dispatch_effect step_send node_next by metis

lemma loop_reaches: "node_reaches n \<Longrightarrow> node_reaches (fst (snd (console_loop clock inputs n)))"
proof (induction clock inputs n rule: console_loop.induct)
  case (4 clock now rid line rest n)
  then show ?case using dispatch_reaches [OF 4(2)] by (auto split: prod.split)
qed simp_all

text \<open>The lines that ask to stop: \<open>quit\<close> or \<open>exit\<close> as the first word.\<close>

definition asks_to_stop :: "string \<Rightarrow> bool" where
  "asks_to_stop line \<longleftrightarrow> fst (str_cut (CHR '' '') (trim_space line)) \<in> {''quit'', ''exit''}"

lemma dispatch_quit: "fst (console_dispatch clock now rid (trim_space line) n) \<longleftrightarrow> asks_to_stop line"
proof -
  obtain command rest found where c: "str_cut (CHR '' '') (trim_space line) = (command, rest, found)" by (metis prod.exhaust)
  then show ?thesis by (cases "trim_space line = []") (auto simp: console_dispatch_def asks_to_stop_def Let_def)
qed

section \<open>Properties\<close>

text \<open>
  C36: the command \<open>dijkstra\<close> shows what \<open>table\<close> shows. In every reachable state of a node that
  computes routes, the rows recomputed from the topology on display are the rows of the table
  the node forwards by, one per destination and in the same order; only the headers differ.
\<close>

theorem console_dijkstra_matches:
  assumes "node_reaches n" and "\<forall>s. nd_alg n \<noteq> IsFlooding s"
  shows "(if node_table n = []
     then table_text (node_table n) = ''(empty routing table)'' \<and> print_dijkstra n = [Line no_routes_text]
     else \<exists>rows. length rows = length (node_table n) \<and>
       table_text (node_table n) = join_with lf (table_header # rows) \<and>
       print_dijkstra n = Line dijkstra_header # map Line rows)"
proof (cases "node_table n = []")
  case True
  then show ?thesis using table_recomputed [OF node_reaches_inv [OF assms(1)] assms(2)]
    by (simp add: print_dijkstra_def table_text_def)
next
  case False
  let ?rows = "map route_line (table_sorted (node_table n))"
  have "print_dijkstra n = Line dijkstra_header # map Line ?rows"
    using table_recomputed [OF node_reaches_inv [OF assms(1)] assms(2)] False by (simp add: print_dijkstra_def)
  then show ?thesis using False table_text_lines [OF False]
    by (simp add: table_sorted_def exI [of _ ?rows])
qed

theorem console_dijkstra_matches_witness:
  "print_dijkstra (sample_node (IsLsr new_lsr) ''lsr'') = [Line no_routes_text]"
proof -
  have "node_table (sample_node (IsLsr new_lsr) ''lsr'') = []" by code_simp
  then show ?thesis using console_dijkstra_matches [OF sample_lsr_reached] by (simp add: sample_node_def)
qed

end
