(* ===== verification/Cmd_Node.thy ===== *)
theory Cmd_Node
  imports Cli_Console
begin

text \<open>
  cmd/node/main.go: from the flags and the files to a running node, and the console that is
  attached again when its input closes. The flag package, the file system, the listener and the
  terminal are arguments: the values of the flags, the contents of the files, whether the
  address can be bound, and what the terminal does when it is reopened.
\<close>

section \<open>Starting\<close>

record flags =
  fl_id :: string
  fl_mode :: string
  fl_topo :: string
  fl_names :: string
  fl_listen :: string
  fl_v :: bool

text \<open>The flags when none is given.\<close>

definition default_flags :: flags where
  "default_flags =
     \<lparr>fl_id = [], fl_mode = ''lsr'', fl_topo = ''configs/topo-default.json'',
      fl_names = ''configs/names-default.json'', fl_listen = [], fl_v = False\<rparr>"

datatype run_error =
    MissingId
  | BadMode node_error
  | BadTopology config_error
  | BadNames config_error
  | BadNode node_error
  | CannotListen

text \<open>\<open>run\<close> up to the console: the files are read in this order, the node is built, then started.\<close>

definition boot :: "flags \<Rightarrow> (string \<Rightarrow> string option) \<Rightarrow> bool \<Rightarrow> run_error + node" where
  "boot fl files listens =
     (if fl_id fl = [] then Inl MissingId
      else case parse_mode (fl_mode fl) of
        Inl e \<Rightarrow> Inl (BadMode e)
      | Inr mode \<Rightarrow>
          (case load_topology (files (fl_topo fl)) of
             Inl e \<Rightarrow> Inl (BadTopology e)
           | Inr topo \<Rightarrow>
               (case load_names (files (fl_names fl)) of
                  Inl e \<Rightarrow> Inl (BadNames e)
                | Inr names \<Rightarrow>
                    (case new_node \<lparr>o_id = fl_id fl, o_mode = mode, o_topology = topo, o_names = names,
                                    o_listen = fl_listen fl, o_verbose = fl_v fl\<rparr> of
                       Inl e \<Rightarrow> Inl (BadNode e)
                     | Inr n \<Rightarrow> if \<not> listens then Inl CannotListen else Inr (node_start n)))))"

section \<open>The console and its terminal\<close>

text \<open>
  \<open>reopenTerminal\<close>: whether the console can be attached again, from whether its input can be
  examined, is a character device, and opens.
\<close>

definition reopen_terminal :: "bool \<Rightarrow> bool \<Rightarrow> bool \<Rightarrow> bool" where
  "reopen_terminal stat_ok char_device open_ok \<longleftrightarrow> stat_ok \<and> char_device \<and> open_ok"

text \<open>
  One attachment: what the console receives, whether it can be attached again after it, and
  whether the context is done afterwards: by the end of the delay before the next attachment, or
  at any time at all when there is none.
\<close>

record session =
  se_inputs :: "console_input list"
  se_reopens :: bool
  se_cancelled :: bool

definition session_done :: "session \<Rightarrow> bool" where
  "session_done se \<longleftrightarrow> se_cancelled se \<or> ContextDone \<in> set (se_inputs se)"

datatype stop_reason = UserAsked | Signalled

text \<open>
  \<open>serveConsole\<close>, given whether the context is done when the loop begins a turn. A session ends when
  the user asks, and the node stops. When its input closes, the terminal is opened again, unless
  the context is done by then; and when there is nothing to open again, it waits for the
  context to be done. None is a console still served, or a wait that does not end.
\<close>

fun serve_console :: "(gotime \<Rightarrow> string) \<Rightarrow> bool \<Rightarrow> session list \<Rightarrow> node \<Rightarrow> stop_reason option \<times> node" where
  "serve_console clock True ses n = (Some Signalled, n)"
| "serve_console clock False [] n = (None, n)"
| "serve_console clock False (se # ses) n =
     (case console_run clock (se_inputs se) n of
        (r, n, lines, out) \<Rightarrow>
          (case r of
             None \<Rightarrow> (None, n)
           | Some quit \<Rightarrow>
               if quit then (Some UserAsked, n)
               else if \<not> se_reopens se then (if session_done se then Some Signalled else None, n)
               else serve_console clock (session_done se) ses n))"

section \<open>Properties\<close>

lemma loop_stops:
  "fst (console_loop clock inputs n) = Some True \<Longrightarrow> \<exists>now rid line. Typed now rid line \<in> set inputs \<and> asks_to_stop line"
proof (induction clock inputs n rule: console_loop.induct)
  case (4 clock now rid line rest n)
  obtain quit m lines out where d: "console_dispatch clock now rid (trim_space line) n = (quit, m, lines, out)"
    by (metis prod.exhaust)
  show ?case
  proof (cases quit)
    case True
    then have "asks_to_stop line" using dispatch_quit [of clock now rid line n] d by simp
    then show ?thesis by auto
  next
    case False
    then have "fst (console_loop clock rest m) = Some True" using 4(2) d by (auto split: prod.splits)
    then have "\<exists>now rid line. Typed now rid line \<in> set rest \<and> asks_to_stop line" using 4(1) d False by simp
    then show ?thesis by auto
  qed
qed simp_all

definition somebody_asked :: "session list \<Rightarrow> bool" where
  "somebody_asked ses \<longleftrightarrow> (\<exists>se \<in> set ses. \<exists>now rid line. Typed now rid line \<in> set (se_inputs se) \<and> asks_to_stop line)"

lemma serve_console_facts:
  "serve_console clock over ses n = (r, n') \<Longrightarrow> node_reaches n \<Longrightarrow> node_reaches n' \<and>
   (r = Some UserAsked \<longrightarrow> somebody_asked ses) \<and> (r = Some Signalled \<longrightarrow> over \<or> (\<exists>se \<in> set ses. session_done se))"
proof (induction clock over ses n rule: serve_console.induct)
  case (3 clock se ses n)
  obtain q m lines out where c: "console_loop clock (se_inputs se) n = (q, m, lines, out)" by (metis prod.exhaust)
  have m: "node_reaches m" using loop_reaches [OF 3(3), of clock "se_inputs se"] c by simp
  show ?case
    using 3(1,2) c m loop_stops [of clock "se_inputs se" n]
    by (auto simp: console_run_def somebody_asked_def split: option.splits if_splits)
qed auto

text \<open>Input that ends with nothing to attach to: the node runs on until the context is done.\<close>

lemma end_of_input:
  "serve_console clock False [\<lparr>se_inputs = [InputClosed], se_reopens = False, se_cancelled = c\<rparr>] n =
     (if c then Some Signalled else None, n)"
  by (simp add: console_run_def session_done_def)

lemma boot_reaches: "boot fl files listens = Inr n \<Longrightarrow> node_reaches n \<and> nd_id n = fl_id fl \<and> fl_id fl \<noteq> []"
proof -
  assume b: "boot fl files listens = Inr n"
  then obtain mode topo names m where m: "load_topology (files (fl_topo fl)) = Inr topo" "n = node_start m"
      "new_node \<lparr>o_id = fl_id fl, o_mode = mode, o_topology = topo, o_names = names, o_listen = fl_listen fl,
         o_verbose = fl_v fl\<rparr> = Inr m" and ne: "fl_id fl \<noteq> []"
    by (auto simp: boot_def split: if_splits sum.splits)
  have "topology_ok topo" using load_topology_ok [OF m(1)] by simp
  then have "node_reaches n" using node_new [OF _ m(3)] m(2) by simp
  moreover have "nd_id n = fl_id fl"
    using m(3) by (auto simp: m(2) node_start_def new_node_def Let_def split: option.splits)
  ultimately show ?thesis using ne by simp
qed

text \<open>
  C37: a router stops only when it is told to. Whatever the files hold, a node that starts is one
  all invariants of the running node hold for, and remains one through every console session.
  The console returns only if somebody typed \<open>quit\<close> or \<open>exit\<close>, or the context was done (the process
  was signalled). The end of its input does neither: without a request and without a signal it
  does not return, however often its input closes, whether or not there is a terminal to attach
  to again; and with none, it returns exactly when the context is done.
\<close>

theorem stops_only_when_asked:
  assumes "boot fl files listens = Inr n" and "serve_console clock over ses n = (r, n')"
  shows "node_reaches n \<and> nd_id n = fl_id fl \<and> fl_id fl \<noteq> [] \<and> node_reaches n' \<and>
    (r = Some UserAsked \<longrightarrow> somebody_asked ses) \<and>
    (r = Some Signalled \<longrightarrow> over \<or> (\<exists>se \<in> set ses. session_done se)) \<and>
    (\<not> somebody_asked ses \<and> \<not> over \<and> (\<forall>se \<in> set ses. \<not> session_done se) \<longrightarrow> r = None) \<and>
    serve_console clock False [\<lparr>se_inputs = [InputClosed], se_reopens = False, se_cancelled = c\<rparr>] n' =
      (if c then Some Signalled else None, n')"
proof -
  have n: "node_reaches n \<and> nd_id n = fl_id fl \<and> fl_id fl \<noteq> []" by (rule boot_reaches [OF assms(1)])
  then have f: "node_reaches n' \<and> (r = Some UserAsked \<longrightarrow> somebody_asked ses) \<and>
      (r = Some Signalled \<longrightarrow> over \<or> (\<exists>se \<in> set ses. session_done se))"
    using serve_console_facts [OF assms(2)] by blast
  then have "r = None" if "\<not> somebody_asked ses" "\<not> over" "\<forall>se \<in> set ses. \<not> session_done se"
    using that by (cases r) (auto intro: stop_reason.exhaust)
  with n f end_of_input show ?thesis by blast
qed

text \<open>The witness: a node booted from two small files, whose input closes twice, the second time with no terminal to attach to again.\<close>

definition sample_files :: "string \<Rightarrow> string option" where
  "sample_files path =
     (if path = ''t'' then Some sample_topology_file
      else if path = ''n'' then Some
        (let q = quoted in ''{'' @ q ''config'' @ '':{'' @ q ''A'' @ '':'' @ q ''10.0.0.1:5000'' @ '','' @
           q ''B'' @ '':'' @ q ''10.0.0.2:5000'' @ ''}}'')
      else None)"

definition sample_flags :: flags where
  "sample_flags = default_flags\<lparr>fl_id := ''A'', fl_topo := ''t'', fl_names := ''n''\<rparr>"

theorem stops_only_when_asked_witness:
  "\<exists>n. boot sample_flags sample_files True = Inr n \<and>
     fst (serve_console (\<lambda>_. []) False
       [\<lparr>se_inputs = [Typed second ''0a'' ''table'', InputClosed], se_reopens = True, se_cancelled = False\<rparr>,
        \<lparr>se_inputs = [InputClosed], se_reopens = False, se_cancelled = False\<rparr>] n) = None"
proof -
  let ?ses = "[\<lparr>se_inputs = [Typed second ''0a'' ''table'', InputClosed], se_reopens = True, se_cancelled = False\<rparr>,
        \<lparr>se_inputs = [InputClosed], se_reopens = False, se_cancelled = False\<rparr>]"
  have "case boot sample_flags sample_files True of Inr n \<Rightarrow> True | Inl e \<Rightarrow> False" by code_simp
  then obtain n where n: "boot sample_flags sample_files True = Inr n" by (auto split: sum.splits)
  have "\<not> asks_to_stop ''table''" by code_simp
  then have "\<not> somebody_asked ?ses" "\<forall>se \<in> set ?ses. \<not> session_done se" by (auto simp: somebody_asked_def session_done_def)
  with stops_only_when_asked [OF n prod.collapse [symmetric], of "\<lambda>_. []" False ?ses] n show ?thesis by blast
qed

end
