(* ===== verification/Spec2Isabelle.thy ===== *)
theory Spec2Isabelle
  imports Go_Fuel Net_Converge Net_Exit Node_Runs Lsr_Relay Alg_Race Cmd_Node
begin

text \<open>
  A verification development of the routing laboratory under src/: a router, written in Go, that
  learns the costs of its links, computes routes in one of three modes and forwards messages
  to the other routers of its network.

  \<^bold>\<open>The program.\<close> A process (cmd/node/main.go) reads a topology and a name table
  (internal/config), builds a node (internal/node) and serves a console (internal/cli). The node
  has a discovery plane, which probes its neighbours with hellos, measures the cost of a link
  from the echo and declares silent neighbours down; a forwarding plane, which takes packets
  from an inbox and delivers, answers, learns from or relays them; and one of three routing
  algorithms (internal/routing): flooding, shortest paths over the configured topology, and
  link state. Discovery reports link events to the algorithm; the forwarding plane asks it for
  next hops; the algorithm sends announcements through the node. Packets (internal/protocol) are
  JSON objects, one per line, on TCP connections (internal/transport).

  \<^bold>\<open>How it is modelled.\<close> Each operation of the code is a function from the state before to the state
  after, with what it emits as a list of events in program order: packets sent and lines
  written to the console. Errors and early returns are values of sums and options. What comes
  from outside is an argument: the bytes of files and lines, the instant an operation runs at,
  random identifiers, what the network does in a dial or a write, what the user types. A
  goroutine is a source of steps: \<open>node_step\<close>, \<open>lsr_step\<close>, \<open>client_step\<close>, \<open>server_reaches\<close>,
  \<open>world_step\<close> and \<open>net_step\<close> collect them, so an interleaving is a sequence of steps, and
  what is shown of the reachable states holds for every interleaving of whole operations. Two
  theories split an operation where the code gives up its lock in the middle.

  \<^bold>\<open>The language.\<close> \<open>Go_Base\<close> has maps as lists of entries with distinct keys, 64-bit integers as
  words, strings as lists of bytes, instants as nanoseconds; \<open>Go_Float\<close> has IEEE doubles with
  rounding, and \<open>Float_Error\<close> their distance from the numbers meant; \<open>Go_Heap\<close> is container/heap;
  \<open>Go_Text\<close>, \<open>Go_Json\<close>, \<open>Go_Parse\<close>, \<open>Go_Fuel\<close>, \<open>Go_Value\<close> are UTF-8, strconv and encoding/json as far as this
  program uses them: the printer, the parser with its depth limit, and what decoding does to the
  program's types.

  \<^bold>\<open>The components.\<close>
  \<^item> \<open>Proto_Packet\<close>, \<open>Proto_Payload\<close> (internal/protocol/packet.go, payload.go): \<open>packet\<close> is \<open>Packet\<close>;
    headers, trace, checksum, hop counter, \<open>encode\<close>, \<open>decode\<close>, the tolerant \<open>decode_lsp\<close>.
    \<open>Proto_Own\<close> and \<open>Proto_Object\<close> describe the packets this program builds and show that they
    cross the wire unchanged.
  \<^item> \<open>Cfg_Config\<close> (internal/config/config.go): \<open>load_topology\<close>, \<open>load_names\<close>, \<open>endpoint\<close>, \<open>id_for\<close>.
  \<^item> \<open>Rt_Table\<close>, \<open>Rt_Graph\<close>, \<open>Rt_Flood\<close>, \<open>Rt_Symmetry\<close> (internal/routing/table.go, graph.go, flood.go,
    seen.go, symmetry.go): the shared table, \<open>dijkstra\<close> with its queue, \<open>flood\<close>, the duplicate
    cache \<open>seen\<close>, \<open>asymmetries\<close> and the watch \<open>due\<close>. \<open>Rt_Shortest\<close> and \<open>Rt_Links\<close> prove the
    shortest-path routine, \<open>Rt_Hops\<close> what forwarding by its tables does.
  \<^item> \<open>Alg_Base\<close> (algorithm.go): the two interfaces, as the records \<open>fabric\<close> and \<open>algorithm\<close>, and the
    contract \<open>routing_algorithm\<close>; \<open>Alg_Flooding\<close>, \<open>Alg_Dijkstra\<close>, \<open>Alg_Lsr\<close> (alg_flooding.go,
    alg_dijkstra.go, alg_lsr.go) model the three algorithms and interpret it. \<open>Lsr_Behaviour\<close> states
    what the link-state algorithm promises, \<open>Lsr_Relay\<close> what it floods on over a whole run; \<open>Alg_Race\<close> splits \<open>recompute\<close> of the static mode.
  \<^item> \<open>Node_State\<close>, \<open>Node_Discovery\<close>, \<open>Node_Forward\<close> (internal/node/node.go, discovery.go): the record
    \<open>node\<close>, its construction, and every operation of the two planes. \<open>Node_Invariant\<close> proves the
    invariant of a running node; \<open>Node_Behaviour\<close>, \<open>Node_Messages\<close>, \<open>Node_Links\<close> state what a node
    promises; \<open>Node_Race\<close> splits \<open>reapDead\<close>; \<open>Node_Runs\<close> has what holds along every run of a node: the
    agreement of its two views of the links, and the infinite cost.
  \<^item> \<open>Net_Client\<close>, \<open>Net_Server\<close>, \<open>Net_Accept\<close> (internal/transport/client.go, server.go): the connection
    pool, reading a connection line by line, and the accept loop with its wait group.
  \<^item> \<open>Cli_Console\<close>, \<open>Cmd_Node\<close> (internal/cli/console.go, cmd/node/main.go): the commands with the text
    they print, booting, and the console sessions.
  \<^item> Networks: \<open>Net_Announce\<close> takes an announcement from one node to another; \<open>Net_Traffic\<close>,
    \<open>Net_Closed\<close> and \<open>Net_World\<close> describe any number of nodes that exchange lines which may be
    lost, repeated or reordered; \<open>Net_Journey\<close> follows a routed message to its destination;
    \<open>Net_Wave\<close> is flooding in the abstract; \<open>Net_Flood\<close> follows the copies of a message among flooding
    nodes, \<open>Net_Spread\<close> the copies of an announcement among link-state nodes, and \<open>Net_Converge\<close> a round in
    which all of them announce themselves at once;
    \<open>Net_Shutdown\<close> is about processes that stop while connected to each other, with the signals that
    cancel or kill them, and \<open>Net_Exit\<close> about one that stops while the others run on, in fair runs.

  \<^bold>\<open>The lemmas.\<close> The invariants: the table of every reachable link-state or static node is the
  shortest-path table of the topology it shows, discovery and algorithm agree on the links, no
  cost is a NaN, the inbox is bounded, the pool accounts for every connection, the server's count
  for every goroutine. The functional lemmas give each operation on each of its branches, errors
  included. The refinements replace the duplicate cache by a set, the asymmetry watch by one
  automaton per link, and hop-by-hop forwarding by a walk in one graph. Round trips cover
  packets, link-state payloads, names and the framing of a connection. A flood ends after at most as
  many copies as there are live links, and reaches whatever they reach; a round of announcements
  ends, and then all tables are the shortest-path tables of one graph, the links that are up; a process
  that stops alone exits in every run fair to it. \<open>Net_World\<close> shows that in a
  network of this program's nodes no packet is refused, and that every database entry is what
  its origin once announced. The safety lemmas bound duplicates, relays, warnings and send attempts.

  \<^bold>\<open>The interfaces.\<close> \<open>routing_algorithm\<close> (what a node expects of an algorithm) is interpreted on the
  three algorithms; \<open>dup_filter\<close> on the duplicate cache; \<open>address_book\<close> on the name table and on the
  node; \<open>heap_order\<close>, which gives the contract \<open>prio_queue\<close>, on the queue of \<open>dijkstra\<close>; and
  \<open>extension_order\<close> (what the shortest-path argument needs of costs) on doubles; \<open>flood_wave\<close> (what makes
  a flood end and arrive) on the messages of flooding nodes and on each announcement of a round.

  \<^bold>\<open>Bounds and fuel.\<close> No operation of the model needs fuel except the reading of JSON, whose fuel is
  twice the length of the text plus two; \<open>Go_Fuel\<close> shows that more changes nothing. The code's own
  bounds are modelled as they are: 256 places in the inbox, lines below 1 MiB, 16 hops, 60 s of memory for messages, 30 s for announcements.
  \<open>follow\<close>, which iterates next hops, is given as many steps as the graph has nodes, enough
  because the distance shrinks at each; \<open>journey\<close> takes one instant per hop. Exact sums of costs
  are claimed for whole numbers whose sum stays below \<open>2 ^ 53\<close>; end-to-end delivery, floods and rounds
  for networks of at most 16 nodes, since a packet has 16 hops, while links stay as they are and for
  the 60 s a cache remembers; statements about elapsed time for instants
  below \<open>2 ^ 61\<close> ns, so that differences do not wrap around.

  \<^bold>\<open>Not modelled.\<close> Sockets: what \<open>Listen\<close>, \<open>Accept\<close>, a dial or a write does is an argument, and the two
  timeouts of client.go are part of that outcome. The parsing of flags, the terminal and the layout of log lines are
  arguments or event constructors; of signals, whether they are caught is modelled. \<open>Logf\<close>, \<open>Mode\<close> and \<open>logOutput\<close> of node.go only pass values through. The line
  that reports a failed send is left to the transport that performs the event. Interleavings
  finer than one operation are modelled in \<open>Alg_Race\<close> and \<open>Node_Race\<close> only: elsewhere \<open>reapDead\<close> with its
  notifications, \<open>recompute\<close> with the installation of its table, \<open>OnLinkUp\<close> and \<open>HandleInfo\<close> of the
  link-state mode with the announcement they send, and a \<open>Send\<close> of the client are one step each
  (\<open>client_step\<close> interleaves the parts of several sends). A dictionary of neighbours is read in the order
  of its text, where Go iterates in a random one. An operation that reads
  the clock twice reads it once here. Floating-point expressions are rounded after each
  operation, as on amd64; other processors may fuse them. The sign of a zero is not kept. Text
  that is not UTF-8 is replaced as the library does when it is printed.

  \<^bold>\<open>What modelling showed.\<close> Two processes that stop while connected to each other wait for each other
  until a further signal kills one of them (\<open>shutdown_deadlock\<close>), where one that stops alone always gets away (\<open>stops_alone\<close>); a hello handled between the two halves of \<open>reapDead\<close> leaves a live
  link unused until the next echo (\<open>reap_race\<close>); a table computed earlier may be installed later
  (\<open>recompute_race\<close>); one echo with an absurd timestamp silences a node for as
  long as its sender stays up (\<open>infinite_cost_sticks\<close>). The documentation and the code disagree on the length of a line, on the
  address \<open>*\<close> and on how long a send may block.
\<close>

end
